(* ===== verification/GM_Prelude.thy ===== *)
theory GM_Prelude
  imports
    Main
    "HOL-Library.AList"
    "HOL-Library.Sublist"
    "HOL-Library.Word"
    "HOL-Library.List_Lexorder"
    "HOL-Library.Char_ord"
begin

text \<open>
  Shared vocabulary of the gMountie development.

  \<^item> Go's machine integers: \<^verbatim>\<open>uint64\<close> and \<^verbatim>\<open>uint32\<close> are words; where the code only
    compares and subtracts signed values (offsets, instants), \<^typ>\<open>int\<close> is used and the
    64-bit range is written out.
  \<^item> Go's maps are association lists with distinct keys.  The order of the list stands for the
    iteration order of a \<^verbatim>\<open>range\<close> loop, which Go leaves unspecified: a theorem that holds for every
    such list holds for every iteration order.
  \<^item> Slash-separated relative paths are strings; the empty string is the volume root.  The
    containment order on them is an interface (locale \<^verbatim>\<open>containment\<close>) that the delegation tables of
    the server and of the client use.
\<close>

section \<open>Names for the model's types\<close>

type_synonym u64 = "64 word"
type_synonym u32 = "32 word"
type_synonym path = string
type_synonym ('k, 'v) gomap = "('k \<times> 'v) list"

abbreviation gm_get :: "('k, 'v) gomap \<Rightarrow> 'k \<Rightarrow> 'v option" where
  "gm_get \<equiv> map_of"

abbreviation gm_put :: "'k \<Rightarrow> 'v \<Rightarrow> ('k, 'v) gomap \<Rightarrow> ('k, 'v) gomap" where
  "gm_put \<equiv> AList.update"

abbreviation gm_del :: "'k \<Rightarrow> ('k, 'v) gomap \<Rightarrow> ('k, 'v) gomap" where
  "gm_del \<equiv> AList.delete"

abbreviation gm_wf :: "('k, 'v) gomap \<Rightarrow> bool" where
  "gm_wf m \<equiv> distinct (map fst m)"

named_theorems gomap_simps \<open>what a lookup returns after an update of a Go map\<close>
named_theorems path_simps \<open>facts on the containment of slash-separated paths\<close>

lemmas gomap_basic [gomap_simps] =
  update_conv' delete_conv'

lemma gm_wf_put [simp, intro]: "gm_wf m \<Longrightarrow> gm_wf (gm_put k v m)"
  by (simp add: distinct_update)

lemma gm_wf_del [simp, intro]: "gm_wf m \<Longrightarrow> gm_wf (gm_del k m)"
  by (simp add: distinct_delete)

lemma gm_get_put: "gm_get (gm_put k v m) k' = (if k' = k then Some v else gm_get m k')"
  by (simp add: gomap_simps)

lemma gm_get_del: "gm_get (gm_del k m) k' = (if k' = k then None else gm_get m k')"
  by (simp add: gomap_simps)

lemma gm_keys_put: "fst ` set (gm_put k v m) = insert k (fst ` set m)"
  by (simp add: dom_update)

lemma gm_length_put:
  "length (gm_put k v m) = (if k \<in> fst ` set m then length m else Suc (length m))"
  by (induction m) auto

lemma gm_length_del:
  "gm_wf m \<Longrightarrow> k \<in> fst ` set m \<Longrightarrow> Suc (length (gm_del k m)) = length m"
proof (induction m)
  case (Cons p m)
  then show ?case
    by (cases "fst p = k") (auto simp: AList.delete_eq delete_id[unfolded AList.delete_eq])
qed simp

lemma gm_length_del_le: "length (gm_del k m) \<le> length m"
  by (rule length_delete_le)

lemma gm_get_filter:
  "gm_wf m \<Longrightarrow> gm_get (filter P m) k =
     (case gm_get m k of None \<Rightarrow> None | Some v \<Rightarrow> if P (k, v) then Some v else None)"
proof (induction m)
  case (Cons p m)
  then show ?case
    by (cases p) (auto split: option.splits dest: map_of_SomeD simp: map_of_eq_None_iff image_iff)
qed simp

lemma gm_wf_filter [simp, intro]: "gm_wf m \<Longrightarrow> gm_wf (filter P m)"
  by (simp add: distinct_map_filter)

section \<open>Signed 64-bit arithmetic\<close>

text \<open>An \<^verbatim>\<open>int64\<close> result: the mathematical value reduced to the two's complement range.\<close>

definition wrap64 :: "int \<Rightarrow> int" where
  "wrap64 x = (x + 2 ^ 63) mod 2 ^ 64 - 2 ^ 63"

lemma wrap64_id [simp]: "- (2 ^ 63) \<le> x \<Longrightarrow> x < 2 ^ 63 \<Longrightarrow> wrap64 x = x"
  by (simp add: wrap64_def)

section \<open>Paths and containment\<close>

text \<open>\<^verbatim>\<open>strings.HasPrefix(b, a+"/")\<close>: \<open>b\<close> lies strictly below the directory \<open>a\<close>.\<close>

definition strictly_below :: "path \<Rightarrow> path \<Rightarrow> bool" where
  "strictly_below a b \<longleftrightarrow> prefix (a @ ''/'') b"

lemma strictly_below_length: "strictly_below a b \<Longrightarrow> length a < length b"
  by (auto simp: strictly_below_def prefix_def)

lemma strictly_below_irrefl [simp]: "\<not> strictly_below a a"
  using strictly_below_length by blast

lemma strictly_below_trans:
  "strictly_below a b \<Longrightarrow> strictly_below b c \<Longrightarrow> strictly_below a c"
  by (auto simp: strictly_below_def prefix_def)

lemma strictly_below_asym: "strictly_below a b \<Longrightarrow> \<not> strictly_below b a"
  using strictly_below_irrefl strictly_below_trans by blast

lemma strictly_below_chain:
  assumes "strictly_below a p" and "strictly_below b p"
  shows "a = b \<or> strictly_below a b \<or> strictly_below b a"
proof -
  have "prefix (a @ ''/'') (b @ ''/'') \<or> prefix (b @ ''/'') (a @ ''/'')"
    using assms prefix_same_cases unfolding strictly_below_def by blast
  then show ?thesis
    by (auto simp: strictly_below_def)
qed

text \<open>
  The containment order both delegation tables rely on: a partial order in which the roots that
  cover one path form a chain.
\<close>

locale containment =
  fixes covers :: "'p \<Rightarrow> 'p \<Rightarrow> bool"
  assumes covers_refl: "covers a a"
    and covers_trans: "covers a b \<Longrightarrow> covers b c \<Longrightarrow> covers a c"
    and covers_antisym: "covers a b \<Longrightarrow> covers b a \<Longrightarrow> a = b"
    and covers_chain: "covers a p \<Longrightarrow> covers b p \<Longrightarrow> covers a b \<or> covers b a"
begin

lemma most_specific_exists:
  assumes "finite R" and "r \<in> R" and "covers r p"
  shows "\<exists>m\<in>R. covers m p \<and> (\<forall>x\<in>R. covers x p \<longrightarrow> covers x m)"
  using assms
proof (induction R arbitrary: r rule: finite_induct)
  case (insert y R)
  show ?case
  proof (cases "\<exists>x\<in>R. covers x p")
    case True
    then obtain m where m: "m \<in> R" "covers m p" "\<forall>x\<in>R. covers x p \<longrightarrow> covers x m"
      using insert.IH by blast
    show ?thesis
    proof (cases "covers y p \<and> covers m y")
      case True
      then have "\<forall>x\<in>insert y R. covers x p \<longrightarrow> covers x y"
        using m covers_trans covers_refl by blast
      then show ?thesis using True by blast
    next
      case False
      then have "\<forall>x\<in>insert y R. covers x p \<longrightarrow> covers x m"
        using m covers_chain by blast
      then show ?thesis using m by blast
    qed
  next
    case False
    then show ?thesis using insert.prems covers_refl by blast
  qed
qed simp

lemma first_match_most_specific:
  assumes "sorted_wrt (\<lambda>a b. foreign a b \<longrightarrow> \<not> covers (rt a) (rt b)) es"
    and "find (\<lambda>e. covers (rt e) p) es = Some e"
    and "e' \<in> set es" and "covers (rt e') p" and "foreign e e'"
  shows "covers (rt e') (rt e)"
  using assms
proof (induction es)
  case (Cons x es)
  show ?case
  proof (cases "covers (rt x) p")
    case True
    then have "x = e" using Cons.prems by simp
    then have "e' = e \<or> \<not> covers (rt e) (rt e')" using Cons.prems by auto
    then show ?thesis using True \<open>x = e\<close> Cons.prems(4) covers_chain covers_refl by blast
  next
    case False
    then show ?thesis using Cons by auto
  qed
qed simp

end

section \<open>Lists\<close>

lemma sorted_wrt_filter_snoc:
  "sorted_wrt P xs \<Longrightarrow> (\<And>x. x \<in> set xs \<Longrightarrow> Q x \<Longrightarrow> P x y) \<Longrightarrow> sorted_wrt P (filter Q xs @ [y])"
  by (induction xs) auto

lemma find_append: "find P (xs @ ys) = (case find P xs of None \<Rightarrow> find P ys | Some x \<Rightarrow> Some x)"
  by (induction xs) auto

lemma find_SomeD: "find P xs = Some x \<Longrightarrow> x \<in> set xs \<and> P x"
  by (induction xs) (auto split: if_splits)

end
