(* ===== verification/Deleg_Table.thy ===== *)
theory Deleg_Table
  imports GM_Prelude
begin

text \<open>
  The server's delegation table (\<^verbatim>\<open>pkg/server/delegation/table.go\<close>): the ordered list of
  granted subtree roots with their owners, and its operations.  The theorems give the denial
  and carving rules of \<open>grant\<close>, the order invariant the first-match lookup rests on, and that
  \<open>ownerOf\<close> names the owner of the most specific root covering a path.
\<close>

section \<open>Data and operations\<close>

(* src/pkg/server/delegation/table.go:12-18 contains *)
definition contains :: "path \<Rightarrow> path \<Rightarrow> bool" where
  "contains a b \<longleftrightarrow> (if a = '''' then True else a = b \<or> prefix (a @ ''/'') b)"

(* src/pkg/server/delegation/table.go:20-27 entry *)
record entry =
  e_owner :: string
  e_root :: path
  e_principal :: string
  e_volume :: string
  e_epoch :: string
  e_gen :: u64

(* src/pkg/server/delegation/table.go:29-39 delegationTable *)
type_synonym delegationTable = "entry list"

(* src/pkg/server/delegation/table.go:39-39 newDelegationTable *)
definition newDelegationTable :: delegationTable where
  "newDelegationTable = []"

(* src/pkg/server/delegation/table.go:41-42 size *)
definition table_size :: "delegationTable \<Rightarrow> nat" where
  "table_size t = length t"

(* src/pkg/server/delegation/table.go:44-52 ownerOf *)
fun ownerOf :: "delegationTable \<Rightarrow> path \<Rightarrow> (string \<times> path) option" where
  "ownerOf [] p = None"
| "ownerOf (e # t) p = (if contains (e_root e) p then Some (e_owner e, e_root e) else ownerOf t p)"

(* src/pkg/server/delegation/table.go:63-79 grant *)
fun grant_scan :: "string \<Rightarrow> path \<Rightarrow> delegationTable \<Rightarrow> (entry list \<times> path list) option" where
  "grant_scan owner root [] = Some ([], [])"
| "grant_scan owner root (e # t) =
    (if e_owner e = owner \<and> contains root (e_root e) then grant_scan owner root t
     else if e_owner e \<noteq> owner \<and> contains (e_root e) root then None
     else if e_owner e \<noteq> owner \<and> contains root (e_root e) then
       map_option (\<lambda>(kept, excluded). (e # kept, e_root e # excluded)) (grant_scan owner root t)
     else map_option (\<lambda>(kept, excluded). (e # kept, excluded)) (grant_scan owner root t))"

(* src/pkg/server/delegation/table.go:54-84 grant *)
definition grant ::
  "string \<Rightarrow> path \<Rightarrow> string \<Rightarrow> string \<Rightarrow> string \<Rightarrow> u64 \<Rightarrow> delegationTable
    \<Rightarrow> (path \<times> path list) option \<times> delegationTable" where
  "grant owner root prin vol epoch gen t =
    (case grant_scan owner root t of
       None \<Rightarrow> (None, t)
     | Some (kept, excluded) \<Rightarrow>
         (Some (root, sort excluded),
          kept @ [\<lparr>e_owner = owner, e_root = root, e_principal = prin, e_volume = vol,
                   e_epoch = epoch, e_gen = gen\<rparr>]))"

(* src/pkg/server/delegation/table.go:86-95 entryForRoot *)
definition entryForRoot :: "delegationTable \<Rightarrow> path \<Rightarrow> entry option" where
  "entryForRoot t root = find (\<lambda>e. e_root e = root) t"

(* src/pkg/server/delegation/table.go:97-106 release *)
definition release :: "path \<Rightarrow> delegationTable \<Rightarrow> delegationTable" where
  "release root t = filter (\<lambda>e. e_root e \<noteq> root) t"

(* src/pkg/server/delegation/table.go:108-122 drainOwner *)
definition drainOwner :: "string \<Rightarrow> delegationTable \<Rightarrow> entry list \<times> delegationTable" where
  "drainOwner owner t = (filter (\<lambda>e. e_owner e = owner) t, filter (\<lambda>e. e_owner e \<noteq> owner) t)"

(* src/pkg/server/delegation/table.go:124-127 releaseOwner *)
definition releaseOwner :: "string \<Rightarrow> delegationTable \<Rightarrow> delegationTable" where
  "releaseOwner owner t = snd (drainOwner owner t)"

section \<open>Containment of roots\<close>

lemma contains_alt: "contains a b \<longleftrightarrow> a = '''' \<or> a = b \<or> strictly_below a b"
  by (auto simp: contains_def strictly_below_def)

interpretation srv: containment contains
proof (unfold_locales, goal_cases)
  case (1 a) then show ?case by (simp add: contains_alt)
next
  case (2 a b c) then show ?case
    by (auto simp: contains_alt strictly_below_def prefix_def)
next
  case (3 a b) then show ?case
    by (auto simp: contains_alt dest: strictly_below_asym)
       (auto simp: strictly_below_def)
next
  case (4 a p b) then show ?case
    using strictly_below_chain by (auto simp: contains_alt)
qed

section \<open>The order invariant\<close>

text \<open>
  A foreign root never stands before a root it contains, and an owner never has a root before a
  wider root of the same owner.
\<close>

definition table_order :: "delegationTable \<Rightarrow> bool" where
  "table_order t \<longleftrightarrow>
     sorted_wrt (\<lambda>a b. e_owner a \<noteq> e_owner b \<longrightarrow> \<not> contains (e_root a) (e_root b)) t"

definition table_absorbed :: "delegationTable \<Rightarrow> bool" where
  "table_absorbed t \<longleftrightarrow>
     sorted_wrt (\<lambda>a b. e_owner a = e_owner b \<longrightarrow> \<not> contains (e_root b) (e_root a)) t"

definition table_inv :: "delegationTable \<Rightarrow> bool" where
  "table_inv t \<longleftrightarrow> table_order t \<and> table_absorbed t"

lemmas table_inv_defs = table_inv_def table_order_def table_absorbed_def

lemma grant_scan_eq:
  "grant_scan owner root t =
    (if \<exists>e\<in>set t. e_owner e \<noteq> owner \<and> contains (e_root e) root then None
     else Some (filter (\<lambda>e. \<not> (e_owner e = owner \<and> contains root (e_root e))) t,
                map e_root (filter (\<lambda>e. e_owner e \<noteq> owner \<and> contains root (e_root e)) t)))"
  by (induction t) auto

lemma grant_eq:
  "grant owner root pr vo ep g t =
    (if \<exists>e\<in>set t. e_owner e \<noteq> owner \<and> contains (e_root e) root then (None, t)
     else (Some (root, sort (map e_root (filter (\<lambda>e. e_owner e \<noteq> owner \<and> contains root (e_root e)) t))),
           filter (\<lambda>e. \<not> (e_owner e = owner \<and> contains root (e_root e))) t @
           [\<lparr>e_owner = owner, e_root = root, e_principal = pr, e_volume = vo, e_epoch = ep, e_gen = g\<rparr>]))"
  unfolding grant_def grant_scan_eq by simp

lemma table_inv_new: "table_inv newDelegationTable"
  by (simp add: table_inv_defs newDelegationTable_def)

lemma table_inv_filter: "table_inv t \<Longrightarrow> table_inv (filter P t)"
  by (simp add: table_inv_defs sorted_wrt_filter)

lemma table_inv_release: "table_inv t \<Longrightarrow> table_inv (release r t)"
  by (simp add: release_def table_inv_filter)

lemma table_inv_drain: "table_inv t \<Longrightarrow> table_inv (snd (drainOwner o' t))"
  by (simp add: drainOwner_def table_inv_filter)

lemma table_inv_grant:
  assumes "table_inv t"
  shows "table_inv (snd (grant owner root pr vo ep g t))"
  using assms unfolding grant_eq table_inv_defs
  by (auto intro!: sorted_wrt_filter_snoc)

lemma table_inv_distinct_roots: "table_inv t \<Longrightarrow> distinct (map e_root t)"
proof (induction t)
  case (Cons e t)
  have "e_root e \<noteq> e_root x" if "x \<in> set t" for x
    using Cons.prems that srv.covers_refl by (cases "e_owner e = e_owner x") (auto simp: table_inv_defs)
  moreover have "table_inv t" using Cons.prems by (simp add: table_inv_defs)
  ultimately show ?case using Cons.IH by auto
qed simp

lemma ownerOf_find:
  "ownerOf t p = map_option (\<lambda>e. (e_owner e, e_root e)) (find (\<lambda>e. contains (e_root e) p) t)"
  by (induction t) auto

lemma ownerOf_None_iff: "ownerOf t p = None \<longleftrightarrow> (\<forall>e\<in>set t. \<not> contains (e_root e) p)"
  by (induction t) auto

lemma ownerOf_append: "ownerOf (t @ u) p = (case ownerOf t p of None \<Rightarrow> ownerOf u p | Some x \<Rightarrow> Some x)"
  by (induction t) auto

lemma ownerOf_filter_keep:
  "(\<And>e. e \<in> set t \<Longrightarrow> contains (e_root e) p \<Longrightarrow> P e) \<Longrightarrow> ownerOf (filter P t) p = ownerOf t p"
  by (induction t) auto

lemma ownerOf_filter_foreign:
  "ownerOf t p = Some (ow, r) \<Longrightarrow> (\<And>e. e \<in> set t \<Longrightarrow> e_owner e = ow \<Longrightarrow> P e) \<Longrightarrow>
   ownerOf (filter P t) p = Some (ow, r)"
  by (induction t) (auto split: if_splits)

text \<open>The tables the server can reach: grants, releases and drains from the empty table.\<close>

inductive table_reach :: "delegationTable \<Rightarrow> bool" where
  tr_new: "table_reach newDelegationTable"
| tr_grant: "table_reach t \<Longrightarrow> table_reach (snd (grant owner root pr vo ep g t))"
| tr_release: "table_reach t \<Longrightarrow> table_reach (release root t)"
| tr_drain: "table_reach t \<Longrightarrow> table_reach (snd (drainOwner owner t))"

lemma table_reach_inv: "table_reach t \<Longrightarrow> table_inv t"
  by (induction rule: table_reach.induct)
     (simp_all add: table_inv_new table_inv_grant table_inv_release table_inv_drain)

section \<open>Properties\<close>

text \<open>In every reachable table no two entries have the same root, a root of another owner
  never stands before a root it contains, and no owner holds a root after a narrower root of
  its own.\<close>

theorem reachable_table_ordered:
  assumes "table_reach t"
  shows "distinct (map e_root t) \<and>
    (\<forall>i j. i < j \<and> j < length t \<longrightarrow>
       (e_owner (t ! i) \<noteq> e_owner (t ! j) \<longrightarrow> \<not> contains (e_root (t ! i)) (e_root (t ! j))) \<and>
       (e_owner (t ! i) = e_owner (t ! j) \<longrightarrow> \<not> contains (e_root (t ! j)) (e_root (t ! i))))"
proof -
  have inv: "table_inv t" using assms by (rule table_reach_inv)
  then show ?thesis
    using table_inv_distinct_roots[OF inv] unfolding table_inv_defs sorted_wrt_iff_nth_less
    by blast
qed

definition ex_carved_table :: delegationTable where
  "ex_carved_table =
    snd (grant ''A'' ''d'' ''pa'' ''v'' ''ea'' 1 (snd (grant ''B'' ''d/s'' ''pb'' ''v'' ''eb'' 1 newDelegationTable)))"

lemma ex_carved_reach: "table_reach ex_carved_table"
  unfolding ex_carved_table_def by (intro tr_grant tr_new)

lemma ex_carved_eval:
  "map (\<lambda>e. (e_owner e, e_root e)) ex_carved_table = [(''B'', ''d/s''), (''A'', ''d'')]"
  by (simp add: ex_carved_table_def grant_def newDelegationTable_def contains_def)

theorem reachable_table_ordered_witness:
  "distinct (map e_root ex_carved_table) \<and> length ex_carved_table = 2"
  using reachable_table_ordered[OF ex_carved_reach] arg_cong[OF ex_carved_eval, of length]
  by simp

text \<open>C14: a path covered by some delegation has an owner, and that owner is the owner of the most
  specific root covering the path, although the lookup returns the first match; a path that no
  root covers has none.\<close>

theorem ownerOf_most_specific:
  assumes "table_reach t"
  shows "case ownerOf t p of
           None \<Rightarrow> \<forall>e\<in>set t. \<not> contains (e_root e) p
         | Some (ow, r) \<Rightarrow>
             contains r p \<and> (\<exists>e\<in>set t. e_owner e = ow \<and> e_root e = r) \<and>
             (\<exists>m\<in>set t. e_owner m = ow \<and> contains (e_root m) p \<and>
                (\<forall>e\<in>set t. contains (e_root e) p \<longrightarrow> contains (e_root e) (e_root m)))"
proof (cases "find (\<lambda>e. contains (e_root e) p) t")
  case None
  then have "ownerOf t p = None" by (simp add: ownerOf_find)
  then show ?thesis using ownerOf_None_iff[of t p] by (simp split: option.split)
next
  case (Some e)
  then have e: "e \<in> set t" "contains (e_root e) p" using find_SomeD by fast+
  obtain r where r: "r \<in> e_root ` set t" "contains r p"
      "\<forall>x\<in>e_root ` set t. contains x p \<longrightarrow> contains x r"
    using srv.most_specific_exists[of "e_root ` set t" "e_root e" p] e by auto
  then obtain m where m: "m \<in> set t" "e_root m = r" by blast
  have ord: "table_order t" using assms table_reach_inv table_inv_def by blast
  have inj: "inj_on e_root (set t)"
    using table_inv_distinct_roots[OF table_reach_inv[OF assms]] by (simp add: distinct_map)
  have "e_owner e = e_owner m"
  proof (rule ccontr)
    assume neq: "e_owner e \<noteq> e_owner m"
    have "contains (e_root m) (e_root e)"
      using srv.first_match_most_specific[of "\<lambda>a b. e_owner a \<noteq> e_owner b" e_root t p e m]
        ord Some m r neq by (simp add: table_order_def)
    moreover have "contains (e_root e) (e_root m)" using r(3) m(2) e by blast
    ultimately have "e_root e = e_root m" using srv.covers_antisym by blast
    then show False using inj m e neq by (metis inj_onD)
  qed
  then show ?thesis
    using Some e m r by (auto simp: ownerOf_find)
qed

theorem ownerOf_most_specific_witness:
  "ownerOf ex_carved_table ''d/s/f'' = Some (''B'', ''d/s'') \<and>
   (\<exists>m\<in>set ex_carved_table. e_owner m = ''B'' \<and> contains (e_root m) ''d/s/f'')"
proof -
  have o: "ownerOf ex_carved_table ''d/s/f'' = Some (''B'', ''d/s'')"
    by (simp add: ex_carved_table_def grant_def newDelegationTable_def contains_def)
  show ?thesis
    using ownerOf_most_specific[OF ex_carved_reach, of "''d/s/f''"] o by auto
qed

text \<open>C15: a request for a root inside another session's root is denied and leaves the table as it
  was; every other request is granted.  The granted session then owns every path under the root
  that is in none of the excluded roots, which are, in sorted order, exactly the roots of other
  sessions inside it; paths outside the root, and paths another session owned, keep their
  owner.\<close>

theorem grant_carves_around_foreign:
  assumes "grant owner root pr vo ep g t = (res, t')"
  shows "(res = None \<longleftrightarrow> (\<exists>e\<in>set t. e_owner e \<noteq> owner \<and> contains (e_root e) root)) \<and>
    (res = None \<longrightarrow> t' = t) \<and>
    (\<forall>r ex. res = Some (r, ex) \<longrightarrow>
       r = root \<and> sorted ex \<and>
       set ex = {e_root e |e. e \<in> set t \<and> e_owner e \<noteq> owner \<and> contains root (e_root e)} \<and>
       (\<forall>p. contains root p \<and> (\<forall>x\<in>set ex. \<not> contains x p) \<longrightarrow>
            (\<exists>r'. ownerOf t' p = Some (owner, r'))) \<and>
       (\<forall>p. \<not> contains root p \<longrightarrow> ownerOf t' p = ownerOf t p) \<and>
       (\<forall>p ow r'. ownerOf t p = Some (ow, r') \<and> ow \<noteq> owner \<longrightarrow> ownerOf t' p = ownerOf t p))"
proof (cases "\<exists>e\<in>set t. e_owner e \<noteq> owner \<and> contains (e_root e) root")
  case True
  then show ?thesis using assms by (auto simp: grant_eq)
next
  case False
  define K where "K = filter (\<lambda>e. \<not> (e_owner e = owner \<and> contains root (e_root e))) t"
  define new where "new = \<lparr>e_owner = owner, e_root = root, e_principal = pr, e_volume = vo,
    e_epoch = ep, e_gen = g\<rparr>"
  define ex where "ex = sort (map e_root (filter (\<lambda>e. e_owner e \<noteq> owner \<and> contains root (e_root e)) t))"
  have r: "res = Some (root, ex)" and t': "t' = K @ [new]"
    using assms False unfolding grant_eq K_def new_def ex_def by (auto simp: Ball_def)
  have nroot: "e_root new = root" "e_owner new = owner" by (simp_all add: new_def)
  have setex: "set ex = {e_root e |e. e \<in> set t \<and> e_owner e \<noteq> owner \<and> contains root (e_root e)}"
    by (auto simp: ex_def)
  have own: "\<exists>r'. ownerOf t' p = Some (owner, r')"
    if p: "contains root p" "\<forall>x\<in>set ex. \<not> contains x p" for p
  proof (cases "ownerOf K p")
    case None
    then show ?thesis using p nroot by (simp add: t' ownerOf_append)
  next
    case (Some x)
    then obtain e where e: "e \<in> set K" "contains (e_root e) p" "x = (e_owner e, e_root e)"
      unfolding ownerOf_find using find_SomeD by fastforce
    have "contains (e_root e) root \<or> contains root (e_root e)"
      using srv.covers_chain e(2) p(1) by blast
    then have "e_owner e = owner"
      using False e(1,2) p(2) setex unfolding K_def by auto
    then show ?thesis using Some e by (simp add: t' ownerOf_append)
  qed
  have outside: "ownerOf t' p = ownerOf t p" if "\<not> contains root p" for p
  proof -
    have "ownerOf K p = ownerOf t p"
      unfolding K_def using that srv.covers_trans by (intro ownerOf_filter_keep) blast
    then show ?thesis using that nroot by (simp add: t' ownerOf_append split: option.split)
  qed
  have foreign: "ownerOf t' p = ownerOf t p" if "ownerOf t p = Some (ow, r')" "ow \<noteq> owner" for p ow r'
    using ownerOf_filter_foreign[OF that(1), of "\<lambda>e. \<not> (e_owner e = owner \<and> contains root (e_root e))"] that
    by (simp add: t' ownerOf_append K_def)
  have "sorted ex" by (simp add: ex_def)
  moreover have "\<not> (\<exists>e\<in>set t. e_owner e \<noteq> owner \<and> contains (e_root e) root)" using False .
  ultimately show ?thesis
    using setex own outside foreign unfolding r by blast
qed

theorem grant_carves_around_foreign_witness:
  "grant ''A'' ''d'' ''pa'' ''v'' ''ea'' 1 (snd (grant ''B'' ''d/s'' ''pb'' ''v'' ''eb'' 1 newDelegationTable))
     = (Some (''d'', [''d/s'']), ex_carved_table) \<and>
   ownerOf ex_carved_table ''d/s/f'' = Some (''B'', ''d/s'')"
proof -
  have g: "grant ''A'' ''d'' ''pa'' ''v'' ''ea'' 1 (snd (grant ''B'' ''d/s'' ''pb'' ''v'' ''eb'' 1 newDelegationTable))
     = (Some (''d'', [''d/s'']), ex_carved_table)"
    by (simp add: ex_carved_table_def grant_def newDelegationTable_def contains_def)
  have b: "ownerOf (snd (grant ''B'' ''d/s'' ''pb'' ''v'' ''eb'' 1 newDelegationTable)) ''d/s/f'' = Some (''B'', ''d/s'')"
    by (simp add: grant_def newDelegationTable_def contains_def)
  show ?thesis using grant_carves_around_foreign[OF g] g b by simp
qed

text \<open>The comment on \<^verbatim>\<open>delegationTable.entries\<close> says that the roots of one owner are pairwise
  non-overlapping.  \<open>grant\<close> does not keep that: a session that holds a wide root carved around a
  foreign one, and asks for that root once the foreign session has released it, holds both.\<close>

theorem same_owner_roots_can_overlap:
  "\<exists>t a b. table_reach t \<and> a \<in> set t \<and> b \<in> set t \<and> a \<noteq> b \<and> e_owner a = e_owner b \<and>
     contains (e_root a) (e_root b)"
proof -
  let ?t = "snd (grant ''A'' ''d/s'' ''pa'' ''v'' ''ea'' 2 (release ''d/s'' ex_carved_table))"
  have "table_reach ?t" using ex_carved_reach by (intro tr_grant tr_release)
  moreover have "map (\<lambda>e. (e_owner e, e_root e)) ?t = [(''A'', ''d''), (''A'', ''d/s'')]"
    by (simp add: ex_carved_table_def grant_def newDelegationTable_def contains_def release_def)
  then obtain a b where "?t = [a, b]" "e_owner a = ''A''" "e_root a = ''d''" "e_owner b = ''A''" "e_root b = ''d/s''"
    by (auto simp: map_eq_Cons_conv)
  ultimately show ?thesis
    by (intro exI[of _ ?t] exI[of _ a] exI[of _ b]) (auto simp: contains_def)
qed

text \<open>A wider grant can take a nested subtree away from the session that asks for it.  A session
  whose narrow root lies inside a foreign root is granted a root above both; its narrow root is
  absorbed, the foreign root stays carved out, and the paths of the narrow root now belong to the
  foreign session.\<close>

theorem wider_grant_can_lose_nested_root:
  "\<exists>t t' p r1 r2. table_reach t \<and> ownerOf t p = Some (''A'', r1) \<and>
     grant ''A'' ''d'' ''pa'' ''v'' ''ea'' 2 t = (Some (''d'', [''d/x'']), t') \<and>
     ownerOf t' p = Some (''B'', r2)"
proof -
  let ?t = "snd (grant ''B'' ''d/x'' ''pb'' ''v'' ''eb'' 1
    (snd (grant ''A'' ''d/x/y'' ''pa'' ''v'' ''ea'' 1 newDelegationTable)))"
  have "table_reach ?t" by (intro tr_grant tr_new)
  moreover have "ownerOf ?t ''d/x/y/f'' = Some (''A'', ''d/x/y'')"
    and "fst (grant ''A'' ''d'' ''pa'' ''v'' ''ea'' 2 ?t) = Some (''d'', [''d/x''])"
    and "ownerOf (snd (grant ''A'' ''d'' ''pa'' ''v'' ''ea'' 2 ?t)) ''d/x/y/f'' = Some (''B'', ''d/x'')"
    by (simp_all add: grant_def newDelegationTable_def contains_def)
  ultimately show ?thesis
    by (intro exI[of _ ?t] exI) (auto simp: prod_eq_iff)
qed

end
