(* ===== verification/Deleg_Cooldown.thy ===== *)
theory Deleg_Cooldown
  imports GM_Prelude
begin

text \<open>
  The cooldown table of recalled roots (\<^verbatim>\<open>pkg/server/delegation/cooldown.go\<close>).  Instants and
  durations are nanoseconds; doubling a window is 64-bit arithmetic.  The theorems give the
  window after a trip (doubled up to the maximum), the effect on the other roots and the bound on
  the number of tracked roots, whatever order Go iterates the map in.
\<close>

section \<open>Data and operations\<close>

(* src/pkg/server/delegation/cooldown.go:15-19 cooldownConfig *)
record cooldownConfig =
  cc_Base :: int
  cc_Max :: int
  cc_Cap :: int

(* src/pkg/server/delegation/cooldown.go:5-13 CooldownConfigDefault *)
definition CooldownConfigDefault :: cooldownConfig where
  "CooldownConfigDefault = \<lparr>cc_Base = 1000000000, cc_Max = 60 * 1000000000, cc_Cap = 4096\<rparr>"

(* src/pkg/server/delegation/cooldown.go:21-24 coolEntry *)
record coolEntry =
  ce_until :: int
  ce_window :: int

(* src/pkg/server/delegation/cooldown.go:26-31 cooldownTable *)
record cooldownTable =
  ct_cfg :: cooldownConfig
  ct_entries :: "(path, coolEntry) gomap"

(* src/pkg/server/delegation/cooldown.go:33-35 newCooldownTable *)
definition newCooldownTable :: "cooldownConfig \<Rightarrow> cooldownTable" where
  "newCooldownTable cfg = \<lparr>ct_cfg = cfg, ct_entries = []\<rparr>"

(* src/pkg/server/delegation/cooldown.go:37-37 len *)
definition cool_len :: "cooldownTable \<Rightarrow> int" where
  "cool_len c = int (length (ct_entries c))"

(* src/pkg/server/delegation/cooldown.go:73-80 evictOldest *)
fun oldest_scan :: "(path, coolEntry) gomap \<Rightarrow> (path \<times> int) option \<Rightarrow> (path \<times> int) option" where
  "oldest_scan [] best = best"
| "oldest_scan ((k, e) # m) best =
    (case best of
       None \<Rightarrow> oldest_scan m (Some (k, ce_until e))
     | Some (k0, oldest) \<Rightarrow>
         if ce_until e < oldest then oldest_scan m (Some (k, ce_until e))
         else oldest_scan m (Some (k0, oldest)))"

(* src/pkg/server/delegation/cooldown.go:72-84 evictOldest *)
definition evictOldest :: "cooldownTable \<Rightarrow> cooldownTable" where
  "evictOldest c =
    (case oldest_scan (ct_entries c) None of
       None \<Rightarrow> c
     | Some (k, _) \<Rightarrow> c\<lparr>ct_entries := gm_del k (ct_entries c)\<rparr>)"

(* src/pkg/server/delegation/cooldown.go:39-52 trip *)
definition trip :: "path \<Rightarrow> int \<Rightarrow> cooldownTable \<Rightarrow> cooldownTable" where
  "trip root now c =
    (let w = (case gm_get (ct_entries c) root of
                None \<Rightarrow> cc_Base (ct_cfg c)
              | Some e \<Rightarrow>
                  (let w2 = wrap64 (ce_window e * 2)
                   in if w2 > cc_Max (ct_cfg c) then cc_Max (ct_cfg c) else w2));
         c' = (if cool_len c \<ge> cc_Cap (ct_cfg c) then evictOldest c else c)
     in c'\<lparr>ct_entries := gm_put root \<lparr>ce_until = now + w, ce_window = w\<rparr> (ct_entries c')\<rparr>)"

(* src/pkg/server/delegation/cooldown.go:54-61 cooling *)
definition cooling :: "cooldownTable \<Rightarrow> path \<Rightarrow> int \<Rightarrow> bool" where
  "cooling c root now =
    (case gm_get (ct_entries c) root of None \<Rightarrow> False | Some e \<Rightarrow> now < ce_until e)"

(* src/pkg/server/delegation/cooldown.go:63-70 sweep *)
definition sweep :: "int \<Rightarrow> cooldownTable \<Rightarrow> cooldownTable" where
  "sweep now c = c\<lparr>ct_entries := filter (\<lambda>(k, e). now < ce_until e) (ct_entries c)\<rparr>"

section \<open>Invariant\<close>

definition cool_inv :: "cooldownTable \<Rightarrow> bool" where
  "cool_inv c \<longleftrightarrow> gm_wf (ct_entries c) \<and> cool_len c \<le> max 1 (cc_Cap (ct_cfg c)) \<and>
     (\<forall>(k, e) \<in> set (ct_entries c).
        ce_window e \<le> max (cc_Base (ct_cfg c)) (cc_Max (ct_cfg c)))"

lemma oldest_scan_spec:
  assumes "oldest_scan m best = Some (k, u)"
  shows "(best = Some (k, u) \<or> (\<exists>e. (k, e) \<in> set m \<and> ce_until e = u)) \<and>
     (\<forall>(k', e') \<in> set m. u \<le> ce_until e') \<and> (\<forall>k0 u0. best = Some (k0, u0) \<longrightarrow> u \<le> u0)"
  using assms
proof (induction m arbitrary: best)
  case (Cons p m)
  obtain k' e where p: "p = (k', e)" by (cases p)
  define best' where "best' = (case best of None \<Rightarrow> (k', ce_until e)
    | Some (k0, u0) \<Rightarrow> if ce_until e < u0 then (k', ce_until e) else (k0, u0))"
  have "oldest_scan m (Some best') = Some (k, u)"
    using Cons.prems by (simp add: p best'_def split: option.splits prod.splits if_splits)
  then have IH: "(Some best' = Some (k, u) \<or> (\<exists>e. (k, e) \<in> set m \<and> ce_until e = u)) \<and>
     (\<forall>(k', e') \<in> set m. u \<le> ce_until e') \<and> (\<forall>k0 u0. Some best' = Some (k0, u0) \<longrightarrow> u \<le> u0)"
    by (rule Cons.IH)
  show ?case
  proof (cases best)
    case None
    then show ?thesis using IH by (auto simp: p best'_def)
  next
    case (Some b)
    then show ?thesis
      using IH by (cases b; cases "ce_until e < snd b") (force simp: p best'_def)+
  qed
qed simp

lemma oldest_scan_None: "oldest_scan m best = None \<longleftrightarrow> m = [] \<and> best = None"
  by (induction m best rule: oldest_scan.induct) (auto split: option.splits)

lemma ct_cfg_evict [simp]: "ct_cfg (evictOldest c) = ct_cfg c"
  by (simp add: evictOldest_def split: option.splits prod.splits)

lemma evict_wf [simp]: "gm_wf (ct_entries c) \<Longrightarrow> gm_wf (ct_entries (evictOldest c))"
  by (auto simp: evictOldest_def split: option.splits prod.splits)

lemma evict_subset: "set (ct_entries (evictOldest c)) \<subseteq> set (ct_entries c)"
  by (auto simp: evictOldest_def AList.delete_eq split: option.splits prod.splits)

lemma evictOldest_spec:
  assumes wf: "gm_wf (ct_entries c)" and ne: "ct_entries c \<noteq> []"
  shows "\<exists>k e. gm_get (ct_entries c) k = Some e \<and>
     (\<forall>k' e'. gm_get (ct_entries c) k' = Some e' \<longrightarrow> ce_until e \<le> ce_until e') \<and>
     ct_entries (evictOldest c) = gm_del k (ct_entries c)"
proof -
  obtain k u where s: "oldest_scan (ct_entries c) None = Some (k, u)"
    using ne oldest_scan_None by (cases "oldest_scan (ct_entries c) None") auto
  from oldest_scan_spec[OF s] obtain e where
    e: "(k, e) \<in> set (ct_entries c)" "ce_until e = u" "\<forall>(k', e') \<in> set (ct_entries c). u \<le> ce_until e'"
    by auto
  have "gm_get (ct_entries c) k = Some e" using e(1) wf by simp
  moreover have "ct_entries (evictOldest c) = gm_del k (ct_entries c)" using s by (simp add: evictOldest_def)
  ultimately show ?thesis using e(2,3) by (fastforce dest: map_of_SomeD)
qed

lemma evict_len:
  "gm_wf (ct_entries c) \<Longrightarrow> ct_entries c \<noteq> [] \<Longrightarrow> cool_len (evictOldest c) = cool_len c - 1"
  using evictOldest_spec[of c] gm_length_del[of "ct_entries c"]
  by (force simp: cool_len_def dest: map_of_SomeD)

lemma evict_len_empty: "ct_entries c = [] \<Longrightarrow> evictOldest c = c"
  by (simp add: evictOldest_def)

lemma cool_inv_new: "cool_inv (newCooldownTable cfg)"
  by (simp add: cool_inv_def newCooldownTable_def cool_len_def)

lemma sweep_len: "cool_len (sweep now c) \<le> cool_len c"
  by (simp add: cool_len_def sweep_def)

lemma cool_inv_sweep:
  assumes "cool_inv c"
  shows "cool_inv (sweep now c)"
proof -
  have "cool_len (sweep now c) \<le> max 1 (cc_Cap (ct_cfg c))"
    using assms sweep_len[of now c] unfolding cool_inv_def by linarith
  then show ?thesis
    using assms unfolding cool_inv_def by (auto simp: sweep_def distinct_map_filter)
qed

lemma trip_len:
  assumes "gm_wf (ct_entries c)" "cool_len c \<le> max 1 (cc_Cap (ct_cfg c))"
  shows "cool_len (trip root now c) \<le> max 1 (cc_Cap (ct_cfg c))"
proof -
  define c' where "c' = (if cool_len c \<ge> cc_Cap (ct_cfg c) then evictOldest c else c)"
  have "cool_len (trip root now c) \<le> cool_len c' + 1"
    by (simp add: trip_def Let_def cool_len_def gm_length_put c'_def)
  moreover have "cool_len c' + 1 \<le> max 1 (cc_Cap (ct_cfg c))"
    using assms evict_len[OF assms(1)] evict_len_empty[of c]
    by (cases "ct_entries c = []") (auto simp: c'_def cool_len_def)
  ultimately show ?thesis by linarith
qed

definition next_window :: "path \<Rightarrow> cooldownTable \<Rightarrow> int" where
  "next_window root c =
    (case gm_get (ct_entries c) root of
       None \<Rightarrow> cc_Base (ct_cfg c)
     | Some e \<Rightarrow> min (cc_Max (ct_cfg c)) (wrap64 (ce_window e * 2)))"

lemma ct_entries_trip:
  "ct_entries (trip root now c) =
     gm_put root \<lparr>ce_until = now + next_window root c, ce_window = next_window root c\<rparr>
       (ct_entries (if cool_len c \<ge> cc_Cap (ct_cfg c) then evictOldest c else c))"
  by (simp add: trip_def next_window_def Let_def min_def not_less split: option.splits)

lemma trip_entries_subset:
  "set (ct_entries (trip root now c)) \<subseteq>
     insert (root, \<lparr>ce_until = now + next_window root c, ce_window = next_window root c\<rparr>) (set (ct_entries c))"
proof -
  have "set (gm_put k v m) \<subseteq> insert (k, v) (set m)" for k and v :: coolEntry and m
    by (induction m) auto
  then have "set (ct_entries (trip root now c)) \<subseteq>
     insert (root, \<lparr>ce_until = now + next_window root c, ce_window = next_window root c\<rparr>)
       (set (ct_entries (if cool_len c \<ge> cc_Cap (ct_cfg c) then evictOldest c else c)))"
    unfolding ct_entries_trip .
  then show ?thesis using evict_subset[of c] by (auto split: if_splits)
qed

lemma cool_inv_trip:
  assumes "cool_inv c"
  shows "cool_inv (trip root now c)"
proof -
  let ?M = "max (cc_Base (ct_cfg c)) (cc_Max (ct_cfg c))"
  have cfg: "ct_cfg (trip root now c) = ct_cfg c" by (simp add: trip_def Let_def)
  have "next_window root c \<le> ?M" by (auto simp: next_window_def split: option.splits)
  then have "\<forall>(k, e) \<in> set (ct_entries (trip root now c)). ce_window e \<le> ?M"
    using assms trip_entries_subset[of root now c] by (force simp: cool_inv_def)
  moreover have "gm_wf (ct_entries (trip root now c))"
    unfolding ct_entries_trip using assms by (auto simp: cool_inv_def intro: gm_wf_put evict_wf)
  moreover have "cool_len (trip root now c) \<le> max 1 (cc_Cap (ct_cfg c))"
    using assms by (intro trip_len) (auto simp: cool_inv_def)
  ultimately show ?thesis by (simp add: cool_inv_def cfg)
qed

inductive cool_reach :: "cooldownConfig \<Rightarrow> cooldownTable \<Rightarrow> bool" for cfg where
  cr_new: "cool_reach cfg (newCooldownTable cfg)"
| cr_trip: "cool_reach cfg c \<Longrightarrow> cool_reach cfg (trip root now c)"
| cr_sweep: "cool_reach cfg c \<Longrightarrow> cool_reach cfg (sweep now c)"

lemma cool_reach_inv: "cool_reach cfg c \<Longrightarrow> cool_inv c"
  by (induction rule: cool_reach.induct) (simp_all add: cool_inv_new cool_inv_trip cool_inv_sweep)

lemma cool_reach_cfg: "cool_reach cfg c \<Longrightarrow> ct_cfg c = cfg"
  by (induction rule: cool_reach.induct)
     (simp_all add: newCooldownTable_def trip_def sweep_def Let_def)

text \<open>With a positive base and a maximum below \<open>2 ^ 62\<close> ns (146 years) no window overflows.\<close>

lemma cool_reach_windows:
  assumes "cool_reach cfg c" and "0 < cc_Base cfg" and "cc_Base cfg \<le> cc_Max cfg" and "cc_Max cfg < 2 ^ 62"
  shows "\<forall>(k, e) \<in> set (ct_entries c). 0 < ce_window e \<and> ce_window e \<le> cc_Max cfg"
  using assms(1)
proof (induction rule: cool_reach.induct)
  case (cr_trip c root now)
  have "0 < next_window root c \<and> next_window root c \<le> cc_Max cfg"
  proof (cases "gm_get (ct_entries c) root")
    case (Some e)
    then have "0 < ce_window e \<and> ce_window e \<le> cc_Max cfg" using cr_trip.IH map_of_SomeD by fastforce
    then show ?thesis using assms Some cool_reach_cfg[OF cr_trip.hyps] by (simp add: next_window_def)
  qed (use assms cool_reach_cfg[OF cr_trip.hyps] in \<open>simp add: next_window_def\<close>)
  then show ?case using cr_trip.IH trip_entries_subset[of root now c] by fastforce
qed (auto simp: newCooldownTable_def sweep_def)

section \<open>Properties\<close>

text \<open>However many roots are recalled, the table tracks at most \<open>Cap\<close> of them (one when \<open>Cap\<close>
  is not positive); a trip makes its root cool for exactly the base window, or for twice the
  previous window up to the maximum; and it changes no other root, except that a full table loses
  one root whose cooldown ends no later than any other's.\<close>

theorem cooldown_trip_bounded_backoff:
  assumes "cool_reach cfg c" and "0 < cc_Base cfg" and "cc_Base cfg \<le> cc_Max cfg"
    and "cc_Max cfg < 2 ^ 62"
    and "w = (case gm_get (ct_entries c) root of None \<Rightarrow> cc_Base cfg
              | Some e \<Rightarrow> min (cc_Max cfg) (2 * ce_window e))"
  shows "cool_len (trip root now c) \<le> max 1 (cc_Cap cfg) \<and>
    0 < w \<and> w \<le> cc_Max cfg \<and>
    (\<forall>t. cooling (trip root now c) root t \<longleftrightarrow> t < now + w) \<and>
    (\<exists>victim. (\<forall>r t. r \<noteq> root \<and> victim \<noteq> Some r \<longrightarrow> cooling (trip root now c) r t = cooling c r t) \<and>
       (cool_len c < cc_Cap cfg \<longrightarrow> victim = None) \<and>
       (\<forall>v. victim = Some v \<longrightarrow>
          (\<forall>r e e'. gm_get (ct_entries c) v = Some e \<and> gm_get (ct_entries c) r = Some e'
             \<longrightarrow> ce_until e \<le> ce_until e')))"
proof -
  have inv: "cool_inv c" and cfg: "ct_cfg c = cfg"
    using assms(1) cool_reach_inv cool_reach_cfg by auto
  define c' where "c' = (if cool_len c \<ge> cc_Cap (ct_cfg c) then evictOldest c else c)"
  have win: "0 < ce_window e \<and> ce_window e \<le> cc_Max cfg" if "gm_get (ct_entries c) k = Some e" for k e
    using cool_reach_windows[OF assms(1-4)] map_of_SomeD[OF that] by fastforce
  have w: "0 < w \<and> w \<le> cc_Max cfg"
    using assms(2,3,5) win[of root] by (auto split: option.splits)
  have nw: "next_window root c = w"
    using assms(4,5) win[of root] by (simp add: next_window_def cfg mult.commute split: option.splits)
  have put: "ct_entries (trip root now c) = gm_put root \<lparr>ce_until = now + w, ce_window = w\<rparr> (ct_entries c')"
    using ct_entries_trip[of root now c] by (simp add: nw c'_def)
  have cool: "cooling (trip root now c) r t = (if r = root then t < now + w else cooling c' r t)" for r t
    by (simp add: cooling_def put gm_get_put)
  have "\<exists>victim. (\<forall>r t. victim \<noteq> Some r \<longrightarrow> cooling c' r t = cooling c r t) \<and>
       (cool_len c < cc_Cap cfg \<longrightarrow> victim = None) \<and>
       (\<forall>v. victim = Some v \<longrightarrow>
          (\<forall>r e e'. gm_get (ct_entries c) v = Some e \<and> gm_get (ct_entries c) r = Some e'
             \<longrightarrow> ce_until e \<le> ce_until e'))"
  proof (cases "cool_len c \<ge> cc_Cap cfg \<and> ct_entries c \<noteq> []")
    case True
    then obtain k e where k: "gm_get (ct_entries c) k = Some e"
      "\<forall>k' e'. gm_get (ct_entries c) k' = Some e' \<longrightarrow> ce_until e \<le> ce_until e'"
      "ct_entries (evictOldest c) = gm_del k (ct_entries c)"
      using evictOldest_spec[of c] inv by (auto simp: cool_inv_def)
    have "cooling c' r t = cooling c r t" if "k \<noteq> r" for r t
      using True that by (simp add: c'_def cfg cooling_def k(3))
    then show ?thesis using True k by (intro exI[of _ "Some k"]) auto
  next
    case False
    then have "c' = c" using evict_len_empty by (auto simp: c'_def cfg)
    then show ?thesis by (intro exI[of _ None]) simp
  qed
  then obtain victim where v: "\<forall>r t. victim \<noteq> Some r \<longrightarrow> cooling c' r t = cooling c r t"
    "cool_len c < cc_Cap cfg \<longrightarrow> victim = None"
    "\<forall>v. victim = Some v \<longrightarrow> (\<forall>r e e'. gm_get (ct_entries c) v = Some e \<and> gm_get (ct_entries c) r = Some e'
             \<longrightarrow> ce_until e \<le> ce_until e')" by blast
  have "cool_len (trip root now c) \<le> max 1 (cc_Cap cfg)"
    using trip_len[of c root now] inv by (simp add: cool_inv_def cfg)
  then show ?thesis using w cool v by (intro conjI exI[of _ victim]) auto
qed

theorem cooldown_trip_bounded_backoff_witness:
  "cooling (trip ''d'' 5 (trip ''d'' 0 (newCooldownTable CooldownConfigDefault))) ''d'' 2000000004 \<and>
   \<not> cooling (trip ''d'' 5 (trip ''d'' 0 (newCooldownTable CooldownConfigDefault))) ''d'' 2000000005"
proof -
  let ?c = "trip ''d'' 0 (newCooldownTable CooldownConfigDefault)"
  have r: "cool_reach CooldownConfigDefault ?c" by (intro cr_trip cr_new)
  have e: "ct_entries ?c = [(''d'', \<lparr>ce_until = 1000000000, ce_window = 1000000000\<rparr>)]"
    by (simp add: trip_def newCooldownTable_def CooldownConfigDefault_def cool_len_def Let_def)
  have cfg: "cc_Base CooldownConfigDefault = 1000000000" "cc_Max CooldownConfigDefault = 60000000000"
    by (simp_all add: CooldownConfigDefault_def)
  show ?thesis
    using cooldown_trip_bounded_backoff[OF r, of 2000000000 "''d''" 5, unfolded e cfg] by simp
qed

end
