(* ===== verification/Watermark.thy ===== *)
theory Watermark
  imports GM_Prelude
begin

text \<open>
  The durable per-stream record of the server (\<^verbatim>\<open>pkg/server/watermark\<close>): the replay watermark, the
  revoked delegation generations and the highest generation issued, per (identity, volume,
  epoch).  The store is an interface in the code; the laws its clients (the arbiter and the Apply
  handler) rely on are the locale \<^verbatim>\<open>watermark_store\<close>, and the bbolt implementation satisfies them.

  bbolt itself is a library: a transaction that fails to commit leaves the database as it was
  and reports an error, and whether a commit succeeds is the \<^typ>\<open>bool\<close> argument of every
  operation.  A stored value is the JSON text of a record or bytes that do not decode.
\<close>

section \<open>Data\<close>

(* src/pkg/server/watermark/store.go:9-15 Key *)
record wm_Key =
  wk_Identity :: string
  wk_Volume :: string
  wk_Epoch :: string

(* src/pkg/server/watermark/store.go:17-26 Record *)
record wm_Record =
  wr_Watermark :: u64
  wr_RevokedGens :: "u64 list"
  wr_GenHi :: u64

definition zero_record :: wm_Record where
  "zero_record = \<lparr>wr_Watermark = 0, wr_RevokedGens = [], wr_GenHi = 0\<rparr>"

datatype wm_error = UnmarshalError | CommitError

datatype stored = JsonOf wm_Record | Undecodable

(* src/pkg/server/watermark/bbolt.go:11-15 bboltStore *)
type_synonym bboltStore = "(string, stored) gomap"

section \<open>The bbolt implementation\<close>

(* src/pkg/server/watermark/bbolt.go:36-49 keyBytes *)
definition keyBytes :: "wm_Key \<Rightarrow> string" where
  "keyBytes k = wk_Identity k @ [CHR 0x00] @ wk_Volume k @ [CHR 0x00] @ wk_Epoch k"

(* src/pkg/server/watermark/bbolt.go:51-63 getRecord *)
definition getRecord :: "bboltStore \<Rightarrow> wm_Key \<Rightarrow> wm_error + wm_Record" where
  "getRecord tx k =
    (case gm_get tx (keyBytes k) of
       None \<Rightarrow> Inr zero_record
     | Some (JsonOf r) \<Rightarrow> Inr r
     | Some Undecodable \<Rightarrow> Inl UnmarshalError)"

(* src/pkg/server/watermark/bbolt.go:65-72 putRecord *)
definition putRecord :: "wm_Key \<Rightarrow> wm_Record \<Rightarrow> bboltStore \<Rightarrow> bboltStore" where
  "putRecord k r tx = gm_put (keyBytes k) (JsonOf r) tx"

text \<open>\<^verbatim>\<open>db.Update\<close>: run the body on the database; an error of the body or of the commit rolls back.\<close>

definition bolt_Update ::
  "bool \<Rightarrow> (bboltStore \<Rightarrow> wm_error + ('a \<times> bboltStore)) \<Rightarrow> bboltStore \<Rightarrow> (wm_error + 'a) \<times> bboltStore" where
  "bolt_Update commit body db =
    (case body db of
       Inl e \<Rightarrow> (Inl e, db)
     | Inr (a, db') \<Rightarrow> if commit then (Inr a, db') else (Inl CommitError, db))"

(* src/pkg/server/watermark/bbolt.go:17-34 OpenBBolt *)
definition OpenBBolt :: "bboltStore \<Rightarrow> bboltStore" where
  "OpenBBolt file = file"

(* src/pkg/server/watermark/bbolt.go:74-83 Get *)
definition wm_Get :: "bboltStore \<Rightarrow> wm_Key \<Rightarrow> wm_error + wm_Record" where
  "wm_Get db k = getRecord db k"

(* src/pkg/server/watermark/bbolt.go:85-99 Advance *)
definition wm_Advance :: "bool \<Rightarrow> wm_Key \<Rightarrow> u64 \<Rightarrow> bboltStore \<Rightarrow> (wm_error + unit) \<times> bboltStore" where
  "wm_Advance commit k w db = bolt_Update commit (\<lambda>tx.
     case getRecord tx k of
       Inl e \<Rightarrow> Inl e
     | Inr r \<Rightarrow>
         if w \<le> wr_Watermark r then Inr ((), tx)
         else Inr ((), putRecord k (r\<lparr>wr_Watermark := w\<rparr>) tx)) db"

(* src/pkg/server/watermark/bbolt.go:101-117 RevokeGen *)
definition wm_RevokeGen :: "bool \<Rightarrow> wm_Key \<Rightarrow> u64 \<Rightarrow> bboltStore \<Rightarrow> (wm_error + unit) \<times> bboltStore" where
  "wm_RevokeGen commit k g db = bolt_Update commit (\<lambda>tx.
     case getRecord tx k of
       Inl e \<Rightarrow> Inl e
     | Inr r \<Rightarrow>
         if g \<in> set (wr_RevokedGens r) then Inr ((), tx)
         else Inr ((), putRecord k (r\<lparr>wr_RevokedGens := wr_RevokedGens r @ [g]\<rparr>) tx)) db"

(* src/pkg/server/watermark/bbolt.go:119-137 NextGen *)
definition wm_NextGen :: "bool \<Rightarrow> wm_Key \<Rightarrow> bboltStore \<Rightarrow> (wm_error + u64) \<times> bboltStore" where
  "wm_NextGen commit k db = bolt_Update commit (\<lambda>tx.
     case getRecord tx k of
       Inl e \<Rightarrow> Inl e
     | Inr r \<Rightarrow> Inr (wr_GenHi r + 1, putRecord k (r\<lparr>wr_GenHi := wr_GenHi r + 1\<rparr>) tx)) db"

section \<open>The contract of a store\<close>

text \<open>How a record may change over time: the watermark and the revoked set only grow.\<close>

definition rec_grows :: "wm_Record \<Rightarrow> wm_Record \<Rightarrow> bool" where
  "rec_grows r r' \<longleftrightarrow> wr_Watermark r \<le> wr_Watermark r' \<and> set (wr_RevokedGens r) \<subseteq> set (wr_RevokedGens r')"

lemma rec_grows_refl [simp, intro]: "rec_grows r r"
  by (simp add: rec_grows_def)

lemma rec_grows_trans: "rec_grows a b \<Longrightarrow> rec_grows b c \<Longrightarrow> rec_grows a c"
  by (auto simp: rec_grows_def)

datatype wm_op = OpAdvance wm_Key u64 | OpRevoke wm_Key u64 | OpNextGen wm_Key

locale watermark_store =
  fixes rd :: "'st \<Rightarrow> wm_Key \<Rightarrow> wm_error + wm_Record"
    and adv :: "bool \<Rightarrow> wm_Key \<Rightarrow> u64 \<Rightarrow> 'st \<Rightarrow> (wm_error + unit) \<times> 'st"
    and revoke :: "bool \<Rightarrow> wm_Key \<Rightarrow> u64 \<Rightarrow> 'st \<Rightarrow> (wm_error + unit) \<times> 'st"
    and nextgen :: "bool \<Rightarrow> wm_Key \<Rightarrow> 'st \<Rightarrow> (wm_error + u64) \<times> 'st"
    and key_ok :: "wm_Key \<Rightarrow> bool"
  assumes adv_ok: "adv c k w st = (Inr u, st') \<Longrightarrow>
      \<exists>r. rd st k = Inr r \<and> rd st' k = Inr (r\<lparr>wr_Watermark := max (wr_Watermark r) w\<rparr>)"
    and adv_err: "adv c k w st = (Inl e, st') \<Longrightarrow> st' = st"
    and adv_other: "key_ok k \<Longrightarrow> key_ok k' \<Longrightarrow> k' \<noteq> k \<Longrightarrow> rd (snd (adv c k w st)) k' = rd st k'"
    and rev_ok: "revoke c k g st = (Inr u, st') \<Longrightarrow>
      \<exists>r gs. rd st k = Inr r \<and> rd st' k = Inr (r\<lparr>wr_RevokedGens := gs\<rparr>) \<and>
             set gs = insert g (set (wr_RevokedGens r))"
    and rev_err: "revoke c k g st = (Inl e, st') \<Longrightarrow> st' = st"
    and rev_other: "key_ok k \<Longrightarrow> key_ok k' \<Longrightarrow> k' \<noteq> k \<Longrightarrow> rd (snd (revoke c k g st)) k' = rd st k'"
    and gen_ok: "nextgen c k st = (Inr g, st') \<Longrightarrow>
      \<exists>r. rd st k = Inr r \<and> g = wr_GenHi r + 1 \<and> rd st' k = Inr (r\<lparr>wr_GenHi := g\<rparr>)"
    and gen_err: "nextgen c k st = (Inl e, st') \<Longrightarrow> st' = st"
    and gen_other: "key_ok k \<Longrightarrow> key_ok k' \<Longrightarrow> k' \<noteq> k \<Longrightarrow> rd (snd (nextgen c k st)) k' = rd st k'"
begin

lemma adv_grows:
  assumes "key_ok k" "key_ok k'" "rd st k' = Inr r"
  shows "\<exists>r'. rd (snd (adv c k w st)) k' = Inr r' \<and> rec_grows r r' \<and> wr_GenHi r' = wr_GenHi r"
proof (cases "k' = k")
  case True
  obtain res st' where a: "adv c k w st = (res, st')" by fastforce
  show ?thesis
  proof (cases res)
    case (Inl e)
    then have "st' = st" using a adv_err by blast
    then show ?thesis using a assms by auto
  next
    case (Inr u)
    then show ?thesis using adv_ok[of c k w st u st'] a assms True by (auto simp: rec_grows_def)
  qed
qed (use assms adv_other in auto)

lemma revoke_grows:
  assumes "key_ok k" "key_ok k'" "rd st k' = Inr r"
  shows "\<exists>r'. rd (snd (revoke c k g st)) k' = Inr r' \<and> rec_grows r r' \<and> wr_GenHi r' = wr_GenHi r"
proof (cases "k' = k")
  case True
  obtain res st' where a: "revoke c k g st = (res, st')" by fastforce
  show ?thesis
  proof (cases res)
    case (Inl e)
    then have "st' = st" using a rev_err by blast
    then show ?thesis using a assms by auto
  next
    case (Inr u)
    then show ?thesis using rev_ok[of c k g st u st'] a assms True by (auto simp: rec_grows_def)
  qed
qed (use assms rev_other in auto)

lemma nextgen_grows:
  assumes "key_ok k" "key_ok k'" "rd st k' = Inr r"
  shows "\<exists>r'. rd (snd (nextgen c k st)) k' = Inr r' \<and> rec_grows r r' \<and>
              (wr_GenHi r' = wr_GenHi r \<or> wr_GenHi r' = wr_GenHi r + 1)"
proof (cases "k' = k")
  case True
  obtain res st' where a: "nextgen c k st = (res, st')" by fastforce
  show ?thesis
  proof (cases res)
    case (Inl e)
    then have "st' = st" using a gen_err by blast
    then show ?thesis using a assms by auto
  next
    case (Inr u)
    then show ?thesis using gen_ok[of c k st u st'] a assms True by (auto simp: rec_grows_def)
  qed
qed (use assms gen_other in auto)

lemma revoke_then_revoked:
  assumes "revoke c k g st = (Inr u, st')"
  shows "\<exists>r. rd st' k = Inr r \<and> g \<in> set (wr_RevokedGens r)"
  using rev_ok[OF assms] by auto

lemma adv_then_watermark:
  assumes "adv c k w st = (Inr u, st')"
  shows "\<exists>r. rd st' k = Inr r \<and> w \<le> wr_Watermark r"
  using adv_ok[OF assms] by auto

end

section \<open>bbolt satisfies the contract\<close>

text \<open>The separators are unambiguous as soon as identity and volume have no NUL byte.\<close>

definition key_plain :: "wm_Key \<Rightarrow> bool" where
  "key_plain k \<longleftrightarrow> CHR 0x00 \<notin> set (wk_Identity k) \<and> CHR 0x00 \<notin> set (wk_Volume k)"

lemma split_at_first:
  "c \<notin> set xs \<Longrightarrow> c \<notin> set ys \<Longrightarrow> xs @ c # us = ys @ c # vs \<Longrightarrow> xs = ys \<and> us = vs"
proof (induction xs arbitrary: ys)
  case Nil
  then show ?case by (cases ys) auto
next
  case (Cons a xs)
  then show ?case by (cases ys) auto
qed

lemma keyBytes_inj:
  assumes "key_plain k" and "key_plain k'" and "keyBytes k = keyBytes k'"
  shows "k = k'"
proof -
  have "wk_Identity k = wk_Identity k' \<and> wk_Volume k @ CHR 0x00 # wk_Epoch k = wk_Volume k' @ CHR 0x00 # wk_Epoch k'"
    using assms split_at_first[of "CHR 0x00" "wk_Identity k" "wk_Identity k'"]
    by (simp add: key_plain_def keyBytes_def)
  moreover from this have "wk_Volume k = wk_Volume k' \<and> wk_Epoch k = wk_Epoch k'"
    using assms split_at_first[of "CHR 0x00" "wk_Volume k" "wk_Volume k'" "wk_Epoch k" "wk_Epoch k'"]
    by (simp add: key_plain_def)
  ultimately show ?thesis by simp
qed

lemma getRecord_put_same [simp]: "getRecord (putRecord k r db) k = Inr r"
  by (simp add: getRecord_def putRecord_def gm_get_put)

lemma getRecord_put_other [simp]:
  "key_plain k \<Longrightarrow> key_plain k' \<Longrightarrow> k' \<noteq> k \<Longrightarrow> getRecord (putRecord k r db) k' = getRecord db k'"
  using keyBytes_inj by (fastforce simp: getRecord_def putRecord_def gm_get_put)

lemmas wm_op_defs = wm_Get_def wm_Advance_def wm_RevokeGen_def wm_NextGen_def bolt_Update_def

interpretation bbolt: watermark_store wm_Get wm_Advance wm_RevokeGen wm_NextGen key_plain
proof (unfold_locales, goal_cases)
  case (1 c k w st u st')
  then show ?case by (auto simp: wm_op_defs max_def split: sum.splits if_splits prod.splits)
next
  case (4 c k g st u st')
  then obtain r where r: "getRecord st k = Inr r"
    by (auto simp: wm_op_defs split: sum.splits)
  show ?case
  proof (cases "g \<in> set (wr_RevokedGens r)")
    case True
    then have "st' = st" using 4 r by (simp add: wm_op_defs split: if_splits)
    then show ?thesis using r True by (auto simp: wm_Get_def intro!: exI[of _ "wr_RevokedGens r"])
  next
    case False
    then have "st' = putRecord k (r\<lparr>wr_RevokedGens := wr_RevokedGens r @ [g]\<rparr>) st"
      using 4 r by (simp add: wm_op_defs split: if_splits)
    then show ?thesis using r by (auto simp: wm_Get_def intro!: exI[of _ "wr_RevokedGens r @ [g]"])
  qed
next
  case (7 c k st g st')
  then show ?case by (auto simp: wm_op_defs split: sum.splits if_splits prod.splits)
qed (auto simp: wm_op_defs split: sum.splits if_splits prod.splits)

section \<open>Runs of a store\<close>

fun wm_apply :: "wm_op \<times> bool \<Rightarrow> bboltStore \<Rightarrow> bboltStore" where
  "wm_apply (OpAdvance k w, c) db = snd (wm_Advance c k w db)"
| "wm_apply (OpRevoke k g, c) db = snd (wm_RevokeGen c k g db)"
| "wm_apply (OpNextGen k, c) db = snd (wm_NextGen c k db)"

fun op_key :: "wm_op \<Rightarrow> wm_Key" where
  "op_key (OpAdvance k w) = k"
| "op_key (OpRevoke k g) = k"
| "op_key (OpNextGen k) = k"

definition plain_ops :: "(wm_op \<times> bool) list \<Rightarrow> bool" where
  "plain_ops ops \<longleftrightarrow> (\<forall>(o', c) \<in> set ops. key_plain (op_key o'))"

lemma wm_apply_grows:
  assumes "key_plain (op_key (fst oc))" "key_plain k" "wm_Get db k = Inr r"
  shows "\<exists>r'. wm_Get (wm_apply oc db) k = Inr r' \<and> rec_grows r r' \<and>
    (wr_GenHi r' = wr_GenHi r \<or> wr_GenHi r' = wr_GenHi r + 1)"
proof (cases oc)
  case (Pair o' c)
  show ?thesis
  proof (cases o')
    case (OpAdvance k' w)
    then show ?thesis using Pair assms bbolt.adv_grows[of k' k db r c w] by auto
  next
    case (OpRevoke k' g)
    then show ?thesis using Pair assms bbolt.revoke_grows[of k' k db r c g] by auto
  next
    case (OpNextGen k')
    then show ?thesis using Pair assms bbolt.nextgen_grows[of k' k db r c] by auto
  qed
qed

lemma wm_run_grows:
  assumes "plain_ops ops" "key_plain k" "wm_Get db k = Inr r"
    and "unat (wr_GenHi r) + length ops < 2 ^ 64"
  shows "\<exists>r'. wm_Get (fold wm_apply ops db) k = Inr r' \<and> rec_grows r r' \<and>
    wr_GenHi r \<le> wr_GenHi r' \<and> unat (wr_GenHi r') \<le> unat (wr_GenHi r) + length ops"
  using assms
proof (induction ops arbitrary: db r)
  case (Cons oc ops)
  obtain r1 where r1: "wm_Get (wm_apply oc db) k = Inr r1" "rec_grows r r1"
      "wr_GenHi r1 = wr_GenHi r \<or> wr_GenHi r1 = wr_GenHi r + 1"
    using wm_apply_grows[of oc k db r] Cons.prems by (auto simp: plain_ops_def split_beta)
  have step: "unat (wr_GenHi r) \<le> unat (wr_GenHi r1) \<and> unat (wr_GenHi r1) \<le> Suc (unat (wr_GenHi r))"
    using r1(3) Cons.prems(4) by (auto simp: unat_word_ariths)
  have "\<exists>r'. wm_Get (fold wm_apply ops (wm_apply oc db)) k = Inr r' \<and> rec_grows r1 r' \<and>
    wr_GenHi r1 \<le> wr_GenHi r' \<and> unat (wr_GenHi r') \<le> unat (wr_GenHi r1) + length ops"
    using Cons.prems r1(1) step by (intro Cons.IH) (auto simp: plain_ops_def)
  then show ?case
    using r1(2) step rec_grows_trans by (fastforce simp: word_le_nat_alt)
qed auto

section \<open>Properties\<close>

text \<open>C21: a generation that has been revoked and a watermark that has been reached stay so: after any
  sequence of store operations on any keys, with any commits failing, the record of the stream
  still has the revoked generations and at least the watermark.\<close>

theorem fence_and_watermark_never_regress:
  assumes "plain_ops ops" and "key_plain k" and "wm_Get db k = Inr r"
  shows "\<exists>r'. wm_Get (fold wm_apply ops db) k = Inr r' \<and>
    wr_Watermark r \<le> wr_Watermark r' \<and> set (wr_RevokedGens r) \<subseteq> set (wr_RevokedGens r')"
  using assms
proof (induction ops arbitrary: db r)
  case (Cons oc ops)
  obtain r1 where r1: "wm_Get (wm_apply oc db) k = Inr r1" "rec_grows r r1"
    using wm_apply_grows[of oc k db r] Cons.prems by (auto simp: plain_ops_def split_beta)
  have "plain_ops ops" using Cons.prems by (auto simp: plain_ops_def)
  then show ?case
    using Cons.IH[of "wm_apply oc db" r1] Cons.prems(2) r1 by (fastforce simp: rec_grows_def)
qed auto

definition ex_key :: wm_Key where
  "ex_key = \<lparr>wk_Identity = ''alice'', wk_Volume = ''v'', wk_Epoch = ''e1''\<rparr>"

definition ex_ops :: "(wm_op \<times> bool) list" where
  "ex_ops = [(OpRevoke ex_key 3, True), (OpAdvance ex_key 7, True), (OpAdvance ex_key 5, True),
             (OpRevoke ex_key 4, False)]"

lemma ex_ops_plain: "plain_ops ex_ops" and ex_key_plain: "key_plain ex_key"
  by (auto simp: plain_ops_def ex_ops_def key_plain_def ex_key_def)

theorem fence_and_watermark_never_regress_witness:
  "\<exists>r'. wm_Get (fold wm_apply ex_ops (fold wm_apply ex_ops [])) ex_key = Inr r' \<and>
     7 \<le> wr_Watermark r' \<and> {3} \<subseteq> set (wr_RevokedGens r')"
proof -
  have "wm_Get (fold wm_apply ex_ops []) ex_key =
      Inr \<lparr>wr_Watermark = 7, wr_RevokedGens = [3], wr_GenHi = 0\<rparr>"
    by (simp add: ex_ops_def wm_op_defs getRecord_def putRecord_def zero_record_def)
  from fence_and_watermark_never_regress[OF ex_ops_plain ex_key_plain this] show ?thesis by simp
qed

text \<open>A generation is never issued twice for a stream and never is the untagged value 0: whatever
  happens to the store between two successful \<open>NextGen\<close> calls, and over any number of restarts,
  the later value is strictly greater, as long as the 64-bit counter does not wrap.\<close>

theorem NextGen_strictly_increasing:
  assumes "key_plain k" and "plain_ops ops"
    and "wm_NextGen c1 k db = (Inr g1, db1)"
    and "wm_NextGen c2 k (OpenBBolt (fold wm_apply ops db1)) = (Inr g2, db2)"
    and "unat g1 + length ops + 1 < 2 ^ 64"
  shows "g1 < g2 \<and> g2 \<noteq> 0"
proof -
  obtain r where r: "wm_Get db1 k = Inr r" "wr_GenHi r = g1"
    using bbolt.gen_ok[OF assms(3)] by auto
  obtain r' where r': "wm_Get (fold wm_apply ops db1) k = Inr r'" "wr_GenHi r \<le> wr_GenHi r'"
      "unat (wr_GenHi r') \<le> unat (wr_GenHi r) + length ops"
    using wm_run_grows[OF assms(2,1) r(1)] assms(5) r(2) by auto
  have g2: "g2 = wr_GenHi r' + 1"
    using bbolt.gen_ok[OF assms(4)] r'(1) by (auto simp: OpenBBolt_def)
  have "unat g2 = unat (wr_GenHi r') + 1"
    using r' r(2) assms(5) unfolding g2 by (simp add: unat_word_ariths)
  then have "unat g1 < unat g2" using r' r(2) by (simp add: word_le_nat_alt)
  then show ?thesis by (auto simp: word_less_nat_alt)
qed

theorem NextGen_strictly_increasing_witness:
  "\<exists>g1 db1 g2 db2. wm_NextGen True ex_key [] = (Inr g1, db1) \<and>
     wm_NextGen True ex_key (OpenBBolt (fold wm_apply ex_ops db1)) = (Inr g2, db2) \<and> g1 < g2 \<and> g2 \<noteq> 0"
proof -
  let ?db1 = "snd (wm_NextGen True ex_key [])"
  have 1: "wm_NextGen True ex_key [] = (Inr 1, ?db1)"
    by (simp add: wm_op_defs getRecord_def zero_record_def)
  have 2: "wm_NextGen True ex_key (OpenBBolt (fold wm_apply ex_ops ?db1)) =
      (Inr 2, snd (wm_NextGen True ex_key (OpenBBolt (fold wm_apply ex_ops ?db1))))"
    by (simp add: ex_ops_def wm_op_defs getRecord_def putRecord_def zero_record_def OpenBBolt_def)
  have "length ex_ops = 4" by (simp add: ex_ops_def)
  then have "(1::u64) < 2 \<and> (2::u64) \<noteq> 0"
    by (intro NextGen_strictly_increasing[OF ex_key_plain ex_ops_plain 1 2]) simp
  then show ?thesis using 1 2 by blast
qed

text \<open>The database keys of two streams are equal only when the streams are the same, whatever bytes
  the epoch sent by a client has, because identity and volume names have no NUL byte: no
  client reaches the watermark or the revoked generations of another stream.\<close>

theorem stream_keys_do_not_collide:
  assumes "key_plain k" and "key_plain k'" and "k' \<noteq> k"
  shows "keyBytes k' \<noteq> keyBytes k \<and>
    wm_Get (snd (wm_Advance c k w db)) k' = wm_Get db k' \<and>
    wm_Get (snd (wm_RevokeGen c k g db)) k' = wm_Get db k' \<and>
    wm_Get (snd (wm_NextGen c k db)) k' = wm_Get db k'"
  using assms keyBytes_inj[of k' k] bbolt.adv_other[of k k'] bbolt.rev_other[of k k'] bbolt.gen_other[of k k']
  by auto

theorem stream_keys_do_not_collide_witness:
  "wm_Get (snd (wm_Advance True ex_key 9 [])) (ex_key\<lparr>wk_Epoch := [CHR 0x00]\<rparr>) = Inr zero_record"
proof -
  have "key_plain (ex_key\<lparr>wk_Epoch := [CHR 0x00]\<rparr>)" by (simp add: key_plain_def ex_key_def)
  moreover have "ex_key\<lparr>wk_Epoch := [CHR 0x00]\<rparr> \<noteq> ex_key" by (simp add: ex_key_def)
  ultimately show ?thesis
    using stream_keys_do_not_collide[OF ex_key_plain, of _ True 9 "[]"]
    by (simp add: wm_Get_def getRecord_def)
qed

end
