(* ===== verification/Deleg_Recall.thy ===== *)
theory Deleg_Recall
  imports GM_Prelude
begin

text \<open>
  The recall transport (\<^verbatim>\<open>pkg/server/delegation/recall.go\<close>): the registry of open recall streams
  and of in-flight recalls.  A stream slot is identified by a number (its pointer in the code),
  an in-flight recall by its id; \<open>rg_acked\<close> lists the ids whose acknowledgement channel has been
  closed.  Closing a closed channel panics in Go, which is the value \<open>None\<close> of \<open>Ack\<close>.  A recall is
  the sequence of critical sections \<open>Recall_begin\<close>, the send, and the wait that ends with the
  acknowledgement or the timeout; the step relation interleaves any number of recalls with
  acknowledgements and with streams that come and go.
\<close>

section \<open>The registry\<close>

datatype recall_result = RecallOk | RecallNoStream | RecallSendFailed | RecallTimedOut

(* src/pkg/server/delegation/recall.go:25-50 RecallRegistry *)
record RecallRegistry =
  rg_nextID :: u64
  rg_streams :: "(string, nat) gomap"
  rg_inflight :: "u64 list"
  rg_acked :: "u64 list"

(* src/pkg/server/delegation/recall.go:44-50 NewRecallRegistry *)
definition NewRecallRegistry :: RecallRegistry where
  "NewRecallRegistry = \<lparr>rg_nextID = 0, rg_streams = [], rg_inflight = [], rg_acked = []\<rparr>"

(* src/pkg/server/delegation/recall.go:52-58 Register *)
definition Register :: "string \<Rightarrow> nat \<Rightarrow> RecallRegistry \<Rightarrow> RecallRegistry" where
  "Register sid slot r = r\<lparr>rg_streams := gm_put sid slot (rg_streams r)\<rparr>"

(* src/pkg/server/delegation/recall.go:59-66 Register *)
definition Register_release :: "string \<Rightarrow> nat \<Rightarrow> RecallRegistry \<Rightarrow> RecallRegistry" where
  "Register_release sid slot r =
    (if gm_get (rg_streams r) sid = Some slot then r\<lparr>rg_streams := gm_del sid (rg_streams r)\<rparr> else r)"

(* src/pkg/server/delegation/recall.go:68-77 Ack *)
definition Ack :: "string \<Rightarrow> u64 \<Rightarrow> RecallRegistry \<Rightarrow> RecallRegistry option" where
  "Ack sid rid r =
    (let r' = r\<lparr>rg_inflight := removeAll rid (rg_inflight r)\<rparr>
     in if rid \<in> set (rg_inflight r) then
          (if rid \<in> set (rg_acked r) then None else Some (r'\<lparr>rg_acked := rid # rg_acked r\<rparr>))
        else Some r')"

(* src/pkg/server/delegation/recall.go:82-93 Recall *)
definition Recall_begin :: "string \<Rightarrow> RecallRegistry \<Rightarrow> (u64 \<times> nat) option \<times> RecallRegistry" where
  "Recall_begin owner r =
    (let rid = rg_nextID r + 1; r1 = r\<lparr>rg_nextID := rid\<rparr>
     in case gm_get (rg_streams r1) owner of
          None \<Rightarrow> (None, r1)
        | Some slot \<Rightarrow> (Some (rid, slot), r1\<lparr>rg_inflight := rid # rg_inflight r1\<rparr>))"

(* src/pkg/server/delegation/recall.go:95-111 Recall *)
definition Recall_abandon :: "u64 \<Rightarrow> RecallRegistry \<Rightarrow> RecallRegistry" where
  "Recall_abandon rid r = r\<lparr>rg_inflight := removeAll rid (rg_inflight r)\<rparr>"

section \<open>Interleaved recalls\<close>

datatype recall_pc = RIdle | RSending u64 nat | RWaiting u64 | RDone recall_result

(* src/pkg/server/delegation/recall.go:79-111 Recall *)
inductive recall_step :: "RecallRegistry \<times> (nat \<Rightarrow> recall_pc) \<Rightarrow> RecallRegistry \<times> (nat \<Rightarrow> recall_pc) \<Rightarrow> bool" where
  rs_begin: "pc t = RIdle \<Longrightarrow> Recall_begin owner r = (Some (rid, slot), r') \<Longrightarrow>
     recall_step (r, pc) (r', pc(t := RSending rid slot))"
| rs_nostream: "pc t = RIdle \<Longrightarrow> Recall_begin owner r = (None, r') \<Longrightarrow>
     recall_step (r, pc) (r', pc(t := RDone RecallNoStream))"
| rs_sent: "pc t = RSending rid slot \<Longrightarrow> recall_step (r, pc) (r, pc(t := RWaiting rid))"
| rs_sendfail: "pc t = RSending rid slot \<Longrightarrow>
     recall_step (r, pc) (Recall_abandon rid r, pc(t := RDone RecallSendFailed))"
| rs_acked: "pc t = RWaiting rid \<Longrightarrow> rid \<in> set (rg_acked r) \<Longrightarrow>
     recall_step (r, pc) (r, pc(t := RDone RecallOk))"
| rs_timeout: "pc t = RWaiting rid \<Longrightarrow>
     recall_step (r, pc) (Recall_abandon rid r, pc(t := RDone RecallTimedOut))"
| rs_ack: "Ack sid rid r = Some r' \<Longrightarrow> recall_step (r, pc) (r', pc)"
| rs_register: "recall_step (r, pc) (Register sid slot r, pc)"
| rs_release: "recall_step (r, pc) (Register_release sid slot r, pc)"

inductive recall_reach :: "RecallRegistry \<times> (nat \<Rightarrow> recall_pc) \<Rightarrow> bool" where
  rr_init: "recall_reach (NewRecallRegistry, \<lambda>_. RIdle)"
| rr_step: "recall_reach s \<Longrightarrow> unat (rg_nextID (fst s)) + 1 < 2 ^ 64 \<Longrightarrow> recall_step s s' \<Longrightarrow> recall_reach s'"

section \<open>Invariant\<close>

text \<open>Ids are issued once: an id in flight or acknowledged was issued, and never both.\<close>

definition registry_inv :: "RecallRegistry \<Rightarrow> bool" where
  "registry_inv r \<longleftrightarrow>
     (\<forall>i \<in> set (rg_inflight r) \<union> set (rg_acked r). i \<le> rg_nextID r) \<and>
     set (rg_inflight r) \<inter> set (rg_acked r) = {} \<and> distinct (rg_acked r)"

lemma registry_inv_Ack:
  assumes "registry_inv r"
  shows "\<exists>r'. Ack sid rid r = Some r' \<and> registry_inv r'"
  using assms by (auto simp: registry_inv_def Ack_def Let_def)

lemma registry_inv_begin:
  assumes "registry_inv r" and "unat (rg_nextID r) + 1 < 2 ^ 64"
  shows "registry_inv (snd (Recall_begin owner r))"
proof -
  have "unat (rg_nextID r + 1) = unat (rg_nextID r) + 1" using assms(2) by (simp add: unat_word_ariths)
  then have lt: "rg_nextID r < rg_nextID r + 1" by (simp add: word_less_nat_alt)
  then have "i \<le> rg_nextID r \<Longrightarrow> i \<le> rg_nextID r + 1 \<and> i \<noteq> rg_nextID r + 1" for i by auto
  then show ?thesis
    using assms(1) by (fastforce simp: registry_inv_def Recall_begin_def Let_def split: option.splits)
qed

lemma registry_inv_step:
  assumes "recall_step s s'" and "registry_inv (fst s)" and "unat (rg_nextID (fst s)) + 1 < 2 ^ 64"
  shows "registry_inv (fst s')"
  using assms
proof (cases rule: recall_step.cases)
  case (rs_begin pc t owner r rid slot r')
  then show ?thesis using assms registry_inv_begin[of r owner] by simp
next
  case (rs_nostream pc t owner r r')
  then show ?thesis using assms registry_inv_begin[of r owner] by simp
next
  case (rs_ack sid rid r r' pc)
  then show ?thesis using assms registry_inv_Ack[of r sid rid] by auto
qed (auto simp: registry_inv_def Recall_abandon_def Register_def Register_release_def)

lemma recall_reach_inv: "recall_reach s \<Longrightarrow> registry_inv (fst s)"
proof (induction rule: recall_reach.induct)
  case rr_init
  show ?case by (simp add: registry_inv_def NewRecallRegistry_def)
qed (use registry_inv_step in blast)

section \<open>Properties\<close>

text \<open>However recalls, acknowledgements (late, duplicate or invented ones included), timeouts and
  reconnecting streams interleave, an acknowledgement never closes a channel twice, so \<open>Ack\<close>
  never panics; it completes the recall exactly when that is still in flight.\<close>

theorem recall_ack_never_panics:
  assumes "recall_reach (r, pc)"
  shows "\<exists>r'. Ack sid rid r = Some r' \<and> rid \<notin> set (rg_inflight r') \<and>
    (rid \<in> set (rg_acked r') \<longleftrightarrow> rid \<in> set (rg_inflight r) \<or> rid \<in> set (rg_acked r))"
  using recall_reach_inv[OF assms] by (auto simp: registry_inv_def Ack_def Let_def)

definition ex_registry :: RecallRegistry where
  "ex_registry = snd (Recall_begin ''A'' (Register ''A'' 0 NewRecallRegistry))"

lemma ex_registry_reach: "recall_reach (ex_registry, (\<lambda>_. RIdle)(0 := RSending 1 0))"
proof -
  have 1: "recall_reach (Register ''A'' 0 NewRecallRegistry, \<lambda>_. RIdle)"
    using rr_step[OF rr_init _ rs_register] by (simp add: NewRecallRegistry_def)
  have "Recall_begin ''A'' (Register ''A'' 0 NewRecallRegistry) = (Some (1, 0), ex_registry)"
    by (simp add: ex_registry_def Recall_begin_def Register_def NewRecallRegistry_def Let_def)
  from rr_step[OF 1 _ rs_begin[OF _ this]] show ?thesis
    by (simp add: Register_def NewRecallRegistry_def)
qed

theorem recall_ack_never_panics_witness:
  "\<exists>r'. Ack ''A'' 1 ex_registry = Some r' \<and> 1 \<in> set (rg_acked r')"
  using recall_ack_never_panics[OF ex_registry_reach, of "''A''" 1]
  by (auto simp: ex_registry_def Recall_begin_def Register_def NewRecallRegistry_def Let_def)

text \<open>The session that acknowledges is not compared with the session the recall was sent to.  A
  recall addressed to session A returns success, so that A's delegation is handed off, after an
  acknowledgement by session B of a recall id B was never sent.\<close>

theorem foreign_session_can_ack_recall:
  "\<exists>r pc. recall_reach (r, pc) \<and> pc 0 = RDone RecallOk \<and>
     (\<exists>r0 r1. Recall_begin ''A'' (Register ''A'' 0 NewRecallRegistry) = (Some (1, 0), r0) \<and>
        Ack ''B'' 1 r0 = Some r1 \<and> r = r1)"
proof -
  let ?r1 = "ex_registry\<lparr>rg_inflight := [], rg_acked := [1]\<rparr>"
  have e: "ex_registry = \<lparr>rg_nextID = 1, rg_streams = [(''A'', 0)], rg_inflight = [1], rg_acked = []\<rparr>"
    by (simp add: ex_registry_def Recall_begin_def Register_def NewRecallRegistry_def Let_def)
  have ack: "Ack ''B'' 1 ex_registry = Some ?r1" by (simp add: e Ack_def)
  have 1: "recall_reach (ex_registry, (\<lambda>_. RIdle)(0 := RWaiting 1))"
    using rr_step[OF ex_registry_reach _ rs_sent[of _ 0 1 0]] by (simp add: e)
  have 2: "recall_reach (?r1, (\<lambda>_. RIdle)(0 := RWaiting 1))"
    using rr_step[OF 1 _ rs_ack[OF ack]] by (simp add: e)
  have 3: "recall_reach (?r1, (\<lambda>_. RIdle)(0 := RDone RecallOk))"
    using rr_step[OF 2 _ rs_acked[of _ 0 1]] by (simp add: e)
  have "Recall_begin ''A'' (Register ''A'' 0 NewRecallRegistry) = (Some (1, 0), ex_registry)"
    by (simp add: ex_registry_def Recall_begin_def Register_def NewRecallRegistry_def Let_def)
  then show ?thesis using 3 ack by (intro exI[of _ ?r1] exI[of _ "(\<lambda>_. RIdle)(0 := RDone RecallOk)"]) auto
qed

end
