(* ===== verification/Fs_Error.thy ===== *)
theory Fs_Error
  imports GM_Prelude "HOL-Library.Multiset"
begin

text \<open>
  Error codes and freshness tokens on the wire: the OS-neutral \<^verbatim>\<open>FsError\<close> enumeration and its
  mapping to and from the errno of a Linux host (\<^verbatim>\<open>pkg/common/fserr\<close>), and the version token of
  an attribute (\<^verbatim>\<open>pkg/server/io/version.go\<close>).  The inverse errno table is built by ranging over a
  Go map, in any order; the theorems hold for every order.
\<close>

section \<open>Error codes\<close>

datatype FsError =
  FS_OK | FS_EPERM | FS_ENOENT | FS_EIO | FS_ENXIO | FS_EBADF | FS_EAGAIN | FS_EACCES |
  FS_EBUSY | FS_EEXIST | FS_EXDEV | FS_ENOTDIR | FS_EISDIR | FS_EINVAL | FS_EMFILE |
  FS_ENFILE | FS_EFBIG | FS_ENOSPC | FS_EROFS | FS_EMLINK | FS_ERANGE | FS_ENAMETOOLONG |
  FS_ENOSYS | FS_ENOTEMPTY | FS_ELOOP | FS_EOVERFLOW | FS_EDQUOT | FS_ESTALE | FS_ENOTSUP |
  FS_ENO_XATTR | FS_EINTR | FS_ETXTBSY | FS_EDEADLK | FS_ENOLCK

(* src/pkg/common/fserr/fserr.go:15-49 toErrno *)
definition toErrno_table :: "(FsError, nat) gomap" where
  "toErrno_table =
   [(FS_EPERM, 1), (FS_ENOENT, 2), (FS_EIO, 5), (FS_ENXIO, 6), (FS_EBADF, 9), (FS_EAGAIN, 11),
    (FS_EACCES, 13), (FS_EBUSY, 16), (FS_EEXIST, 17), (FS_EXDEV, 18), (FS_ENOTDIR, 20),
    (FS_EISDIR, 21), (FS_EINVAL, 22), (FS_EMFILE, 24), (FS_ENFILE, 23), (FS_EFBIG, 27),
    (FS_ENOSPC, 28), (FS_EROFS, 30), (FS_EMLINK, 31), (FS_ERANGE, 34), (FS_ENAMETOOLONG, 36),
    (FS_ENOSYS, 38), (FS_ENOTEMPTY, 39), (FS_ELOOP, 40), (FS_EOVERFLOW, 75), (FS_EDQUOT, 122),
    (FS_ESTALE, 116), (FS_ENOTSUP, 95), (FS_EINTR, 4), (FS_ETXTBSY, 26), (FS_EDEADLK, 35),
    (FS_ENOLCK, 37)]"

(* src/pkg/common/fserr/fserr_linux.go:11-14 toErrnoExtra *)
definition toErrnoExtra :: "(FsError, nat) gomap" where
  "toErrnoExtra = [(FS_ENO_XATTR, 61)]"

(* src/pkg/common/fserr/fserr.go:53-56 init *)
definition toErrno :: "(FsError, nat) gomap" where
  "toErrno = fold (\<lambda>(fe, en). gm_put fe en) toErrnoExtra toErrno_table"

(* src/pkg/common/fserr/fserr.go:51-60 init *)
definition fromErrno :: "(FsError \<times> nat) list \<Rightarrow> (nat, FsError) gomap" where
  "fromErrno iteration = fold (\<lambda>(fe, en). gm_put en fe) iteration []"

(* src/pkg/common/fserr/fserr.go:62-71 ToErrno *)
definition ToErrno :: "FsError \<Rightarrow> nat" where
  "ToErrno e = (if e = FS_OK then 0 else case gm_get toErrno e of Some en \<Rightarrow> en | None \<Rightarrow> 5)"

(* src/pkg/common/fserr/fserr.go:73-82 FromErrno *)
definition FromErrno :: "(FsError \<times> nat) list \<Rightarrow> nat \<Rightarrow> FsError" where
  "FromErrno iteration en =
    (if en = 0 then FS_OK
     else case gm_get (fromErrno iteration) en of Some fe \<Rightarrow> fe | None \<Rightarrow> FS_EIO)"

datatype grpc_code = NotFound | PermissionDenied | Unauthenticated | OtherCode nat

(* src/pkg/common/fserr/fserr.go:84-95 FromGRPCCode *)
fun FromGRPCCode :: "grpc_code \<Rightarrow> FsError" where
  "FromGRPCCode NotFound = FS_ENOENT"
| "FromGRPCCode PermissionDenied = FS_EACCES"
| "FromGRPCCode Unauthenticated = FS_EACCES"
| "FromGRPCCode (OtherCode n) = FS_EIO"

section \<open>The version token\<close>

text \<open>The attribute record of the FUSE library, as the server and the wire use it.\<close>

record fuse_Attr =
  fa_Ino :: u64
  fa_Size :: u64
  fa_Blocks :: u64
  fa_Atime :: u64
  fa_Mtime :: u64
  fa_Ctime :: u64
  fa_Atimensec :: u32
  fa_Mtimensec :: u32
  fa_Ctimensec :: u32
  fa_Mode :: u32
  fa_Nlink :: u32
  fa_Uid :: u32
  fa_Gid :: u32
  fa_Rdev :: u32
  fa_Blksize :: u32

definition stamp_ns :: "u64 \<Rightarrow> u32 \<Rightarrow> u64" where
  "stamp_ns sec nsec = sec * 1000000000 + ucast nsec"

definition version_mix :: "u64 \<Rightarrow> u64 \<Rightarrow> u64 \<Rightarrow> u64" where
  "version_mix m c s = m * 11400714819323198485 + c * 14181476777654086739 + s * 16597577988658736719"

(* src/pkg/server/io/version.go:5-33 VersionFromAttr *)
definition VersionFromAttr :: "fuse_Attr option \<Rightarrow> u64" where
  "VersionFromAttr a =
    (case a of
       None \<Rightarrow> 0
     | Some a \<Rightarrow>
        (let v = version_mix (stamp_ns (fa_Mtime a) (fa_Mtimensec a))
                             (stamp_ns (fa_Ctime a) (fa_Ctimensec a)) (fa_Size a)
         in if v = 0 then 1 else v))"

section \<open>Inverting the error table\<close>

lemma fold_put_get:
  assumes "distinct (map snd it)"
  shows "gm_get (fold (\<lambda>(fe, en). gm_put en fe) it m) en =
    (case find (\<lambda>p. snd p = en) it of Some p \<Rightarrow> Some (fst p) | None \<Rightarrow> gm_get m en)"
  using assms
proof (induction it arbitrary: m)
  case (Cons p it)
  have "snd p \<notin> snd ` set it" using Cons.prems by simp
  then have "find (\<lambda>q. snd q = snd p) it = None"
    unfolding find_None_iff by (metis image_eqI)
  then show ?case using Cons by (cases p) (auto simp: gm_get_put split: option.splits)
qed simp

lemma find_unique:
  assumes "distinct (map snd it)" and "p \<in> set it"
  shows "find (\<lambda>q. snd q = snd p) it = Some p"
  using assms by (induction it) (force)+

lemma toErrno_snd_distinct: "distinct (map snd toErrno)"
  by (simp add: toErrno_def toErrnoExtra_def toErrno_table_def)

lemma toErrno_total: "e \<noteq> FS_OK \<Longrightarrow> (e, ToErrno e) \<in> set toErrno \<and> ToErrno e \<noteq> 0"
  by (cases e) (simp_all add: ToErrno_def toErrno_def toErrnoExtra_def toErrno_table_def)

section \<open>Properties\<close>

lemma FromErrno_ToErrno:
  assumes "mset iteration = mset toErrno"
  shows "FromErrno iteration (ToErrno e) = e"
proof (cases "e = FS_OK")
  case False
  then have in_t: "(e, ToErrno e) \<in> set toErrno" and nz: "ToErrno e \<noteq> 0" using toErrno_total by auto
  have d: "distinct (map snd iteration)"
    using toErrno_snd_distinct assms by (metis mset_map mset_eq_imp_distinct_iff)
  have "(e, ToErrno e) \<in> set iteration" using in_t assms mset_eq_setD by blast
  from find_unique[OF d this] show ?thesis
    using nz by (simp add: FromErrno_def fromErrno_def fold_put_get[OF d])
qed (simp add: FromErrno_def ToErrno_def)

text \<open>C29: every error code survives the trip over the wire: whatever order the inverse table is built in,
  \<open>FromErrno\<close> of the errno of a code is that code.\<close>

theorem errno_roundtrip:
  assumes "mset iteration = mset toErrno"
  shows "FromErrno iteration (ToErrno e) = e"
  using FromErrno_ToErrno[OF assms] .

theorem errno_roundtrip_witness: "FromErrno (rev toErrno) (ToErrno FS_ENO_XATTR) = FS_ENO_XATTR"
  using errno_roundtrip[of "rev toErrno" FS_ENO_XATTR] by simp

lemma odd_mult_cancel:
  assumes "(q :: u64) * r = 1" and "x * q = y * q"
  shows "x = y"
proof -
  have "x = (x * q) * r" using assms(1) by (simp add: mult.assoc)
  also have "\<dots> = y" using assms(1) unfolding assms(2) by (simp add: mult.assoc)
  finally show ?thesis .
qed

lemma version_mix_inj:
  "version_mix m c s = version_mix m c s' \<Longrightarrow> s = s'"
  "version_mix m c s = version_mix m c' s \<Longrightarrow> c = c'"
  "version_mix m c s = version_mix m' c s \<Longrightarrow> m = m'"
  using odd_mult_cancel[of 16597577988658736719 734563598800758959 s s']
    odd_mult_cancel[of 14181476777654086739 11291846944257947611 c c']
    odd_mult_cancel[of 11400714819323198485 17428512612931826493 m m']
  by (simp_all add: version_mix_def)

text \<open>
  A write sets the modification and the change time to the same instant.  The two multipliers
  then add up to an odd multiple of 8, so that instants less than \<open>2 ^ 61\<close> ns (73 years) apart stay
  distinct.
\<close>

lemma version_mix_same_stamp:
  assumes "version_mix t t s = version_mix t' t' s" and "unat t < 2 ^ 61" and "unat t' < 2 ^ 61"
  shows "t = t'"
proof -
  have e: "u * 11400714819323198485 + u * 14181476777654086739 = (u * 8) * 891930940408466701" for u :: u64
  proof -
    have "(11400714819323198485 :: u64) + 14181476777654086739 = 8 * 891930940408466701" by simp
    then show ?thesis by (simp only: mult.assoc distrib_left[symmetric])
  qed
  have "(t * 8) * 891930940408466701 = (t' * 8) * 891930940408466701"
    using assms(1) unfolding version_mix_def e by simp
  then have "t * 8 = t' * 8"
    by (rule odd_mult_cancel[of 891930940408466701 12048462557992225221, rotated]) simp
  then have "unat (t * 8) = unat (t' * 8)" by simp
  then show ?thesis using assms(2,3) by (simp add: unat_word_ariths word_unat_eq_iff)
qed

text \<open>The freshness token of an existing attribute is never the value 0 that stands for no
  attribute; two attributes that differ only in size, only in the modification time or only in
  the change time (as nanosecond stamps), or that have equal modification and change stamps within
  73 years, mix to different values, so that only the two raw values 0 and 1 share a token.\<close>

theorem version_token_changes:
  fixes a b :: fuse_Attr
  defines "ma \<equiv> stamp_ns (fa_Mtime a) (fa_Mtimensec a)" and "ca \<equiv> stamp_ns (fa_Ctime a) (fa_Ctimensec a)"
    and "mb \<equiv> stamp_ns (fa_Mtime b) (fa_Mtimensec b)" and "cb \<equiv> stamp_ns (fa_Ctime b) (fa_Ctimensec b)"
  assumes "VersionFromAttr (Some a) = VersionFromAttr (Some b)"
    and "{version_mix ma ca (fa_Size a), version_mix mb cb (fa_Size b)} \<noteq> {0, 1}"
    and "(ma = mb \<and> ca = cb) \<or> (ma = mb \<and> fa_Size a = fa_Size b) \<or> (ca = cb \<and> fa_Size a = fa_Size b)
         \<or> (ma = ca \<and> mb = cb \<and> fa_Size a = fa_Size b \<and> unat ma < 2 ^ 61 \<and> unat mb < 2 ^ 61)"
  shows "ma = mb \<and> ca = cb \<and> fa_Size a = fa_Size b \<and> VersionFromAttr (Some a) \<noteq> 0"
proof -
  have v: "version_mix ma ca (fa_Size a) = version_mix mb cb (fa_Size b)"
    using assms(5,6) by (auto simp: VersionFromAttr_def Let_def ma_def ca_def mb_def cb_def split: if_splits)
  have "VersionFromAttr (Some a) \<noteq> 0" by (simp add: VersionFromAttr_def Let_def)
  then show ?thesis
    using v assms(7) version_mix_inj version_mix_same_stamp by metis
qed

definition ex_attr :: "u64 \<Rightarrow> fuse_Attr" where
  "ex_attr n = \<lparr>fa_Ino = 7, fa_Size = n, fa_Blocks = 1, fa_Atime = 5, fa_Mtime = 5, fa_Ctime = 5,
     fa_Atimensec = 0, fa_Mtimensec = 0, fa_Ctimensec = 0, fa_Mode = 33188, fa_Nlink = 1, fa_Uid = 0,
     fa_Gid = 0, fa_Rdev = 0, fa_Blksize = 4096\<rparr>"

theorem version_token_changes_witness:
  "VersionFromAttr (Some (ex_attr 1))
     \<noteq> VersionFromAttr (Some (ex_attr 2))"
  using version_token_changes[of
      "ex_attr 1"
      "ex_attr 2"]
  by (auto simp: ex_attr_def stamp_ns_def version_mix_def doubleton_eq_iff)

end
