(* ===== verification/Deleg_Arbiter.thy ===== *)
theory Deleg_Arbiter
  imports Deleg_Table Deleg_Cooldown Watermark Deleg_Recall Fs_Error
begin

text \<open>
  The write-delegation arbiter (\<^verbatim>\<open>pkg/server/delegation/arbiter.go\<close>) and the two controller
  helpers that call it (\<^verbatim>\<open>pkg/server/controller/delegation_handler.go\<close>).

  \<open>OnMutation\<close> holds the mutex in two critical sections and runs the recall and the durable revoke
  between them without it.  The model has one definition per section (\<open>om_begin\<close>, \<open>om_outcome\<close>,
  \<open>om_fence\<close>, \<open>om_finish\<close>, \<open>om_recheck\<close>), the sequential composition \<open>OnMutation\<close>, and a step relation
  that interleaves any number of mutations, grant requests and session reaps.  The recall's
  result, the outcome of every durable commit and the clock are inputs.
\<close>

section \<open>State and operations\<close>

(* src/pkg/server/delegation/arbiter.go:39-55 Arbiter *)
record Arbiter =
  ar_table :: delegationTable
  ar_cooldown :: cooldownTable
  ar_regions :: "(path, nat) gomap"
  ar_store :: bboltStore
  ar_nextDone :: nat
  ar_closed :: "nat list"

(* src/pkg/server/delegation/arbiter.go:57-69 NewArbiter *)
definition NewArbiter :: "cooldownConfig \<Rightarrow> bboltStore \<Rightarrow> Arbiter" where
  "NewArbiter cfg store =
    \<lparr>ar_table = newDelegationTable, ar_cooldown = newCooldownTable cfg, ar_regions = [],
     ar_store = store, ar_nextDone = 0, ar_closed = []\<rparr>"

record DelegationGrant =
  dg_GrantedRoot :: path
  dg_ExcludedPaths :: "path list"
  dg_Gen :: u64
  dg_RetryAfterMs :: u64

definition empty_grant :: DelegationGrant where
  "empty_grant = \<lparr>dg_GrantedRoot = '''', dg_ExcludedPaths = [], dg_Gen = 0, dg_RetryAfterMs = 0\<rparr>"

(* src/pkg/server/delegation/arbiter.go:132-132 cfgRetryMs *)
definition cfgRetryMs :: "Arbiter \<Rightarrow> u64" where
  "cfgRetryMs a = (let b = cc_Base (ct_cfg (ar_cooldown a)) in of_int (sgn b * (\<bar>b\<bar> div 1000000)))"

(* src/pkg/server/delegation/arbiter.go:92-130 Request *)
definition Request ::
  "bool \<Rightarrow> int \<Rightarrow> string \<Rightarrow> path \<Rightarrow> string \<Rightarrow> string \<Rightarrow> string \<Rightarrow> Arbiter \<Rightarrow> DelegationGrant \<times> Arbiter" where
  "Request commit now owner root prin vol epoch a =
    (if root = '''' then (empty_grant, a)
     else
       (let a1 = a\<lparr>ar_cooldown := sweep now (ar_cooldown a)\<rparr>;
            deny = empty_grant\<lparr>dg_RetryAfterMs := cfgRetryMs a1\<rparr>
        in if cooling (ar_cooldown a1) root now then (deny, a1)
           else
             (let fenceKey = \<lparr>wk_Identity = prin, wk_Volume = vol, wk_Epoch = epoch\<rparr>
              in case wm_NextGen commit fenceKey (ar_store a1) of
                   (Inl _, store) \<Rightarrow> (deny, a1\<lparr>ar_store := store\<rparr>)
                 | (Inr gen, store) \<Rightarrow>
                     (case grant owner root prin vol epoch gen (ar_table a1) of
                        (None, _) \<Rightarrow> (deny, a1\<lparr>ar_store := store\<rparr>)
                      | (Some (granted, excluded), t) \<Rightarrow>
                          (\<lparr>dg_GrantedRoot = granted, dg_ExcludedPaths = excluded, dg_Gen = gen,
                            dg_RetryAfterMs = 0\<rparr>,
                           a1\<lparr>ar_store := store, ar_table := t\<rparr>)))))"

datatype om_error = CoalescedRecallFailed | RecallFailed recall_result | RevokeFailed wm_error

datatype om_next = OmProceed | OmWait nat | OmLead string path "entry option" nat

(* src/pkg/server/delegation/arbiter.go:138-168 OnMutation *)
definition om_begin :: "string \<Rightarrow> path \<Rightarrow> Arbiter \<Rightarrow> om_next \<times> Arbiter" where
  "om_begin contender p a =
    (case ownerOf (ar_table a) p of
       None \<Rightarrow> (OmProceed, a)
     | Some (owner, root) \<Rightarrow>
         if owner = contender then (OmProceed, a)
         else (case gm_get (ar_regions a) root of
             Some done_ch \<Rightarrow> (OmWait done_ch, a)
           | None \<Rightarrow>
               (OmLead owner root (entryForRoot (ar_table a) root) (ar_nextDone a),
                a\<lparr>ar_regions := gm_put root (ar_nextDone a) (ar_regions a),
                  ar_nextDone := Suc (ar_nextDone a)\<rparr>)))"

(* src/pkg/server/delegation/arbiter.go:150-160 OnMutation *)
definition om_recheck :: "string \<Rightarrow> path \<Rightarrow> Arbiter \<Rightarrow> om_error option" where
  "om_recheck contender p a =
    (case ownerOf (ar_table a) p of
       None \<Rightarrow> None
     | Some (owner, _) \<Rightarrow> if owner \<noteq> contender then Some CoalescedRecallFailed else None)"

(* src/pkg/server/delegation/arbiter.go:173-196 OnMutation *)
definition om_outcome :: "recall_result \<Rightarrow> bool \<times> om_error option" where
  "om_outcome res =
    (let handoff = (res = RecallOk \<or> res = RecallNoStream)
     in (handoff, if handoff then None else Some (RecallFailed res)))"

definition fence_key :: "entry \<Rightarrow> wm_Key" where
  "fence_key e = \<lparr>wk_Identity = e_principal e, wk_Volume = e_volume e, wk_Epoch = e_epoch e\<rparr>"

(* src/pkg/server/delegation/arbiter.go:198-208 OnMutation *)
definition om_fence ::
  "bool \<Rightarrow> entry option \<Rightarrow> bool \<times> om_error option \<Rightarrow> bboltStore \<Rightarrow> (bool \<times> om_error option) \<times> bboltStore" where
  "om_fence commit ent oc store =
    (case oc of (handoff, err) \<Rightarrow>
      (case ent of
         None \<Rightarrow> ((handoff, err), store)
       | Some e \<Rightarrow>
           if handoff \<and> e_gen e > 0 then
             (case wm_RevokeGen commit (fence_key e) (e_gen e) store of
                (Inl rErr, store') \<Rightarrow> ((False, Some (RevokeFailed rErr)), store')
              | (Inr _, store') \<Rightarrow> ((handoff, err), store'))
           else ((handoff, err), store)))"

(* src/pkg/server/delegation/arbiter.go:210-222 OnMutation *)
definition om_finish :: "int \<Rightarrow> path \<Rightarrow> nat \<Rightarrow> bool \<Rightarrow> Arbiter \<Rightarrow> Arbiter" where
  "om_finish now root done_ch handoff a =
    (let a1 = (if handoff then
                 a\<lparr>ar_table := release root (ar_table a), ar_cooldown := trip root now (ar_cooldown a)\<rparr>
               else a)
     in a1\<lparr>ar_regions := gm_del root (ar_regions a1), ar_closed := done_ch # ar_closed a1\<rparr>)"

text \<open>One mutation with nothing running beside it; \<open>None\<close> when it would wait for a leader.\<close>

(* src/pkg/server/delegation/arbiter.go:134-222 OnMutation *)
definition OnMutation ::
  "recall_result \<Rightarrow> bool \<Rightarrow> int \<Rightarrow> string \<Rightarrow> path \<Rightarrow> Arbiter \<Rightarrow> (om_error option \<times> Arbiter) option" where
  "OnMutation res commit now contender p a =
    (case om_begin contender p a of
       (OmProceed, a1) \<Rightarrow> Some (None, a1)
     | (OmWait _, a1) \<Rightarrow> None
     | (OmLead owner root ent done_ch, a1) \<Rightarrow>
         (case om_fence commit ent (om_outcome res) (ar_store a1) of
            ((handoff, err), store) \<Rightarrow>
              Some (err, om_finish now root done_ch handoff (a1\<lparr>ar_store := store\<rparr>))))"

(* src/pkg/server/delegation/arbiter.go:242-259 ReleaseSession *)
definition revoke_drained :: "bool \<Rightarrow> entry \<Rightarrow> bboltStore \<Rightarrow> bboltStore" where
  "revoke_drained commit e store =
    (if e_gen e = 0 then store else snd (wm_RevokeGen commit (fence_key e) (e_gen e) store))"

(* src/pkg/server/delegation/arbiter.go:224-260 ReleaseSession *)
definition ReleaseSession :: "bool list \<Rightarrow> string \<Rightarrow> Arbiter \<Rightarrow> Arbiter" where
  "ReleaseSession commits sid a =
    (case drainOwner sid (ar_table a) of
       (drained, t) \<Rightarrow>
         a\<lparr>ar_table := t,
           ar_store := fold (\<lambda>(c, e). revoke_drained c e) (zip commits drained) (ar_store a)\<rparr>)"

(* src/pkg/server/controller/delegation_handler.go:11-25 arbitrateContention *)
definition arbitrateContention ::
  "recall_result \<Rightarrow> bool \<Rightarrow> int \<Rightarrow> Arbiter option \<Rightarrow> string \<Rightarrow> path \<Rightarrow> (FsError \<times> Arbiter option) option" where
  "arbitrateContention res commit now arb sid p =
    (case arb of
       None \<Rightarrow> Some (FS_OK, None)
     | Some a \<Rightarrow>
         (case OnMutation res commit now sid p a of
            None \<Rightarrow> None
          | Some (Some _, a') \<Rightarrow> Some (FS_EAGAIN, Some a')
          | Some (None, a') \<Rightarrow> Some (FS_OK, Some a')))"

(* src/pkg/server/controller/delegation_handler.go:27-40 grantFor *)
definition grantFor ::
  "bool \<Rightarrow> int \<Rightarrow> Arbiter option \<Rightarrow> string \<Rightarrow> string \<Rightarrow> string \<Rightarrow> (path \<times> string) option
    \<Rightarrow> DelegationGrant option \<times> Arbiter option" where
  "grantFor commit now arb sid prin vol req =
    (case (arb, req) of
       (Some a, Some (root, epoch)) \<Rightarrow>
         if root = '''' then (None, arb)
         else (case Request commit now sid root prin vol epoch a of (g, a') \<Rightarrow> (Some g, Some a'))
     | _ \<Rightarrow> (None, arb))"

section \<open>Interleaved executions\<close>

datatype om_pc =
    OIdle
  | OWaiting string path nat
  | OLeading path "entry option" nat
  | OFenced path "entry option" nat bool "om_error option"
  | ORevoking "entry list"
  | ODone "om_error option"

text \<open>The entries whose leader has completed a handoff are recorded in \<open>sy_handoffs\<close>.\<close>

record arb_sys =
  sy_arb :: Arbiter
  sy_pc :: "nat \<Rightarrow> om_pc"
  sy_handoffs :: "entry list"

definition next_pc :: "string \<Rightarrow> path \<Rightarrow> om_next \<Rightarrow> om_pc" where
  "next_pc contender p nx =
    (case nx of OmProceed \<Rightarrow> ODone None | OmWait d \<Rightarrow> OWaiting contender p d
     | OmLead owner root e d \<Rightarrow> OLeading root e d)"

(* src/pkg/server/delegation/arbiter.go:134-260 OnMutation *)
inductive arb_step :: "arb_sys \<Rightarrow> arb_sys \<Rightarrow> bool" where
  as_begin: "sy_pc s t = OIdle \<Longrightarrow> om_begin contender p (sy_arb s) = (nx, a') \<Longrightarrow>
    arb_step s (s\<lparr>sy_arb := a', sy_pc := (sy_pc s)(t := next_pc contender p nx)\<rparr>)"
| as_fence: "sy_pc s t = OLeading root e d \<Longrightarrow>
    om_fence commit e (om_outcome res) (ar_store (sy_arb s)) = ((handoff, err), store') \<Longrightarrow>
    arb_step s (s\<lparr>sy_arb := (sy_arb s)\<lparr>ar_store := store'\<rparr>,
                  sy_pc := (sy_pc s)(t := OFenced root e d handoff err)\<rparr>)"
| as_finish: "sy_pc s t = OFenced root e d handoff err \<Longrightarrow>
    arb_step s (s\<lparr>sy_arb := om_finish now root d handoff (sy_arb s), sy_pc := (sy_pc s)(t := ODone err),
                  sy_handoffs := (case e of Some x \<Rightarrow> if handoff then [x] else [] | None \<Rightarrow> []) @ sy_handoffs s\<rparr>)"
| as_woken: "sy_pc s t = OWaiting contender p d \<Longrightarrow> d \<in> set (ar_closed (sy_arb s)) \<Longrightarrow>
    arb_step s (s\<lparr>sy_pc := (sy_pc s)(t := ODone (om_recheck contender p (sy_arb s)))\<rparr>)"
| as_request: "CHR 0x00 \<notin> set prin \<Longrightarrow> CHR 0x00 \<notin> set vol \<Longrightarrow>
    arb_step s (s\<lparr>sy_arb := snd (Request commit now owner root prin vol epoch (sy_arb s))\<rparr>)"
| as_reap: "sy_pc s t = OIdle \<Longrightarrow> drainOwner sid (ar_table (sy_arb s)) = (drained, tbl) \<Longrightarrow>
    arb_step s (s\<lparr>sy_arb := (sy_arb s)\<lparr>ar_table := tbl\<rparr>, sy_pc := (sy_pc s)(t := ORevoking drained)\<rparr>)"
| as_revoke: "sy_pc s t = ORevoking (e # es) \<Longrightarrow>
    arb_step s (s\<lparr>sy_arb := (sy_arb s)\<lparr>ar_store := revoke_drained commit e (ar_store (sy_arb s))\<rparr>,
                  sy_pc := (sy_pc s)(t := ORevoking es)\<rparr>)"

definition arb_init :: "cooldownConfig \<Rightarrow> bboltStore \<Rightarrow> arb_sys" where
  "arb_init cfg store = \<lparr>sy_arb = NewArbiter cfg store, sy_pc = (\<lambda>_. OIdle), sy_handoffs = []\<rparr>"

inductive arb_reach :: "cooldownConfig \<Rightarrow> bboltStore \<Rightarrow> arb_sys \<Rightarrow> bool" for cfg store where
  ab_init: "arb_reach cfg store (arb_init cfg store)"
| ab_step: "arb_reach cfg store s \<Longrightarrow> arb_step s s' \<Longrightarrow> arb_reach cfg store s'"

section \<open>Leadership\<close>

fun lead_of :: "om_pc \<Rightarrow> (path \<times> nat) option" where
  "lead_of (OLeading root e d) = Some (root, d)"
| "lead_of (OFenced root e d h err) = Some (root, d)"
| "lead_of _ = None"

definition lead_inv :: "arb_sys \<Rightarrow> bool" where
  "lead_inv s \<longleftrightarrow>
    (\<forall>t root d. lead_of (sy_pc s t) = Some (root, d) \<longrightarrow>
        gm_get (ar_regions (sy_arb s)) root = Some d \<and> d \<notin> set (ar_closed (sy_arb s))) \<and>
    (\<forall>t t' root root' d. lead_of (sy_pc s t) = Some (root, d) \<and> lead_of (sy_pc s t') = Some (root', d) \<longrightarrow> t = t') \<and>
    (\<forall>root d. gm_get (ar_regions (sy_arb s)) root = Some d \<longrightarrow>
        d < ar_nextDone (sy_arb s) \<and> (\<exists>t. lead_of (sy_pc s t) = Some (root, d))) \<and>
    (\<forall>d \<in> set (ar_closed (sy_arb s)). d < ar_nextDone (sy_arb s)) \<and>
    (\<forall>t c p d. sy_pc s t = OWaiting c p d \<longrightarrow>
        d \<in> set (ar_closed (sy_arb s)) \<or> (\<exists>root. gm_get (ar_regions (sy_arb s)) root = Some d))"

lemma lead_invI:
  assumes "\<And>t root d. lead_of (sy_pc s t) = Some (root, d) \<Longrightarrow> gm_get (ar_regions (sy_arb s)) root = Some d"
    and "\<And>t root d. lead_of (sy_pc s t) = Some (root, d) \<Longrightarrow> d \<notin> set (ar_closed (sy_arb s))"
    and "\<And>t t' root root' d. lead_of (sy_pc s t) = Some (root, d) \<Longrightarrow> lead_of (sy_pc s t') = Some (root', d) \<Longrightarrow> t = t'"
    and "\<And>root d. gm_get (ar_regions (sy_arb s)) root = Some d \<Longrightarrow> d < ar_nextDone (sy_arb s)"
    and "\<And>root d. gm_get (ar_regions (sy_arb s)) root = Some d \<Longrightarrow> \<exists>t. lead_of (sy_pc s t) = Some (root, d)"
    and "\<And>d. d \<in> set (ar_closed (sy_arb s)) \<Longrightarrow> d < ar_nextDone (sy_arb s)"
    and "\<And>t c p d. sy_pc s t = OWaiting c p d \<Longrightarrow>
        d \<in> set (ar_closed (sy_arb s)) \<or> (\<exists>root. gm_get (ar_regions (sy_arb s)) root = Some d)"
  shows "lead_inv s"
  unfolding lead_inv_def using assms by blast

lemma lead_invD:
  assumes "lead_inv s"
  shows "lead_of (sy_pc s t) = Some (root, d) \<Longrightarrow> gm_get (ar_regions (sy_arb s)) root = Some d"
    and "lead_of (sy_pc s t) = Some (root, d) \<Longrightarrow> d \<notin> set (ar_closed (sy_arb s))"
    and "lead_of (sy_pc s t) = Some (root, d) \<Longrightarrow> lead_of (sy_pc s t') = Some (root', d) \<Longrightarrow> t = t'"
    and "gm_get (ar_regions (sy_arb s)) root = Some d \<Longrightarrow> d < ar_nextDone (sy_arb s)"
    and "gm_get (ar_regions (sy_arb s)) root = Some d \<Longrightarrow> \<exists>t. lead_of (sy_pc s t) = Some (root, d)"
    and "d \<in> set (ar_closed (sy_arb s)) \<Longrightarrow> d < ar_nextDone (sy_arb s)"
    and "sy_pc s t = OWaiting c p d \<Longrightarrow>
        d \<in> set (ar_closed (sy_arb s)) \<or> (\<exists>root. gm_get (ar_regions (sy_arb s)) root = Some d)"
  using assms unfolding lead_inv_def by blast+

text \<open>Steps that keep the regions, the closed channels and every thread's role keep the invariant.\<close>

lemma lead_inv_frame:
  assumes "lead_inv s"
    and "ar_regions (sy_arb s') = ar_regions (sy_arb s)" "ar_closed (sy_arb s') = ar_closed (sy_arb s)"
    and "ar_nextDone (sy_arb s') = ar_nextDone (sy_arb s)"
    and "\<And>t. lead_of (sy_pc s' t) = lead_of (sy_pc s t)"
    and "\<And>t c p d. sy_pc s' t = OWaiting c p d \<Longrightarrow> sy_pc s t = OWaiting c p d \<or>
           (\<exists>root. gm_get (ar_regions (sy_arb s)) root = Some d)"
  shows "lead_inv s'"
  using assms(1) unfolding lead_inv_def assms(2-5) using assms(6) by blast

lemma Request_frame [simp]:
  "ar_regions (snd (Request c now ow root pr vo ep a)) = ar_regions a"
  "ar_closed (snd (Request c now ow root pr vo ep a)) = ar_closed a"
  "ar_nextDone (snd (Request c now ow root pr vo ep a)) = ar_nextDone a"
  by (auto simp: Request_def Let_def split: prod.splits sum.splits option.splits)

lemma lead_inv_begin:
  assumes inv: "lead_inv s" and idle: "sy_pc s t = OIdle"
    and b: "om_begin contender p (sy_arb s) = (nx, a')"
  shows "lead_inv (s\<lparr>sy_arb := a', sy_pc := (sy_pc s)(t := next_pc contender p nx)\<rparr>)"
proof (cases nx)
  case (OmLead owner root e d)
  note D = lead_invD[OF inv]
  have a': "a' = (sy_arb s)\<lparr>ar_regions := gm_put root d (ar_regions (sy_arb s)), ar_nextDone := Suc d\<rparr>"
    and d: "d = ar_nextDone (sy_arb s)" and free: "gm_get (ar_regions (sy_arb s)) root = None"
    using b OmLead by (auto simp: om_begin_def split: option.splits if_splits)
  have new: "root' \<noteq> root \<and> d' < d" if "lead_of (sy_pc s t') = Some (root', d')" for t' root' d'
    using D(1)[OF that] D(4) free d by auto
  show ?thesis
  proof (rule lead_invI, goal_cases)
    case (1 t' root' d')
    then show ?case using new D(1) by (auto simp: a' OmLead next_pc_def gm_get_put split: if_splits)
  next
    case (2 t' root' d')
    then show ?case using D(2) D(6)[of d] d by (auto simp: a' OmLead next_pc_def split: if_splits)
  next
    case (3 t1 t2 r1 r2 d')
    then show ?case
      using D(3) new[of t1 r1 d'] new[of t2 r2 d'] by (auto simp: OmLead next_pc_def split: if_splits)
  next
    case (4 root' d')
    then show ?case using D(4) d by (auto simp: a' gm_get_put less_Suc_eq split: if_splits)
  next
    case (5 root' d')
    show ?case
    proof (cases "root' = root")
      case True
      then show ?thesis using 5 by (intro exI[of _ t]) (simp add: a' OmLead next_pc_def gm_get_put)
    next
      case False
      then obtain t' where t': "lead_of (sy_pc s t') = Some (root', d')"
        using D(5)[of root' d'] 5 by (auto simp: a' gm_get_put)
      then show ?thesis using idle by (intro exI[of _ t']) auto
    qed
  next
    case (6 d')
    then show ?case using D(6) d by (auto simp: a' less_Suc_eq)
  next
    case (7 t' c q d')
    then have w: "sy_pc s t' = OWaiting c q d'" by (auto simp: OmLead next_pc_def split: if_splits)
    have "\<exists>root'. gm_get (gm_put root d (ar_regions (sy_arb s))) root' = Some d'"
      if "gm_get (ar_regions (sy_arb s)) r = Some d'" for r
      using that free by (intro exI[of _ r]) (auto simp: gm_get_put)
    then show ?case using D(7)[OF w] by (auto simp: a')
  qed
qed (use b in \<open>auto intro!: lead_inv_frame[OF inv] simp: next_pc_def om_begin_def idle
       split: option.splits if_splits\<close>)

lemma lead_inv_finish:
  assumes inv: "lead_inv s" and pc: "sy_pc s t = OFenced root e d h err"
  shows "lead_inv (s\<lparr>sy_arb := om_finish now root d h (sy_arb s), sy_pc := (sy_pc s)(t := ODone err), sy_handoffs := hs\<rparr>)"
proof -
  note D = lead_invD[OF inv]
  have l: "lead_of (sy_pc s t) = Some (root, d)" using pc by simp
  have reg: "ar_regions (om_finish now root d h (sy_arb s)) = gm_del root (ar_regions (sy_arb s))"
    "ar_closed (om_finish now root d h (sy_arb s)) = d # ar_closed (sy_arb s)"
    "ar_nextDone (om_finish now root d h (sy_arb s)) = ar_nextDone (sy_arb s)"
    by (auto simp: om_finish_def Let_def)
  have other: "root' \<noteq> root \<and> d' \<noteq> d" if "lead_of (sy_pc s t') = Some (root', d')" "t' \<noteq> t" for t' root' d'
    using D(1)[OF that(1)] D(1)[OF l] D(3)[OF l, of t' root'] that by auto
  show ?thesis
  proof (rule lead_invI, goal_cases)
    case (1 t' root' d')
    then show ?case using other D(1) by (auto simp: reg gm_get_del split: if_splits)
  next
    case (2 t' root' d')
    then show ?case using other[of t' root' d'] D(2) by (auto simp: reg split: if_splits)
  next
    case (3 t1 t2 r1 r2 d')
    then show ?case using D(3) by (auto split: if_splits)
  next
    case (4 root' d')
    then show ?case using D(4) by (auto simp: reg gm_get_del split: if_splits)
  next
    case (5 root' d')
    then obtain t' where "lead_of (sy_pc s t') = Some (root', d')" "root' \<noteq> root"
      using D(5)[of root' d'] by (auto simp: reg gm_get_del split: if_splits)
    then show ?case using l by (intro exI[of _ t']) auto
  next
    case (6 d')
    then show ?case using D(6) D(4)[OF D(1)[OF l]] by (auto simp: reg)
  next
    case (7 t' c q d')
    then have w: "sy_pc s t' = OWaiting c q d'" by (auto split: if_splits)
    have "d' = d \<or> (\<exists>r'. gm_get (gm_del root (ar_regions (sy_arb s))) r' = Some d')"
      if "gm_get (ar_regions (sy_arb s)) r = Some d'" for r
      using that D(1)[OF l] by (cases "r = root") (auto simp: gm_get_del)
    then show ?case using D(7)[OF w] by (auto simp: reg)
  qed
qed

lemma lead_inv_step:
  assumes "arb_step s s'" and "lead_inv s"
  shows "lead_inv s'"
  using assms
proof (cases rule: arb_step.cases)
  case (as_begin t contender p nx a')
  then show ?thesis using assms(2) lead_inv_begin by blast
next
  case (as_finish t root e d handoff err now)
  then show ?thesis using assms(2) lead_inv_finish by blast
qed (auto intro!: lead_inv_frame[OF assms(2)] split: if_splits)

lemma arb_reach_lead: "arb_reach cfg store s \<Longrightarrow> lead_inv s"
proof (induction rule: arb_reach.induct)
  case ab_init
  show ?case by (rule lead_invI) (auto simp: arb_init_def NewArbiter_def)
qed (use lead_inv_step in blast)

section \<open>Fencing\<close>

definition revoked :: "bboltStore \<Rightarrow> entry \<Rightarrow> bool" where
  "revoked store e \<longleftrightarrow> (\<exists>r. wm_Get store (fence_key e) = Inr r \<and> e_gen e \<in> set (wr_RevokedGens r))"

abbreviation plain_entry :: "entry \<Rightarrow> bool" where
  "plain_entry e \<equiv> key_plain (fence_key e)"

lemma revoked_after_revoke:
  "key_plain k \<Longrightarrow> plain_entry e \<Longrightarrow> revoked store e \<Longrightarrow> revoked (snd (wm_RevokeGen c k g store)) e"
  using bbolt.revoke_grows[of k "fence_key e" store _ c g] by (fastforce simp: revoked_def rec_grows_def)

lemma revoked_after_nextgen:
  "key_plain k \<Longrightarrow> plain_entry e \<Longrightarrow> revoked store e \<Longrightarrow> revoked (snd (wm_NextGen c k store)) e"
  using bbolt.nextgen_grows[of k "fence_key e" store _ c] by (fastforce simp: revoked_def rec_grows_def)

lemma revoked_after_drained:
  "plain_entry e' \<Longrightarrow> plain_entry e \<Longrightarrow> revoked store e \<Longrightarrow> revoked (revoke_drained c e' store) e"
  by (simp add: revoke_drained_def revoked_after_revoke)

fun captured :: "om_pc \<Rightarrow> entry list" where
  "captured (OLeading root e d) = (case e of Some x \<Rightarrow> [x] | None \<Rightarrow> [])"
| "captured (OFenced root e d h err) = (case e of Some x \<Rightarrow> [x] | None \<Rightarrow> [])"
| "captured (ORevoking es) = es"
| "captured _ = []"

definition must_be_fenced :: "om_pc \<Rightarrow> entry \<Rightarrow> bool" where
  "must_be_fenced pc e \<longleftrightarrow> (\<exists>root d err. pc = OFenced root (Some e) d True err) \<and> e_gen e \<noteq> 0"

definition fence_inv :: "arb_sys \<Rightarrow> bool" where
  "fence_inv s \<longleftrightarrow>
    (\<forall>e \<in> set (ar_table (sy_arb s)) \<union> set (sy_handoffs s) \<union> (\<Union>t. set (captured (sy_pc s t))). plain_entry e) \<and>
    (\<forall>e. (e \<in> set (sy_handoffs s) \<and> e_gen e \<noteq> 0) \<or> (\<exists>t. must_be_fenced (sy_pc s t) e) \<longrightarrow>
       revoked (ar_store (sy_arb s)) e)"

lemma fence_invI:
  assumes "\<And>e. e \<in> set (ar_table (sy_arb s)) \<Longrightarrow> plain_entry e"
    and "\<And>e. e \<in> set (sy_handoffs s) \<Longrightarrow> plain_entry e"
    and "\<And>e t. e \<in> set (captured (sy_pc s t)) \<Longrightarrow> plain_entry e"
    and "\<And>e. e \<in> set (sy_handoffs s) \<Longrightarrow> e_gen e \<noteq> 0 \<Longrightarrow> revoked (ar_store (sy_arb s)) e"
    and "\<And>e t. must_be_fenced (sy_pc s t) e \<Longrightarrow> revoked (ar_store (sy_arb s)) e"
  shows "fence_inv s"
  unfolding fence_inv_def using assms by blast

lemma must_be_fenced_captured: "must_be_fenced pc e \<Longrightarrow> e \<in> set (captured pc)"
  by (auto simp: must_be_fenced_def)

lemma fence_invD:
  assumes "fence_inv s"
  shows "e \<in> set (ar_table (sy_arb s)) \<Longrightarrow> plain_entry e"
    and "e \<in> set (sy_handoffs s) \<Longrightarrow> plain_entry e"
    and "e \<in> set (captured (sy_pc s t)) \<Longrightarrow> plain_entry e"
    and "e \<in> set (sy_handoffs s) \<Longrightarrow> e_gen e \<noteq> 0 \<Longrightarrow> revoked (ar_store (sy_arb s)) e"
    and "must_be_fenced (sy_pc s t) e \<Longrightarrow> revoked (ar_store (sy_arb s)) e"
    and "must_be_fenced (sy_pc s t) e \<Longrightarrow> plain_entry e"
  using assms must_be_fenced_captured unfolding fence_inv_def by blast+

lemma must_be_fenced_simps [simp]:
  "\<not> must_be_fenced OIdle e" "\<not> must_be_fenced (ODone r) e" "\<not> must_be_fenced (ORevoking es) e"
  "\<not> must_be_fenced (OWaiting c p d) e" "\<not> must_be_fenced (OLeading root x d) e"
  "must_be_fenced (OFenced root x d h err) e \<longleftrightarrow> x = Some e \<and> h \<and> e_gen e \<noteq> 0"
  by (auto simp: must_be_fenced_def)

lemma plain_entryI:
  "CHR 0x00 \<notin> set pr \<Longrightarrow> CHR 0x00 \<notin> set vo \<Longrightarrow>
   key_plain \<lparr>wk_Identity = pr, wk_Volume = vo, wk_Epoch = ep\<rparr>"
  by (simp add: key_plain_def)

lemma Request_table_plain:
  assumes "CHR 0x00 \<notin> set pr" "CHR 0x00 \<notin> set vo"
    and "\<And>e. e \<in> set (ar_table a) \<Longrightarrow> plain_entry e"
    and "e \<in> set (ar_table (snd (Request c now ow root pr vo ep a)))"
  shows "plain_entry e"
  using assms plain_entryI[OF assms(1,2)]
  by (auto simp: Request_def Let_def grant_eq fence_key_def split: prod.splits sum.splits option.splits if_splits)

lemma Request_store:
  "ar_store (snd (Request c now ow root pr vo ep a)) = ar_store a \<or>
   ar_store (snd (Request c now ow root pr vo ep a)) =
     snd (wm_NextGen c \<lparr>wk_Identity = pr, wk_Volume = vo, wk_Epoch = ep\<rparr> (ar_store a))"
  by (auto simp: Request_def Let_def split: prod.splits sum.splits option.splits)

lemma om_fence_store:
  assumes "om_fence c x oc store = ((h, err), store')"
  shows "store' = store \<or> (\<exists>e. x = Some e \<and> store' = snd (wm_RevokeGen c (fence_key e) (e_gen e) store))"
  using assms by (auto simp: om_fence_def split: prod.splits option.splits if_splits sum.splits)

lemma om_fence_revokes:
  assumes "om_fence c (Some e) oc store = ((True, err), store')" and "e_gen e \<noteq> 0"
  shows "revoked store' e"
proof -
  have pos: "e_gen e > 0" using assms(2) by (simp add: word_gt_0)
  obtain res st' where w: "wm_RevokeGen c (fence_key e) (e_gen e) store = (res, st')" by fastforce
  have "\<exists>u. res = Inr u \<and> st' = store'"
    using assms(1) pos by (cases oc; cases res) (simp_all add: om_fence_def w split: if_splits)
  then obtain u where "wm_RevokeGen c (fence_key e) (e_gen e) store = (Inr u, store')" using w by auto
  from bbolt.revoke_then_revoked[OF this] show ?thesis by (auto simp: revoked_def)
qed

lemma om_begin_frame:
  "om_begin contender p a = (nx, a') \<Longrightarrow> ar_table a' = ar_table a \<and> ar_store a' = ar_store a"
  by (auto simp: om_begin_def split: option.splits if_splits)

lemma om_begin_captured:
  assumes "om_begin contender p a = (nx, a')" and "e \<in> set (captured (next_pc contender p nx))"
  shows "e \<in> set (ar_table a)"
proof (cases nx)
  case (OmLead owner root x d)
  then have "x = find (\<lambda>e. e_root e = root) (ar_table a)"
    using assms(1) by (auto simp: om_begin_def entryForRoot_def split: option.splits if_splits)
  moreover have "x = Some e" using assms(2) OmLead by (auto simp: next_pc_def split: option.splits)
  ultimately show ?thesis using find_SomeD by metis
qed (use assms(2) in \<open>auto simp: next_pc_def\<close>)

lemma om_begin_unfenced: "\<not> must_be_fenced (next_pc contender p nx) e"
  by (cases nx) (auto simp: next_pc_def)

lemma om_finish_frame:
  "ar_store (om_finish now root d h a) = ar_store a"
  "set (ar_table (om_finish now root d h a)) \<subseteq> set (ar_table a)"
  by (auto simp: om_finish_def Let_def release_def)

lemma fence_inv_step:
  assumes st: "arb_step s s'" and inv: "fence_inv s"
  shows "fence_inv s'"
  using st
proof (cases rule: arb_step.cases)
  case (as_begin t contender p nx a')
  note D = fence_invD[OF inv]
  show ?thesis unfolding as_begin(1)
    using D om_begin_frame[OF as_begin(3)] om_begin_captured[OF as_begin(3)] om_begin_unfenced
    by (intro fence_invI) (auto split: if_splits)
next
  case (as_fence t root x d commit res handoff err store')
  note D = fence_invD[OF inv]
  have pl: "plain_entry e" if "x = Some e" for e using D(3)[of e t] as_fence(2) that by simp
  have keep: "revoked store' e" if "revoked (ar_store (sy_arb s)) e" "plain_entry e" for e
    using om_fence_store[OF as_fence(3)] that pl revoked_after_revoke by auto
  have new: "revoked store' e" if "x = Some e" "handoff" "e_gen e \<noteq> 0" for e
    using om_fence_revokes[of commit e _ "ar_store (sy_arb s)" err store'] as_fence(3) that by auto
  show ?thesis unfolding as_fence(1)
  proof (rule fence_invI, goal_cases)
    case (5 e t')
    then show ?case
      using new keep D(5)[of t' e] D(6)[of t' e] by (auto split: if_splits)
  next
    case (3 e t')
    then show ?case using D(3)[of e t'] pl by (auto split: if_splits option.splits)
  qed (use D(1,2,4) keep in simp_all)
next
  case (as_finish t root x d handoff err now)
  note D = fence_invD[OF inv]
  have new: "plain_entry e \<and> (e_gen e \<noteq> 0 \<longrightarrow> revoked (ar_store (sy_arb s)) e)" if "x = Some e" "handoff" for e
    using D(3)[of e t] D(5)[of t e] as_finish(2) that by auto
  show ?thesis unfolding as_finish(1)
    using D new om_finish_frame(1)[of now root d handoff "sy_arb s"] om_finish_frame(2)[of now root d handoff "sy_arb s"]
    by (intro fence_invI) (auto split: if_splits option.splits)
next
  case (as_woken t contender p d)
  show ?thesis unfolding as_woken(1)
    using fence_invD[OF inv] by (intro fence_invI) (auto split: if_splits)
next
  case (as_request prin vol commit now owner root epoch)
  note D = fence_invD[OF inv]
  have keep: "revoked (ar_store (snd (Request commit now owner root prin vol epoch (sy_arb s)))) e"
    if "revoked (ar_store (sy_arb s)) e" "plain_entry e" for e
    using Request_store[of commit now owner root prin vol epoch "sy_arb s"] that
      revoked_after_nextgen[OF plain_entryI[OF as_request(2,3)]] by auto
  show ?thesis unfolding as_request(1)
    using D(2,3) keep[OF D(4) D(2)] keep[OF D(5) D(6)]
      Request_table_plain[OF as_request(2,3) D(1), of "sy_arb s"]
    by (intro fence_invI) simp_all
next
  case (as_reap t sid drained tbl)
  show ?thesis unfolding as_reap(1)
    using fence_invD[OF inv] as_reap(3) by (intro fence_invI) (auto simp: drainOwner_def split: if_splits)
next
  case (as_revoke t e es commit)
  note D = fence_invD[OF inv]
  have pl: "plain_entry e" "\<And>x. x \<in> set es \<Longrightarrow> plain_entry x" using D(3)[of _ t] as_revoke(2) by auto
  show ?thesis unfolding as_revoke(1)
    using D(1,2,3) pl revoked_after_drained[OF pl(1) D(2) D(4)] revoked_after_drained[OF pl(1) D(6) D(5)]
    by (intro fence_invI) (auto split: if_splits)
qed

lemma arb_reach_fence: "arb_reach cfg store s \<Longrightarrow> fence_inv s"
proof (induction rule: arb_reach.induct)
  case ab_init
  show ?case by (rule fence_invI) (auto simp: arb_init_def NewArbiter_def newDelegationTable_def)
qed (use fence_inv_step in blast)

section \<open>Properties\<close>

text \<open>C13: persist before handoff.  However mutations, recalls, grant requests and session reaps
  interleave, and whichever durable writes fail, the tagged generation of every delegation a
  completed handoff has captured is in the durable revoked set of its stream; the waiting
  contenders run only after that, because the same step closes their channel.\<close>

theorem handoff_is_durably_fenced:
  assumes "arb_reach cfg store s" and "e \<in> set (sy_handoffs s)" and "e_gen e \<noteq> 0"
  shows "\<exists>r. wm_Get (ar_store (sy_arb s)) (fence_key e) = Inr r \<and> e_gen e \<in> set (wr_RevokedGens r)"
  using fence_invD(4)[OF arb_reach_fence[OF assms(1)] assms(2,3)] by (simp add: revoked_def)

definition ex_cfg :: cooldownConfig where
  "ex_cfg = CooldownConfigDefault"

definition ex_s1 :: arb_sys where
  "ex_s1 = (arb_init ex_cfg [])\<lparr>sy_arb := snd (Request True 0 ''A'' ''d'' ''pa'' ''v'' ''ea'' (NewArbiter ex_cfg []))\<rparr>"

definition ex_entry :: "u64 \<Rightarrow> entry" where
  "ex_entry g = \<lparr>e_owner = ''A'', e_root = ''d'', e_principal = ''pa'', e_volume = ''v'', e_epoch = ''ea'', e_gen = g\<rparr>"

lemmas ex_eval = Request_def NewArbiter_def newDelegationTable_def newCooldownTable_def sweep_def cooling_def
  wm_op_defs getRecord_def putRecord_def zero_record_def grant_eq ex_entry_def fence_key_def keyBytes_def

definition ex_rec :: "u64 \<Rightarrow> u64 list \<Rightarrow> stored" where
  "ex_rec hi gs = JsonOf \<lparr>wr_Watermark = 0, wr_RevokedGens = gs, wr_GenHi = hi\<rparr>"

definition ex_arb :: "delegationTable \<Rightarrow> (path, nat) gomap \<Rightarrow> u64 \<Rightarrow> u64 list \<Rightarrow> nat \<Rightarrow> Arbiter" where
  "ex_arb t regs hi gs n = \<lparr>ar_table = t, ar_cooldown = newCooldownTable ex_cfg, ar_regions = regs,
     ar_store = [(keyBytes (fence_key (ex_entry 1)), ex_rec hi gs)], ar_nextDone = n, ar_closed = []\<rparr>"

lemma ex_Request1: "snd (Request True 0 ''A'' ''d'' ''pa'' ''v'' ''ea'' (NewArbiter ex_cfg [])) = ex_arb [ex_entry 1] [] 1 [] 0"
  by (simp add: ex_eval ex_arb_def ex_rec_def)

lemma ex_reach1: "arb_reach ex_cfg [] ((arb_init ex_cfg [])\<lparr>sy_arb := ex_arb [ex_entry 1] [] 1 [] 0\<rparr>)"
  using ab_step[OF ab_init[of ex_cfg "[]"] as_request[of "''pa''" "''v''" "arb_init ex_cfg []" True 0 "''A''" "''d''" "''ea''"]]
  by (simp add: arb_init_def ex_Request1)

definition ex_lead :: "delegationTable \<Rightarrow> u64 \<Rightarrow> arb_sys" where
  "ex_lead t hi = \<lparr>sy_arb = ex_arb t [(''d'', 0)] hi [] 1,
     sy_pc = (\<lambda>_. OIdle)(0 := OLeading ''d'' (Some (ex_entry 1)) 0), sy_handoffs = []\<rparr>"

lemma ex_reach2: "arb_reach ex_cfg [] (ex_lead [ex_entry 1] 1)"
proof -
  have b: "om_begin ''B'' ''d/f'' (ex_arb [ex_entry 1] [] 1 [] 0)
      = (OmLead ''A'' ''d'' (Some (ex_entry 1)) 0, ex_arb [ex_entry 1] [(''d'', 0)] 1 [] 1)"
    by (simp add: om_begin_def ex_arb_def ex_entry_def contains_def entryForRoot_def)
  have "arb_reach ex_cfg [] ((arb_init ex_cfg [])\<lparr>sy_arb := ex_arb [ex_entry 1] [(''d'', 0)] 1 [] 1,
      sy_pc := (\<lambda>_. OIdle)(0 := OLeading ''d'' (Some (ex_entry 1)) 0)\<rparr>)"
    using ab_step[OF ex_reach1 as_begin[of _ 0 "''B''" "''d/f''", OF _ ]] b
    by (simp add: arb_init_def next_pc_def)
  then show ?thesis by (simp add: ex_lead_def arb_init_def)
qed

definition ex_done :: "delegationTable \<Rightarrow> u64 \<Rightarrow> arb_sys" where
  "ex_done t hi = \<lparr>sy_arb = om_finish 0 ''d'' 0 True (ex_arb t [(''d'', 0)] hi [1] 1),
     sy_pc = (\<lambda>_. OIdle)(0 := ODone None), sy_handoffs = [ex_entry 1]\<rparr>"

lemma ex_handoff:
  assumes "arb_reach ex_cfg [] (ex_lead t hi)"
  shows "arb_reach ex_cfg [] (ex_done t hi)"
proof -
  have f: "om_fence True (Some (ex_entry 1)) (om_outcome RecallOk) (ar_store (sy_arb (ex_lead t hi)))
      = ((True, None), ar_store (ex_arb t [(''d'', 0)] hi [1] 1))"
    by (simp add: om_fence_def om_outcome_def ex_lead_def ex_arb_def ex_entry_def ex_rec_def fence_key_def wm_op_defs
        getRecord_def putRecord_def)
  have "arb_reach ex_cfg [] \<lparr>sy_arb = ex_arb t [(''d'', 0)] hi [1] 1,
      sy_pc = (\<lambda>_. OIdle)(0 := OFenced ''d'' (Some (ex_entry 1)) 0 True None), sy_handoffs = []\<rparr>"
    using ab_step[OF assms as_fence[OF _ f, of 0 "''d''" 0]] by (simp add: ex_lead_def ex_arb_def)
  from ab_step[OF this as_finish[of _ 0 "''d''" "Some (ex_entry 1)" 0 True None 0]]
  show ?thesis by (simp add: ex_done_def)
qed

theorem handoff_is_durably_fenced_witness:
  "\<exists>r. wm_Get (ar_store (sy_arb (ex_done [ex_entry 1] 1))) (fence_key (ex_entry 1)) = Inr r \<and>
     1 \<in> set (wr_RevokedGens r)"
  using handoff_is_durably_fenced[OF ex_handoff[OF ex_reach2], of "ex_entry 1"]
  by (simp add: ex_done_def ex_entry_def)

text \<open>Concurrent contenders coalesce.  At any moment at most one mutation recalls a given root, its
  completion channel is still open (so it is closed once), and every contender that waits does so
  on a channel that has been closed or that some running leader will close.\<close>

theorem one_recall_per_root:
  assumes "arb_reach cfg store s"
  shows "(lead_of (sy_pc s t) = Some (root, d) \<and> lead_of (sy_pc s t') = Some (root, d') \<longrightarrow> t = t' \<and> d = d') \<and>
    (lead_of (sy_pc s t) = Some (root, d) \<longrightarrow> d \<notin> set (ar_closed (sy_arb s))) \<and>
    (sy_pc s t = OWaiting c p d \<longrightarrow>
       d \<in> set (ar_closed (sy_arb s)) \<or> (\<exists>t' root'. lead_of (sy_pc s t') = Some (root', d)))"
proof -
  note D = lead_invD[OF arb_reach_lead[OF assms]]
  have "t = t' \<and> d = d'" if "lead_of (sy_pc s t) = Some (root, d)" "lead_of (sy_pc s t') = Some (root, d')"
    using D(1)[OF that(1)] D(1)[OF that(2)] D(3)[OF that(1)] that(2) by simp
  moreover have "\<exists>t' root'. lead_of (sy_pc s t') = Some (root', d)"
    if "gm_get (ar_regions (sy_arb s)) r = Some d" for r
    using D(5)[OF that] by blast
  ultimately show ?thesis using D(2)[of t root d] D(7)[of t c p d] by auto
qed

theorem one_recall_per_root_witness:
  "0 \<notin> set (ar_closed (sy_arb (ex_lead [ex_entry 1] 1)))"
  using one_recall_per_root[OF ex_reach2, of 0 "''d''" 0] by (simp add: ex_lead_def)

text \<open>A contended mutation that runs alone proceeds exactly when the recall succeeded or the holder
  has no stream, and the holder's generation was durably revoked; then the root is released, its
  cooldown is running and no foreign delegation at that root covers the path.  Any other
  outcome is refused with \<open>EAGAIN\<close> and leaves the table, the cooldowns and the regions as they
  were.\<close>

theorem contended_mutation_outcome:
  assumes "ownerOf (ar_table a) p = Some (owner, root)" and "owner \<noteq> contender"
    and "gm_get (ar_regions a) root = None" and "entryForRoot (ar_table a) root = Some e" and "e_gen e \<noteq> 0"
    and "wm_RevokeGen commit (fence_key e) (e_gen e) (ar_store a) = (rv, store')"
  shows "\<exists>a'. arbitrateContention res commit now (Some a) contender p =
        Some (if (res = RecallOk \<or> res = RecallNoStream) \<and> \<not> isl rv then FS_OK else FS_EAGAIN, Some a') \<and>
     gm_get (ar_regions a') = gm_get (ar_regions a) \<and>
     (if (res = RecallOk \<or> res = RecallNoStream) \<and> \<not> isl rv
      then ar_table a' = release root (ar_table a) \<and> ar_cooldown a' = trip root now (ar_cooldown a) \<and>
           entryForRoot (ar_table a') root = None \<and>
           (\<exists>r. wm_Get (ar_store a') (fence_key e) = Inr r \<and> e_gen e \<in> set (wr_RevokedGens r))
      else ar_table a' = ar_table a \<and> ar_cooldown a' = ar_cooldown a)"
proof -
  have pos: "e_gen e > 0" using assms(5) by (simp add: word_gt_0)
  have rel: "entryForRoot (release root t) root = None" for t
    by (auto simp: entryForRoot_def release_def find_None_iff)
  have regs: "gm_get (gm_del root (gm_put root d (ar_regions a))) = gm_get (ar_regions a)" for d
    using assms(3) by (auto simp: gomap_simps fun_eq_iff)
  define L where "L = a\<lparr>ar_regions := gm_put root (ar_nextDone a) (ar_regions a), ar_nextDone := Suc (ar_nextDone a)\<rparr>"
  have b: "om_begin contender p a = (OmLead owner root (Some e) (ar_nextDone a), L)"
    using assms(1-4) by (simp add: om_begin_def L_def)
  have Lf: "ar_table L = ar_table a" "ar_store L = ar_store a" "ar_cooldown L = ar_cooldown a"
    "ar_regions L = gm_put root (ar_nextDone a) (ar_regions a)" by (simp_all add: L_def)
  show ?thesis
  proof (cases "(res = RecallOk \<or> res = RecallNoStream) \<and> \<not> isl rv")
    case True
    then obtain u where rv: "rv = Inr u" by (cases rv) auto
    have f: "om_fence commit (Some e) (om_outcome res) (ar_store a) = ((True, None), store')"
      using True pos assms(6) rv by (auto simp: om_fence_def om_outcome_def Lf)
    have "revoked store' e" using om_fence_revokes[OF f assms(5)] .
    then show ?thesis
      using True by (simp add: arbitrateContention_def OnMutation_def b f om_finish_def Lf rel regs revoked_def Let_def)
  next
    case False
    obtain err st where f: "om_fence commit (Some e) (om_outcome res) (ar_store a) = ((False, Some err), st)"
      using False pos assms(6)
      by (cases rv; cases "res = RecallOk \<or> res = RecallNoStream") (auto simp: om_fence_def om_outcome_def Let_def)
    then show ?thesis
      using False by (auto simp: arbitrateContention_def OnMutation_def b f om_finish_def Lf regs)
  qed
qed

theorem contended_mutation_outcome_witness:
  "\<exists>a'. arbitrateContention RecallTimedOut True 0 (Some (ex_arb [ex_entry 1] [] 1 [] 0)) ''B'' ''d/f''
     = Some (FS_EAGAIN, Some a') \<and> ar_table a' = [ex_entry 1]"
proof -
  obtain rv st where r: "wm_RevokeGen True (fence_key (ex_entry 1)) (e_gen (ex_entry 1))
      (ar_store (ex_arb [ex_entry 1] [] 1 [] 0)) = (rv, st)" by fastforce
  have t: "ar_table (ex_arb [ex_entry 1] [] 1 [] 0) = [ex_entry 1]" by (simp add: ex_arb_def)
  have "ownerOf (ar_table (ex_arb [ex_entry 1] [] 1 [] 0)) ''d/f'' = Some (''A'', ''d'')"
    "gm_get (ar_regions (ex_arb [ex_entry 1] [] 1 [] 0)) ''d'' = None"
    "entryForRoot (ar_table (ex_arb [ex_entry 1] [] 1 [] 0)) ''d'' = Some (ex_entry 1)"
    "e_gen (ex_entry 1) \<noteq> 0"
    by (simp_all add: ex_arb_def ex_entry_def contains_def entryForRoot_def)
  from contended_mutation_outcome[OF this(1) _ this(2-4) r, of "''B''" RecallTimedOut 0]
  show ?thesis by (auto simp: t)
qed


end
