(* ===== verification/Event_Bus.thy ===== *)
theory Event_Bus
  imports GM_Prelude
begin

text \<open>
  The change-event broker of the server (\<^verbatim>\<open>pkg/server/io/eventbus.go\<close>).  Subscribers are numbered;
  the bus keeps, per volume, the ordered list of live subscriber numbers, and a heap of
  subscriber states that outlives the removal (the consumer still holds the channels).  A channel
  is the list of buffered events; \<open>sb_taken\<close> records what the consumer has already received.
  The main theorem: a subscription that has not ended has received, in order, every event of its
  volume that was not caused by its own session.
\<close>

section \<open>Data\<close>

(* src/pkg/server/io/eventbus.go:10-18 EventKind *)
datatype EventKind = KindMutated | KindDeleted | KindRenamed | KindHeartbeat

(* src/pkg/server/io/eventbus.go:20-34 Event *)
record Event =
  ev_Path :: path
  ev_NewPath :: path
  ev_NewVersion :: u64
  ev_Kind :: EventKind
  ev_OriginSession :: string

(* src/pkg/server/io/eventbus.go:82-94 subscriber *)
record subscriber =
  sb_ch :: "Event list"
  sb_done :: bool
  sb_sessionID :: string
  sb_taken :: "Event list"

(* src/pkg/server/io/eventbus.go:122-129 localEventBus *)
record localEventBus =
  eb_BufferSize :: nat
  eb_subscribers :: "(string, nat list) gomap"
  eb_closed :: bool
  eb_heap :: "nat \<Rightarrow> subscriber"
  eb_next :: nat

definition subs_of :: "localEventBus \<Rightarrow> string \<Rightarrow> nat list" where
  "subs_of b v = (case gm_get (eb_subscribers b) v of None \<Rightarrow> [] | Some l \<Rightarrow> l)"

section \<open>Operations\<close>

(* src/pkg/server/io/eventbus.go:131-146 NewLocalEventBus *)
definition NewLocalEventBus :: "int \<Rightarrow> localEventBus" where
  "NewLocalEventBus bufferSize =
    \<lparr>eb_BufferSize = (if bufferSize \<le> 0 then 256 else nat bufferSize), eb_subscribers = [],
     eb_closed = False,
     eb_heap = (\<lambda>_. \<lparr>sb_ch = [], sb_done = True, sb_sessionID = '''', sb_taken = []\<rparr>), eb_next = 0\<rparr>"

(* src/pkg/server/io/eventbus.go:96-100 terminate *)
definition sub_terminate :: "subscriber \<Rightarrow> subscriber" where
  "sub_terminate s = s\<lparr>sb_done := True\<rparr>"

(* src/pkg/server/io/eventbus.go:102-120 trySend *)
definition trySend :: "nat \<Rightarrow> Event \<Rightarrow> subscriber \<Rightarrow> bool \<times> subscriber" where
  "trySend cap ev s =
    (if sb_done s then (False, s)
     else if length (sb_ch s) < cap then (True, s\<lparr>sb_ch := sb_ch s @ [ev]\<rparr>)
     else (False, sub_terminate s))"

(* src/pkg/server/io/eventbus.go:186-196 removeLocked *)
definition removeLocked :: "string \<Rightarrow> nat \<Rightarrow> localEventBus \<Rightarrow> localEventBus" where
  "removeLocked v i b =
    (case gm_get (eb_subscribers b) v of
       None \<Rightarrow> b
     | Some l \<Rightarrow> if i \<in> set l then b\<lparr>eb_subscribers := gm_put v (remove1 i l) (eb_subscribers b)\<rparr> else b)"

(* src/pkg/server/io/eventbus.go:235-256 fanout *)
fun fan_loop :: "nat \<Rightarrow> Event \<Rightarrow> nat list \<Rightarrow> (nat \<Rightarrow> subscriber) \<Rightarrow> nat list \<times> (nat \<Rightarrow> subscriber)" where
  "fan_loop cap ev [] h = ([], h)"
| "fan_loop cap ev (i # is) h =
    (if ev_OriginSession ev \<noteq> '''' \<and> sb_sessionID (h i) = ev_OriginSession ev then fan_loop cap ev is h
     else (case trySend cap ev (h i) of
             (ok, s') \<Rightarrow>
               (case fan_loop cap ev is (h(i := s')) of
                  (dropped, h') \<Rightarrow> (if ok then dropped else i # dropped, h'))))"

(* src/pkg/server/io/eventbus.go:227-264 fanout *)
definition fanout :: "string \<Rightarrow> Event \<Rightarrow> localEventBus \<Rightarrow> localEventBus" where
  "fanout v ev b =
    (case fan_loop (eb_BufferSize b) ev (subs_of b v) (eb_heap b) of
       (dropped, h) \<Rightarrow> fold (removeLocked v) dropped (b\<lparr>eb_heap := h\<rparr>))"

(* src/pkg/server/io/eventbus.go:148-150 Emit *)
definition Emit :: "string \<Rightarrow> path \<Rightarrow> u64 \<Rightarrow> EventKind \<Rightarrow> string \<Rightarrow> localEventBus \<Rightarrow> localEventBus" where
  "Emit v p newVersion kind origin b =
    fanout v \<lparr>ev_Path = p, ev_NewPath = '''', ev_NewVersion = newVersion, ev_Kind = kind,
              ev_OriginSession = origin\<rparr> b"

(* src/pkg/server/io/eventbus.go:152-154 EmitRename *)
definition EmitRename :: "string \<Rightarrow> path \<Rightarrow> path \<Rightarrow> u64 \<Rightarrow> string \<Rightarrow> localEventBus \<Rightarrow> localEventBus" where
  "EmitRename v oldPath newPath newVersion origin b =
    fanout v \<lparr>ev_Path = oldPath, ev_NewPath = newPath, ev_NewVersion = newVersion,
              ev_Kind = KindRenamed, ev_OriginSession = origin\<rparr> b"

(* src/pkg/server/io/eventbus.go:156-160 HasSubscribers *)
definition HasSubscribers :: "string \<Rightarrow> localEventBus \<Rightarrow> bool" where
  "HasSubscribers v b \<longleftrightarrow> length (subs_of b v) > 0"

(* src/pkg/server/io/eventbus.go:162-184 Subscribe *)
definition Subscribe :: "string \<Rightarrow> string \<Rightarrow> localEventBus \<Rightarrow> nat \<times> localEventBus" where
  "Subscribe v sid b =
    (let i = eb_next b; b1 = b\<lparr>eb_next := Suc i\<rparr>
     in if eb_closed b then
          (i, b1\<lparr>eb_heap := (eb_heap b)(i := \<lparr>sb_ch = [], sb_done = True, sb_sessionID = sid, sb_taken = []\<rparr>)\<rparr>)
        else
          (i, b1\<lparr>eb_heap := (eb_heap b)(i := \<lparr>sb_ch = [], sb_done = False, sb_sessionID = sid, sb_taken = []\<rparr>),
                 eb_subscribers := gm_put v (subs_of b v @ [i]) (eb_subscribers b)\<rparr>))"

(* src/pkg/server/io/eventbus.go:177-182 Subscribe *)
definition sub_cancel :: "string \<Rightarrow> nat \<Rightarrow> localEventBus \<Rightarrow> localEventBus" where
  "sub_cancel v i b =
    (let b1 = removeLocked v i b in b1\<lparr>eb_heap := (eb_heap b1)(i := sub_terminate (eb_heap b1 i))\<rparr>)"

(* src/pkg/server/io/eventbus.go:198-209 Close *)
definition bus_Close :: "localEventBus \<Rightarrow> localEventBus" where
  "bus_Close b =
    (let all = concat (map snd (eb_subscribers b))
     in b\<lparr>eb_heap := fold (\<lambda>i h. h(i := sub_terminate (h i))) all (eb_heap b), eb_subscribers := [],
          eb_closed := True\<rparr>)"

(* src/pkg/server/io/eventbus.go:211-225 eventKindString *)
fun eventKindString :: "EventKind \<Rightarrow> string" where
  "eventKindString KindMutated = ''mutated''"
| "eventKindString KindDeleted = ''deleted''"
| "eventKindString KindRenamed = ''renamed''"
| "eventKindString KindHeartbeat = ''heartbeat''"

definition heartbeat :: Event where
  "heartbeat = \<lparr>ev_Path = '''', ev_NewPath = '''', ev_NewVersion = 0, ev_Kind = KindHeartbeat,
                ev_OriginSession = ''''\<rparr>"

(* src/pkg/server/io/eventbus.go:266-285 heartbeatLoop *)
definition heartbeat_tick :: "localEventBus \<Rightarrow> localEventBus" where
  "heartbeat_tick b = fold (\<lambda>v. fanout v heartbeat) (map fst (eb_subscribers b)) b"

text \<open>The consumer takes the oldest buffered event.\<close>

definition sub_receive :: "nat \<Rightarrow> localEventBus \<Rightarrow> localEventBus" where
  "sub_receive i b =
    (case sb_ch (eb_heap b i) of
       [] \<Rightarrow> b
     | ev # evs \<Rightarrow>
         b\<lparr>eb_heap := (eb_heap b)(i := (eb_heap b i)\<lparr>sb_ch := evs, sb_taken := sb_taken (eb_heap b i) @ [ev]\<rparr>)\<rparr>)"

section \<open>One fan-out\<close>

definition self_echo :: "Event \<Rightarrow> subscriber \<Rightarrow> bool" where
  "self_echo ev s \<longleftrightarrow> ev_OriginSession ev \<noteq> '''' \<and> sb_sessionID s = ev_OriginSession ev"

definition sub_log :: "subscriber \<Rightarrow> Event list" where
  "sub_log s = sb_taken s @ sb_ch s"

lemma fan_loop_Cons:
  "fan_loop cap ev (j # js) h =
    (if self_echo ev (h j) then fan_loop cap ev js h
     else (if fst (trySend cap ev (h j)) then fst (fan_loop cap ev js (h(j := snd (trySend cap ev (h j)))))
           else j # fst (fan_loop cap ev js (h(j := snd (trySend cap ev (h j))))),
           snd (fan_loop cap ev js (h(j := snd (trySend cap ev (h j)))))))"
  by (auto simp: self_echo_def split: prod.splits)

lemma fan_loop_notin: "i \<notin> set js \<Longrightarrow> snd (fan_loop cap ev js h) i = h i"
  by (induction js arbitrary: h) (simp_all add: fan_loop_Cons del: fan_loop.simps(2))

lemma fan_loop_heap:
  "distinct js \<Longrightarrow> i \<in> set js \<Longrightarrow>
   snd (fan_loop cap ev js h) i = (if self_echo ev (h i) then h i else snd (trySend cap ev (h i)))"
proof (induction js arbitrary: h)
  case (Cons j js)
  show ?case
  proof (cases "i = j")
    case True
    then show ?thesis
      using Cons.prems(1) fan_loop_notin[of j js] by (simp add: fan_loop_Cons del: fan_loop.simps(2))
  next
    case False
    then have "i \<in> set js" "distinct js" using Cons.prems by auto
    then show ?thesis using Cons.IH False by (simp add: fan_loop_Cons del: fan_loop.simps(2))
  qed
qed simp

lemma fan_loop_dropped:
  "distinct js \<Longrightarrow>
   set (fst (fan_loop cap ev js h)) = {i \<in> set js. \<not> self_echo ev (h i) \<and> \<not> fst (trySend cap ev (h i))}"
proof (induction js arbitrary: h)
  case (Cons j js)
  have upd: "(h(j := s')) i = h i" if "i \<in> set js" for i s' using that Cons.prems by auto
  have "set (fst (fan_loop cap ev js (h(j := s')))) = {i \<in> set js. \<not> self_echo ev (h i) \<and> \<not> fst (trySend cap ev (h i))}" for s'
    using Cons.IH[of "h(j := s')"] Cons.prems upd by (auto simp del: fun_upd_apply)
  moreover have "set (fst (fan_loop cap ev js h)) = {i \<in> set js. \<not> self_echo ev (h i) \<and> \<not> fst (trySend cap ev (h i))}"
    using Cons.IH Cons.prems by simp
  ultimately show ?case by (auto simp: fan_loop_Cons simp del: fan_loop.simps(2))
qed simp

lemma removeLocked_frame [simp]:
  "eb_heap (removeLocked v i b) = eb_heap b" "eb_BufferSize (removeLocked v i b) = eb_BufferSize b"
  "eb_closed (removeLocked v i b) = eb_closed b" "eb_next (removeLocked v i b) = eb_next b"
  by (auto simp: removeLocked_def split: option.splits)

lemma subs_of_removeLocked: "subs_of (removeLocked v i b) v' = (if v' = v then remove1 i (subs_of b v) else subs_of b v')"
  by (auto simp: removeLocked_def subs_of_def gm_get_put remove1_idem split: option.splits)

lemma fold_removeLocked_frame [simp]:
  "eb_heap (fold (removeLocked v) ds b) = eb_heap b" "eb_BufferSize (fold (removeLocked v) ds b) = eb_BufferSize b"
  "eb_closed (fold (removeLocked v) ds b) = eb_closed b" "eb_next (fold (removeLocked v) ds b) = eb_next b"
  by (induction ds arbitrary: b) auto

lemma subs_of_fold_removeLocked:
  "distinct (subs_of b v) \<Longrightarrow>
   subs_of (fold (removeLocked v) ds b) v' =
     (if v' = v then filter (\<lambda>i. i \<notin> set ds) (subs_of b v) else subs_of b v')"
proof (induction ds arbitrary: b)
  case (Cons d ds)
  have "distinct (subs_of (removeLocked v d b) v)" using Cons.prems by (simp add: subs_of_removeLocked)
  from Cons.IH[OF this] show ?case
    using Cons.prems by (auto simp: subs_of_removeLocked distinct_remove1_removeAll removeAll_filter_not_eq intro!: filter_cong)
qed simp

lemma subs_of_heap [simp]: "subs_of (b\<lparr>eb_heap := h\<rparr>) v = subs_of b v"
  by (simp add: subs_of_def)

section \<open>Invariant\<close>

text \<open>A subscriber that has not ended is listed, once, for its volume.\<close>

definition bus_inv :: "localEventBus \<Rightarrow> (nat \<Rightarrow> string) \<Rightarrow> bool" where
  "bus_inv b vol \<longleftrightarrow>
    (\<forall>v. distinct (subs_of b v)) \<and>
    (\<forall>v i. i \<in> set (subs_of b v) \<longrightarrow> i < eb_next b \<and> vol i = v) \<and>
    (\<forall>i. \<not> sb_done (eb_heap b i) \<longrightarrow> i \<in> set (subs_of b (vol i)))"

lemma bus_invD:
  assumes "bus_inv b vol"
  shows "distinct (subs_of b v)" and "i \<in> set (subs_of b v) \<Longrightarrow> i < eb_next b"
    and "i \<in> set (subs_of b v) \<Longrightarrow> vol i = v"
    and "\<not> sb_done (eb_heap b i) \<Longrightarrow> i \<in> set (subs_of b (vol i))"
  using assms unfolding bus_inv_def by blast+

lemma fanout_heap:
  assumes "distinct (subs_of b v)"
  shows "eb_heap (fanout v ev b) i =
    (if i \<in> set (subs_of b v) \<and> \<not> self_echo ev (eb_heap b i)
     then snd (trySend (eb_BufferSize b) ev (eb_heap b i)) else eb_heap b i)"
  using fan_loop_heap[OF assms, of i] fan_loop_notin[of i "subs_of b v"]
  by (cases "i \<in> set (subs_of b v)") (simp_all add: fanout_def split_beta)

lemma fanout_subs:
  assumes "distinct (subs_of b v)"
  shows "subs_of (fanout v ev b) v' =
    (if v' = v then filter (\<lambda>i. self_echo ev (eb_heap b i) \<or> fst (trySend (eb_BufferSize b) ev (eb_heap b i))) (subs_of b v)
     else subs_of b v')"
proof -
  have "filter (\<lambda>i. i \<notin> set (fst (fan_loop (eb_BufferSize b) ev (subs_of b v) (eb_heap b)))) (subs_of b v) =
    filter (\<lambda>i. self_echo ev (eb_heap b i) \<or> fst (trySend (eb_BufferSize b) ev (eb_heap b i))) (subs_of b v)"
    by (rule filter_cong) (auto simp: fan_loop_dropped[OF assms])
  then show ?thesis
    using assms by (simp add: fanout_def split_beta subs_of_fold_removeLocked)
qed

lemma fanout_next [simp]: "eb_next (fanout v ev b) = eb_next b"
  by (simp add: fanout_def split_beta)

lemma fanout_cap [simp]: "eb_BufferSize (fanout v ev b) = eb_BufferSize b"
  by (simp add: fanout_def split_beta)

lemma bus_inv_fanout:
  assumes inv: "bus_inv b vol"
  shows "bus_inv (fanout v ev b) vol"
proof -
  have d: "distinct (subs_of b v)" using inv by (simp add: bus_inv_def)
  have "i \<in> set (subs_of (fanout v ev b) (vol i))" if "\<not> sb_done (eb_heap (fanout v ev b) i)" for i
  proof (cases "i \<in> set (subs_of b v) \<and> \<not> self_echo ev (eb_heap b i)")
    case True
    then have "fst (trySend (eb_BufferSize b) ev (eb_heap b i))"
      using that by (auto simp: fanout_heap[OF d] trySend_def sub_terminate_def split: if_splits)
    then show ?thesis using True inv by (auto simp: fanout_subs[OF d] bus_inv_def)
  next
    case False
    then have "\<not> sb_done (eb_heap b i)" using that by (auto simp: fanout_heap[OF d] split: if_splits)
    then have "i \<in> set (subs_of b (vol i))" using inv by (simp add: bus_inv_def)
    then show ?thesis using False by (auto simp: fanout_subs[OF d])
  qed
  then show ?thesis using inv by (auto simp: bus_inv_def fanout_subs[OF d])
qed

lemma bus_inv_receive: "bus_inv b vol \<Longrightarrow> bus_inv (sub_receive i b) vol"
  by (auto simp: bus_inv_def sub_receive_def subs_of_def split: list.splits if_splits)

section \<open>Properties\<close>

datatype bus_action = Fan string Event | Receive nat

fun bus_act :: "bus_action \<Rightarrow> localEventBus \<Rightarrow> localEventBus" where
  "bus_act (Fan v ev) b = fanout v ev b"
| "bus_act (Receive i) b = sub_receive i b"

fun events_for :: "string \<Rightarrow> string \<Rightarrow> bus_action list \<Rightarrow> Event list" where
  "events_for v sid [] = []"
| "events_for v sid (Fan v' ev # as) =
    (if v' = v \<and> \<not> (ev_OriginSession ev \<noteq> '''' \<and> sid = ev_OriginSession ev)
     then ev # events_for v sid as else events_for v sid as)"
| "events_for v sid (Receive i # as) = events_for v sid as"

lemma sub_act_done_mono: "bus_inv b vol \<Longrightarrow> sb_done (eb_heap b i) \<Longrightarrow> sb_done (eb_heap (bus_act a b) i)"
  by (cases a) (auto simp: fanout_heap bus_inv_def trySend_def sub_receive_def split: list.splits)

lemma sub_act_session: "bus_inv b vol \<Longrightarrow> sb_sessionID (eb_heap (bus_act a b) i) = sb_sessionID (eb_heap b i)"
  by (cases a) (auto simp: fanout_heap bus_inv_def trySend_def sub_terminate_def sub_receive_def split: list.splits)

lemma bus_inv_act: "bus_inv b vol \<Longrightarrow> bus_inv (bus_act a b) vol"
  by (cases a) (simp_all add: bus_inv_fanout bus_inv_receive)

lemma sub_act_log:
  assumes "bus_inv b vol" and "\<not> sb_done (eb_heap (bus_act a b) i)"
  shows "sub_log (eb_heap (bus_act a b) i) =
    sub_log (eb_heap b i) @ events_for (vol i) (sb_sessionID (eb_heap b i)) [a]"
proof (cases a)
  case (Fan v ev)
  have d: "distinct (subs_of b v)" using assms(1) by (simp add: bus_inv_def)
  have live: "\<not> sb_done (eb_heap b i)" using sub_act_done_mono[OF assms(1)] assms(2) by blast
  then have "i \<in> set (subs_of b v) \<longleftrightarrow> vol i = v" using assms(1) by (auto simp: bus_inv_def)
  then show ?thesis
    using assms(2) live
    by (auto simp: Fan fanout_heap[OF d] trySend_def sub_terminate_def sub_log_def self_echo_def split: if_splits)
next
  case (Receive j)
  then show ?thesis by (auto simp: sub_receive_def sub_log_def split: list.splits)
qed

lemma events_for_Cons: "events_for v sid (a # as) = events_for v sid [a] @ events_for v sid as"
  by (cases a) auto

lemma bus_run_log:
  assumes "bus_inv b vol" and "\<not> sb_done (eb_heap (fold bus_act as b) i)"
  shows "\<not> sb_done (eb_heap b i) \<and> sub_log (eb_heap (fold bus_act as b) i) =
    sub_log (eb_heap b i) @ events_for (vol i) (sb_sessionID (eb_heap b i)) as"
  using assms
proof (induction as arbitrary: b)
  case (Cons a as)
  have inv': "bus_inv (bus_act a b) vol" using bus_inv_act Cons.prems(1) .
  have IH: "\<not> sb_done (eb_heap (bus_act a b) i) \<and> sub_log (eb_heap (fold bus_act as (bus_act a b)) i) =
    sub_log (eb_heap (bus_act a b) i) @ events_for (vol i) (sb_sessionID (eb_heap b i)) as"
    using Cons.IH[OF inv'] Cons.prems sub_act_session[OF Cons.prems(1)] by simp
  then show ?case
    using sub_act_log[OF Cons.prems(1)] sub_act_done_mono[OF Cons.prems(1)]
      events_for_Cons[of "vol i" "sb_sessionID (eb_heap b i)" a as] by auto
qed simp

lemma bus_inv_subscribe_new:
  assumes "Subscribe v sid (NewLocalEventBus n) = (i, b)"
  shows "bus_inv b (\<lambda>_. v)"
  using assms by (auto simp: Subscribe_def NewLocalEventBus_def bus_inv_def subs_of_def split: if_splits)

text \<open>C25: nothing is lost silently.  Whatever is emitted on whatever volumes while the consumer drains its
  channel at its own pace, a subscription that has not ended has, taken or still buffered and in
  order, exactly the events emitted on its volume by other sessions or by no session since it
  subscribed; its own session's events never reach it.  (A subscriber that falls behind its
  buffer is ended, so it knows to revalidate.)\<close>

theorem live_subscriber_misses_nothing:
  assumes "bus_inv b vol" and "\<not> eb_closed b" and "eb_next b = i" and "vol i = v"
    and "\<forall>w. i \<notin> set (subs_of b w)"
    and "Subscribe v sid b = (i, b')" and "\<not> sb_done (eb_heap (fold bus_act as b') i)"
  shows "sb_taken (eb_heap (fold bus_act as b') i) @ sb_ch (eb_heap (fold bus_act as b') i)
    = events_for v sid as"
proof -
  have b': "b' = b\<lparr>eb_next := Suc i,
      eb_heap := (eb_heap b)(i := \<lparr>sb_ch = [], sb_done = False, sb_sessionID = sid, sb_taken = []\<rparr>),
      eb_subscribers := gm_put v (subs_of b v @ [i]) (eb_subscribers b)\<rparr>"
    using assms(2,3,6) by (simp add: Subscribe_def Let_def)
  have subs: "subs_of b' w = (if w = v then subs_of b v @ [i] else subs_of b w)" for w
    by (simp add: b' subs_of_def gm_get_put)
  note D = bus_invD[OF assms(1)]
  have heap: "eb_heap b' j = (if j = i then \<lparr>sb_ch = [], sb_done = False, sb_sessionID = sid, sb_taken = []\<rparr>
      else eb_heap b j)" and nx: "eb_next b' = Suc i" for j
    by (simp_all add: b')
  have "distinct (subs_of b' w)" for w using D(1) assms(5) by (simp add: subs)
  moreover have "j < eb_next b' \<and> vol j = w" if "j \<in> set (subs_of b' w)" for j w
    using that D(2,3)[of j w] assms(3,4) by (auto simp: subs nx split: if_splits)
  moreover have "j \<in> set (subs_of b' (vol j))" if "\<not> sb_done (eb_heap b' j)" for j
    using that D(4)[of j] assms(4) by (auto simp: subs heap split: if_splits)
  ultimately have "bus_inv b' vol" unfolding bus_inv_def by blast
  from bus_run_log[OF this assms(7)] show ?thesis
    using assms(4) by (simp add: b' sub_log_def)
qed

theorem live_subscriber_misses_nothing_witness:
  "let b' = snd (Subscribe ''v'' ''s1'' (NewLocalEventBus 2));
       mine = heartbeat\<lparr>ev_OriginSession := ''s1''\<rparr>; other = heartbeat\<lparr>ev_OriginSession := ''s2''\<rparr>
   in sb_taken (eb_heap (fold bus_act [Fan ''v'' mine, Fan ''v'' other, Receive 0, Fan ''w'' other] b') 0) = [other]"
proof -
  let ?mine = "heartbeat\<lparr>ev_OriginSession := ''s1''\<rparr>" and ?other = "heartbeat\<lparr>ev_OriginSession := ''s2''\<rparr>"
  let ?as = "[Fan ''v'' ?mine, Fan ''v'' ?other, Receive 0, Fan ''w'' ?other]"
  let ?b = "NewLocalEventBus 2"
  let ?b' = "snd (Subscribe ''v'' ''s1'' ?b)"
  have init: "bus_inv ?b (\<lambda>_. ''v'')" "\<not> eb_closed ?b" "eb_next ?b = 0" "\<forall>w. 0 \<notin> set (subs_of ?b w)"
    "Subscribe ''v'' ''s1'' ?b = (0, ?b')"
    by (auto simp: NewLocalEventBus_def bus_inv_def subs_of_def Subscribe_def Let_def)
  have run: "\<not> sb_done (eb_heap (fold bus_act ?as ?b') 0) \<and> sb_ch (eb_heap (fold bus_act ?as ?b') 0) = []"
    by (simp add: NewLocalEventBus_def Subscribe_def Let_def fanout_def subs_of_def trySend_def
        heartbeat_def sub_receive_def)
  have "sb_taken (eb_heap (fold bus_act ?as ?b') 0) @ sb_ch (eb_heap (fold bus_act ?as ?b') 0) = events_for ''v'' ''s1'' ?as"
    using live_subscriber_misses_nothing[OF init(1-3) refl init(4,5), of ?as] run by blast
  then show ?thesis using run by (simp add: heartbeat_def)
qed

text \<open>One fan-out appends the event to every live subscriber of the volume that has room and whose
  session did not cause it; a subscriber whose buffer is full is ended and unlisted with its
  buffer untouched; subscribers of other volumes and the causing session are unaffected.\<close>

theorem fanout_effect:
  assumes "bus_inv b vol" and "i \<in> set (subs_of b v)" and "\<not> sb_done (eb_heap b i)"
  shows "let s = eb_heap b i; s' = eb_heap (fanout v ev b) i in
    (self_echo ev s \<longrightarrow> s' = s \<and> i \<in> set (subs_of (fanout v ev b) v)) \<and>
    (\<not> self_echo ev s \<and> length (sb_ch s) < eb_BufferSize b \<longrightarrow>
       sb_ch s' = sb_ch s @ [ev] \<and> \<not> sb_done s' \<and> i \<in> set (subs_of (fanout v ev b) v)) \<and>
    (\<not> self_echo ev s \<and> eb_BufferSize b \<le> length (sb_ch s) \<longrightarrow>
       sb_ch s' = sb_ch s \<and> sb_done s' \<and> i \<notin> set (subs_of (fanout v ev b) v)) \<and>
    (\<forall>w j. w \<noteq> v \<and> j \<in> set (subs_of b w) \<longrightarrow>
       eb_heap (fanout v ev b) j = eb_heap b j \<and> j \<in> set (subs_of (fanout v ev b) w))"
proof -
  have d: "distinct (subs_of b v)" using assms(1) by (simp add: bus_inv_def)
  have other: "j \<notin> set (subs_of b v)" if "w \<noteq> v" "j \<in> set (subs_of b w)" for w j
    using bus_invD(3)[OF assms(1)] that by blast
  show ?thesis
    using assms other by (auto simp: Let_def fanout_heap[OF d] fanout_subs[OF d] trySend_def sub_terminate_def)
qed

theorem fanout_effect_witness:
  "sb_ch (eb_heap (fanout ''v'' heartbeat (snd (Subscribe ''v'' ''s1'' (NewLocalEventBus 2)))) 0) = [heartbeat]"
proof -
  let ?b = "snd (Subscribe ''v'' ''s1'' (NewLocalEventBus 2))"
  have "bus_inv ?b (\<lambda>_. ''v'')" by (rule bus_inv_subscribe_new[of _ "''s1''" 2 0])
      (simp add: Subscribe_def NewLocalEventBus_def Let_def)
  moreover have "0 \<in> set (subs_of ?b ''v'')" "\<not> sb_done (eb_heap ?b 0)" "sb_ch (eb_heap ?b 0) = []"
    "eb_BufferSize ?b = 2" "\<not> self_echo heartbeat (eb_heap ?b 0)"
    by (simp_all add: Subscribe_def NewLocalEventBus_def Let_def subs_of_def self_echo_def heartbeat_def)
  ultimately show ?thesis using fanout_effect[of ?b "\<lambda>_. ''v''" 0 "''v''" heartbeat] by (simp add: Let_def)
qed

end
