(* ===== verification/Wal_Op.thy ===== *)
theory Wal_Op
  imports Fs_Error
begin

text \<open>
  The deferred operation that the client logs and the server applies: the message \<^verbatim>\<open>WalOp\<close> of the
  wire protocol (\<^verbatim>\<open>api/proto/fs.proto\<close>), one constructor per variant of its \<^verbatim>\<open>oneof\<close>.  Every
  request carries its volume and caller; bytes are 8-bit words.
\<close>

type_synonym byte = "8 word"
type_synonym bytes = "byte list"

record Owner =
  ow_Uid :: u32
  ow_Gid :: u32

record Caller =
  ca_Owner :: "Owner option"
  ca_Pid :: u32

record ReqHdr =
  rh_Volume :: string
  rh_Caller :: "Caller option"

record FileTime =
  ft_Sec :: u64
  ft_Nsec :: u32

record SetAttrRequest =
  sa_Path :: path
  sa_Valid :: u32
  sa_Mode :: u32
  sa_Uid :: u32
  sa_Gid :: u32
  sa_Size :: u64
  sa_Atime :: "FileTime option"
  sa_Mtime :: "FileTime option"

datatype wal_body =
    WCreate ReqHdr path u32 u32
  | WWrite ReqHdr path int bytes
  | WRelease ReqHdr path
  | WMkdir ReqHdr path u32
  | WRmdir ReqHdr path
  | WUnlink ReqHdr path
  | WRename ReqHdr path path
  | WSymlink ReqHdr path string
  | WSetAttr ReqHdr SetAttrRequest
  | WSetXattr ReqHdr path string bytes int
  | WRemoveXattr ReqHdr path string
  | WUnset

record WalOp =
  wo_Body :: wal_body
  wo_Seq :: u64
  wo_Gen :: u64
  wo_WalEpoch :: string

text \<open>The \<^verbatim>\<open>FATTR_*\<close> bits that select the attributes of a \<^verbatim>\<open>SetAttrRequest\<close>.\<close>

abbreviation FATTR_MODE :: u32 where "FATTR_MODE \<equiv> 1"
abbreviation FATTR_UID :: u32 where "FATTR_UID \<equiv> 2"
abbreviation FATTR_GID :: u32 where "FATTR_GID \<equiv> 4"
abbreviation FATTR_SIZE :: u32 where "FATTR_SIZE \<equiv> 8"
abbreviation FATTR_ATIME :: u32 where "FATTR_ATIME \<equiv> 16"
abbreviation FATTR_MTIME :: u32 where "FATTR_MTIME \<equiv> 32"

unbundle bit_operations_syntax

definition has_bit :: "u32 \<Rightarrow> u32 \<Rightarrow> bool" where
  "has_bit valid m \<longleftrightarrow> valid AND m \<noteq> 0"

end
