(* ===== verification/Path_Ops.thy ===== *)
theory Path_Ops
  imports Wal_Op Event_Bus
begin

text \<open>
  The mutation layer shared by the unary handlers and by the Apply stream
  (\<^verbatim>\<open>pkg/server/controller/applyop.go\<close>, \<^verbatim>\<open>emit.go\<close>, \<^verbatim>\<open>utils.go\<close> and \<^verbatim>\<open>applySetAttr\<close> of \<^verbatim>\<open>fs.go\<close>): run one
  filesystem call and, when it succeeded, emit the cache-invalidation event.

  The filesystem is go-fuse's \<^verbatim>\<open>pathfs.FileSystem\<close> interface: the record \<open>pathfs\<close> of functions on an
  arbitrary state is a parameter of every definition.  A status is an errno, 0 for success.
\<close>

section \<open>The filesystem interface\<close>

record fctx =
  fx_Uid :: u32
  fx_Gid :: u32
  fx_Pid :: u32

record 'fs pathfs =
  pf_GetAttr :: "path \<Rightarrow> fctx \<Rightarrow> 'fs \<Rightarrow> fuse_Attr option \<times> nat"
  pf_Mkdir :: "path \<Rightarrow> u32 \<Rightarrow> fctx \<Rightarrow> 'fs \<Rightarrow> nat \<times> 'fs"
  pf_Rmdir :: "path \<Rightarrow> fctx \<Rightarrow> 'fs \<Rightarrow> nat \<times> 'fs"
  pf_Unlink :: "path \<Rightarrow> fctx \<Rightarrow> 'fs \<Rightarrow> nat \<times> 'fs"
  pf_Symlink :: "string \<Rightarrow> path \<Rightarrow> fctx \<Rightarrow> 'fs \<Rightarrow> nat \<times> 'fs"
  pf_Rename :: "path \<Rightarrow> path \<Rightarrow> fctx \<Rightarrow> 'fs \<Rightarrow> nat \<times> 'fs"
  pf_SetXAttr :: "path \<Rightarrow> string \<Rightarrow> bytes \<Rightarrow> int \<Rightarrow> fctx \<Rightarrow> 'fs \<Rightarrow> nat \<times> 'fs"
  pf_RemoveXAttr :: "path \<Rightarrow> string \<Rightarrow> fctx \<Rightarrow> 'fs \<Rightarrow> nat \<times> 'fs"
  pf_Truncate :: "path \<Rightarrow> u64 \<Rightarrow> fctx \<Rightarrow> 'fs \<Rightarrow> nat \<times> 'fs"
  pf_Chmod :: "path \<Rightarrow> u32 \<Rightarrow> fctx \<Rightarrow> 'fs \<Rightarrow> nat \<times> 'fs"
  pf_Chown :: "path \<Rightarrow> u32 \<Rightarrow> u32 \<Rightarrow> fctx \<Rightarrow> 'fs \<Rightarrow> nat \<times> 'fs"
  pf_Utimens :: "path \<Rightarrow> FileTime option \<Rightarrow> FileTime option \<Rightarrow> fctx \<Rightarrow> 'fs \<Rightarrow> nat \<times> 'fs"
  pf_Create :: "path \<Rightarrow> u32 \<Rightarrow> u32 \<Rightarrow> fctx \<Rightarrow> 'fs \<Rightarrow> (nat \<times> nat) \<times> 'fs"
  pf_Open :: "path \<Rightarrow> u32 \<Rightarrow> fctx \<Rightarrow> 'fs \<Rightarrow> (nat \<times> nat) \<times> 'fs"
  pf_Write :: "nat \<Rightarrow> bytes \<Rightarrow> int \<Rightarrow> 'fs \<Rightarrow> (nat \<times> nat) \<times> 'fs"
  pf_Flush :: "nat \<Rightarrow> 'fs \<Rightarrow> nat \<times> 'fs"
  pf_Release :: "nat \<Rightarrow> 'fs \<Rightarrow> 'fs"

text \<open>The part of the server a mutation changes: the volume's files and the event bus.\<close>

record 'fs srv =
  sr_fs :: 'fs
  sr_bus :: localEventBus

abbreviation fromErrno_status :: "nat \<Rightarrow> FsError" where
  "fromErrno_status \<equiv> FromErrno toErrno"

section \<open>Identities and wire attributes\<close>

record Identity =
  id_Principal :: string
  id_Uid :: u32
  id_Gid :: u32
  id_Gids :: "u32 list"
  id_UserName :: string
  id_GroupNames :: "(u32, string) gomap"

record ProtoAttr =
  pa_attr :: fuse_Attr
  pa_UserName :: string
  pa_GroupName :: string
  pa_Version :: u64

(* src/pkg/server/controller/utils.go:14-48 toProtoAttr *)
definition toProtoAttr :: "fuse_Attr option \<Rightarrow> Identity option \<Rightarrow> ProtoAttr option" where
  "toProtoAttr a ident =
    (case a of
       None \<Rightarrow> None
     | Some at \<Rightarrow>
         Some \<lparr>pa_attr = at,
               pa_UserName = (case ident of None \<Rightarrow> ''''
                 | Some i \<Rightarrow> if fa_Uid at = id_Uid i then id_UserName i else ''''),
               pa_GroupName = (case ident of None \<Rightarrow> ''''
                 | Some i \<Rightarrow> (case gm_get (id_GroupNames i) (fa_Gid at) of
                     Some name \<Rightarrow> if fa_Gid at \<in> set (id_Gids i) then name else ''''
                   | None \<Rightarrow> '''')),
               pa_Version = VersionFromAttr (Some at)\<rparr>)"

(* src/pkg/server/controller/utils.go:76-97 createContext *)
definition createContext :: "Caller option \<Rightarrow> fctx" where
  "createContext caller =
    (case caller of
       None \<Rightarrow> \<lparr>fx_Uid = 0, fx_Gid = 0, fx_Pid = 0\<rparr>
     | Some c \<Rightarrow>
         (case ca_Owner c of
            None \<Rightarrow> \<lparr>fx_Uid = 0, fx_Gid = 0, fx_Pid = ca_Pid c\<rparr>
          | Some o' \<Rightarrow> \<lparr>fx_Uid = ow_Uid o', fx_Gid = ow_Gid o', fx_Pid = ca_Pid c\<rparr>))"

(* src/pkg/server/controller/utils.go:50-59 versionAfter *)
definition versionAfter :: "'fs pathfs \<Rightarrow> path \<Rightarrow> Caller option \<Rightarrow> 'fs \<Rightarrow> u64" where
  "versionAfter pf p caller fs =
    (case pf_GetAttr pf p (createContext caller) fs of
       (attr, st) \<Rightarrow> if st \<noteq> 0 then 0 else VersionFromAttr attr)"

section \<open>Emission helpers\<close>

definition run_fs :: "('fs \<Rightarrow> nat \<times> 'fs) \<Rightarrow> 'fs srv \<Rightarrow> nat \<times> 'fs srv" where
  "run_fs op s = (case op (sr_fs s) of (st, fs') \<Rightarrow> (st, s\<lparr>sr_fs := fs'\<rparr>))"

(* src/pkg/server/controller/emit.go:47-55 mutateEmit *)
definition mutateEmit ::
  "'fs pathfs \<Rightarrow> string \<Rightarrow> string \<Rightarrow> path \<Rightarrow> Caller option \<Rightarrow> ('fs \<Rightarrow> nat \<times> 'fs) \<Rightarrow> 'fs srv \<Rightarrow> nat \<times> 'fs srv" where
  "mutateEmit pf sid vol p caller op s =
    (case run_fs op s of
       (st, s1) \<Rightarrow>
         if st = 0 \<and> HasSubscribers vol (sr_bus s1) then
           (st, s1\<lparr>sr_bus := Emit vol p (versionAfter pf p caller (sr_fs s1)) KindMutated sid (sr_bus s1)\<rparr>)
         else (st, s1))"

(* src/pkg/server/controller/emit.go:57-66 deleteEmit *)
definition deleteEmit :: "string \<Rightarrow> string \<Rightarrow> path \<Rightarrow> ('fs \<Rightarrow> nat \<times> 'fs) \<Rightarrow> 'fs srv \<Rightarrow> nat \<times> 'fs srv" where
  "deleteEmit sid vol p op s =
    (case run_fs op s of
       (st, s1) \<Rightarrow>
         if st = 0 \<and> HasSubscribers vol (sr_bus s1) then
           (st, s1\<lparr>sr_bus := Emit vol p 0 KindDeleted sid (sr_bus s1)\<rparr>)
         else (st, s1))"

(* src/pkg/server/controller/emit.go:68-78 emitMutatedAttr *)
definition emitMutatedAttr :: "string \<Rightarrow> string \<Rightarrow> path \<Rightarrow> fuse_Attr option \<Rightarrow> 'fs srv \<Rightarrow> 'fs srv" where
  "emitMutatedAttr sid vol p attr s =
    (if \<not> HasSubscribers vol (sr_bus s) then s
     else s\<lparr>sr_bus := Emit vol p (VersionFromAttr attr) KindMutated sid (sr_bus s)\<rparr>)"

(* src/pkg/server/controller/emit.go:80-109 statAttrsAndEmit *)
definition statAttrsAndEmit ::
  "'fs pathfs \<Rightarrow> string \<Rightarrow> string \<Rightarrow> path \<Rightarrow> Identity option \<Rightarrow> fctx \<Rightarrow> 'fs srv \<Rightarrow> ProtoAttr option \<times> 'fs srv" where
  "statAttrsAndEmit pf sid vol p ident fx s =
    (case pf_GetAttr pf p fx (sr_fs s) of
       (attr, gst) \<Rightarrow>
         if gst = 0 then (toProtoAttr attr ident, emitMutatedAttr sid vol p attr s)
         else (None, emitMutatedAttr sid vol p None s))"

(* src/pkg/server/controller/emit.go:111-119 renameEmit *)
definition renameEmit ::
  "'fs pathfs \<Rightarrow> string \<Rightarrow> string \<Rightarrow> path \<Rightarrow> path \<Rightarrow> Caller option \<Rightarrow> ('fs \<Rightarrow> nat \<times> 'fs) \<Rightarrow> 'fs srv \<Rightarrow> nat \<times> 'fs srv" where
  "renameEmit pf sid vol oldName newName caller op s =
    (case run_fs op s of
       (st, s1) \<Rightarrow>
         if st = 0 \<and> HasSubscribers vol (sr_bus s1) then
           (st, s1\<lparr>sr_bus := EmitRename vol oldName newName (versionAfter pf newName caller (sr_fs s1)) sid (sr_bus s1)\<rparr>)
         else (st, s1))"

section \<open>Path operations\<close>

(* src/pkg/server/controller/applyop.go:39-50 pathOpKind *)
datatype pathOpKind = opMkdir | opRmdir | opUnlink | opSymlink | opRename | opSetXAttr | opRemoveXAttr | opUnknown

(* src/pkg/server/controller/applyop.go:52-82 PathOp *)
record PathOp =
  po_Kind :: pathOpKind
  po_Path :: path
  po_OldName :: path
  po_NewName :: path
  po_Mode :: u32
  po_Target :: string
  po_XAttr :: string
  po_XData :: bytes
  po_XFlags :: int
  po_Caller :: "Caller option"

definition no_op :: PathOp where
  "no_op = \<lparr>po_Kind = opUnknown, po_Path = '''', po_OldName = '''', po_NewName = '''', po_Mode = 0,
            po_Target = '''', po_XAttr = '''', po_XData = [], po_XFlags = 0, po_Caller = None\<rparr>"

(* src/pkg/server/controller/applyop.go:84-165 applyPathOp *)
definition applyPathOp ::
  "'fs pathfs \<Rightarrow> string \<Rightarrow> Identity option \<Rightarrow> string \<Rightarrow> PathOp \<Rightarrow> 'fs srv \<Rightarrow> (nat \<times> ProtoAttr option) \<times> 'fs srv" where
  "applyPathOp pf sid ident vol op s =
    (let fx = createContext (po_Caller op) in
     case po_Kind op of
       opMkdir \<Rightarrow>
         (case run_fs (pf_Mkdir pf (po_Path op) (po_Mode op) fx) s of
            (st, s1) \<Rightarrow>
              if st \<noteq> 0 then ((st, None), s1)
              else (case statAttrsAndEmit pf sid vol (po_Path op) ident fx s1 of (a, s2) \<Rightarrow> ((0, a), s2)))
     | opSymlink \<Rightarrow>
         (case run_fs (pf_Symlink pf (po_Target op) (po_Path op) fx) s of
            (st, s1) \<Rightarrow>
              if st \<noteq> 0 then ((st, None), s1)
              else (case statAttrsAndEmit pf sid vol (po_Path op) ident fx s1 of (a, s2) \<Rightarrow> ((0, a), s2)))
     | opRmdir \<Rightarrow>
         (case deleteEmit sid vol (po_Path op) (pf_Rmdir pf (po_Path op) fx) s of (st, s1) \<Rightarrow> ((st, None), s1))
     | opUnlink \<Rightarrow>
         (case deleteEmit sid vol (po_Path op) (pf_Unlink pf (po_Path op) fx) s of (st, s1) \<Rightarrow> ((st, None), s1))
     | opRename \<Rightarrow>
         (case renameEmit pf sid vol (po_OldName op) (po_NewName op) (po_Caller op)
                 (pf_Rename pf (po_OldName op) (po_NewName op) fx) s of (st, s1) \<Rightarrow> ((st, None), s1))
     | opSetXAttr \<Rightarrow>
         (case mutateEmit pf sid vol (po_Path op) (po_Caller op)
                 (pf_SetXAttr pf (po_Path op) (po_XAttr op) (po_XData op) (po_XFlags op) fx) s of
            (st, s1) \<Rightarrow> ((st, None), s1))
     | opRemoveXAttr \<Rightarrow>
         (case mutateEmit pf sid vol (po_Path op) (po_Caller op)
                 (pf_RemoveXAttr pf (po_Path op) (po_XAttr op) fx) s of (st, s1) \<Rightarrow> ((st, None), s1))
     | opUnknown \<Rightarrow> ((5, None), s))"

section \<open>Setting attributes\<close>

(* src/pkg/server/controller/fs.go:388-393 applySetAttr *)
definition set_size_step :: "'fs pathfs \<Rightarrow> SetAttrRequest \<Rightarrow> fctx \<Rightarrow> 'fs \<Rightarrow> (nat \<times> bool) \<times> 'fs" where
  "set_size_step pf rq fx fs =
    (if has_bit (sa_Valid rq) FATTR_SIZE
     then (case pf_Truncate pf (sa_Path rq) (sa_Size rq) fx fs of (st, fs') \<Rightarrow> ((st, st = 0), fs'))
     else ((0, False), fs))"

(* src/pkg/server/controller/fs.go:394-399 applySetAttr *)
definition set_mode_step :: "'fs pathfs \<Rightarrow> SetAttrRequest \<Rightarrow> fctx \<Rightarrow> 'fs \<Rightarrow> (nat \<times> bool) \<times> 'fs" where
  "set_mode_step pf rq fx fs =
    (if has_bit (sa_Valid rq) FATTR_MODE
     then (case pf_Chmod pf (sa_Path rq) (sa_Mode rq) fx fs of (st, fs') \<Rightarrow> ((st, st = 0), fs'))
     else ((0, False), fs))"

(* src/pkg/server/controller/fs.go:400-424 applySetAttr *)
definition set_owner_step :: "'fs pathfs \<Rightarrow> SetAttrRequest \<Rightarrow> fctx \<Rightarrow> 'fs \<Rightarrow> (nat \<times> bool) \<times> 'fs" where
  "set_owner_step pf rq fx fs =
    (let hasU = has_bit (sa_Valid rq) FATTR_UID; hasG = has_bit (sa_Valid rq) FATTR_GID;
         chown = (\<lambda>u g. case pf_Chown pf (sa_Path rq) u g fx fs of (st, fs') \<Rightarrow> ((st, st = 0), fs'))
     in if \<not> hasU \<and> \<not> hasG then ((0, False), fs)
        else if hasU \<and> hasG then chown (sa_Uid rq) (sa_Gid rq)
        else (case pf_GetAttr pf (sa_Path rq) fx fs of
                (attr, st) \<Rightarrow>
                  if st \<noteq> 0 then ((st, False), fs)
                  else (case attr of
                          None \<Rightarrow> ((5, False), fs)
                        | Some at \<Rightarrow> chown (if hasU then sa_Uid rq else fa_Uid at)
                                           (if hasG then sa_Gid rq else fa_Gid at))))"

(* src/pkg/server/controller/fs.go:425-439 applySetAttr *)
definition set_times_step :: "'fs pathfs \<Rightarrow> SetAttrRequest \<Rightarrow> fctx \<Rightarrow> 'fs \<Rightarrow> (nat \<times> bool) \<times> 'fs" where
  "set_times_step pf rq fx fs =
    (let hasA = has_bit (sa_Valid rq) FATTR_ATIME; hasM = has_bit (sa_Valid rq) FATTR_MTIME
     in if hasA \<or> hasM
        then (case pf_Utimens pf (sa_Path rq) (if hasA then sa_Atime rq else None)
                     (if hasM then sa_Mtime rq else None) fx fs of (st, fs') \<Rightarrow> ((st, st = 0), fs'))
        else ((0, False), fs))"

text \<open>Run the steps in order; the first failure ends the run, and the flag tells whether any step
  had changed the file.\<close>

fun seq_steps :: "('fs \<Rightarrow> (nat \<times> bool) \<times> 'fs) list \<Rightarrow> bool \<Rightarrow> 'fs \<Rightarrow> (nat \<times> bool) \<times> 'fs" where
  "seq_steps [] mutated fs = ((0, mutated), fs)"
| "seq_steps (f # steps) mutated fs =
    (case f fs of
       ((st, m), fs') \<Rightarrow> if st \<noteq> 0 then ((st, mutated), fs') else seq_steps steps (mutated \<or> m) fs')"

(* src/pkg/server/controller/fs.go:383-441 applySetAttr *)
definition applySetAttr :: "'fs pathfs \<Rightarrow> SetAttrRequest \<Rightarrow> fctx \<Rightarrow> 'fs \<Rightarrow> (nat \<times> bool) \<times> 'fs" where
  "applySetAttr pf rq fx =
    seq_steps [set_size_step pf rq fx, set_mode_step pf rq fx, set_owner_step pf rq fx, set_times_step pf rq fx] False"

(* src/pkg/server/controller/applyop.go:167-213 applySetAttrOp *)
definition applySetAttrOp ::
  "'fs pathfs \<Rightarrow> string \<Rightarrow> Identity option \<Rightarrow> string \<Rightarrow> Caller option \<Rightarrow> SetAttrRequest \<Rightarrow> 'fs srv
    \<Rightarrow> (nat \<times> ProtoAttr option) \<times> 'fs srv" where
  "applySetAttrOp pf sid ident vol caller rq s =
    (let fx = createContext caller in
     case applySetAttr pf rq fx (sr_fs s) of
       ((st, mutated), fs') \<Rightarrow>
         (let s1 = s\<lparr>sr_fs := fs'\<rparr> in
          if st \<noteq> 0 then ((st, None), if mutated then emitMutatedAttr sid vol (sa_Path rq) None s1 else s1)
          else (case pf_GetAttr pf (sa_Path rq) fx fs' of
                  (attr, gst) \<Rightarrow>
                    if gst = 0 then
                      ((0, toProtoAttr attr ident),
                       if mutated then emitMutatedAttr sid vol (sa_Path rq) attr s1 else s1)
                    else ((0, None), if mutated then emitMutatedAttr sid vol (sa_Path rq) None s1 else s1))))"

(* src/pkg/server/controller/applyop.go:215-220 applyOpProtoStatus *)
definition applyOpProtoStatus :: "nat \<Rightarrow> FsError" where
  "applyOpProtoStatus st = fromErrno_status st"

section \<open>What an operation does to the files\<close>

text \<open>The emission never touches the files: the effect of a path operation is that of its call.\<close>

definition path_call :: "'fs pathfs \<Rightarrow> PathOp \<Rightarrow> 'fs \<Rightarrow> nat \<times> 'fs" where
  "path_call pf op =
    (let fx = createContext (po_Caller op) in
     case po_Kind op of
       opMkdir \<Rightarrow> pf_Mkdir pf (po_Path op) (po_Mode op) fx
     | opSymlink \<Rightarrow> pf_Symlink pf (po_Target op) (po_Path op) fx
     | opRmdir \<Rightarrow> pf_Rmdir pf (po_Path op) fx
     | opUnlink \<Rightarrow> pf_Unlink pf (po_Path op) fx
     | opRename \<Rightarrow> pf_Rename pf (po_OldName op) (po_NewName op) fx
     | opSetXAttr \<Rightarrow> pf_SetXAttr pf (po_Path op) (po_XAttr op) (po_XData op) (po_XFlags op) fx
     | opRemoveXAttr \<Rightarrow> pf_RemoveXAttr pf (po_Path op) (po_XAttr op) fx
     | opUnknown \<Rightarrow> (\<lambda>fs. (5, fs)))"

lemma emitMutatedAttr_fs [simp]: "sr_fs (emitMutatedAttr sid vol p a s) = sr_fs s"
  by (simp add: emitMutatedAttr_def)

lemma statAttrsAndEmit_fs [simp]: "sr_fs (snd (statAttrsAndEmit pf sid vol p ident fx s)) = sr_fs s"
  by (simp add: statAttrsAndEmit_def split: prod.splits)

lemma run_fs_eq: "run_fs op s = (fst (op (sr_fs s)), s\<lparr>sr_fs := snd (op (sr_fs s))\<rparr>)"
  by (simp add: run_fs_def split_beta)

lemmas emit_defs = mutateEmit_def deleteEmit_def renameEmit_def run_fs_eq

lemma applyPathOp_call:
  "fst (fst (applyPathOp pf sid ident vol op s)) = fst (path_call pf op (sr_fs s))"
  "sr_fs (snd (applyPathOp pf sid ident vol op s)) = snd (path_call pf op (sr_fs s))"
  by (cases "po_Kind op"; simp add: applyPathOp_def path_call_def emit_defs Let_def split_beta)+

lemma applySetAttrOp_call:
  "fst (fst (applySetAttrOp pf sid ident vol caller rq s)) = fst (fst (applySetAttr pf rq (createContext caller) (sr_fs s)))"
  "sr_fs (snd (applySetAttrOp pf sid ident vol caller rq s)) = snd (applySetAttr pf rq (createContext caller) (sr_fs s))"
  by (auto simp: applySetAttrOp_def Let_def split_beta)

section \<open>Properties\<close>

text \<open>Coherence of path mutations.  A path operation has exactly the effect and the status of its one
  filesystem call; it changes the event bus only if that call succeeded, and when the call
  succeeded on a volume with subscribers exactly one event is fanned out: a deletion for the
  removals, a rename for a rename, otherwise a mutation of the path, tagged with the calling session.\<close>

theorem path_op_emits_iff_mutated:
  assumes "applyPathOp pf sid ident vol op s = ((st, attr), s')"
  shows "st = fst (path_call pf op (sr_fs s)) \<and> sr_fs s' = snd (path_call pf op (sr_fs s)) \<and>
    (st \<noteq> 0 \<or> \<not> HasSubscribers vol (sr_bus s) \<longrightarrow> sr_bus s' = sr_bus s) \<and>
    (st = 0 \<and> HasSubscribers vol (sr_bus s) \<longrightarrow>
      (\<exists>ver. sr_bus s' =
        (case po_Kind op of
           opRmdir \<Rightarrow> Emit vol (po_Path op) 0 KindDeleted sid (sr_bus s)
         | opUnlink \<Rightarrow> Emit vol (po_Path op) 0 KindDeleted sid (sr_bus s)
         | opRename \<Rightarrow> EmitRename vol (po_OldName op) (po_NewName op) ver sid (sr_bus s)
         | _ \<Rightarrow> Emit vol (po_Path op) ver KindMutated sid (sr_bus s))))"
proof -
  have 1: "st = fst (path_call pf op (sr_fs s))" "sr_fs s' = snd (path_call pf op (sr_fs s))"
    using applyPathOp_call[of pf sid ident vol op s] assms by auto
  have 2: "st \<noteq> 0 \<or> \<not> HasSubscribers vol (sr_bus s) \<longrightarrow> sr_bus s' = sr_bus s"
    using assms by (cases "po_Kind op")
      (auto simp: applyPathOp_def emit_defs Let_def split_beta statAttrsAndEmit_def emitMutatedAttr_def split: if_splits)
  have 3: "\<exists>ver. sr_bus s' =
        (case po_Kind op of
           opRmdir \<Rightarrow> Emit vol (po_Path op) 0 KindDeleted sid (sr_bus s)
         | opUnlink \<Rightarrow> Emit vol (po_Path op) 0 KindDeleted sid (sr_bus s)
         | opRename \<Rightarrow> EmitRename vol (po_OldName op) (po_NewName op) ver sid (sr_bus s)
         | _ \<Rightarrow> Emit vol (po_Path op) ver KindMutated sid (sr_bus s))" if "st = 0 \<and> HasSubscribers vol (sr_bus s)"
    using assms that by (cases "po_Kind op")
      (auto simp: applyPathOp_def emit_defs Let_def split_beta statAttrsAndEmit_def emitMutatedAttr_def split: if_splits)
  show ?thesis using 1 2 3 by blast
qed

text \<open>A filesystem with nothing in it on which every call succeeds, for examples.\<close>

definition ok_fs :: "'fs pathfs" where
  "ok_fs = \<lparr>pf_GetAttr = (\<lambda>p x fs. (None, 2)), pf_Mkdir = (\<lambda>p m x fs. (0, fs)), pf_Rmdir = (\<lambda>p x fs. (0, fs)),
    pf_Unlink = (\<lambda>p x fs. (0, fs)), pf_Symlink = (\<lambda>t p x fs. (0, fs)), pf_Rename = (\<lambda>p q x fs. (0, fs)),
    pf_SetXAttr = (\<lambda>p a d f x fs. (0, fs)), pf_RemoveXAttr = (\<lambda>p a x fs. (0, fs)),
    pf_Truncate = (\<lambda>p n x fs. (0, fs)), pf_Chmod = (\<lambda>p m x fs. (0, fs)), pf_Chown = (\<lambda>p u g x fs. (0, fs)),
    pf_Utimens = (\<lambda>p a m x fs. (0, fs)), pf_Create = (\<lambda>p f m x fs. ((0, 0), fs)),
    pf_Open = (\<lambda>p f x fs. ((0, 0), fs)), pf_Write = (\<lambda>h d off fs. ((length d, 0), fs)),
    pf_Flush = (\<lambda>h fs. (0, fs)), pf_Release = (\<lambda>h fs. fs)\<rparr>"

theorem path_op_emits_iff_mutated_witness:
  "sr_bus (snd (applyPathOp ok_fs ''s'' None ''v'' (no_op\<lparr>po_Kind := opUnlink, po_Path := ''f''\<rparr>)
       \<lparr>sr_fs = (), sr_bus = snd (Subscribe ''v'' ''t'' (NewLocalEventBus 4))\<rparr>))
   = Emit ''v'' ''f'' 0 KindDeleted ''s'' (snd (Subscribe ''v'' ''t'' (NewLocalEventBus 4)))"
proof -
  let ?s = "\<lparr>sr_fs = (), sr_bus = snd (Subscribe ''v'' ''t'' (NewLocalEventBus 4))\<rparr>"
  let ?op = "no_op\<lparr>po_Kind := opUnlink, po_Path := ''f''\<rparr>"
  obtain st attr s' where a: "applyPathOp ok_fs ''s'' None ''v'' ?op ?s = ((st, attr), s')" by (metis surj_pair)
  have "HasSubscribers ''v'' (sr_bus ?s)" "fst (path_call ok_fs ?op (sr_fs ?s)) = 0"
    by (simp_all add: HasSubscribers_def Subscribe_def NewLocalEventBus_def Let_def subs_of_def path_call_def ok_fs_def)
  then show ?thesis using path_op_emits_iff_mutated[OF a] a by simp
qed

lemma seq_steps_mutated: "seq_steps fs' True s = ((st, m), x) \<Longrightarrow> m"
  by (induction fs' True s rule: seq_steps.induct) (auto split: prod.splits if_splits)

lemmas set_step_defs = set_size_step_def set_mode_step_def set_owner_step_def set_times_step_def

text \<open>Setting attributes stops at the first failing step, and the subscribers of the volume are told of
  a change exactly when some step has changed the file, so that a partial failure (a truncate that
  succeeded before a refused chmod) also invalidates client caches; a request that succeeds
  without changing anything leaves the files and the bus alone.\<close>

theorem setattr_partial_failure_still_invalidates:
  assumes "applySetAttrOp pf sid ident vol caller rq s = ((st, attr), s')"
    and "applySetAttr pf rq (createContext caller) (sr_fs s) = ((st0, mutated), fs')"
    and "HasSubscribers vol (sr_bus s)"
  shows "st = st0 \<and> sr_fs s' = fs' \<and>
    (mutated \<longrightarrow> (\<exists>ver. sr_bus s' = Emit vol (sa_Path rq) ver KindMutated sid (sr_bus s))) \<and>
    (\<not> mutated \<longrightarrow> sr_bus s' = sr_bus s) \<and>
    (st = 0 \<and> \<not> mutated \<longrightarrow> fs' = sr_fs s) \<and>
    (has_bit (sa_Valid rq) FATTR_SIZE \<and>
       fst (pf_Truncate pf (sa_Path rq) (sa_Size rq) (createContext caller) (sr_fs s)) = 0 \<longrightarrow> mutated)"
proof -
  have 1: "st = st0 \<and> sr_fs s' = fs' \<and>
    (mutated \<longrightarrow> (\<exists>ver. sr_bus s' = Emit vol (sa_Path rq) ver KindMutated sid (sr_bus s))) \<and>
    (\<not> mutated \<longrightarrow> sr_bus s' = sr_bus s)"
    using assms by (auto simp: applySetAttrOp_def Let_def emitMutatedAttr_def split: prod.splits if_splits)
  have 2: "fs' = sr_fs s" if "st = 0" "\<not> mutated"
    using assms(2) that 1 unfolding applySetAttr_def
    by (auto simp: set_step_defs Let_def split: if_splits prod.splits option.splits)
  have 3: mutated if "has_bit (sa_Valid rq) FATTR_SIZE"
      "fst (pf_Truncate pf (sa_Path rq) (sa_Size rq) (createContext caller) (sr_fs s)) = 0"
    using assms(2) that unfolding applySetAttr_def
    by (auto dest: seq_steps_mutated simp: set_size_step_def split_beta simp del: seq_steps.simps(2) simp: seq_steps.simps(2)[of "set_size_step pf rq (createContext caller)"])
  show ?thesis using 1 2 3 by blast
qed

theorem setattr_partial_failure_still_invalidates_witness:
  "let pf = ok_fs\<lparr>pf_Chmod := \<lambda>p m x fs. (1, fs)\<rparr>;
       rq = \<lparr>sa_Path = ''f'', sa_Valid = 9, sa_Mode = 0, sa_Uid = 0, sa_Gid = 0, sa_Size = 0, sa_Atime = None, sa_Mtime = None\<rparr>;
       b = snd (Subscribe ''v'' ''t'' (NewLocalEventBus 4))
   in \<exists>attr s' ver. applySetAttrOp pf ''s'' None ''v'' None rq \<lparr>sr_fs = (), sr_bus = b\<rparr> = ((1, attr), s') \<and>
        sr_bus s' = Emit ''v'' ''f'' ver KindMutated ''s'' b"
proof -
  let ?pf = "ok_fs\<lparr>pf_Chmod := \<lambda>p m x fs. (1, fs)\<rparr> :: unit pathfs"
  let ?rq = "\<lparr>sa_Path = ''f'', sa_Valid = 9, sa_Mode = 0, sa_Uid = 0, sa_Gid = 0, sa_Size = 0, sa_Atime = None, sa_Mtime = None\<rparr>"
  let ?b = "snd (Subscribe ''v'' ''t'' (NewLocalEventBus 4))"
  obtain st attr s' where a: "applySetAttrOp ?pf ''s'' None ''v'' None ?rq \<lparr>sr_fs = (), sr_bus = ?b\<rparr> = ((st, attr), s')"
    by (metis surj_pair)
  have e: "applySetAttr ?pf ?rq (createContext None) (sr_fs \<lparr>sr_fs = (), sr_bus = ?b\<rparr>) = ((1, True), ())"
    by (simp add: applySetAttr_def set_step_defs has_bit_def ok_fs_def)
  have "HasSubscribers ''v'' (sr_bus \<lparr>sr_fs = (), sr_bus = ?b\<rparr>)"
    by (simp add: HasSubscribers_def Subscribe_def NewLocalEventBus_def Let_def subs_of_def)
  from setattr_partial_failure_still_invalidates[OF a e this] show ?thesis using a by (auto simp: Let_def)
qed

end
