(* ===== verification/Apply_Server.thy ===== *)
theory Apply_Server
  imports Path_Ops Watermark
begin

text \<open>
  The server side of the write-ahead log: the streaming Apply handler
  (\<^verbatim>\<open>pkg/server/controller/apply.go\<close>).  The stream is the list of what \<^verbatim>\<open>stream.Recv\<close> returns; a list
  that ends without \<open>RvEOF\<close> is a stream whose transport broke.  The handler is the iteration of
  \<open>apply_recv\<close>, one received message, on the stream-local variables, the server and the watermark
  store, so that other requests can run between two messages.  Binding an identity to a volume,
  the session check and whether the final durable write succeeds are parameters.
\<close>

section \<open>Single operations\<close>

(* src/pkg/server/controller/apply.go:389-423 applyCreate *)
definition applyCreate ::
  "'fs pathfs \<Rightarrow> string \<Rightarrow> string \<Rightarrow> Caller option \<Rightarrow> path \<Rightarrow> u32 \<Rightarrow> u32 \<Rightarrow> 'fs srv \<Rightarrow> nat \<times> 'fs srv" where
  "applyCreate pf sid vol caller p flags mode s =
    (let fx = createContext caller in
     case pf_Create pf p flags mode fx (sr_fs s) of
       ((h, st), fs1) \<Rightarrow>
         if st \<noteq> 0 then (st, s\<lparr>sr_fs := fs1\<rparr>)
         else
           (let fs2 = pf_Release pf h (snd (pf_Flush pf h fs1)); s2 = s\<lparr>sr_fs := fs2\<rparr>
            in case pf_GetAttr pf p fx fs2 of
                 (attr, gst) \<Rightarrow> (0, emitMutatedAttr sid vol p (if gst = 0 then attr else None) s2)))"

(* src/pkg/server/controller/apply.go:425-470 applyWrite *)
definition applyWrite ::
  "'fs pathfs \<Rightarrow> string \<Rightarrow> string \<Rightarrow> Caller option \<Rightarrow> path \<Rightarrow> int \<Rightarrow> bytes \<Rightarrow> 'fs srv \<Rightarrow> nat \<times> 'fs srv" where
  "applyWrite pf sid vol caller p off data s =
    (let fx = createContext caller;
         close = (\<lambda>h s. s\<lparr>sr_fs := pf_Release pf h (snd (pf_Flush pf h (sr_fs s)))\<rparr>)
     in case pf_Open pf p 1 fx (sr_fs s) of
       ((h, st), fs1) \<Rightarrow>
         if st \<noteq> 0 then (st, s\<lparr>sr_fs := fs1\<rparr>)
         else
           (case pf_Write pf h data off fs1 of
              ((n, wst), fs2) \<Rightarrow>
                (let s2 = s\<lparr>sr_fs := fs2\<rparr> in
                 if wst \<noteq> 0 then (wst, close h s2)
                 else if n \<noteq> length data then (5, close h s2)
                 else (case pf_GetAttr pf p fx fs2 of
                         (attr, gst) \<Rightarrow>
                           (0, close h (emitMutatedAttr sid vol p (if gst = 0 then attr else None) s2))))))"

(* src/pkg/server/controller/apply.go:213-316 applyWalOp *)
fun applyWalOp :: "'fs pathfs \<Rightarrow> string \<Rightarrow> Identity \<Rightarrow> string \<Rightarrow> wal_body \<Rightarrow> 'fs srv \<Rightarrow> nat \<times> 'fs srv" where
  "applyWalOp pf sid ident vol (WCreate h p flags mode) s = applyCreate pf sid vol (rh_Caller h) p flags mode s"
| "applyWalOp pf sid ident vol (WWrite h p off data) s = applyWrite pf sid vol (rh_Caller h) p off data s"
| "applyWalOp pf sid ident vol (WRelease h p) s = (0, s)"
| "applyWalOp pf sid ident vol (WMkdir h p mode) s =
    (case applyPathOp pf sid (Some ident) vol
            (no_op\<lparr>po_Kind := opMkdir, po_Path := p, po_Mode := mode, po_Caller := rh_Caller h\<rparr>) s of
       ((st, _), s') \<Rightarrow> (st, s'))"
| "applyWalOp pf sid ident vol (WRmdir h p) s =
    (case applyPathOp pf sid None vol (no_op\<lparr>po_Kind := opRmdir, po_Path := p, po_Caller := rh_Caller h\<rparr>) s of
       ((st, _), s') \<Rightarrow> (st, s'))"
| "applyWalOp pf sid ident vol (WUnlink h p) s =
    (case applyPathOp pf sid None vol (no_op\<lparr>po_Kind := opUnlink, po_Path := p, po_Caller := rh_Caller h\<rparr>) s of
       ((st, _), s') \<Rightarrow> (st, s'))"
| "applyWalOp pf sid ident vol (WRename h old new) s =
    (case applyPathOp pf sid None vol
            (no_op\<lparr>po_Kind := opRename, po_OldName := old, po_NewName := new, po_Caller := rh_Caller h\<rparr>) s of
       ((st, _), s') \<Rightarrow> (st, s'))"
| "applyWalOp pf sid ident vol (WSymlink h link target) s =
    (case applyPathOp pf sid (Some ident) vol
            (no_op\<lparr>po_Kind := opSymlink, po_Path := link, po_Target := target, po_Caller := rh_Caller h\<rparr>) s of
       ((st, _), s') \<Rightarrow> (st, s'))"
| "applyWalOp pf sid ident vol (WSetAttr h rq) s =
    (case applySetAttrOp pf sid (Some ident) vol (rh_Caller h) rq s of ((st, _), s') \<Rightarrow> (st, s'))"
| "applyWalOp pf sid ident vol (WSetXattr h p a d fl) s =
    (case applyPathOp pf sid None vol
            (no_op\<lparr>po_Kind := opSetXAttr, po_Path := p, po_XAttr := a, po_XData := d, po_XFlags := fl,
                   po_Caller := rh_Caller h\<rparr>) s of ((st, _), s') \<Rightarrow> (st, s'))"
| "applyWalOp pf sid ident vol (WRemoveXattr h p a) s =
    (case applyPathOp pf sid None vol
            (no_op\<lparr>po_Kind := opRemoveXAttr, po_Path := p, po_XAttr := a, po_Caller := rh_Caller h\<rparr>) s of
       ((st, _), s') \<Rightarrow> (st, s'))"
| "applyWalOp pf sid ident vol WUnset s = (5, s)"

(* src/pkg/server/controller/apply.go:378-387 existingFileMode *)
definition existingFileMode :: "'fs pathfs \<Rightarrow> path \<Rightarrow> Caller option \<Rightarrow> 'fs \<Rightarrow> u32" where
  "existingFileMode pf p caller fs =
    (case pf_GetAttr pf p (createContext caller) fs of
       (attr, gst) \<Rightarrow> if gst \<noteq> 0 then 0 else (case attr of Some a \<Rightarrow> fa_Mode a | None \<Rightarrow> 0))"

text \<open>Linux file-type bits: \<open>S_IFMT\<close> 0xF000, \<open>S_IFDIR\<close> 0x4000, \<open>S_IFLNK\<close> 0xA000; \<open>EEXIST\<close> 17, \<open>ENOENT\<close> 2.\<close>

(* src/pkg/server/controller/apply.go:348-376 idempotentSkip *)
fun idempotentSkip :: "'fs pathfs \<Rightarrow> wal_body \<Rightarrow> nat \<Rightarrow> 'fs \<Rightarrow> bool" where
  "idempotentSkip pf (WMkdir h p mode) st fs \<longleftrightarrow>
     st = 17 \<and> existingFileMode pf p (rh_Caller h) fs AND 0xF000 = 0x4000"
| "idempotentSkip pf (WSymlink h link target) st fs \<longleftrightarrow>
     st = 17 \<and> existingFileMode pf link (rh_Caller h) fs AND 0xF000 = 0xA000"
| "idempotentSkip pf (WUnlink h p) st fs \<longleftrightarrow> st = 2"
| "idempotentSkip pf (WRmdir h p) st fs \<longleftrightarrow> st = 2"
| "idempotentSkip pf _ st fs \<longleftrightarrow> False"

(* src/pkg/server/controller/apply.go:472-504 walOpVolumeCaller *)
fun walOpVolumeCaller :: "wal_body \<Rightarrow> string \<times> Caller option" where
  "walOpVolumeCaller (WCreate h _ _ _) = (rh_Volume h, rh_Caller h)"
| "walOpVolumeCaller (WWrite h _ _ _) = (rh_Volume h, rh_Caller h)"
| "walOpVolumeCaller (WRelease h _) = (rh_Volume h, rh_Caller h)"
| "walOpVolumeCaller (WMkdir h _ _) = (rh_Volume h, rh_Caller h)"
| "walOpVolumeCaller (WRmdir h _) = (rh_Volume h, rh_Caller h)"
| "walOpVolumeCaller (WUnlink h _) = (rh_Volume h, rh_Caller h)"
| "walOpVolumeCaller (WRename h _ _) = (rh_Volume h, rh_Caller h)"
| "walOpVolumeCaller (WSymlink h _ _) = (rh_Volume h, rh_Caller h)"
| "walOpVolumeCaller (WSetAttr h _) = (rh_Volume h, rh_Caller h)"
| "walOpVolumeCaller (WSetXattr h _ _ _ _) = (rh_Volume h, rh_Caller h)"
| "walOpVolumeCaller (WRemoveXattr h _ _) = (rh_Volume h, rh_Caller h)"
| "walOpVolumeCaller WUnset = ('''', None)"

(* src/pkg/server/controller/apply.go:318-346 walOpKindPath *)
fun walOpKindPath :: "wal_body \<Rightarrow> string \<times> string" where
  "walOpKindPath (WCreate h p _ _) = (''create'', p)"
| "walOpKindPath (WWrite h p _ _) = (''write'', p)"
| "walOpKindPath (WMkdir h p _) = (''mkdir'', p)"
| "walOpKindPath (WRmdir h p) = (''rmdir'', p)"
| "walOpKindPath (WUnlink h p) = (''unlink'', p)"
| "walOpKindPath (WRename h old new) = (''rename'', old @ '' -> '' @ new)"
| "walOpKindPath (WSymlink h link _) = (''symlink'', link)"
| "walOpKindPath (WSetAttr h rq) = (''setattr'', sa_Path rq)"
| "walOpKindPath (WSetXattr h p _ _ _) = (''setxattr'', p)"
| "walOpKindPath (WRemoveXattr h p _) = (''removexattr'', p)"
| "walOpKindPath (WRelease h p) = (''release'', '''')"
| "walOpKindPath WUnset = (''unknown'', '''')"

(* src/pkg/server/controller/apply.go:506-516 isRevokedGen *)
fun isRevokedGen :: "u64 \<Rightarrow> u64 list \<Rightarrow> bool" where
  "isRevokedGen gen [] = False"
| "isRevokedGen gen (r # rs) = (if r = gen then True else isRevokedGen gen rs)"

lemma isRevokedGen_iff [simp]: "isRevokedGen gen rs \<longleftrightarrow> gen \<in> set rs"
  by (induction rs) auto

section \<open>The stream\<close>

datatype recv = RvOp WalOp | RvEOF | RvErr

record ApplyAck =
  aa_Watermark :: u64
  aa_FailedSeq :: u64
  aa_Fserr :: FsError

datatype apply_error = NoSession | SessionRefused | NoWatermarkStore | RecvFailed | NoVolume | BindFailed
  | GetFailed wm_error | AdvanceFailed wm_error

text \<open>The variables of the handler: the key, filesystem and identity are set with the first operation.\<close>

(* src/pkg/server/controller/apply.go:81-92 Apply *)
record 'fs ap_vars =
  av_committed :: u64
  av_bound :: "(wm_Key \<times> 'fs pathfs \<times> Identity) option"
  av_revoked :: "u64 list"

definition ap_init :: "'fs ap_vars" where
  "ap_init = \<lparr>av_committed = 0, av_bound = None, av_revoked = []\<rparr>"

(* src/pkg/server/controller/apply.go:94-109 Apply *)
definition sendAck ::
  "bool \<Rightarrow> u64 \<Rightarrow> FsError \<Rightarrow> 'fs ap_vars \<Rightarrow> bboltStore \<Rightarrow> (apply_error + ApplyAck) \<times> bboltStore" where
  "sendAck commit failedSeq fserror v store =
    (let ack = Inr \<lparr>aa_Watermark = av_committed v, aa_FailedSeq = failedSeq, aa_Fserr = fserror\<rparr>
     in case av_bound v of
          None \<Rightarrow> (ack, store)
        | Some (k, _, _) \<Rightarrow>
            (case wm_Advance commit k (av_committed v) store of
               (Inl e, store') \<Rightarrow> (Inl (AdvanceFailed e), store')
             | (Inr _, store') \<Rightarrow> (ack, store')))"

type_synonym 'fs idbind = "string \<Rightarrow> Caller option \<Rightarrow> ('fs pathfs \<times> Identity) option"

(* src/pkg/server/controller/apply.go:122-153 Apply *)
definition ap_bind :: "'fs idbind \<Rightarrow> WalOp \<Rightarrow> 'fs ap_vars \<Rightarrow> bboltStore \<Rightarrow> apply_error + 'fs ap_vars" where
  "ap_bind bind op v store =
    (case av_bound v of
       Some _ \<Rightarrow> Inr v
     | None \<Rightarrow>
         (case walOpVolumeCaller (wo_Body op) of
            (vol, caller) \<Rightarrow>
              if vol = '''' then Inl NoVolume
              else (case bind vol caller of
                      None \<Rightarrow> Inl BindFailed
                    | Some (pf, ident) \<Rightarrow>
                        (let k = \<lparr>wk_Identity = id_Principal ident, wk_Volume = vol, wk_Epoch = wo_WalEpoch op\<rparr>
                         in case wm_Get store k of
                              Inl e \<Rightarrow> Inl (GetFailed e)
                            | Inr r \<Rightarrow>
                                Inr \<lparr>av_committed = wr_Watermark r, av_bound = Some (k, pf, ident),
                                     av_revoked = wr_RevokedGens r\<rparr>))))"

datatype ap_verdict = Continue | Halt u64 FsError

(* src/pkg/server/controller/apply.go:155-209 Apply *)
definition ap_op :: "string \<Rightarrow> WalOp \<Rightarrow> 'fs ap_vars \<Rightarrow> 'fs srv \<Rightarrow> ap_verdict \<times> 'fs ap_vars \<times> 'fs srv" where
  "ap_op sid op v s =
    (case av_bound v of
       None \<Rightarrow> (Continue, v, s)
     | Some (k, pf, ident) \<Rightarrow>
         (let seq = wo_Seq op in
          if seq \<le> av_committed v then (Continue, v, s)
          else if wo_Gen op > 0 \<and> isRevokedGen (wo_Gen op) (av_revoked v) then (Halt seq FS_ESTALE, v, s)
          else (case applyWalOp pf sid ident (wk_Volume k) (wo_Body op) s of
                  (st, s') \<Rightarrow>
                    if st \<noteq> 0 then
                      (if idempotentSkip pf (wo_Body op) st (sr_fs s')
                       then (Continue, v\<lparr>av_committed := seq\<rparr>, s')
                       else (Halt seq (fromErrno_status st), v, s'))
                    else (Continue, v\<lparr>av_committed := seq\<rparr>, s'))))"

(* src/pkg/server/controller/apply.go:111-210 Apply *)
definition apply_recv ::
  "'fs idbind \<Rightarrow> bool \<Rightarrow> string \<Rightarrow> recv \<Rightarrow> 'fs ap_vars \<times> 'fs srv \<times> bboltStore
    \<Rightarrow> (apply_error + ApplyAck) option \<times> 'fs ap_vars \<times> 'fs srv \<times> bboltStore" where
  "apply_recv bind commit sid rv st =
    (case st of (v, s, store) \<Rightarrow>
      (case rv of
         RvErr \<Rightarrow> (Some (Inl RecvFailed), v, s, store)
       | RvEOF \<Rightarrow> (case sendAck commit 0 FS_OK v store of (r, store') \<Rightarrow> (Some r, v, s, store'))
       | RvOp op \<Rightarrow>
           (case ap_bind bind op v store of
              Inl e \<Rightarrow> (Some (Inl e), v, s, store)
            | Inr v1 \<Rightarrow>
                (case ap_op sid op v1 s of
                   (Continue, v2, s2) \<Rightarrow> (None, v2, s2, store)
                 | (Halt seq e, v2, s2) \<Rightarrow>
                     (case sendAck commit seq e v2 store of (r, store') \<Rightarrow> (Some r, v2, s2, store'))))))"

fun apply_loop ::
  "'fs idbind \<Rightarrow> bool \<Rightarrow> string \<Rightarrow> recv list \<Rightarrow> 'fs ap_vars \<times> 'fs srv \<times> bboltStore
    \<Rightarrow> (apply_error + ApplyAck) \<times> 'fs srv \<times> bboltStore" where
  "apply_loop bind commit sid [] st = (Inl RecvFailed, snd st)"
| "apply_loop bind commit sid (rv # rvs) st =
    (case apply_recv bind commit sid rv st of
       (Some r, v, s, store) \<Rightarrow> (r, s, store)
     | (None, st') \<Rightarrow> apply_loop bind commit sid rvs st')"

(* src/pkg/server/controller/apply.go:62-211 Apply *)
definition Apply ::
  "'fs idbind \<Rightarrow> (string \<Rightarrow> bool) \<Rightarrow> bool \<Rightarrow> string \<Rightarrow> recv list \<Rightarrow> 'fs srv \<Rightarrow> bboltStore option
    \<Rightarrow> (apply_error + ApplyAck) \<times> 'fs srv \<times> bboltStore option" where
  "Apply bind sess_ok commit sid rvs s store =
    (if sid = '''' then (Inl NoSession, s, store)
     else if \<not> sess_ok sid then (Inl SessionRefused, s, store)
     else (case store of
             None \<Rightarrow> (Inl NoWatermarkStore, s, store)
           | Some db \<Rightarrow>
               (case apply_loop bind commit sid rvs (ap_init, s, db) of (r, s', db') \<Rightarrow> (r, s', Some db'))))"

section \<open>A bound stream\<close>

fun ap_ops :: "string \<Rightarrow> WalOp list \<Rightarrow> 'fs ap_vars \<Rightarrow> 'fs srv \<Rightarrow> ap_verdict \<times> 'fs ap_vars \<times> 'fs srv" where
  "ap_ops sid [] v s = (Continue, v, s)"
| "ap_ops sid (op # ops) v s =
    (case ap_op sid op v s of
       (Continue, v1, s1) \<Rightarrow> ap_ops sid ops v1 s1
     | (Halt q e, v1, s1) \<Rightarrow> (Halt q e, v1, s1))"

definition verdict_ack :: "bool \<Rightarrow> ap_verdict \<Rightarrow> 'fs ap_vars \<Rightarrow> bboltStore \<Rightarrow> (apply_error + ApplyAck) \<times> bboltStore" where
  "verdict_ack commit vd v store = (case vd of Continue \<Rightarrow> sendAck commit 0 FS_OK v store | Halt q e \<Rightarrow> sendAck commit q e v store)"

lemma ap_op_bound: "ap_op sid op v s = (vd, v', s') \<Longrightarrow> av_bound v' = av_bound v \<and> av_revoked v' = av_revoked v"
  by (auto simp: ap_op_def Let_def split: option.splits prod.splits if_splits)

lemma ap_bind_bound: "av_bound v \<noteq> None \<Longrightarrow> ap_bind bind op v store = Inr v"
  by (auto simp: ap_bind_def)

lemma apply_loop_bound:
  assumes "av_bound v \<noteq> None"
  shows "apply_loop bind commit sid (map RvOp ops @ [RvEOF]) (v, s, store) =
    (case ap_ops sid ops v s of (vd, v', s') \<Rightarrow>
      (case verdict_ack commit vd v' store of (r, store') \<Rightarrow> (r, s', store')))"
  using assms
proof (induction ops arbitrary: v s)
  case Nil
  then show ?case by (simp add: apply_recv_def verdict_ack_def split: prod.splits)
next
  case (Cons op ops)
  obtain vd v1 s1 where a: "ap_op sid op v s = (vd, v1, s1)" by (metis prod_cases3)
  have "av_bound v1 \<noteq> None" using ap_op_bound[OF a] Cons.prems by simp
  then show ?case
    using Cons a by (cases vd) (simp_all add: apply_recv_def ap_bind_bound verdict_ack_def split: prod.splits)
qed

text \<open>A batch all of whose operations belong to one volume, caller and epoch, as one client sends it.\<close>

definition uniform :: "string \<Rightarrow> Caller option \<Rightarrow> string \<Rightarrow> WalOp list \<Rightarrow> bool" where
  "uniform vol caller epoch ops \<longleftrightarrow>
    vol \<noteq> '''' \<and> (\<forall>op\<in>set ops. walOpVolumeCaller (wo_Body op) = (vol, caller) \<and> wo_WalEpoch op = epoch)"

definition stream_key :: "Identity \<Rightarrow> string \<Rightarrow> string \<Rightarrow> wm_Key" where
  "stream_key ident vol epoch = \<lparr>wk_Identity = id_Principal ident, wk_Volume = vol, wk_Epoch = epoch\<rparr>"

definition bound_vars :: "'fs pathfs \<Rightarrow> Identity \<Rightarrow> wm_Key \<Rightarrow> wm_Record \<Rightarrow> 'fs ap_vars" where
  "bound_vars pf ident k r = \<lparr>av_committed = wr_Watermark r, av_bound = Some (k, pf, ident), av_revoked = wr_RevokedGens r\<rparr>"

lemma apply_loop_uniform:
  assumes "uniform vol caller epoch ops" and "ops \<noteq> []" and "bind vol caller = Some (pf, ident)"
    and "wm_Get store (stream_key ident vol epoch) = Inr r"
  shows "apply_loop bind commit sid (map RvOp ops @ [RvEOF]) (ap_init, s, store) =
    (case ap_ops sid ops (bound_vars pf ident (stream_key ident vol epoch) r) s of (vd, v', s') \<Rightarrow>
      (case verdict_ack commit vd v' store of (r, store') \<Rightarrow> (r, s', store')))"
proof -
  obtain op rest where ops: "ops = op # rest" using assms(2) by (cases ops) auto
  let ?v = "bound_vars pf ident (stream_key ident vol epoch) r"
  have b: "ap_bind bind op ap_init store = Inr ?v"
    using assms ops by (simp add: ap_bind_def ap_init_def uniform_def stream_key_def bound_vars_def Let_def)
  have bb: "ap_bind bind op ?v store = Inr ?v" by (simp add: ap_bind_bound bound_vars_def)
  have "apply_loop bind commit sid (map RvOp ops @ [RvEOF]) (ap_init, s, store) =
      apply_loop bind commit sid (map RvOp ops @ [RvEOF]) (?v, s, store)"
    by (simp add: ops apply_recv_def b bb split: prod.splits)
  then show ?thesis by (simp add: apply_loop_bound bound_vars_def)
qed

section \<open>What a batch does\<close>

definition op_applies :: "'fs pathfs \<Rightarrow> string \<Rightarrow> Identity \<Rightarrow> string \<Rightarrow> WalOp \<Rightarrow> 'fs srv \<Rightarrow> bool" where
  "op_applies pf sid ident vol op s \<longleftrightarrow>
    (case applyWalOp pf sid ident vol (wo_Body op) s of
       (st, s') \<Rightarrow> st = 0 \<or> idempotentSkip pf (wo_Body op) st (sr_fs s'))"

definition op_effect :: "'fs pathfs \<Rightarrow> string \<Rightarrow> Identity \<Rightarrow> string \<Rightarrow> WalOp \<Rightarrow> 'fs srv \<Rightarrow> 'fs srv" where
  "op_effect pf sid ident vol op s = snd (applyWalOp pf sid ident vol (wo_Body op) s)"

definition op_status :: "'fs pathfs \<Rightarrow> string \<Rightarrow> Identity \<Rightarrow> string \<Rightarrow> WalOp \<Rightarrow> 'fs srv \<Rightarrow> nat" where
  "op_status pf sid ident vol op s = fst (applyWalOp pf sid ident vol (wo_Body op) s)"

fun all_apply :: "'fs pathfs \<Rightarrow> string \<Rightarrow> Identity \<Rightarrow> string \<Rightarrow> WalOp list \<Rightarrow> 'fs srv \<Rightarrow> bool" where
  "all_apply pf sid ident vol [] s = True"
| "all_apply pf sid ident vol (op # ops) s \<longleftrightarrow>
    op_applies pf sid ident vol op s \<and> all_apply pf sid ident vol ops (op_effect pf sid ident vol op s)"

abbreviation run_ops :: "'fs pathfs \<Rightarrow> string \<Rightarrow> Identity \<Rightarrow> string \<Rightarrow> WalOp list \<Rightarrow> 'fs srv \<Rightarrow> 'fs srv" where
  "run_ops pf sid ident vol ops s \<equiv> fold (op_effect pf sid ident vol) ops s"

abbreviation seqs_increasing :: "WalOp list \<Rightarrow> bool" where
  "seqs_increasing ops \<equiv> sorted_wrt (<) (map wo_Seq ops)"

abbreviation fenced :: "WalOp \<Rightarrow> u64 list \<Rightarrow> bool" where
  "fenced op gens \<equiv> wo_Gen op \<noteq> 0 \<and> wo_Gen op \<in> set gens"

definition last_seq :: "u64 \<Rightarrow> WalOp list \<Rightarrow> u64" where
  "last_seq w ops = (if ops = [] then w else wo_Seq (last ops))"

lemma ap_op_cases:
  assumes "av_bound v = Some (k, pf, ident)"
  shows "ap_op sid op v s =
    (if wo_Seq op \<le> av_committed v then (Continue, v, s)
     else if fenced op (av_revoked v) then (Halt (wo_Seq op) FS_ESTALE, v, s)
     else if op_applies pf sid ident (wk_Volume k) op s
          then (Continue, v\<lparr>av_committed := wo_Seq op\<rparr>, op_effect pf sid ident (wk_Volume k) op s)
     else (Halt (wo_Seq op) (fromErrno_status (op_status pf sid ident (wk_Volume k) op s)), v,
           op_effect pf sid ident (wk_Volume k) op s))"
  using assms by (simp add: ap_op_def op_applies_def op_effect_def op_status_def Let_def split_beta word_gt_0)

lemma ap_ops_skip:
  "(\<And>op. op \<in> set ops \<Longrightarrow> wo_Seq op \<le> av_committed v) \<Longrightarrow> av_bound v = Some b \<Longrightarrow> ap_ops sid ops v s = (Continue, v, s)"
  by (induction ops) (simp_all add: ap_op_def Let_def split: prod.splits)

lemma ap_ops_append_Continue:
  "ap_ops sid ops v s = (Continue, v1, s1) \<Longrightarrow> ap_ops sid (ops @ later) v s = ap_ops sid later v1 s1"
proof (induction ops arbitrary: v s)
  case (Cons op ops)
  obtain vd v2 s2 where "ap_op sid op v s = (vd, v2, s2)" by (metis prod_cases3)
  then show ?case using Cons by (cases vd) auto
qed simp

lemma increasing_split:
  "seqs_increasing ops \<Longrightarrow>
   \<exists>old new. ops = old @ new \<and> (\<forall>op\<in>set old. wo_Seq op \<le> w) \<and> (\<forall>op\<in>set new. w < wo_Seq op)"
proof (induction ops)
  case (Cons op ops)
  show ?case
  proof (cases "w < wo_Seq op")
    case True
    then have "\<forall>x\<in>set (op # ops). w < wo_Seq x" using Cons.prems by auto
    then show ?thesis by (intro exI[of _ "[]"] exI[of _ "op # ops"]) simp
  next
    case False
    then obtain old new where "ops = old @ new" "\<forall>op\<in>set old. wo_Seq op \<le> w" "\<forall>op\<in>set new. w < wo_Seq op"
      using Cons by auto
    then show ?thesis using False by (intro exI[of _ "op # old"] exI[of _ new]) auto
  qed
qed auto

lemma ap_ops_filter:
  assumes "seqs_increasing ops" and "av_bound v = Some b"
  shows "ap_ops sid ops v s = ap_ops sid (filter (\<lambda>op. av_committed v < wo_Seq op) ops) v s"
proof -
  obtain old new where o: "ops = old @ new" "\<forall>op\<in>set old. wo_Seq op \<le> av_committed v"
    "\<forall>op\<in>set new. av_committed v < wo_Seq op"
    using increasing_split[OF assms(1)] by blast
  have "filter (\<lambda>op. av_committed v < wo_Seq op) old = []" using o(2) by (auto simp: filter_empty_conv not_less)
  moreover have "filter (\<lambda>op. av_committed v < wo_Seq op) new = new" using o(3) by (auto simp: filter_id_conv)
  ultimately have f: "filter (\<lambda>op. av_committed v < wo_Seq op) ops = new" by (simp add: o(1))
  have "ap_ops sid old v s = (Continue, v, s)" using o(2) assms(2) by (intro ap_ops_skip) auto
  then show ?thesis using ap_ops_append_Continue o(1) f by simp
qed

text \<open>How a batch of new operations ends: \<open>don\<close> is applied, and the next operation stops it.\<close>

definition batch_end ::
  "'fs pathfs \<Rightarrow> string \<Rightarrow> Identity \<Rightarrow> string \<Rightarrow> u64 list \<Rightarrow> WalOp list \<Rightarrow> WalOp list \<Rightarrow> ap_verdict \<Rightarrow> 'fs srv \<Rightarrow> 'fs srv \<Rightarrow> bool" where
  "batch_end pf sid ident vol gens ops don vd s s' \<longleftrightarrow>
    (case vd of
       Continue \<Rightarrow> don = ops \<and> s' = run_ops pf sid ident vol don s
     | Halt q e \<Rightarrow> \<exists>op rest. ops = don @ op # rest \<and> q = wo_Seq op \<and>
         (if fenced op gens then e = FS_ESTALE \<and> s' = run_ops pf sid ident vol don s
          else (let s1 = run_ops pf sid ident vol don s in
                \<not> op_applies pf sid ident vol op s1 \<and>
                e = fromErrno_status (op_status pf sid ident vol op s1) \<and>
                s' = op_effect pf sid ident vol op s1)))"

lemma batch_end_Cons:
  "batch_end pf sid ident vol gens ops don vd (op_effect pf sid ident vol op s) s' \<Longrightarrow>
   batch_end pf sid ident vol gens (op # ops) (op # don) vd s s'"
  by (auto simp: batch_end_def split: ap_verdict.splits)

lemma ap_ops_run:
  assumes "av_bound v = Some (k, pf, ident)" and "seqs_increasing ops"
    and "\<forall>op\<in>set ops. av_committed v < wo_Seq op"
    and "ap_ops sid ops v s = (vd, v', s')"
  shows "\<exists>don. prefix don ops \<and> all_apply pf sid ident (wk_Volume k) don s \<and>
    (\<forall>op\<in>set don. \<not> fenced op (av_revoked v)) \<and>
    v' = v\<lparr>av_committed := last_seq (av_committed v) don\<rparr> \<and>
    batch_end pf sid ident (wk_Volume k) (av_revoked v) ops don vd s s'"
  using assms
proof (induction ops arbitrary: v s)
  case Nil
  then show ?case by (auto simp: last_seq_def batch_end_def)
next
  case (Cons op ops)
  note c = ap_op_cases[OF Cons.prems(1), of sid op s]
  have new: "\<not> wo_Seq op \<le> av_committed v" using Cons.prems(3) by (simp add: not_le)
  show ?case
  proof (cases "\<not> fenced op (av_revoked v) \<and> op_applies pf sid ident (wk_Volume k) op s")
    case False
    have "(vd, v', s') = ap_op sid op v s"
      using False c new Cons.prems(4) by (auto split: if_splits)
    then show ?thesis
      using False c new
      by (intro exI[of _ "[]"]) (auto simp: last_seq_def Let_def batch_end_def split: if_splits)
  next
    case True
    let ?v1 = "v\<lparr>av_committed := wo_Seq op\<rparr>" and ?s1 = "op_effect pf sid ident (wk_Volume k) op s"
    have "ap_op sid op v s = (Continue, ?v1, ?s1)" using True c new by auto
    then have step: "ap_ops sid ops ?v1 ?s1 = (vd, v', s')" using Cons.prems(4) by simp
    have inc: "seqs_increasing ops" "\<forall>x\<in>set ops. av_committed ?v1 < wo_Seq x" using Cons.prems(2) by auto
    from Cons.IH[OF _ inc step] Cons.prems(1) obtain don where
      d: "prefix don ops" "all_apply pf sid ident (wk_Volume k) don ?s1" "\<forall>op\<in>set don. \<not> fenced op (av_revoked v)"
        "v' = ?v1\<lparr>av_committed := last_seq (wo_Seq op) don\<rparr>"
        "batch_end pf sid ident (wk_Volume k) (av_revoked v) ops don vd ?s1 s'"
      by auto
    show ?thesis
      using d True batch_end_Cons[OF d(5)] by (intro exI[of _ "op # don"]) (auto simp: last_seq_def)
  qed
qed

section \<open>Properties\<close>

lemma sendAck_persists:
  assumes "sendAck commit q e v store = (Inr ack, store')" and "av_bound v = Some (k, pf, ident)"
    and "wm_Get store k = Inr r"
  shows "ack = \<lparr>aa_Watermark = av_committed v, aa_FailedSeq = q, aa_Fserr = e\<rparr> \<and>
    wm_Get store' k = Inr (r\<lparr>wr_Watermark := max (wr_Watermark r) (av_committed v)\<rparr>)"
proof -
  obtain u where "wm_Advance commit k (av_committed v) store = (Inr u, store')"
      and a: "ack = \<lparr>aa_Watermark = av_committed v, aa_FailedSeq = q, aa_Fserr = e\<rparr>"
    using assms by (auto simp: sendAck_def Let_def split: prod.splits sum.splits)
  from bbolt.adv_ok[OF this(1)] show ?thesis using assms(3) a by auto
qed

lemma Apply_run:
  assumes "sid \<noteq> ''''" and "sess_ok sid" and "uniform vol caller epoch ops" and "ops \<noteq> []"
    and "bind vol caller = Some (pf, ident)" and "k = stream_key ident vol epoch" and "wm_Get db k = Inr r"
    and "Apply bind sess_ok commit sid (map RvOp ops @ [RvEOF]) s (Some db) = (Inr ack, s', Some db')"
  shows "\<exists>vd v'. ap_ops sid ops (bound_vars pf ident k r) s = (vd, v', s') \<and>
    aa_Watermark ack = av_committed v' \<and>
    (case vd of Continue \<Rightarrow> aa_FailedSeq ack = 0 \<and> aa_Fserr ack = FS_OK
      | Halt q e \<Rightarrow> aa_FailedSeq ack = q \<and> aa_Fserr ack = e) \<and>
    wm_Get db' k = Inr (r\<lparr>wr_Watermark := max (wr_Watermark r) (av_committed v')\<rparr>)"
proof -
  obtain vd v' s1 where a: "ap_ops sid ops (bound_vars pf ident k r) s = (vd, v', s1)" by (metis prod_cases3)
  have b: "av_bound v' = Some (k, pf, ident)"
  proof -
    have "av_bound (fst (snd (ap_ops sid ops v s))) = av_bound v" for v
      by (induction sid ops v s rule: ap_ops.induct)
         (auto split: prod.splits ap_verdict.splits dest: ap_op_bound)
    from this[of "bound_vars pf ident k r"] show ?thesis using a by (simp add: bound_vars_def)
  qed
  have "Apply bind sess_ok commit sid (map RvOp ops @ [RvEOF]) s (Some db) =
      (case verdict_ack commit vd v' db of (res, db1) \<Rightarrow> (res, s1, Some db1))"
    using assms(1-7) a by (simp add: Apply_def apply_loop_uniform split: prod.splits)
  then have v: "verdict_ack commit vd v' db = (Inr ack, db')" and s1: "s1 = s'"
    using assms(8) by (auto split: prod.splits)
  show ?thesis
  proof (cases vd)
    case Continue
    then have "sendAck commit 0 FS_OK v' db = (Inr ack, db')" using v by (simp add: verdict_ack_def)
    from sendAck_persists[OF this b assms(7)] show ?thesis using a s1 Continue by auto
  next
    case (Halt q e)
    then have "sendAck commit q e v' db = (Inr ack, db')" using v by (simp add: verdict_ack_def)
    from sendAck_persists[OF this b assms(7)] show ?thesis using a s1 Halt by auto
  qed
qed

lemma Apply_prefix:
  assumes "sid \<noteq> ''''" and "sess_ok sid" and "uniform vol caller epoch ops" and "ops \<noteq> []"
    and "seqs_increasing ops"
    and "bind vol caller = Some (pf, ident)" and "k = stream_key ident vol epoch" and "wm_Get db k = Inr r"
    and "Apply bind sess_ok commit sid (map RvOp ops @ [RvEOF]) s (Some db) = (Inr ack, s', Some db')"
  shows "\<exists>don. prefix don (filter (\<lambda>op. wr_Watermark r < wo_Seq op) ops) \<and>
    all_apply pf sid ident vol don s \<and> (\<forall>op\<in>set don. \<not> fenced op (wr_RevokedGens r)) \<and>
    aa_Watermark ack = last_seq (wr_Watermark r) don \<and>
    wm_Get db' k = Inr (r\<lparr>wr_Watermark := aa_Watermark ack\<rparr>) \<and>
    batch_end pf sid ident vol (wr_RevokedGens r) (filter (\<lambda>op. wr_Watermark r < wo_Seq op) ops) don
      (if aa_FailedSeq ack = 0 then Continue else Halt (aa_FailedSeq ack) (aa_Fserr ack)) s s'"
proof -
  let ?v = "bound_vars pf ident k r" and ?new = "filter (\<lambda>op. wr_Watermark r < wo_Seq op) ops"
  obtain vd v' where run: "ap_ops sid ops ?v s = (vd, v', s')" "aa_Watermark ack = av_committed v'"
      "case vd of Continue \<Rightarrow> aa_FailedSeq ack = 0 \<and> aa_Fserr ack = FS_OK
       | Halt q e \<Rightarrow> aa_FailedSeq ack = q \<and> aa_Fserr ack = e"
      "wm_Get db' k = Inr (r\<lparr>wr_Watermark := max (wr_Watermark r) (av_committed v')\<rparr>)"
    using Apply_run[OF assms(1-4,6-9)] by blast
  have bv: "av_bound ?v = Some (k, pf, ident)" "av_committed ?v = wr_Watermark r" "av_revoked ?v = wr_RevokedGens r"
    by (simp_all add: bound_vars_def)
  have vol: "wk_Volume k = vol" using assms(7) by (simp add: stream_key_def)
  have "ap_ops sid ?new ?v s = (vd, v', s')"
    using ap_ops_filter[OF assms(5) bv(1), of sid s] run(1) by (simp add: bv(2))
  moreover have inc: "seqs_increasing ?new" using assms(5) by (induction ops) auto
  moreover have "\<forall>op\<in>set ?new. av_committed ?v < wo_Seq op" by (simp add: bv(2))
  ultimately obtain don where d: "prefix don ?new" "all_apply pf sid ident vol don s"
      "\<forall>op\<in>set don. \<not> fenced op (wr_RevokedGens r)" "v' = ?v\<lparr>av_committed := last_seq (wr_Watermark r) don\<rparr>"
      "batch_end pf sid ident vol (wr_RevokedGens r) ?new don vd s s'"
    using ap_ops_run[OF bv(1)] unfolding bv vol by blast
  have le: "wr_Watermark r \<le> last_seq (wr_Watermark r) don"
  proof (cases "don = []")
    case False
    then have "last don \<in> set ?new" using d(1) set_mono_prefix last_in_set by blast
    then show ?thesis using False by (auto simp: last_seq_def)
  qed (simp add: last_seq_def)
  have halt: "(if aa_FailedSeq ack = 0 then Continue else Halt (aa_FailedSeq ack) (aa_Fserr ack)) = vd"
  proof (cases vd)
    case (Halt q e)
    then obtain op rest where o: "?new = don @ op # rest" "q = wo_Seq op" using d(5) by (auto simp: batch_end_def)
    have "op \<in> set ?new" unfolding o(1) by simp
    with o(2) have "q \<noteq> 0" by (auto simp: word_gt_0)
    then show ?thesis using run(3) Halt by simp
  qed (use run(3) in simp)
  show ?thesis
    using d run(2,4) le unfolding halt by (intro exI[of _ don]) (auto simp: max_def)
qed

text \<open>C1: an acknowledged batch is an ordered prefix.  Of the operations beyond the durable watermark the
  server has applied, in order and each once, an initial part; the acknowledgement names the last
  of them, is durable before it is sent, and either reports success for the whole batch or the
  first operation that is fenced (not executed at all) or that fails for a reason other than its
  result already being there; nothing after that operation is executed.\<close>

theorem apply_acks_ordered_prefix:
  assumes "sid \<noteq> ''''" and "sess_ok sid" and "uniform vol caller epoch ops" and "ops \<noteq> []"
    and "seqs_increasing ops"
    and "bind vol caller = Some (pf, ident)" and "k = stream_key ident vol epoch" and "wm_Get db k = Inr r"
    and "Apply bind sess_ok commit sid (map RvOp ops @ [RvEOF]) s (Some db) = (Inr ack, s', Some db')"
  shows "\<exists>don. prefix don (filter (\<lambda>op. wr_Watermark r < wo_Seq op) ops) \<and>
    all_apply pf sid ident vol don s \<and> (\<forall>op\<in>set don. \<not> fenced op (wr_RevokedGens r)) \<and>
    aa_Watermark ack = last_seq (wr_Watermark r) don \<and>
    wm_Get db' k = Inr (r\<lparr>wr_Watermark := aa_Watermark ack\<rparr>) \<and>
    batch_end pf sid ident vol (wr_RevokedGens r) (filter (\<lambda>op. wr_Watermark r < wo_Seq op) ops) don
      (if aa_FailedSeq ack = 0 then Continue else Halt (aa_FailedSeq ack) (aa_Fserr ack)) s s'"
  using Apply_prefix[OF assms] .

definition ex_hdr :: ReqHdr where
  "ex_hdr = \<lparr>rh_Volume = ''v'', rh_Caller = None\<rparr>"

definition ex_op :: "u64 \<Rightarrow> u64 \<Rightarrow> wal_body \<Rightarrow> WalOp" where
  "ex_op sq gen body = \<lparr>wo_Body = body, wo_Seq = sq, wo_Gen = gen, wo_WalEpoch = ''e''\<rparr>"

definition ex_ident :: Identity where
  "ex_ident = \<lparr>id_Principal = ''alice'', id_Uid = 1, id_Gid = 1, id_Gids = [], id_UserName = '''', id_GroupNames = []\<rparr>"

text \<open>A volume that holds the list of its names, for examples.\<close>

definition nm_fs :: "string list pathfs" where
  "nm_fs = ok_fs\<lparr>pf_Mkdir := (\<lambda>p m x fs. if p \<in> set fs then (17, fs) else (0, p # fs)),
                 pf_Rename := (\<lambda>p q x fs. if p \<in> set fs then (0, q # removeAll p fs) else (2, fs))\<rparr>"

definition ex_bind :: "string list idbind" where
  "ex_bind vol caller = Some (nm_fs, ex_ident)"

definition ex_srv :: "string list \<Rightarrow> string list srv" where
  "ex_srv fs = \<lparr>sr_fs = fs, sr_bus = NewLocalEventBus 1\<rparr>"

definition ex_batch :: "WalOp list" where
  "ex_batch = [ex_op 1 0 (WMkdir ex_hdr ''a'' 0), ex_op 2 0 (WRename ex_hdr ''a'' ''b'')]"

lemmas ex_defs = ex_hdr_def ex_op_def ex_ident_def nm_fs_def ok_fs_def ex_bind_def ex_srv_def ex_batch_def

lemmas apply_eval = Apply_def apply_recv_def ap_bind_def ap_init_def ap_op_def sendAck_def
  applyPathOp_def statAttrsAndEmit_def emitMutatedAttr_def emit_defs HasSubscribers_def subs_of_def NewLocalEventBus_def
  no_op_def wm_op_defs getRecord_def putRecord_def zero_record_def Let_def toErrno_total

lemma two_not_le_one: "\<not> (2 :: u64) \<le> 1"
  by (simp add: word_le_nat_alt)

lemma ex_run1:
  "Apply ex_bind (\<lambda>_. True) True ''s'' (map RvOp ex_batch @ [RvEOF]) (ex_srv []) (Some []) =
   (Inr \<lparr>aa_Watermark = 2, aa_FailedSeq = 0, aa_Fserr = FS_OK\<rparr>, ex_srv [''b''],
    Some [(keyBytes (stream_key ex_ident ''v'' ''e''), JsonOf \<lparr>wr_Watermark = 2, wr_RevokedGens = [], wr_GenHi = 0\<rparr>)])"
  by (simp add: ex_defs apply_eval stream_key_def two_not_le_one)

lemma ex_batch_ok: "uniform ''v'' None ''e'' ex_batch" "ex_batch \<noteq> []" "seqs_increasing ex_batch"
  by (auto simp: uniform_def ex_defs)

lemma ex_bind_eq: "ex_bind ''v'' None = Some (nm_fs, ex_ident)"
  by (simp add: ex_bind_def)

theorem apply_acks_ordered_prefix_witness:
  "\<exists>don. prefix don ex_batch \<and> all_apply nm_fs ''s'' ex_ident ''v'' don (ex_srv []) \<and> last_seq 0 don = 2"
proof -
  have g: "wm_Get [] (stream_key ex_ident ''v'' ''e'') = Inr zero_record" by (simp add: wm_Get_def getRecord_def)
  have f: "filter (\<lambda>op. wr_Watermark zero_record < wo_Seq op) ex_batch = ex_batch"
    by (simp add: ex_batch_def ex_op_def zero_record_def)
  show ?thesis
    using apply_acks_ordered_prefix[OF _ _ ex_batch_ok ex_bind_eq refl g ex_run1] unfolding f
    by (auto simp: zero_record_def)
qed

lemma last_seq_bound:
  "seqs_increasing ops \<Longrightarrow> op \<in> set ops \<Longrightarrow> wo_Seq op \<le> last_seq w (filter (\<lambda>op. w < wo_Seq op) ops)"
proof -
  assume inc: "seqs_increasing ops" and op: "op \<in> set ops"
  obtain old new where o: "ops = old @ new" "\<forall>op\<in>set old. wo_Seq op \<le> w" "\<forall>op\<in>set new. w < wo_Seq op"
    using increasing_split[OF inc] by blast
  have f: "filter (\<lambda>op. w < wo_Seq op) ops = new"
    using o by (auto simp: filter_empty_conv not_less filter_id_conv)
  have last: "wo_Seq x \<le> wo_Seq (last new)" if "x \<in> set new" for x
    using inc that unfolding o(1)
    by (induction new rule: rev_induct) (auto simp: sorted_wrt_append)
  show ?thesis
  proof (cases "new = []")
    case True
    then show ?thesis using f o op by (auto simp: last_seq_def)
  next
    case False
    then have "w \<le> wo_Seq (last new)" using o(3) last_in_set by fastforce
    then show ?thesis using f o op last False by (auto simp: last_seq_def dest: order_trans)
  qed
qed

lemma Advance_noop:
  "wm_Get db k = Inr r \<Longrightarrow> w \<le> wr_Watermark r \<Longrightarrow> wm_Advance True k w db = (Inr (), db)"
  by (simp add: wm_op_defs)

text \<open>C2: exactly once across a lost acknowledgement.  After a batch has been acknowledged in full, sending
  it again changes neither files nor events nor the store and returns the same acknowledgement;
  sending it again with further operations has exactly the effect and the answer of sending the
  further operations alone.\<close>

theorem acked_batch_is_applied_once:
  assumes "sid \<noteq> ''''" and "sess_ok sid" and "uniform vol caller epoch (ops @ later)" and "ops \<noteq> []"
    and "seqs_increasing ops"
    and "bind vol caller = Some (pf, ident)" and "k = stream_key ident vol epoch" and "wm_Get db k = Inr r"
    and "Apply bind sess_ok c sid (map RvOp ops @ [RvEOF]) s (Some db) = (Inr ack, s', Some db')"
    and "aa_FailedSeq ack = 0" and "aa_Fserr ack = FS_OK"
  shows "Apply bind sess_ok True sid (map RvOp ops @ [RvEOF]) s' (Some db') = (Inr ack, s', Some db') \<and>
    (later \<noteq> [] \<longrightarrow>
      Apply bind sess_ok c' sid (map RvOp (ops @ later) @ [RvEOF]) s' (Some db') =
      Apply bind sess_ok c' sid (map RvOp later @ [RvEOF]) s' (Some db'))"
proof -
  have u: "uniform vol caller epoch ops" "uniform vol caller epoch later"
    using assms(3) by (auto simp: uniform_def)
  obtain don where "batch_end pf sid ident vol (wr_RevokedGens r) (filter (\<lambda>op. wr_Watermark r < wo_Seq op) ops) don Continue s s'"
      and w: "aa_Watermark ack = last_seq (wr_Watermark r) don"
      and g: "wm_Get db' k = Inr (r\<lparr>wr_Watermark := aa_Watermark ack\<rparr>)"
    using Apply_prefix[OF assms(1,2) u(1) assms(4-9)] assms(10) by auto
  then have don: "don = filter (\<lambda>op. wr_Watermark r < wo_Seq op) ops" by (simp add: batch_end_def)
  define v where "v = bound_vars pf ident k (r\<lparr>wr_Watermark := aa_Watermark ack\<rparr>)"
  have v: "av_bound v = Some (k, pf, ident)" "av_committed v = aa_Watermark ack" by (simp_all add: v_def bound_vars_def)
  have skip: "ap_ops sid ops v s' = (Continue, v, s')"
    using last_seq_bound[OF assms(5)] v w don by (intro ap_ops_skip) auto
  have g': "wm_Get db' (stream_key ident vol epoch) = Inr (r\<lparr>wr_Watermark := aa_Watermark ack\<rparr>)"
    using g assms(7) by simp
  have run: "Apply bind sess_ok cc sid (map RvOp xs @ [RvEOF]) s' (Some db') =
      (case ap_ops sid xs v s' of (vd, v', s1) \<Rightarrow>
        (case verdict_ack cc vd v' db' of (res, db1) \<Rightarrow> (res, s1, Some db1)))"
    if "xs \<noteq> []" "uniform vol caller epoch xs" for xs cc
    using assms(1,2) apply_loop_uniform[where bind = bind and ident = ident, OF that(2,1) assms(6) g', of cc sid s']
    by (simp add: Apply_def v_def assms(7) split: prod.splits)
  have "verdict_ack True Continue v db' = (Inr ack, db')"
    using Advance_noop[OF g, of "aa_Watermark ack"] assms(10,11) v
    by (simp add: verdict_ack_def sendAck_def Let_def)
  then have 1: "Apply bind sess_ok True sid (map RvOp ops @ [RvEOF]) s' (Some db') = (Inr ack, s', Some db')"
    using run[OF assms(4) u(1)] skip by simp
  have 2: "Apply bind sess_ok c' sid (map RvOp (ops @ later) @ [RvEOF]) s' (Some db') =
      Apply bind sess_ok c' sid (map RvOp later @ [RvEOF]) s' (Some db')" if "later \<noteq> []"
    using run[OF _ assms(3)] run[OF that u(2)] ap_ops_append_Continue[OF skip] that by simp
  show ?thesis using 1 2 by blast
qed

theorem acked_batch_is_applied_once_witness:
  "Apply ex_bind (\<lambda>_. True) True ''s'' (map RvOp ex_batch @ [RvEOF]) (ex_srv [''b''])
     (Some [(keyBytes (stream_key ex_ident ''v'' ''e''), JsonOf \<lparr>wr_Watermark = 2, wr_RevokedGens = [], wr_GenHi = 0\<rparr>)])
   = (Inr \<lparr>aa_Watermark = 2, aa_FailedSeq = 0, aa_Fserr = FS_OK\<rparr>, ex_srv [''b''],
      Some [(keyBytes (stream_key ex_ident ''v'' ''e''), JsonOf \<lparr>wr_Watermark = 2, wr_RevokedGens = [], wr_GenHi = 0\<rparr>)])"
proof -
  have g: "wm_Get [] (stream_key ex_ident ''v'' ''e'') = Inr zero_record" by (simp add: wm_Get_def getRecord_def)
  have u: "uniform ''v'' None ''e'' (ex_batch @ [])" using ex_batch_ok(1) by simp
  show ?thesis
    using acked_batch_is_applied_once[OF _ _ u ex_batch_ok(2,3) ex_bind_eq refl g ex_run1] by simp
qed

text \<open>The watermark only becomes durable when the handler reaches its acknowledgement.  When the
  transport breaks after operations were applied, nothing is recorded: the client, which was told
  nothing, sends the batch again, the rename that had already been done fails, the batch halts
  there, and the operation behind it is not applied.\<close>

theorem broken_stream_is_replayed_and_halts:
  "\<exists>ops s1. Apply ex_bind (\<lambda>_. True) True ''s'' (map RvOp (take 1 ops) @ [RvErr]) (ex_srv [''a'']) (Some []) =
      (Inl RecvFailed, s1, Some []) \<and> sr_fs s1 = [''b''] \<and>
    (\<exists>s2 db2. Apply ex_bind (\<lambda>_. True) True ''s'' (map RvOp ops @ [RvEOF]) s1 (Some []) =
      (Inr \<lparr>aa_Watermark = 0, aa_FailedSeq = 1, aa_Fserr = FS_ENOENT\<rparr>, s2, db2) \<and> sr_fs s2 = [''b'']) \<and>
    (\<exists>s3 db3. Apply ex_bind (\<lambda>_. True) True ''s'' (map RvOp ops @ [RvEOF]) (ex_srv [''a'']) (Some []) =
      (Inr \<lparr>aa_Watermark = 2, aa_FailedSeq = 0, aa_Fserr = FS_OK\<rparr>, s3, db3) \<and> sr_fs s3 = [''c'', ''b''])"
proof -
  let ?ops = "[ex_op 1 0 (WRename ex_hdr ''a'' ''b''), ex_op 2 0 (WMkdir ex_hdr ''c'' 0)]"
  have e: "fromErrno_status 2 = FS_ENOENT" using FromErrno_ToErrno[OF refl, of FS_ENOENT]
    by (simp add: ToErrno_def toErrno_def toErrno_table_def toErrnoExtra_def)
  have "Apply ex_bind (\<lambda>_. True) True ''s'' (map RvOp (take 1 ?ops) @ [RvErr]) (ex_srv [''a'']) (Some []) =
      (Inl RecvFailed, ex_srv [''b''], Some [])"
    by (simp add: ex_defs apply_eval)
  moreover have "Apply ex_bind (\<lambda>_. True) True ''s'' (map RvOp ?ops @ [RvEOF]) (ex_srv [''b'']) (Some []) =
      (Inr \<lparr>aa_Watermark = 0, aa_FailedSeq = 1, aa_Fserr = FS_ENOENT\<rparr>, ex_srv [''b''], Some [])"
    by (simp add: ex_defs apply_eval e)
  moreover have "\<exists>db3. Apply ex_bind (\<lambda>_. True) True ''s'' (map RvOp ?ops @ [RvEOF]) (ex_srv [''a'']) (Some []) =
      (Inr \<lparr>aa_Watermark = 2, aa_FailedSeq = 0, aa_Fserr = FS_OK\<rparr>, ex_srv [''c'', ''b''], db3)"
    by (simp add: ex_defs apply_eval two_not_le_one)
  ultimately show ?thesis
    by (intro exI[of _ ?ops] exI[of _ "ex_srv [''b'']"]) (auto simp: ex_srv_def)
qed


text \<open>The filesystem a stream works on is bound to the caller of its first operation.  On a volume
  that takes the identity from the wire, an operation of a second local user in the same batch is
  executed with the rights of the first user, also when that second user would be refused.\<close>

theorem batch_runs_as_first_caller:
  "\<exists>bind op1 op2 refuse. bind ''v'' None = Some (nm_fs, ex_ident) \<and> bind ''v'' (Some \<lparr>ca_Owner = None, ca_Pid = 9\<rparr>) = Some (refuse, ex_ident) \<and>
     (\<forall>p m x fs. pf_Mkdir refuse p m x fs = (13, fs)) \<and>
     wo_Body op2 = WMkdir \<lparr>rh_Volume = ''v'', rh_Caller = Some \<lparr>ca_Owner = None, ca_Pid = 9\<rparr>\<rparr> ''b'' 0 \<and>
     (\<exists>s1 db1. Apply bind (\<lambda>_. True) True ''s'' [RvOp op1, RvOp op2, RvEOF] (ex_srv []) (Some []) =
        (Inr \<lparr>aa_Watermark = 2, aa_FailedSeq = 0, aa_Fserr = FS_OK\<rparr>, s1, db1) \<and> sr_fs s1 = [''b'', ''a'']) \<and>
     (\<exists>s2 db2. Apply bind (\<lambda>_. True) True ''s'' [RvOp op2, RvEOF] (ex_srv []) (Some []) =
        (Inr \<lparr>aa_Watermark = 0, aa_FailedSeq = 2, aa_Fserr = FS_EACCES\<rparr>, s2, db2) \<and> sr_fs s2 = [])"
proof -
  let ?c = "Some \<lparr>ca_Owner = None, ca_Pid = 9\<rparr>"
  define refuse where "refuse = nm_fs\<lparr>pf_Mkdir := \<lambda>p m x fs. (13, fs)\<rparr>"
  define bind where "bind vol caller = (if caller = None then Some (nm_fs, ex_ident) else Some (refuse, ex_ident))"
    for vol :: string and caller :: "Caller option"
  let ?op1 = "ex_op 1 0 (WMkdir ex_hdr ''a'' 0)"
  let ?op2 = "ex_op 2 0 (WMkdir \<lparr>rh_Volume = ''v'', rh_Caller = ?c\<rparr> ''b'' 0)"
  have e: "fromErrno_status 13 = FS_EACCES" using FromErrno_ToErrno[OF refl, of FS_EACCES]
    by (simp add: ToErrno_def toErrno_def toErrno_table_def toErrnoExtra_def)
  have "\<exists>db1. Apply bind (\<lambda>_. True) True ''s'' [RvOp ?op1, RvOp ?op2, RvEOF] (ex_srv []) (Some []) =
        (Inr \<lparr>aa_Watermark = 2, aa_FailedSeq = 0, aa_Fserr = FS_OK\<rparr>, ex_srv [''b'', ''a''], db1)"
    by (simp add: ex_defs apply_eval bind_def two_not_le_one)
  moreover have "\<exists>db2. Apply bind (\<lambda>_. True) True ''s'' [RvOp ?op2, RvEOF] (ex_srv []) (Some []) =
        (Inr \<lparr>aa_Watermark = 0, aa_FailedSeq = 2, aa_Fserr = FS_EACCES\<rparr>, ex_srv [], db2)"
    by (simp add: ex_defs apply_eval bind_def refuse_def e)
  ultimately show ?thesis
    by (intro exI[of _ bind] exI[of _ ?op1] exI[of _ ?op2] exI[of _ refuse])
       (auto simp: bind_def refuse_def ex_srv_def ex_op_def)
qed

end
