(* ===== verification/Session.thy ===== *)
theory Session
  imports Watermark Fs_Error
begin

text \<open>
  Client sessions on the server (\<^verbatim>\<open>pkg/server/service/session.go\<close>) with the controllers that use them
  (\<^verbatim>\<open>controller/idempotency.go\<close>, \<^verbatim>\<open>controller/session.go\<close>): the file-descriptor table with its
  reference counts under a concurrent reap, and the request-id cache that makes a retried mutation
  run once.

  The file table is a step system: any number of handlers register files (publish, then check for
  a reap again), use and release descriptors, while a reaper claims the session and drains the
  table.  A file's close and a reference count below zero (a panic in the code) are counted.
\<close>

section \<open>File entries\<close>

(* src/pkg/server/service/session.go:21-34 FileEntry *)
record FileEntry =
  fe_refs :: int
  fe_closed :: nat

(* src/pkg/server/service/session.go:36-48 Acquire *)
definition Acquire :: "FileEntry \<Rightarrow> bool \<times> FileEntry" where
  "Acquire e = (if fe_refs e \<le> 0 then (False, e) else (True, e\<lparr>fe_refs := fe_refs e + 1\<rparr>))"

text \<open>The first component tells whether the call panics.\<close>

(* src/pkg/server/service/session.go:50-62 ReleaseRef *)
definition ReleaseRef :: "FileEntry \<Rightarrow> bool \<times> FileEntry" where
  "ReleaseRef e =
    (let n = fe_refs e - 1; e1 = e\<lparr>fe_refs := n\<rparr>;
         e2 = (if n = 0 then e1\<lparr>fe_closed := fe_closed e1 + 1\<rparr> else e1)
     in (n < 0, e2))"

section \<open>The session\<close>

(* src/pkg/server/service/session.go:168-183 sessionImpl *)
record sess_fds =
  sf_reaped :: bool
  sf_fdNum :: nat
  sf_table :: "nat list"
  sf_entry :: "nat \<Rightarrow> FileEntry"
  sf_gauge :: int
  sf_panicked :: bool

definition sess_new :: sess_fds where
  "sess_new = \<lparr>sf_reaped = False, sf_fdNum = 0, sf_table = [],
     sf_entry = (\<lambda>_. \<lparr>fe_refs = 0, fe_closed = 0\<rparr>), sf_gauge = 0, sf_panicked = False\<rparr>"

definition drop_ref :: "nat \<Rightarrow> sess_fds \<Rightarrow> sess_fds" where
  "drop_ref fd s =
    (case ReleaseRef (sf_entry s fd) of
       (p, e) \<Rightarrow> s\<lparr>sf_entry := (sf_entry s)(fd := e), sf_panicked := (sf_panicked s \<or> p)\<rparr>)"

text \<open>\<^verbatim>\<open>files.LoadAndDelete(fd)\<close> followed by the release of the table's reference and the gauge.\<close>

(* src/pkg/server/service/session.go:236-250 ReleaseFile *)
definition ReleaseFile :: "nat \<Rightarrow> sess_fds \<Rightarrow> sess_fds" where
  "ReleaseFile fd s =
    (if fd \<in> set (sf_table s)
     then (let s1 = drop_ref fd (s\<lparr>sf_table := removeAll fd (sf_table s)\<rparr>) in s1\<lparr>sf_gauge := sf_gauge s1 - 1\<rparr>)
     else s)"

(* src/pkg/server/service/session.go:214-218 RegisterFile *)
definition register_store :: "sess_fds \<Rightarrow> nat \<times> sess_fds" where
  "register_store s =
    (let fd = Suc (sf_fdNum s)
     in (fd, s\<lparr>sf_fdNum := fd, sf_table := fd # sf_table s,
               sf_entry := (sf_entry s)(fd := \<lparr>fe_refs = 1, fe_closed = 0\<rparr>),
               sf_gauge := sf_gauge s + 1\<rparr>))"

(* src/pkg/server/service/session.go:232-234 GetFile *)
definition GetFile :: "nat \<Rightarrow> sess_fds \<Rightarrow> bool" where
  "GetFile fd s \<longleftrightarrow> fd \<in> set (sf_table s)"

(* src/pkg/server/service/session.go:272-287 ReleaseAll *)
definition ReleaseAll :: "sess_fds \<Rightarrow> nat \<times> sess_fds" where
  "ReleaseAll s = (length (sf_table s), fold ReleaseFile (sf_table s) s)"

datatype reg_pc = RgIdle | RgChecked | RgStored nat | RgDone nat
datatype reap_pc = RpIdle | RpClaimed | RpDrain "nat list"

record sess_sys =
  sy_s :: sess_fds
  sy_reg :: "nat \<Rightarrow> reg_pc"
  sy_reap :: reap_pc
  sy_ops :: "nat \<Rightarrow> nat"

(* src/pkg/server/service/session.go:189-230 RegisterFile *)
inductive sess_step :: "sess_sys \<Rightarrow> sess_sys \<Rightarrow> bool" where
  st_check: "sy_reg y t = RgIdle \<Longrightarrow> \<not> sf_reaped (sy_s y) \<Longrightarrow>
    sess_step y (y\<lparr>sy_reg := (sy_reg y)(t := RgChecked)\<rparr>)"
| st_reject: "sy_reg y t = RgIdle \<Longrightarrow> sf_reaped (sy_s y) \<Longrightarrow>
    sess_step y (y\<lparr>sy_reg := (sy_reg y)(t := RgDone 0)\<rparr>)"
| st_store: "sy_reg y t = RgChecked \<Longrightarrow> register_store (sy_s y) = (fd, s') \<Longrightarrow>
    sess_step y (y\<lparr>sy_s := s', sy_reg := (sy_reg y)(t := RgStored fd)\<rparr>)"
| st_keep: "sy_reg y t = RgStored fd \<Longrightarrow> \<not> sf_reaped (sy_s y) \<Longrightarrow>
    sess_step y (y\<lparr>sy_reg := (sy_reg y)(t := RgDone fd)\<rparr>)"
| st_undo: "sy_reg y t = RgStored fd \<Longrightarrow> sf_reaped (sy_s y) \<Longrightarrow>
    sess_step y (y\<lparr>sy_s := ReleaseFile fd (sy_s y), sy_reg := (sy_reg y)(t := RgDone 0)\<rparr>)"
| st_acquire: "fd \<le> sf_fdNum (sy_s y) \<Longrightarrow> 0 < fd \<Longrightarrow> Acquire (sf_entry (sy_s y) fd) = (True, e) \<Longrightarrow>
    sess_step y (y\<lparr>sy_s := (sy_s y)\<lparr>sf_entry := (sf_entry (sy_s y))(fd := e)\<rparr>,
                   sy_ops := (sy_ops y)(fd := Suc (sy_ops y fd))\<rparr>)"
| st_op_end: "sy_ops y fd = Suc n \<Longrightarrow>
    sess_step y (y\<lparr>sy_s := drop_ref fd (sy_s y), sy_ops := (sy_ops y)(fd := n)\<rparr>)"
| st_release: "sess_step y (y\<lparr>sy_s := ReleaseFile fd (sy_s y)\<rparr>)"
| st_claim: "sy_reap y = RpIdle \<Longrightarrow>
    sess_step y (y\<lparr>sy_s := (sy_s y)\<lparr>sf_reaped := True\<rparr>, sy_reap := RpClaimed\<rparr>)"
| st_range: "sy_reap y = RpClaimed \<Longrightarrow> sess_step y (y\<lparr>sy_reap := RpDrain (sf_table (sy_s y))\<rparr>)"
| st_drain: "sy_reap y = RpDrain (fd # fds) \<Longrightarrow>
    sess_step y (y\<lparr>sy_s := ReleaseFile fd (sy_s y), sy_reap := RpDrain fds\<rparr>)"

inductive sess_reach :: "sess_sys \<Rightarrow> bool" where
  sr_init: "sess_reach \<lparr>sy_s = sess_new, sy_reg = (\<lambda>_. RgIdle), sy_reap = RpIdle, sy_ops = (\<lambda>_. 0)\<rparr>"
| sr_step: "sess_reach y \<Longrightarrow> sess_step y y' \<Longrightarrow> sess_reach y'"

section \<open>Invariant\<close>

text \<open>Every entry counts the table's reference and one per running operation, is closed once when
  the count reaches zero, and the gauge counts the table.\<close>

definition fd_inv :: "sess_fds \<Rightarrow> (nat \<Rightarrow> nat) \<Rightarrow> bool" where
  "fd_inv s ops \<longleftrightarrow>
    (\<forall>fd. fe_refs (sf_entry s fd) = (if fd \<in> set (sf_table s) then 1 else 0) + int (ops fd)) \<and>
    (\<forall>fd. fe_closed (sf_entry s fd) =
       (if 0 < fd \<and> fd \<le> sf_fdNum s \<and> fe_refs (sf_entry s fd) = 0 then 1 else 0)) \<and>
    (\<forall>fd. fd \<in> set (sf_table s) \<or> 0 < ops fd \<longrightarrow> 0 < fd \<and> fd \<le> sf_fdNum s) \<and>
    distinct (sf_table s) \<and> sf_gauge s = int (length (sf_table s)) \<and> \<not> sf_panicked s"

lemma fd_invI:
  assumes "\<And>fd. fe_refs (sf_entry s fd) = (if fd \<in> set (sf_table s) then 1 else 0) + int (ops fd)"
    and "\<And>fd. fe_closed (sf_entry s fd) =
       (if 0 < fd \<and> fd \<le> sf_fdNum s \<and> fe_refs (sf_entry s fd) = 0 then 1 else 0)"
    and "\<And>fd. fd \<in> set (sf_table s) \<Longrightarrow> 0 < fd \<and> fd \<le> sf_fdNum s"
    and "\<And>fd. 0 < ops fd \<Longrightarrow> 0 < fd \<and> fd \<le> sf_fdNum s"
    and "distinct (sf_table s)" and "sf_gauge s = int (length (sf_table s))" and "\<not> sf_panicked s"
  shows "fd_inv s ops"
  unfolding fd_inv_def using assms by blast

lemma fd_invD:
  assumes "fd_inv s ops"
  shows "fe_refs (sf_entry s fd) = (if fd \<in> set (sf_table s) then 1 else 0) + int (ops fd)"
    and "fe_closed (sf_entry s fd) = (if 0 < fd \<and> fd \<le> sf_fdNum s \<and> fe_refs (sf_entry s fd) = 0 then 1 else 0)"
    and "fd \<in> set (sf_table s) \<Longrightarrow> 0 < fd \<and> fd \<le> sf_fdNum s"
    and "0 < ops fd \<Longrightarrow> 0 < fd \<and> fd \<le> sf_fdNum s"
    and "distinct (sf_table s)" and "sf_gauge s = int (length (sf_table s))" and "\<not> sf_panicked s"
  using assms unfolding fd_inv_def by blast+

lemma drop_ref_frame [simp]:
  "sf_table (drop_ref fd s) = sf_table s" "sf_fdNum (drop_ref fd s) = sf_fdNum s"
  "sf_gauge (drop_ref fd s) = sf_gauge s" "sf_reaped (drop_ref fd s) = sf_reaped s"
  by (simp_all add: drop_ref_def ReleaseRef_def Let_def)

lemma drop_ref_entry:
  "sf_entry (drop_ref fd s) fd' =
    (if fd' = fd then \<lparr>fe_refs = fe_refs (sf_entry s fd) - 1,
       fe_closed = fe_closed (sf_entry s fd) + (if fe_refs (sf_entry s fd) = 1 then 1 else 0)\<rparr> else sf_entry s fd')"
  by (cases "sf_entry s fd") (simp add: drop_ref_def ReleaseRef_def Let_def)

lemma drop_ref_panics: "sf_panicked (drop_ref fd s) \<longleftrightarrow> sf_panicked s \<or> fe_refs (sf_entry s fd) \<le> 0"
  by (auto simp: drop_ref_def ReleaseRef_def Let_def)

lemma fd_inv_op_end:
  assumes "fd_inv s ops" and "ops fd = Suc n"
  shows "fd_inv (drop_ref fd s) (ops(fd := n))"
proof -
  note D = fd_invD[OF assms(1)]
  have "0 < fd \<and> fd \<le> sf_fdNum s" using D(4)[of fd] assms(2) by simp
  then show ?thesis
    using D assms(2) D(1)[of fd] D(2)[of fd]
    by (intro fd_invI) (auto simp: drop_ref_entry drop_ref_panics split: if_splits)
qed

lemma ReleaseFile_table [simp]: "sf_table (ReleaseFile fd s) = removeAll fd (sf_table s)"
  by (simp add: ReleaseFile_def Let_def)

lemma ReleaseFile_frame [simp]: "sf_fdNum (ReleaseFile fd s) = sf_fdNum s" "sf_reaped (ReleaseFile fd s) = sf_reaped s"
  by (simp_all add: ReleaseFile_def Let_def)

lemma fd_inv_ReleaseFile:
  assumes "fd_inv s ops"
  shows "fd_inv (ReleaseFile fd s) ops"
proof (cases "fd \<in> set (sf_table s)")
  case True
  note D = fd_invD[OF assms]
  have "int (length (removeAll fd (sf_table s))) = int (length (sf_table s)) - 1"
    using True D(5) length_remove1[of fd "sf_table s"] length_pos_if_in_set[OF True]
    by (simp add: distinct_remove1_removeAll[symmetric] of_nat_diff Suc_le_eq)
  moreover have "0 < fd \<and> fd \<le> sf_fdNum s" using D(3)[OF True] .
  ultimately show ?thesis
    using True D D(1)[of fd] D(2)[of fd]
    by (intro fd_invI) (auto simp: ReleaseFile_def Let_def drop_ref_entry drop_ref_panics distinct_removeAll split: if_splits)
qed (use assms in \<open>simp add: ReleaseFile_def\<close>)

lemma fd_inv_register:
  assumes "fd_inv s ops" and "register_store s = (fd, s')"
  shows "fd_inv s' ops"
proof -
  note D = fd_invD[OF assms(1)]
  have fd: "fd = Suc (sf_fdNum s)" and s': "s' = s\<lparr>sf_fdNum := fd, sf_table := fd # sf_table s,
      sf_entry := (sf_entry s)(fd := \<lparr>fe_refs = 1, fe_closed = 0\<rparr>), sf_gauge := sf_gauge s + 1\<rparr>"
    using assms(2) by (auto simp: register_store_def Let_def)
  have new: "fd \<notin> set (sf_table s)" "ops fd = 0" using D(3,4)[of fd] fd by auto
  have old: "x \<le> sf_fdNum s \<longleftrightarrow> x \<le> fd" if "x \<noteq> fd" for x using that fd by auto
  show ?thesis
  proof (rule fd_invI, goal_cases)
    case (1 x)
    show ?case using D(1)[of x] new by (cases "x = fd") (simp_all add: s')
  next
    case (2 x)
    show ?case using D(2)[of x] old[of x] by (cases "x = fd") (simp_all add: s')
  next
    case (3 x)
    then show ?case using D(3)[of x] fd by (auto simp: s')
  next
    case (4 x)
    then show ?case using D(4)[of x] fd by (auto simp: s')
  qed (use D(5-7) new in \<open>simp_all add: s'\<close>)
qed

lemma fd_inv_acquire:
  assumes "fd_inv s ops" and "0 < fd" "fd \<le> sf_fdNum s" and "Acquire (sf_entry s fd) = (True, e)"
  shows "fd_inv (s\<lparr>sf_entry := (sf_entry s)(fd := e)\<rparr>) (ops(fd := Suc (ops fd)))"
proof -
  note D = fd_invD[OF assms(1)]
  have pos: "fe_refs (sf_entry s fd) > 0"
    and e: "fe_refs e = fe_refs (sf_entry s fd) + 1" "fe_closed e = fe_closed (sf_entry s fd)"
    using assms(4) by (auto simp: Acquire_def split: if_splits)
  show ?thesis
  proof (rule fd_invI, goal_cases)
    case (1 x)
    show ?case using D(1)[of x] e(1) by (cases "x = fd") simp_all
  next
    case (2 x)
    show ?case using D(2)[of x] e pos by (cases "x = fd") simp_all
  next
    case (4 x)
    then show ?case using D(4)[of x] assms(2,3) by (cases "x = fd") simp_all
  qed (use D(3,5-7) in simp_all)
qed

definition pending :: "(nat \<Rightarrow> reg_pc) \<Rightarrow> nat \<Rightarrow> bool" where
  "pending r fd \<longleftrightarrow> (\<exists>t. r t = RgStored fd)"

lemma pending_keep: "pending r fd \<Longrightarrow> r t \<noteq> RgStored fd \<Longrightarrow> pending (r(t := p)) fd"
  unfolding pending_def by (metis fun_upd_other)

lemma pending_new: "pending (r(t := RgStored fd)) fd"
  unfolding pending_def by (rule exI[of _ t]) simp

definition sess_inv :: "sess_sys \<Rightarrow> bool" where
  "sess_inv y \<longleftrightarrow> fd_inv (sy_s y) (sy_ops y) \<and> (sf_reaped (sy_s y) \<longleftrightarrow> sy_reap y \<noteq> RpIdle) \<and>
    (\<forall>fds. sy_reap y = RpDrain fds \<longrightarrow>
       (\<forall>fd \<in> set (sf_table (sy_s y)). fd \<in> set fds \<or> pending (sy_reg y) fd))"

lemma sess_invI:
  assumes "fd_inv (sy_s y) (sy_ops y)" and "sf_reaped (sy_s y) \<longleftrightarrow> sy_reap y \<noteq> RpIdle"
    and "\<And>fds fd. sy_reap y = RpDrain fds \<Longrightarrow> fd \<in> set (sf_table (sy_s y)) \<Longrightarrow>
       fd \<in> set fds \<or> pending (sy_reg y) fd"
  shows "sess_inv y"
  using assms by (auto simp: sess_inv_def)

lemma sess_inv_step:
  assumes "sess_step y y'" and inv: "sess_inv y"
  shows "sess_inv y'"
proof -
  have F: "fd_inv (sy_s y) (sy_ops y)" and R: "sf_reaped (sy_s y) \<longleftrightarrow> sy_reap y \<noteq> RpIdle"
    using inv by (auto simp: sess_inv_def)
  have T: "fd \<in> set fds \<or> pending (sy_reg y) fd"
    if "sy_reap y = RpDrain fds" "fd \<in> set (sf_table (sy_s y))" for fds fd
    using inv that by (auto simp: sess_inv_def)
  show ?thesis using assms(1)
  proof (cases rule: sess_step.cases)
    case (st_check t)
    then show ?thesis using F R T pending_keep[of "sy_reg y" _ t] by (intro sess_invI) auto
  next
    case (st_reject t)
    then show ?thesis using F R T pending_keep[of "sy_reg y" _ t] by (intro sess_invI) auto
  next
    case (st_store t fd s')
    have tab: "sf_table s' = fd # sf_table (sy_s y)" "sf_reaped s' = sf_reaped (sy_s y)"
      using st_store(3) by (auto simp: register_store_def Let_def)
    show ?thesis unfolding st_store(1)
    proof (rule sess_invI, goal_cases)
      case (3 fds fd')
      then show ?case
        using T[of fds fd'] st_store(2) tab pending_new[of "sy_reg y" t fd]
          pending_keep[of "sy_reg y" fd' t "RgStored fd"] by auto
    qed (use fd_inv_register[OF F st_store(3)] R tab in auto)
  next
    case (st_keep t fd)
    then show ?thesis using F R by (intro sess_invI) auto
  next
    case (st_undo t fd)
    show ?thesis unfolding st_undo(1)
    proof (rule sess_invI, goal_cases)
      case (3 fds fd')
      then show ?case
        using T[of fds fd'] st_undo(2) pending_keep[of "sy_reg y" fd' t "RgDone 0"] by auto
    qed (use fd_inv_ReleaseFile[OF F] R in auto)
  next
    case (st_acquire fd e)
    then show ?thesis using fd_inv_acquire[OF F] R T by (intro sess_invI) auto
  next
    case (st_op_end fd n)
    then show ?thesis using fd_inv_op_end[OF F] R T by (intro sess_invI) auto
  next
    case (st_release fd)
    then show ?thesis using fd_inv_ReleaseFile[OF F] R T by (intro sess_invI) auto
  next
    case st_claim
    have "fd_inv ((sy_s y)\<lparr>sf_reaped := True\<rparr>) (sy_ops y)" using F by (simp add: fd_inv_def)
    then show ?thesis using st_claim by (intro sess_invI) auto
  next
    case st_range
    then show ?thesis using F R by (intro sess_invI) auto
  next
    case (st_drain fd fds)
    then show ?thesis using fd_inv_ReleaseFile[OF F] R T[of "fd # fds"] by (intro sess_invI) auto
  qed
qed

lemma sess_reach_inv: "sess_reach y \<Longrightarrow> sess_inv y"
proof (induction rule: sess_reach.induct)
  case sr_init
  show ?case by (intro sess_invI fd_invI) (auto simp: sess_new_def)
qed (use sess_inv_step in blast)

section \<open>Properties of the descriptor table\<close>

text \<open>C16: a file is closed exactly once and never under a running operation.  However registrations,
  releases (retried ones included), running operations and the reap interleave, the reference
  count never goes below zero, a file with a running operation is open, and a file is closed once
  when its last reference goes.\<close>

theorem fd_closed_once_and_never_in_use:
  assumes "sess_reach y"
  shows "\<not> sf_panicked (sy_s y) \<and> sf_gauge (sy_s y) = int (length (sf_table (sy_s y))) \<and>
    (\<forall>fd. fe_closed (sf_entry (sy_s y) fd) \<le> 1 \<and>
      (0 < sy_ops y fd \<or> fd \<in> set (sf_table (sy_s y)) \<longrightarrow> fe_closed (sf_entry (sy_s y) fd) = 0) \<and>
      (0 < fd \<and> fd \<le> sf_fdNum (sy_s y) \<and> sy_ops y fd = 0 \<and> fd \<notin> set (sf_table (sy_s y)) \<longrightarrow>
         fe_closed (sf_entry (sy_s y) fd) = 1))"
proof -
  have "fd_inv (sy_s y) (sy_ops y)" using sess_reach_inv[OF assms] by (simp add: sess_inv_def)
  note D = fd_invD[OF this]
  have "fe_closed (sf_entry (sy_s y) fd) \<le> 1 \<and>
      (0 < sy_ops y fd \<or> fd \<in> set (sf_table (sy_s y)) \<longrightarrow> fe_closed (sf_entry (sy_s y) fd) = 0) \<and>
      (0 < fd \<and> fd \<le> sf_fdNum (sy_s y) \<and> sy_ops y fd = 0 \<and> fd \<notin> set (sf_table (sy_s y)) \<longrightarrow>
         fe_closed (sf_entry (sy_s y) fd) = 1)" for fd
    using D(1)[of fd] D(2)[of fd] by auto
  then show ?thesis using D(6,7) by blast
qed

definition ex_sess :: sess_sys where
  "ex_sess = \<lparr>sy_s = ReleaseFile 1 (snd (register_store sess_new)), sy_reg = (\<lambda>_. RgIdle)(0 := RgDone 1),
     sy_reap = RpIdle, sy_ops = (\<lambda>_. 0)\<rparr>"

lemma ex_sess_reach: "sess_reach ex_sess"
proof -
  let ?y0 = "\<lparr>sy_s = sess_new, sy_reg = (\<lambda>_. RgIdle), sy_reap = RpIdle, sy_ops = (\<lambda>_. 0)\<rparr>"
  have 1: "sess_reach (?y0\<lparr>sy_reg := (\<lambda>_. RgIdle)(0 := RgChecked)\<rparr>)"
    using sr_step[OF sr_init st_check[of _ 0]] by (simp add: sess_new_def)
  have r: "register_store sess_new = (1, snd (register_store sess_new))" by (simp add: register_store_def sess_new_def Let_def)
  have 2: "sess_reach (?y0\<lparr>sy_s := snd (register_store sess_new), sy_reg := (\<lambda>_. RgIdle)(0 := RgStored 1)\<rparr>)"
    using sr_step[OF 1 st_store[of _ 0 1 "snd (register_store sess_new)"]] r by simp
  have "\<not> sf_reaped (snd (register_store sess_new))" by (simp add: register_store_def sess_new_def Let_def)
  then have 3: "sess_reach (?y0\<lparr>sy_s := snd (register_store sess_new), sy_reg := (\<lambda>_. RgIdle)(0 := RgDone 1)\<rparr>)"
    using sr_step[OF 2 st_keep[of _ 0 1]] by simp
  show ?thesis using sr_step[OF 3 st_release[of _ 1]] by (simp add: ex_sess_def)
qed

theorem fd_closed_once_and_never_in_use_witness:
  "\<not> sf_panicked (sy_s ex_sess) \<and> fe_closed (sf_entry (sy_s ex_sess) 1) = 1"
proof -
  have "sy_ops ex_sess 1 = 0 \<and> 1 \<notin> set (sf_table (sy_s ex_sess)) \<and> 1 \<le> sf_fdNum (sy_s ex_sess)"
    by (simp add: ex_sess_def register_store_def sess_new_def Let_def)
  then show ?thesis using fd_closed_once_and_never_in_use[OF ex_sess_reach] by simp
qed

text \<open>C28: a reaped session keeps no descriptor.  Once the reaper has drained the table and no handler is
  between publishing a descriptor and its second look at the reap flag, the table is empty and
  the gauge is zero, although registrations ran beside the reap; and a handler that registers
  after the reap is told descriptor 0.\<close>

theorem reaped_session_leaks_no_fd:
  assumes "sess_reach y" and "sy_reap y = RpDrain []" and "\<forall>t fd. sy_reg y t \<noteq> RgStored fd"
  shows "sf_table (sy_s y) = [] \<and> sf_gauge (sy_s y) = 0 \<and>
    (\<forall>t y' fd. sy_reg y t = RgIdle \<and> sess_step y y' \<and> sy_reg y' t = RgDone fd \<longrightarrow> fd = 0)"
proof -
  have inv: "sess_inv y" using sess_reach_inv[OF assms(1)] .
  then have "\<forall>fd \<in> set (sf_table (sy_s y)). False"
    using assms(2,3) unfolding sess_inv_def pending_def by fastforce
  then have e: "sf_table (sy_s y) = []" by (cases "sf_table (sy_s y)") auto
  have "sf_gauge (sy_s y) = 0" using inv e by (simp add: sess_inv_def fd_inv_def)
  moreover have "fd = 0" if "sy_reg y t = RgIdle" "sess_step y y'" "sy_reg y' t = RgDone fd" for t y' fd
    using that(2) by (cases rule: sess_step.cases) (use that assms(3) in \<open>auto split: if_splits\<close>)
  ultimately show ?thesis using e by blast
qed

theorem reaped_session_leaks_no_fd_witness:
  "\<exists>y. sess_reach y \<and> sy_reap y = RpDrain [] \<and> sf_fdNum (sy_s y) = 1 \<and> sf_table (sy_s y) = []"
proof -
  have 1: "sess_reach (ex_sess\<lparr>sy_s := (sy_s ex_sess)\<lparr>sf_reaped := True\<rparr>, sy_reap := RpClaimed\<rparr>)"
    using sr_step[OF ex_sess_reach st_claim] by (simp add: ex_sess_def)
  have t: "sf_table (sy_s ex_sess) = []" "sf_fdNum (sy_s ex_sess) = 1"
    by (simp_all add: ex_sess_def register_store_def sess_new_def Let_def)
  let ?y = "ex_sess\<lparr>sy_s := (sy_s ex_sess)\<lparr>sf_reaped := True\<rparr>, sy_reap := RpDrain []\<rparr>"
  have 2: "sess_reach ?y" using sr_step[OF 1 st_range] t by simp
  have "\<forall>t fd. sy_reg ?y t \<noteq> RgStored fd" by (simp add: ex_sess_def)
  from reaped_session_leaks_no_fd[OF 2 _ this] show ?thesis using 2 t by (intro exI[of _ ?y]) simp
qed

section \<open>Requests that run once\<close>

text \<open>
  \<^verbatim>\<open>DoOnce\<close> for one request id: the reply cache (an LRU cache that may drop an entry at any time),
  the single-flight group that lets one caller run and the others wait for its result, and any
  number of callers.  \<open>dn_runs\<close> counts the executions that succeeded.
\<close>

datatype 'r do_pc = DIdle | DMiss | DLead | DWait | DDone "unit + 'r"

record 'r do_sys =
  dn_cache :: "'r option"
  dn_flight :: bool
  dn_runs :: nat
  dn_evicted :: nat
  dn_pc :: "nat \<Rightarrow> 'r do_pc"

definition do_finish :: "nat \<Rightarrow> unit + 'r \<Rightarrow> 'r do_sys \<Rightarrow> 'r do_sys" where
  "do_finish t r d = d\<lparr>dn_flight := False,
     dn_pc := (\<lambda>u. if u = t \<or> dn_pc d u = DWait then DDone r else dn_pc d u)\<rparr>"

(* src/pkg/server/service/session.go:252-270 DoOnce *)
inductive do_step :: "'r do_sys \<Rightarrow> 'r do_sys \<Rightarrow> bool" where
  do_hit: "dn_pc d t = DIdle \<Longrightarrow> dn_cache d = Some v \<Longrightarrow>
    do_step d (d\<lparr>dn_pc := (dn_pc d)(t := DDone (Inr v))\<rparr>)"
| do_miss: "dn_pc d t = DIdle \<Longrightarrow> dn_cache d = None \<Longrightarrow> do_step d (d\<lparr>dn_pc := (dn_pc d)(t := DMiss)\<rparr>)"
| do_lead: "dn_pc d t = DMiss \<Longrightarrow> \<not> dn_flight d \<Longrightarrow>
    do_step d (d\<lparr>dn_flight := True, dn_pc := (dn_pc d)(t := DLead)\<rparr>)"
| do_join: "dn_pc d t = DMiss \<Longrightarrow> dn_flight d \<Longrightarrow> do_step d (d\<lparr>dn_pc := (dn_pc d)(t := DWait)\<rparr>)"
| do_recheck: "dn_pc d t = DLead \<Longrightarrow> dn_cache d = Some v \<Longrightarrow> do_step d (do_finish t (Inr v) d)"
| do_ok: "dn_pc d t = DLead \<Longrightarrow> dn_cache d = None \<Longrightarrow>
    do_step d (do_finish t (Inr v) (d\<lparr>dn_cache := Some v, dn_runs := Suc (dn_runs d)\<rparr>))"
| do_err: "dn_pc d t = DLead \<Longrightarrow> dn_cache d = None \<Longrightarrow> do_step d (do_finish t (Inl ()) d)"
| do_evict: "dn_cache d = Some v \<Longrightarrow> do_step d (d\<lparr>dn_cache := None, dn_evicted := Suc (dn_evicted d)\<rparr>)"

inductive do_reach :: "'r do_sys \<Rightarrow> bool" where
  dr_init: "do_reach \<lparr>dn_cache = None, dn_flight = False, dn_runs = 0, dn_evicted = 0, dn_pc = (\<lambda>_. DIdle)\<rparr>"
| dr_step: "do_reach d \<Longrightarrow> do_step d d' \<Longrightarrow> do_reach d'"

definition do_inv :: "'r do_sys \<Rightarrow> bool" where
  "do_inv d \<longleftrightarrow> dn_runs d \<le> dn_evicted d + (if dn_cache d = None then 0 else 1) \<and>
    (dn_evicted d = 0 \<longrightarrow> (\<forall>t v. dn_pc d t = DDone (Inr v) \<longrightarrow> dn_cache d = Some v)) \<and>
    (\<forall>t u. dn_pc d t = DLead \<and> dn_pc d u = DLead \<longrightarrow> t = u) \<and>
    (dn_flight d \<longleftrightarrow> (\<exists>t. dn_pc d t = DLead)) \<and>
    ((\<exists>t. dn_pc d t = DWait) \<longrightarrow> dn_flight d)"

lemma do_invI:
  assumes "dn_runs d \<le> dn_evicted d + (if dn_cache d = None then 0 else 1)"
    and "\<And>t v. dn_evicted d = 0 \<Longrightarrow> dn_pc d t = DDone (Inr v) \<Longrightarrow> dn_cache d = Some v"
    and "\<And>t u. dn_pc d t = DLead \<Longrightarrow> dn_pc d u = DLead \<Longrightarrow> t = u"
    and "dn_flight d \<Longrightarrow> \<exists>t. dn_pc d t = DLead" and "\<And>t. dn_pc d t = DLead \<Longrightarrow> dn_flight d"
    and "\<And>t. dn_pc d t = DWait \<Longrightarrow> dn_flight d"
  shows "do_inv d"
  unfolding do_inv_def using assms by blast

lemma do_invD:
  assumes "do_inv d"
  shows "dn_runs d \<le> dn_evicted d + (if dn_cache d = None then 0 else 1)"
    and "dn_evicted d = 0 \<Longrightarrow> dn_pc d t = DDone (Inr v) \<Longrightarrow> dn_cache d = Some v"
    and "dn_pc d t = DLead \<Longrightarrow> dn_pc d u = DLead \<Longrightarrow> t = u"
    and "dn_flight d \<Longrightarrow> \<exists>t. dn_pc d t = DLead" and "dn_pc d t = DLead \<Longrightarrow> dn_flight d"
    and "dn_pc d t = DWait \<Longrightarrow> dn_flight d"
  using assms unfolding do_inv_def by blast+

lemma do_inv_finish:
  assumes "do_inv d" and "dn_pc d t = DLead" and "dn_cache d = c"
    and "\<And>v. r = Inr v \<Longrightarrow> c' = Some v" and "\<And>v. c = Some v \<Longrightarrow> c' = Some v"
    and "n \<le> dn_evicted d + (if c' = None then 0 else 1)"
  shows "do_inv (do_finish t r (d\<lparr>dn_cache := c', dn_runs := n\<rparr>))"
proof -
  note D = do_invD[OF assms(1)]
  show ?thesis
  proof (rule do_invI, goal_cases)
    case (2 u v)
    then show ?case
      using D(2)[of u v] assms(3-5) by (auto simp: do_finish_def split: if_splits)
  next
    case (3 u w)
    then show ?case using D(3) by (auto simp: do_finish_def split: if_splits)
  next
    case (5 u)
    then show ?case using D(3)[of u t] assms(2) by (auto simp: do_finish_def split: if_splits)
  qed (use assms(6) in \<open>auto simp: do_finish_def split: if_splits\<close>)
qed

lemma do_inv_step:
  assumes "do_step d d'" and inv: "do_inv d"
  shows "do_inv d'"
  using assms(1)
proof (cases rule: do_step.cases)
  case (do_hit t v)
  note D = do_invD[OF inv]
  have "\<exists>u. ((dn_pc d)(t := DDone (Inr v))) u = DLead" if "dn_flight d"
    using D(4)[OF that] do_hit(2) by (metis do_pc.distinct(3) fun_upd_other)
  then show ?thesis unfolding do_hit(1)
    using D do_hit by (intro do_invI) (auto split: if_splits)
next
  case (do_miss t)
  note D = do_invD[OF inv]
  have "\<exists>u. ((dn_pc d)(t := DMiss)) u = DLead" if "dn_flight d"
    using D(4)[OF that] do_miss(2) by (metis do_pc.distinct(3) fun_upd_other)
  then show ?thesis unfolding do_miss(1)
    using D do_miss by (intro do_invI) (auto split: if_splits)
next
  case (do_lead t)
  note D = do_invD[OF inv]
  have none: "dn_pc d u \<noteq> DLead" for u using D(5) do_lead(3) by blast
  show ?thesis unfolding do_lead(1)
    using D do_lead none by (intro do_invI) (auto split: if_splits)
next
  case (do_join t)
  note D = do_invD[OF inv]
  have "\<exists>u. ((dn_pc d)(t := DWait)) u = DLead"
    using D(4)[OF do_join(3)] do_join(2) by (metis do_pc.distinct(9) fun_upd_other)
  then show ?thesis unfolding do_join(1)
    using D do_join by (intro do_invI) (auto split: if_splits)
next
  case (do_recheck t v)
  then have "do_inv (do_finish t (Inr v) (d\<lparr>dn_cache := Some v, dn_runs := dn_runs d\<rparr>))"
    using do_invD(1)[OF inv] by (intro do_inv_finish[OF inv]) auto
  moreover have "d\<lparr>dn_cache := Some v, dn_runs := dn_runs d\<rparr> = d" using do_recheck by (cases d) simp
  ultimately show ?thesis using do_recheck by simp
next
  case (do_ok t v)
  then show ?thesis using do_invD(1)[OF inv] by (auto intro!: do_inv_finish[OF inv])
next
  case (do_err t)
  then have "do_inv (do_finish t (Inl ()) (d\<lparr>dn_cache := None, dn_runs := dn_runs d\<rparr>))"
    using do_invD(1)[OF inv] by (intro do_inv_finish[OF inv]) auto
  moreover have "d\<lparr>dn_cache := None, dn_runs := dn_runs d\<rparr> = d" using do_err by (cases d) simp
  ultimately show ?thesis using do_err by simp
next
  case (do_evict v)
  note D = do_invD[OF inv]
  show ?thesis unfolding do_evict(1)
    using D do_evict by (intro do_invI) auto
qed

lemma do_reach_inv: "do_reach d \<Longrightarrow> do_inv d"
proof (induction rule: do_reach.induct)
  case dr_init
  show ?case by (rule do_invI) auto
qed (use do_inv_step in blast)

text \<open>C19: a retried mutation runs once.  However many callers present the same request id, concurrently or
  later, the mutation succeeds at most once more often than its cached reply was evicted; without
  an eviction it succeeds at most once and every caller that gets a reply gets that one.\<close>

theorem request_runs_at_most_once:
  assumes "do_reach d"
  shows "dn_runs d \<le> Suc (dn_evicted d) \<and>
    (dn_evicted d = 0 \<longrightarrow>
       dn_runs d \<le> 1 \<and> (\<forall>t u v w. dn_pc d t = DDone (Inr v) \<and> dn_pc d u = DDone (Inr w) \<longrightarrow> v = w))"
proof -
  note D = do_invD[OF do_reach_inv[OF assms]]
  have "v = w" if "dn_evicted d = 0" "dn_pc d t = DDone (Inr v)" "dn_pc d u = DDone (Inr w)" for t u v w
    using D(2)[OF that(1,2)] D(2)[OF that(1,3)] by simp
  then show ?thesis using D(1) by (auto split: if_splits)
qed

theorem request_runs_at_most_once_witness:
  "\<exists>d :: nat do_sys. do_reach d \<and> dn_pc d 0 = DDone (Inr 7) \<and> dn_pc d 1 = DDone (Inr 7) \<and> dn_runs d \<le> 1"
proof -
  let ?i = "\<lparr>dn_cache = None, dn_flight = False, dn_runs = 0, dn_evicted = 0, dn_pc = (\<lambda>_. DIdle)\<rparr> :: nat do_sys"
  have 1: "do_reach (?i\<lparr>dn_pc := (\<lambda>_. DIdle)(0 := DMiss)\<rparr>)" using dr_step[OF dr_init do_miss[of _ 0]] by simp
  have 2: "do_reach (?i\<lparr>dn_flight := True, dn_pc := (\<lambda>_. DIdle)(0 := DLead)\<rparr>)" using dr_step[OF 1 do_lead[of _ 0]] by simp
  have f: "do_finish 0 (Inr 7) (?i\<lparr>dn_flight := True, dn_cache := Some 7, dn_runs := 1, dn_pc := (\<lambda>_. DIdle)(0 := DLead)\<rparr>) =
      ?i\<lparr>dn_cache := Some 7, dn_runs := 1, dn_pc := (\<lambda>_. DIdle)(0 := DDone (Inr 7))\<rparr>"
    by (auto simp: do_finish_def fun_eq_iff)
  have 3: "do_reach (?i\<lparr>dn_cache := Some 7, dn_runs := 1, dn_pc := (\<lambda>_. DIdle)(0 := DDone (Inr 7))\<rparr>)"
    using dr_step[OF 2 do_ok[of _ 0 7]] f by simp
  let ?d = "?i\<lparr>dn_cache := Some 7, dn_runs := 1, dn_pc := (\<lambda>_. DIdle)(0 := DDone (Inr 7), 1 := DDone (Inr 7))\<rparr>"
  have 4: "do_reach ?d" using dr_step[OF 3 do_hit[of _ 1 7]] by simp
  show ?thesis using request_runs_at_most_once[OF 4] 4 by (intro exI[of _ ?d]) simp
qed

section \<open>Sessions and their owners\<close>

datatype rpc_error = InvalidArgument | NotFoundError | PermissionDeniedError | InternalError | UnauthenticatedError

text \<open>The session registry as far as requests see it: the principal of every live session.\<close>

type_synonym session_table = "(string, string) gomap"

(* src/pkg/server/controller/idempotency.go:14-39 resolveSession *)
definition resolveSession :: "session_table \<Rightarrow> string \<Rightarrow> string \<Rightarrow> rpc_error + string" where
  "resolveSession sessions ctxP sid =
    (if sid = '''' then Inl InvalidArgument
     else (case gm_get sessions sid of
             None \<Rightarrow> Inl NotFoundError
           | Some p \<Rightarrow> if p \<noteq> '''' \<and> ctxP \<noteq> p then Inl PermissionDeniedError else Inr sid))"

(* src/pkg/server/controller/session.go:60-98 Resume *)
definition sess_Resume ::
  "session_table \<Rightarrow> bboltStore option \<Rightarrow> string \<Rightarrow> string \<Rightarrow> string \<Rightarrow> rpc_error + (bool \<times> u64)" where
  "sess_Resume sessions wmStore ctxP sid vol =
    (if sid = '''' then Inl InvalidArgument
     else
       (case gm_get sessions sid of
          None \<Rightarrow> Inr (False, 0)
        | Some p \<Rightarrow>
            if p \<noteq> '''' \<and> ctxP \<noteq> p then Inl PermissionDeniedError
            else (case wmStore of
                    None \<Rightarrow> Inr (True, 0)
                  | Some db \<Rightarrow>
                      if vol \<noteq> '''' \<and> p \<noteq> '''' then
                        (case wm_Get db \<lparr>wk_Identity = p, wk_Volume = vol, wk_Epoch = ''''\<rparr> of
                           Inl _ \<Rightarrow> Inl InternalError
                         | Inr r \<Rightarrow> Inr (True, wr_Watermark r))
                      else Inr (True, 0))))"

text \<open>The watermark a resuming client is told comes from the record without an epoch, while the Apply
  stream of every client with a write-ahead log records its progress under its epoch: whatever
  has been acknowledged under an epoch, \<open>Resume\<close> reports what was there before.\<close>

theorem resume_reports_epochless_watermark:
  assumes "key_plain k" and "wk_Epoch k \<noteq> ''''" and "wk_Identity k = p" and "wk_Volume k = vol"
  shows "sess_Resume [(sid, p)] (Some (snd (wm_Advance c k w db))) p sid vol =
         sess_Resume [(sid, p)] (Some db) p sid vol"
proof -
  have "key_plain \<lparr>wk_Identity = p, wk_Volume = vol, wk_Epoch = ''''\<rparr>"
    using assms by (auto simp: key_plain_def)
  moreover have "\<lparr>wk_Identity = p, wk_Volume = vol, wk_Epoch = ''''\<rparr> \<noteq> k" using assms by (cases k) auto
  ultimately show ?thesis
    using bbolt.adv_other[OF assms(1)] by (simp add: sess_Resume_def)
qed

theorem resume_reports_epochless_watermark_witness:
  "sess_Resume [(''s'', ''alice'')] (Some (snd (wm_Advance True ex_key 9 []))) ''alice'' ''s'' ''v'' = Inr (True, 0)"
  using resume_reports_epochless_watermark[OF ex_key_plain, of "''alice''" "''v''" "''s''" True 9 "[]"]
  by (simp add: ex_key_def sess_Resume_def wm_Get_def getRecord_def zero_record_def)

end
