(* ===== verification/Fs_Handlers.thy ===== *)
theory Fs_Handlers
  imports Deleg_Arbiter Apply_Server Session
begin

text \<open>
  The unary mutation handlers of the server (\<^verbatim>\<open>pkg/server/controller/fs.go\<close>, with
  \<^verbatim>\<open>withIdempotency\<close> of \<^verbatim>\<open>idempotency.go\<close>).  Each resolves the session, binds the identity, and runs
  once per request id: arbitration of the path's delegation, the path operation, and, on success,
  the piggybacked delegation request.  All replies have the same shape: a status, the attributes
  of the object and a grant.

  Handlers run one at a time here; a handler that would wait for another handler's recall has the
  value \<open>None\<close>.  The recall's result, the durable writes and the clock are the record \<open>henv\<close>.
\<close>

section \<open>Requests, replies and state\<close>

record henv =
  he_recall :: recall_result
  he_revoke_ok :: bool
  he_gen_ok :: bool
  he_now :: int

record Req =
  rq_SessionId :: string
  rq_RequestId :: string
  rq_Volume :: string
  rq_Caller :: "Caller option"
  rq_Delegation :: "(path \<times> string) option"

record Reply =
  rp_Status :: FsError
  rp_Attributes :: "ProtoAttr option"
  rp_Grant :: "DelegationGrant option"

definition reply :: "FsError \<Rightarrow> Reply" where
  "reply e = \<lparr>rp_Status = e, rp_Attributes = None, rp_Grant = None\<rparr>"

record 'fs server =
  sv_srv :: "'fs srv"
  sv_arb :: "Arbiter option"
  sv_replies :: "(string \<times> string, Reply) gomap"

type_synonym 'fs closure = "'fs server \<Rightarrow> (Reply \<times> 'fs server) option"

section \<open>The common frame\<close>

(* src/pkg/server/controller/idempotency.go:41-65 withIdempotency *)
definition withIdempotency ::
  "string \<Rightarrow> string \<Rightarrow> 'fs closure \<Rightarrow> 'fs server \<Rightarrow> ((rpc_error + Reply) \<times> 'fs server) option" where
  "withIdempotency sid rid body sv =
    (if rid = '''' then Some (Inl InvalidArgument, sv)
     else (case gm_get (sv_replies sv) (sid, rid) of
             Some v \<Rightarrow> Some (Inr v, sv)
           | None \<Rightarrow>
               (case body sv of
                  None \<Rightarrow> None
                | Some (v, sv') \<Rightarrow> Some (Inr v, sv'\<lparr>sv_replies := gm_put (sid, rid) v (sv_replies sv')\<rparr>))))"

definition framed ::
  "'fs idbind \<Rightarrow> session_table \<Rightarrow> string \<Rightarrow> Req \<Rightarrow> ('fs pathfs \<Rightarrow> Identity \<Rightarrow> 'fs closure) \<Rightarrow> 'fs server
    \<Rightarrow> ((rpc_error + Reply) \<times> 'fs server) option" where
  "framed bind sessions ctxP rq body sv =
    (case resolveSession sessions ctxP (rq_SessionId rq) of
       Inl e \<Rightarrow> Some (Inl e, sv)
     | Inr sid \<Rightarrow>
         (case bind (rq_Volume rq) (rq_Caller rq) of
            None \<Rightarrow> Some (Inl PermissionDeniedError, sv)
          | Some (pf, ident) \<Rightarrow> withIdempotency sid (rq_RequestId rq) (body pf ident) sv))"

definition arbitrated :: "henv \<Rightarrow> string \<Rightarrow> path \<Rightarrow> 'fs closure \<Rightarrow> 'fs closure" where
  "arbitrated env sid p k sv =
    (case arbitrateContention (he_recall env) (he_revoke_ok env) (he_now env) (sv_arb sv) sid p of
       None \<Rightarrow> None
     | Some (e, arb') \<Rightarrow>
         (let sv1 = sv\<lparr>sv_arb := arb'\<rparr> in if e \<noteq> FS_OK then Some (reply e, sv1) else k sv1))"

definition with_grant :: "henv \<Rightarrow> Req \<Rightarrow> Identity \<Rightarrow> (nat \<times> ProtoAttr option) \<times> 'fs srv \<Rightarrow> 'fs closure" where
  "with_grant env rq ident r sv =
    (case r of ((st, attr), s') \<Rightarrow>
      (let sv1 = sv\<lparr>sv_srv := s'\<rparr> in
       if st \<noteq> 0 then Some (reply (applyOpProtoStatus st), sv1)
       else (case grantFor (he_gen_ok env) (he_now env) (sv_arb sv1) (rq_SessionId rq) (id_Principal ident)
                     (rq_Volume rq) (rq_Delegation rq) of
               (g, arb') \<Rightarrow>
                 Some (\<lparr>rp_Status = FS_OK, rp_Attributes = attr, rp_Grant = g\<rparr>, sv1\<lparr>sv_arb := arb'\<rparr>))))"

text \<open>One arbitrated path operation, then the grant.\<close>

definition path_mutation ::
  "henv \<Rightarrow> Req \<Rightarrow> path \<Rightarrow> bool \<Rightarrow> PathOp \<Rightarrow> 'fs pathfs \<Rightarrow> Identity \<Rightarrow> 'fs closure" where
  "path_mutation env rq p names op pf ident =
    arbitrated env (rq_SessionId rq) p (\<lambda>sv.
      with_grant env rq ident
        (applyPathOp pf (rq_SessionId rq) (if names then Some ident else None) (rq_Volume rq) op (sv_srv sv)) sv)"

section \<open>The handlers\<close>

(* src/pkg/server/controller/fs.go:78-110 Mkdir *)
definition Mkdir where
  "Mkdir env bind sessions ctxP rq p mode =
    framed bind sessions ctxP rq (path_mutation env rq p True
      (no_op\<lparr>po_Kind := opMkdir, po_Path := p, po_Mode := mode, po_Caller := rq_Caller rq\<rparr>))"

(* src/pkg/server/controller/fs.go:112-136 Rmdir *)
definition Rmdir where
  "Rmdir env bind sessions ctxP rq p =
    framed bind sessions ctxP rq (path_mutation env rq p False
      (no_op\<lparr>po_Kind := opRmdir, po_Path := p, po_Caller := rq_Caller rq\<rparr>))"

(* src/pkg/server/controller/fs.go:138-167 Rename *)
definition Rename where
  "Rename env1 env bind sessions ctxP rq old new =
    framed bind sessions ctxP rq (\<lambda>pf ident.
      arbitrated env1 (rq_SessionId rq) old
        (path_mutation env rq new False
          (no_op\<lparr>po_Kind := opRename, po_OldName := old, po_NewName := new, po_Caller := rq_Caller rq\<rparr>) pf ident))"

(* src/pkg/server/controller/fs.go:181-214 Symlink *)
definition Symlink where
  "Symlink env bind sessions ctxP rq link target =
    framed bind sessions ctxP rq (path_mutation env rq link True
      (no_op\<lparr>po_Kind := opSymlink, po_Path := link, po_Target := target, po_Caller := rq_Caller rq\<rparr>))"

(* src/pkg/server/controller/fs.go:303-327 Unlink *)
definition Unlink where
  "Unlink env bind sessions ctxP rq p =
    framed bind sessions ctxP rq (path_mutation env rq p False
      (no_op\<lparr>po_Kind := opUnlink, po_Path := p, po_Caller := rq_Caller rq\<rparr>))"

(* src/pkg/server/controller/fs.go:348-381 SetAttr *)
definition SetAttr where
  "SetAttr env bind sessions ctxP rq sa =
    framed bind sessions ctxP rq (\<lambda>pf ident.
      arbitrated env (rq_SessionId rq) (sa_Path sa) (\<lambda>sv.
        with_grant env rq ident
          (applySetAttrOp pf (rq_SessionId rq) (Some ident) (rq_Volume rq) (rq_Caller rq) sa (sv_srv sv)) sv))"

(* src/pkg/server/controller/fs.go:445-455 xattrWriteAllowed *)
definition xattrWriteAllowed :: "string \<Rightarrow> bool" where
  "xattrWriteAllowed attr \<longleftrightarrow> prefix ''user.'' attr \<or> attr = ''system.posix_acl_access'' \<or> attr = ''system.posix_acl_default''"

definition xattr_guard ::
  "session_table \<Rightarrow> string \<Rightarrow> Req \<Rightarrow> string \<Rightarrow> ('fs server \<Rightarrow> ((rpc_error + Reply) \<times> 'fs server) option)
    \<Rightarrow> 'fs server \<Rightarrow> ((rpc_error + Reply) \<times> 'fs server) option" where
  "xattr_guard sessions ctxP rq attr k sv =
    (case resolveSession sessions ctxP (rq_SessionId rq) of
       Inl e \<Rightarrow> Some (Inl e, sv)
     | Inr _ \<Rightarrow> if \<not> xattrWriteAllowed attr then Some (Inr (reply FS_EPERM), sv) else k sv)"

(* src/pkg/server/controller/fs.go:466-496 SetXAttr *)
definition SetXAttr where
  "SetXAttr env bind sessions ctxP rq p attr dat flags =
    xattr_guard sessions ctxP rq attr
      (framed bind sessions ctxP rq (path_mutation env rq p False
        (no_op\<lparr>po_Kind := opSetXAttr, po_Path := p, po_XAttr := attr, po_XData := dat, po_XFlags := flags,
               po_Caller := rq_Caller rq\<rparr>)))"

(* src/pkg/server/controller/fs.go:498-526 RemoveXAttr *)
definition RemoveXAttr where
  "RemoveXAttr env bind sessions ctxP rq p attr =
    xattr_guard sessions ctxP rq attr
      (framed bind sessions ctxP rq (path_mutation env rq p False
        (no_op\<lparr>po_Kind := opRemoveXAttr, po_Path := p, po_XAttr := attr, po_Caller := rq_Caller rq\<rparr>)))"

(* src/pkg/server/controller/fs.go:60-76 GetAttr *)
definition GetAttr :: "'fs idbind \<Rightarrow> string \<Rightarrow> Caller option \<Rightarrow> path \<Rightarrow> 'fs \<Rightarrow> (ProtoAttr option \<times> FsError) option" where
  "GetAttr bind vol caller p fs =
    (case bind vol caller of
       None \<Rightarrow> None
     | Some (pf, ident) \<Rightarrow>
         (case pf_GetAttr pf p (createContext caller) fs of
            (attr, st) \<Rightarrow> Some (toProtoAttr attr (Some ident), fromErrno_status st)))"

datatype if_changed = NotModified | Modified "ProtoAttr option" | PathNotFound | StatFailed nat

(* src/pkg/server/controller/fs.go:539-565 GetAttrIfChanged *)
definition GetAttrIfChanged :: "'fs idbind \<Rightarrow> string \<Rightarrow> Caller option \<Rightarrow> path \<Rightarrow> u64 \<Rightarrow> 'fs \<Rightarrow> if_changed option" where
  "GetAttrIfChanged bind vol caller p known fs =
    (case bind vol caller of
       None \<Rightarrow> None
     | Some (pf, ident) \<Rightarrow>
         (case pf_GetAttr pf p (createContext caller) fs of
            (attr, st) \<Rightarrow>
              Some (if st \<noteq> 0 \<or> attr = None then (if st = 2 then PathNotFound else StatFailed st)
                    else if VersionFromAttr attr = known then NotModified
                    else Modified (toProtoAttr attr (Some ident)))))"

(* src/pkg/server/controller/fs.go:216-277 ReadDir *)
function batches :: "nat \<Rightarrow> 'a list \<Rightarrow> bool \<Rightarrow> 'a list list" where
  "batches n entries first =
    (if first \<or> entries \<noteq> [] then take n entries # (if n = 0 then [] else batches n (drop n entries) False) else [])"
  by pat_completeness auto
termination
  by (relation "measure (\<lambda>(n, entries, first). length entries + (if first then 1 else 0))") auto

declare batches.simps [simp del]

section \<open>All mutations\<close>

datatype mutation =
    MMkdir path u32 | MRmdir path | MUnlink path | MSymlink path string | MRename path path
  | MSetAttr SetAttrRequest | MSetXAttr path string bytes int | MRemoveXAttr path string

fun handle ::
  "henv \<Rightarrow> henv \<Rightarrow> 'fs idbind \<Rightarrow> session_table \<Rightarrow> string \<Rightarrow> Req \<Rightarrow> mutation \<Rightarrow> 'fs server
    \<Rightarrow> ((rpc_error + Reply) \<times> 'fs server) option" where
  "handle env1 env bind sessions ctxP rq (MMkdir p mode) = Mkdir env bind sessions ctxP rq p mode"
| "handle env1 env bind sessions ctxP rq (MRmdir p) = Rmdir env bind sessions ctxP rq p"
| "handle env1 env bind sessions ctxP rq (MUnlink p) = Unlink env bind sessions ctxP rq p"
| "handle env1 env bind sessions ctxP rq (MSymlink l t) = Symlink env bind sessions ctxP rq l t"
| "handle env1 env bind sessions ctxP rq (MRename old new) = Rename env1 env bind sessions ctxP rq old new"
| "handle env1 env bind sessions ctxP rq (MSetAttr sa) = SetAttr env bind sessions ctxP rq sa"
| "handle env1 env bind sessions ctxP rq (MSetXAttr p a d f) = SetXAttr env bind sessions ctxP rq p a d f"
| "handle env1 env bind sessions ctxP rq (MRemoveXAttr p a) = RemoveXAttr env bind sessions ctxP rq p a"

lemmas handler_defs = Mkdir_def Rmdir_def Unlink_def Symlink_def Rename_def SetAttr_def SetXAttr_def RemoveXAttr_def

lemma framed_retry:
  assumes "framed bind sessions ctxP rq body sv = Some (Inr r, sv')"
  shows "framed bind sessions ctxP rq body' sv' = Some (Inr r, sv')"
  using assms
  by (auto simp: framed_def withIdempotency_def gm_get_put split: sum.splits option.splits if_splits)

lemma xattr_guard_retry:
  assumes "xattr_guard sessions ctxP rq attr (framed bind sessions ctxP rq body) sv = Some (Inr r, sv')"
  shows "xattr_guard sessions ctxP rq attr (framed bind sessions ctxP rq body') sv' = Some (Inr r, sv')"
  using assms framed_retry[of bind sessions ctxP rq body sv r sv' body']
  by (auto simp: xattr_guard_def split: sum.splits if_splits)

section \<open>Properties\<close>

text \<open>C20: a client that lost the reply of a mutation and sends the same request again gets the same reply,
  and the second execution changes nothing: neither files nor events nor delegations, whatever the
  recall, the clock and the store would now answer.\<close>

theorem mutation_retry_is_idempotent:
  assumes "handle e1 e2 bind sessions ctxP rq m sv = Some (Inr r, sv')"
  shows "handle e1' e2' bind sessions ctxP rq m sv' = Some (Inr r, sv')"
  using assms framed_retry[of bind sessions ctxP rq] xattr_guard_retry[of sessions ctxP rq]
  by (cases m) (auto simp: handler_defs)

definition ex_rq :: Req where
  "ex_rq = \<lparr>rq_SessionId = ''B'', rq_RequestId = ''r1'', rq_Volume = ''v'', rq_Caller = None, rq_Delegation = None\<rparr>"

definition ex_sv :: "Arbiter option \<Rightarrow> string list server" where
  "ex_sv arb = \<lparr>sv_srv = ex_srv [], sv_arb = arb, sv_replies = []\<rparr>"

definition ex_env :: henv where
  "ex_env = \<lparr>he_recall = RecallTimedOut, he_revoke_ok = True, he_gen_ok = True, he_now = 0\<rparr>"

lemmas handler_eval = handler_defs framed_def withIdempotency_def path_mutation_def arbitrated_def with_grant_def
  arbitrateContention_def grantFor_def resolveSession_def xattr_guard_def

lemma ex_mkdir:
  "handle ex_env ex_env ex_bind [(''B'', ''alice'')] ''alice'' ex_rq (MMkdir ''d/f'' 0) (ex_sv None) =
   Some (Inr \<lparr>rp_Status = FS_OK, rp_Attributes = None, rp_Grant = None\<rparr>,
         \<lparr>sv_srv = ex_srv [''d/f''], sv_arb = None,
          sv_replies = [((''B'', ''r1''), \<lparr>rp_Status = FS_OK, rp_Attributes = None, rp_Grant = None\<rparr>)]\<rparr>)"
  by (simp add: handler_eval ex_rq_def ex_sv_def ex_env_def ex_defs apply_eval)

theorem mutation_retry_is_idempotent_witness:
  "handle ex_env ex_env ex_bind [(''B'', ''alice'')] ''alice'' ex_rq (MMkdir ''d/f'' 0)
     \<lparr>sv_srv = ex_srv [''d/f''], sv_arb = None,
      sv_replies = [((''B'', ''r1''), \<lparr>rp_Status = FS_OK, rp_Attributes = None, rp_Grant = None\<rparr>)]\<rparr> =
   Some (Inr \<lparr>rp_Status = FS_OK, rp_Attributes = None, rp_Grant = None\<rparr>,
     \<lparr>sv_srv = ex_srv [''d/f''], sv_arb = None,
      sv_replies = [((''B'', ''r1''), \<lparr>rp_Status = FS_OK, rp_Attributes = None, rp_Grant = None\<rparr>)]\<rparr>)"
  using mutation_retry_is_idempotent[OF ex_mkdir] .

fun mutation_paths :: "mutation \<Rightarrow> path list" where
  "mutation_paths (MMkdir p mode) = [p]"
| "mutation_paths (MRmdir p) = [p]"
| "mutation_paths (MUnlink p) = [p]"
| "mutation_paths (MSymlink l t) = [l]"
| "mutation_paths (MRename old new) = [old, new]"
| "mutation_paths (MSetAttr sa) = [sa_Path sa]"
| "mutation_paths (MSetXAttr p a d f) = [p]"
| "mutation_paths (MRemoveXAttr p a) = [p]"

definition contended :: "Arbiter option \<Rightarrow> string \<Rightarrow> path \<Rightarrow> bool" where
  "contended arb sid p \<longleftrightarrow>
    (\<exists>a owner root. arb = Some a \<and> ownerOf (ar_table a) p = Some (owner, root) \<and> owner \<noteq> sid)"

lemma OnMutation_uncontended:
  "\<not> contended (Some a) sid p \<Longrightarrow> OnMutation res c now sid p a = Some (None, a)"
  by (auto simp: contended_def OnMutation_def om_begin_def split: option.splits)

lemma OnMutation_failed_recall:
  assumes "contended (Some a) sid p" and "res = RecallTimedOut \<or> res = RecallSendFailed"
  shows "OnMutation res c now sid p a = None \<or>
    (\<exists>e a'. OnMutation res c now sid p a = Some (Some e, a') \<and> ar_table a' = ar_table a)"
proof -
  obtain owner root where o: "ownerOf (ar_table a) p = Some (owner, root)" "owner \<noteq> sid"
    using assms(1) by (auto simp: contended_def)
  have oc: "om_outcome res = (False, Some (RecallFailed res))" using assms(2) by (auto simp: om_outcome_def)
  show ?thesis
    using o by (auto simp: OnMutation_def om_begin_def oc om_fence_def om_finish_def split: option.splits)
qed



text \<open>The handlers refuse to write an extended attribute outside the \<open>user.\<close> namespace and the ACL
  pair, but the Apply stream has no such check: the same request, deferred by a client and
  replayed, writes \<open>security.capability\<close>.\<close>

theorem apply_bypasses_xattr_filter:
  "\<exists>attr fs'. \<not> xattrWriteAllowed attr \<and>
     handle ex_env ex_env (\<lambda>vol c. Some (fs', ex_ident)) [(''B'', ''alice'')] ''alice'' ex_rq (MSetXAttr ''f'' attr [] 0) (ex_sv None)
       = Some (Inr (reply FS_EPERM), ex_sv None) \<and>
     (\<exists>s' db'. Apply (\<lambda>vol c. Some (fs', ex_ident)) (\<lambda>_. True) True ''B'' [RvOp (ex_op 1 0 (WSetXattr ex_hdr ''f'' attr [] 0)), RvEOF]
         (ex_srv []) (Some []) = (Inr \<lparr>aa_Watermark = 1, aa_FailedSeq = 0, aa_Fserr = FS_OK\<rparr>, s', db') \<and>
        sr_fs s' = [attr])"
proof -
  let ?a = "''security.capability''"
  let ?fs = "ok_fs\<lparr>pf_SetXAttr := \<lambda>p a d f x fs. (0, a # fs)\<rparr> :: string list pathfs"
  have n: "\<not> xattrWriteAllowed ?a" by (simp add: xattrWriteAllowed_def)
  have "handle ex_env ex_env (\<lambda>vol c. Some (?fs, ex_ident)) [(''B'', ''alice'')] ''alice'' ex_rq (MSetXAttr ''f'' ?a [] 0) (ex_sv None)
       = Some (Inr (reply FS_EPERM), ex_sv None)"
    using n by (simp add: handler_eval ex_rq_def)
  moreover have "\<exists>db'. Apply (\<lambda>vol c. Some (?fs, ex_ident)) (\<lambda>_. True) True ''B'' [RvOp (ex_op 1 0 (WSetXattr ex_hdr ''f'' ?a [] 0)), RvEOF]
         (ex_srv []) (Some []) = (Inr \<lparr>aa_Watermark = 1, aa_FailedSeq = 0, aa_Fserr = FS_OK\<rparr>, ex_srv [?a], db')"
    by (simp add: ex_defs apply_eval)
  ultimately show ?thesis using n
    by (intro exI[of _ ?a] exI[of _ ?fs]) (auto simp: ex_srv_def)
qed

text \<open>A directory listing is streamed completely: the batches concatenate to the entries in order, none
  has more than the batch size, and there is at least one batch, also for an empty directory.\<close>

theorem readdir_batches_complete:
  assumes "0 < n"
  shows "concat (batches n entries True) = entries \<and> batches n entries True \<noteq> [] \<and>
    (\<forall>b \<in> set (batches n entries True). length b \<le> n)"
proof -
  have "concat (batches n xs f) = xs \<and> (\<forall>b \<in> set (batches n xs f). length b \<le> n)" for xs :: "'a list" and f
    using assms
  proof (induction n xs f rule: batches.induct)
    case (1 n xs f)
    then show ?case by (subst (1 2) batches.simps) (auto simp del: batches.simps)
  qed
  moreover have "batches n entries True \<noteq> []" by (simp add: batches.simps)
  ultimately show ?thesis by blast
qed

theorem readdir_batches_complete_witness:
  "concat (batches 512 [''a'', ''b''] True) = [''a'', ''b'']"
  using readdir_batches_complete[of 512 "[''a'', ''b'']"] by simp

end
