(* ===== verification/Client_Manager.thy ===== *)
theory Client_Manager
  imports GM_Prelude
begin

text \<open>
  The client's delegation manager (\<^verbatim>\<open>pkg/client/backend/delegation\<close>): the grants it holds, the roots
  being drained by recalls and admission barriers, the write set from which it derives the root to
  ask for, and the recall barrier \<^verbatim>\<open>OnRecall\<close>.

  A drain entry is a shared, reference-counted object with a channel that is closed once; entries
  live in a store addressed by number, as the code shares pointers to them.  The flusher is the
  WAL coordinator's \<^verbatim>\<open>FlushForRecall\<close>; here it is a function of the world it changes, and
  theory \<^verbatim>\<open>Wal_Coordinator\<close> puts the real one in its place.
\<close>

section \<open>State\<close>

(* src/pkg/client/backend/delegation/manager.go:35-42 grantState *)
record grantState =
  gs_grantedRoot :: path
  gs_excludedPaths :: "path list"
  gs_gen :: u64

(* src/pkg/client/backend/delegation/manager.go:73-76 drainEntry *)
record drainEntry =
  de_n :: int
  de_closed :: bool

(* src/pkg/client/backend/delegation/writeset.go:11-16 writeSet *)
record writeSet =
  ws_ring :: "path list"
  ws_n :: nat
  ws_cap :: nat

(* src/pkg/client/backend/delegation/manager.go:49-67 Manager *)
record Manager =
  mg_ws :: writeSet
  mg_grants :: "(path, grantState) gomap"
  mg_draining :: "(path, nat) gomap"
  mg_entries :: "(nat, drainEntry) gomap"
  mg_next :: nat
  mg_walEpoch :: string

record DelegationGrant =
  dg_GrantedRoot :: path
  dg_ExcludedPaths :: "path list"
  dg_Gen :: u64

(* src/pkg/client/backend/delegation/writeset.go:18-18 newWriteSet *)
definition newWriteSet :: "nat \<Rightarrow> writeSet" where
  "newWriteSet capacity = \<lparr>ws_ring = [], ws_n = 0, ws_cap = capacity\<rparr>"

(* src/pkg/client/backend/delegation/manager.go:97-104 NewManager *)
definition NewManager :: Manager where
  "NewManager = \<lparr>mg_ws = newWriteSet 64, mg_grants = [], mg_draining = [], mg_entries = [], mg_next = 0,
                 mg_walEpoch = ''''\<rparr>"

(* src/pkg/client/backend/delegation/manager.go:82-86 SetWalEpoch *)
definition SetWalEpoch :: "string \<Rightarrow> Manager \<Rightarrow> Manager" where
  "SetWalEpoch epoch m = m\<lparr>mg_walEpoch := epoch\<rparr>"

section \<open>Coverage and admission\<close>

(* src/pkg/client/backend/delegation/manager.go:108-110 contains *)
definition cl_contains :: "path \<Rightarrow> path \<Rightarrow> bool" where
  "cl_contains a b \<longleftrightarrow> a = '''' \<or> a = b \<or> prefix (a @ ''/'') b"

text \<open>Whether a grant covers a path: containment minus the excluded subtrees (the loop body of
  \<^verbatim>\<open>coveringGrantLocked\<close>).\<close>

definition grant_covers :: "grantState \<Rightarrow> path \<Rightarrow> bool" where
  "grant_covers g p \<longleftrightarrow> cl_contains (gs_grantedRoot g) p \<and> \<not> list_ex (\<lambda>ex. cl_contains ex p) (gs_excludedPaths g)"

(* src/pkg/client/backend/delegation/manager.go:114-132 coveringGrantLocked *)
fun coveringGrant :: "(path, grantState) gomap \<Rightarrow> path \<Rightarrow> grantState option" where
  "coveringGrant [] p = None"
| "coveringGrant ((k, g) # grants) p = (if grant_covers g p then Some g else coveringGrant grants p)"

(* src/pkg/client/backend/delegation/manager.go:136-146 IsDelegated *)
definition IsDelegated :: "Manager \<Rightarrow> path \<Rightarrow> bool" where
  "IsDelegated m p \<longleftrightarrow> coveringGrant (mg_grants m) p \<noteq> None"

(* src/pkg/client/backend/delegation/manager.go:150-157 drainingLocked *)
definition drainingLocked :: "Manager \<Rightarrow> path \<Rightarrow> bool" where
  "drainingLocked m p \<longleftrightarrow> list_ex (\<lambda>(root, e). cl_contains root p) (mg_draining m)"

(* src/pkg/client/backend/delegation/manager.go:163-173 IsWriteDelegated *)
definition IsWriteDelegated :: "Manager \<Rightarrow> path \<Rightarrow> bool" where
  "IsWriteDelegated m p \<longleftrightarrow> (if drainingLocked m p then False else coveringGrant (mg_grants m) p \<noteq> None)"

(* src/pkg/client/backend/delegation/manager.go:198-205 AdmissionState *)
definition AdmissionState :: "Manager \<Rightarrow> path \<Rightarrow> bool \<times> bool" where
  "AdmissionState m p = (coveringGrant (mg_grants m) p \<noteq> None, drainingLocked m p)"

(* src/pkg/client/backend/delegation/manager.go:211-221 GenFor *)
definition GenFor :: "Manager \<Rightarrow> path \<Rightarrow> u64" where
  "GenFor m p = (case coveringGrant (mg_grants m) p of None \<Rightarrow> 0 | Some g \<Rightarrow> gs_gen g)"

section \<open>Drains\<close>

(* src/pkg/client/backend/delegation/manager.go:258-268 markDraining *)
definition markDraining :: "path \<Rightarrow> Manager \<Rightarrow> nat \<times> Manager" where
  "markDraining root m =
    (case gm_get (mg_draining m) root of
       Some e \<Rightarrow>
         (e, m\<lparr>mg_entries := (case gm_get (mg_entries m) e of
                                None \<Rightarrow> mg_entries m
                              | Some d \<Rightarrow> gm_put e (d\<lparr>de_n := de_n d + 1\<rparr>) (mg_entries m))\<rparr>)
     | None \<Rightarrow>
         (mg_next m, m\<lparr>mg_draining := gm_put root (mg_next m) (mg_draining m),
            mg_entries := gm_put (mg_next m) \<lparr>de_n = 1, de_closed = False\<rparr> (mg_entries m),
            mg_next := Suc (mg_next m)\<rparr>))"

text \<open>Releasing a drain; the result is \<^const>\<open>None\<close> where Go panics: an entry that does not exist, or a
  channel closed twice.\<close>

(* src/pkg/client/backend/delegation/manager.go:273-284 endDraining *)
definition endDraining :: "path \<Rightarrow> nat \<Rightarrow> Manager \<Rightarrow> Manager option" where
  "endDraining root e m =
    (case gm_get (mg_entries m) e of
       None \<Rightarrow> None
     | Some d \<Rightarrow>
         (let d' = d\<lparr>de_n := de_n d - 1\<rparr> in
          if de_n d' = 0
          then (if de_closed d' then None
                else Some (m\<lparr>mg_draining := gm_del root (mg_draining m),
                             mg_entries := gm_put e (d'\<lparr>de_closed := True\<rparr>) (mg_entries m)\<rparr>))
          else Some (m\<lparr>mg_entries := gm_put e d' (mg_entries m)\<rparr>)))"

text \<open>The channels \<^verbatim>\<open>WaitDrained\<close> would park on for a path: it returns when there is none.\<close>

(* src/pkg/client/backend/delegation/manager.go:228-251 WaitDrained *)
definition WaitDrained_parks :: "Manager \<Rightarrow> path \<Rightarrow> nat option" where
  "WaitDrained_parks m p = map_option snd (find (\<lambda>(root, e). cl_contains root p) (mg_draining m))"

section \<open>Grants\<close>

(* src/pkg/client/backend/delegation/manager.go:302-313 Apply *)
definition mg_Apply :: "DelegationGrant \<Rightarrow> Manager \<Rightarrow> Manager" where
  "mg_Apply g m =
    (if dg_GrantedRoot g = '''' then m
     else m\<lparr>mg_grants := gm_put (dg_GrantedRoot g)
              \<lparr>gs_grantedRoot = dg_GrantedRoot g, gs_excludedPaths = dg_ExcludedPaths g, gs_gen = dg_Gen g\<rparr>
              (mg_grants m)\<rparr>)"

text \<open>Step 2 of \<^verbatim>\<open>OnRecall\<close>: the grants related to the recalled root go.\<close>

definition recalls :: "path \<Rightarrow> grantState \<Rightarrow> bool" where
  "recalls root g \<longleftrightarrow> cl_contains root (gs_grantedRoot g) \<or> cl_contains (gs_grantedRoot g) root"

definition drop_grants :: "path \<Rightarrow> Manager \<Rightarrow> Manager" where
  "drop_grants root m = m\<lparr>mg_grants := filter (\<lambda>(k, g). \<not> recalls root g) (mg_grants m)\<rparr>"

text \<open>
  \<^verbatim>\<open>OnRecall\<close> as one sequential run: mark, flush, drop the grants and signal the cache only when the
  flush succeeded, release the drain on both ways out.  The flusher sees the manager in its draining
  state and returns the manager other threads left behind.
\<close>

(* src/pkg/client/backend/delegation/manager.go:353-403 OnRecall *)
definition OnRecall ::
  "('w \<Rightarrow> Manager \<Rightarrow> 'e option \<times> 'w \<times> Manager) option \<Rightarrow> path \<Rightarrow> 'w \<Rightarrow> Manager
    \<Rightarrow> ('e option \<times> path list \<times> 'w \<times> Manager) option" where
  "OnRecall flusher root w m =
    (case markDraining root m of (entry, m1) \<Rightarrow>
      (case (case flusher of None \<Rightarrow> (None, w, m1) | Some f \<Rightarrow> f w m1) of (err, w', m2) \<Rightarrow>
         (case err of
            Some e \<Rightarrow> map_option (\<lambda>m'. (Some e, [], w', m')) (endDraining root entry m2)
          | None \<Rightarrow> map_option (\<lambda>m'. (None, [root], w', m')) (endDraining root entry (drop_grants root m2)))))"

section \<open>The write set\<close>

(* src/pkg/client/backend/delegation/writeset.go:20-29 record *)
definition ws_record :: "path \<Rightarrow> writeSet \<Rightarrow> writeSet" where
  "ws_record p w =
    (if length (ws_ring w) < ws_cap w then w\<lparr>ws_ring := ws_ring w @ [p], ws_n := ws_n w + 1\<rparr>
     else w\<lparr>ws_ring := (ws_ring w)[ws_n w mod ws_cap w := p], ws_n := ws_n w + 1\<rparr>)"

text \<open>\<^verbatim>\<open>strings.Split(s, "/")\<close> and \<^verbatim>\<open>strings.Join(xs, "/")\<close>.\<close>

fun splitSlash :: "string \<Rightarrow> string list" where
  "splitSlash [] = [[]]"
| "splitSlash (c # s) =
    (if c = CHR ''/'' then [] # splitSlash s
     else (case splitSlash s of [] \<Rightarrow> [[c]] | x # xs \<Rightarrow> (c # x) # xs))"

fun joinSlash :: "string list \<Rightarrow> string" where
  "joinSlash [] = []"
| "joinSlash [x] = x"
| "joinSlash (x # xs) = x @ ''/'' @ joinSlash xs"

text \<open>\<^verbatim>\<open>path.Clean\<close> and \<^verbatim>\<open>path.Dir\<close> of Go's library, on the components of the path.\<close>

definition clean_step :: "bool \<Rightarrow> string list \<Rightarrow> string \<Rightarrow> string list" where
  "clean_step rooted out c =
    (if c = '''' \<or> c = ''.'' then out
     else if c = ''..'' then
       (if out \<noteq> [] \<and> last out \<noteq> ''..'' then butlast out else if rooted then out else out @ [c])
     else out @ [c])"

definition path_Clean :: "path \<Rightarrow> path" where
  "path_Clean p =
    (let rooted = (p \<noteq> '''' \<and> hd p = CHR ''/'');
         out = foldl (clean_step rooted) [] (splitSlash p)
     in if rooted then CHR ''/'' # joinSlash out
        else if out = [] then ''.'' else joinSlash out)"

definition path_Dir :: "path \<Rightarrow> path" where
  "path_Dir p =
    (let cs = splitSlash p in path_Clean (if length cs = 1 then '''' else joinSlash (butlast cs) @ ''/''))"

fun common_prefix :: "'a list \<Rightarrow> 'a list \<Rightarrow> 'a list" where
  "common_prefix (x # xs) (y # ys) = (if x = y then x # common_prefix xs ys else [])"
| "common_prefix _ _ = []"

(* src/pkg/client/backend/delegation/writeset.go:52-65 commonDir *)
definition commonDir :: "path \<Rightarrow> path \<Rightarrow> path" where
  "commonDir a b =
    (if a = b then a
     else (let i = common_prefix (splitSlash a) (splitSlash b) in if i = [] then '''' else joinSlash i))"

fun lca_loop :: "path \<Rightarrow> path list \<Rightarrow> path" where
  "lca_loop lca [] = (if lca = ''.'' then '''' else lca)"
| "lca_loop lca (p # ps) =
    (let lca' = commonDir lca (path_Dir p) in if lca' = ''.'' \<or> lca' = '''' then '''' else lca_loop lca' ps)"

(* src/pkg/client/backend/delegation/writeset.go:32-49 root *)
definition ws_root :: "writeSet \<Rightarrow> path" where
  "ws_root w = (case ws_ring w of [] \<Rightarrow> '''' | p # ps \<Rightarrow> lca_loop (path_Dir p) ps)"

(* src/pkg/client/backend/delegation/manager.go:330-332 Record *)
definition mg_Record :: "path \<Rightarrow> Manager \<Rightarrow> Manager" where
  "mg_Record p m = m\<lparr>mg_ws := ws_record p (mg_ws m)\<rparr>"

(* src/pkg/client/backend/delegation/manager.go:318-327 RequestedRoot *)
definition RequestedRoot :: "Manager \<Rightarrow> path" where
  "RequestedRoot m =
    (let r = ws_root (mg_ws m) in if r = '''' then '''' else if IsDelegated m r then '''' else r)"

section \<open>Containment and coverage\<close>

lemma cl_contains_alt: "cl_contains a b \<longleftrightarrow> a = '''' \<or> a = b \<or> strictly_below a b"
  by (simp add: cl_contains_def strictly_below_def)

interpretation cl: containment cl_contains
proof (unfold_locales, goal_cases)
  case (1 a) then show ?case by (simp add: cl_contains_alt)
next
  case (2 a b c) then show ?case
    by (auto simp: cl_contains_alt strictly_below_def prefix_def)
next
  case (3 a b) then show ?case
    using strictly_below_asym by (auto simp: cl_contains_alt) (auto simp: strictly_below_def)
next
  case (4 a p b)
  then show ?case using strictly_below_chain by (auto simp: cl_contains_alt)
qed

lemma coveringGrant_None: "coveringGrant gs p = None \<longleftrightarrow> (\<forall>(k, g) \<in> set gs. \<not> grant_covers g p)"
  by (induction gs p rule: coveringGrant.induct) auto

lemma coveringGrant_Some: "coveringGrant gs p = Some g \<Longrightarrow> (\<exists>k. (k, g) \<in> set gs) \<and> grant_covers g p"
  by (induction gs p rule: coveringGrant.induct) (auto split: if_splits)

lemma IsDelegated_iff: "IsDelegated m p \<longleftrightarrow> (\<exists>(k, g) \<in> set (mg_grants m). grant_covers g p)"
  using coveringGrant_None[of "mg_grants m" p] by (auto simp: IsDelegated_def)

lemma drainingLocked_iff: "drainingLocked m p \<longleftrightarrow> (\<exists>(r, e) \<in> set (mg_draining m). cl_contains r p)"
  by (auto simp: drainingLocked_def list_ex_iff)

lemma AdmissionState_eq: "AdmissionState m p = (IsDelegated m p, drainingLocked m p)"
  by (simp add: AdmissionState_def IsDelegated_def)

lemma IsWriteDelegated_iff: "IsWriteDelegated m p \<longleftrightarrow> IsDelegated m p \<and> \<not> drainingLocked m p"
  by (simp add: IsWriteDelegated_def IsDelegated_def)

lemma WaitDrained_parks_None: "WaitDrained_parks m p = None \<longleftrightarrow> \<not> drainingLocked m p"
  by (auto simp: WaitDrained_parks_def drainingLocked_def find_None_iff list_ex_iff)

lemma markDraining_grants [simp]: "mg_grants (snd (markDraining r m)) = mg_grants m"
  by (auto simp: markDraining_def split: option.splits)

lemma endDraining_grants: "endDraining r e m = Some m' \<Longrightarrow> mg_grants m' = mg_grants m"
  by (auto simp: endDraining_def Let_def split: option.splits if_splits)

section \<open>Concurrent drains\<close>

text \<open>
  Recalls and rename barriers run in different goroutines; each marks, works and releases under the
  manager's lock.  A state has the manager and the drains in flight.
\<close>

record drain_sys =
  ds_mgr :: Manager
  ds_flight :: "(path \<times> nat) list"

inductive drain_step :: "drain_sys \<Rightarrow> drain_sys \<Rightarrow> bool" where
  ds_begin: "markDraining root (ds_mgr s) = (e, m') \<Longrightarrow>
     drain_step s (s\<lparr>ds_mgr := m', ds_flight := (root, e) # ds_flight s\<rparr>)"
| ds_drop: "(root, e) \<in> set (ds_flight s) \<Longrightarrow> drain_step s (s\<lparr>ds_mgr := drop_grants root (ds_mgr s)\<rparr>)"
| ds_end: "(root, e) \<in> set (ds_flight s) \<Longrightarrow> endDraining root e (ds_mgr s) = Some m' \<Longrightarrow>
     drain_step s (s\<lparr>ds_mgr := m', ds_flight := remove1 (root, e) (ds_flight s)\<rparr>)"
| ds_grant: "drain_step s (s\<lparr>ds_mgr := mg_Apply g (ds_mgr s)\<rparr>)"
| ds_record: "drain_step s (s\<lparr>ds_mgr := mg_Record p (ds_mgr s)\<rparr>)"

inductive drain_reach :: "drain_sys \<Rightarrow> bool" where
  dr_init: "drain_reach \<lparr>ds_mgr = NewManager, ds_flight = []\<rparr>"
| dr_step: "drain_reach s \<Longrightarrow> drain_step s s' \<Longrightarrow> drain_reach s'"

definition drain_inv :: "drain_sys \<Rightarrow> bool" where
  "drain_inv s \<longleftrightarrow>
    gm_wf (mg_draining (ds_mgr s)) \<and>
    (\<forall>r e. gm_get (mg_draining (ds_mgr s)) r = Some e \<longleftrightarrow> (r, e) \<in> set (ds_flight s)) \<and>
    (\<forall>r e. (r, e) \<in> set (ds_flight s) \<longrightarrow>
       gm_get (mg_entries (ds_mgr s)) e = Some \<lparr>de_n = int (count_list (ds_flight s) (r, e)), de_closed = False\<rparr> \<and>
       e < mg_next (ds_mgr s)) \<and>
    (\<forall>r r' e. (r, e) \<in> set (ds_flight s) \<longrightarrow> (r', e) \<in> set (ds_flight s) \<longrightarrow> r = r')"

lemma count_list_remove1: "count_list (remove1 x xs) y = count_list xs y - (if x = y then 1 else 0)"
  by (induction xs) (auto simp: count_list_0_iff)

lemma in_set_remove1_count: "x \<in> set (remove1 x xs) \<longleftrightarrow> 1 < count_list xs x"
  using count_list_0_iff[of "remove1 x xs" x] by (auto simp: count_list_remove1)

lemma drain_inv_begin:
  assumes "drain_inv s" and "markDraining root (ds_mgr s) = (e, m')"
  shows "drain_inv (s\<lparr>ds_mgr := m', ds_flight := (root, e) # ds_flight s\<rparr>)"
proof (cases "gm_get (mg_draining (ds_mgr s)) root")
  case None
  then have e: "e = mg_next (ds_mgr s)"
    and m': "mg_draining m' = gm_put root e (mg_draining (ds_mgr s))"
      "mg_entries m' = gm_put e \<lparr>de_n = 1, de_closed = False\<rparr> (mg_entries (ds_mgr s))"
      "mg_next m' = Suc e"
    using assms(2) by (auto simp: markDraining_def)
  have fresh: "(r, e) \<notin> set (ds_flight s)" for r using assms(1) e by (auto simp: drain_inv_def)
  have root: "(root, x) \<notin> set (ds_flight s)" for x using assms(1) None unfolding drain_inv_def by fastforce
  have c: "count_list (ds_flight s) (root, e) = 0" using fresh by (simp add: count_list_0_iff)
  show ?thesis using assms(1) fresh root c e
    by (auto simp: drain_inv_def m' gm_get_put less_Suc_eq)
next
  case (Some e0)
  then have fl: "(root, e0) \<in> set (ds_flight s)" using assms(1) by (auto simp: drain_inv_def)
  then have d: "gm_get (mg_entries (ds_mgr s)) e0 =
      Some \<lparr>de_n = int (count_list (ds_flight s) (root, e0)), de_closed = False\<rparr>"
    using assms(1) by (auto simp: drain_inv_def)
  have e: "e = e0" and m': "mg_draining m' = mg_draining (ds_mgr s)" "mg_next m' = mg_next (ds_mgr s)"
      "mg_entries m' = gm_put e0 \<lparr>de_n = int (count_list (ds_flight s) (root, e0)) + 1, de_closed = False\<rparr> (mg_entries (ds_mgr s))"
    using assms(2) Some d by (auto simp: markDraining_def)
  have uniq: "(r, e0) \<in> set (ds_flight s) \<Longrightarrow> r = root" for r
    using assms(1) fl unfolding drain_inv_def by blast
  show ?thesis using assms(1) fl unfolding drain_inv_def e
    by (auto simp: m' gm_get_put dest: uniq)
qed

lemma endDraining_in_flight:
  assumes "drain_inv s" and "(root, e) \<in> set (ds_flight s)"
  shows "\<exists>m'. endDraining root e (ds_mgr s) = Some m' \<and>
    drain_inv (s\<lparr>ds_mgr := m', ds_flight := remove1 (root, e) (ds_flight s)\<rparr>)"
proof -
  let ?n = "count_list (ds_flight s) (root, e)"
  have d: "gm_get (mg_entries (ds_mgr s)) e = Some \<lparr>de_n = int ?n, de_closed = False\<rparr>"
    using assms by (auto simp: drain_inv_def)
  have pos: "0 < ?n" using assms(2) count_list_0_iff[of "ds_flight s" "(root, e)"] by auto
  have other: "x \<in> set (remove1 (root, e) (ds_flight s)) \<longleftrightarrow> x \<in> set (ds_flight s)" if "x \<noteq> (root, e)" for x
    using that by (simp add: in_set_remove1)
  have uniq: "(r, e) \<in> set (ds_flight s) \<Longrightarrow> r = root" "(root, x) \<in> set (ds_flight s) \<Longrightarrow> x = e" for r x
    using assms unfolding drain_inv_def by (blast, metis option.inject)
  show ?thesis
  proof (cases "?n = 1")
    case True
    then have gone: "(root, e) \<notin> set (remove1 (root, e) (ds_flight s))" by (simp add: in_set_remove1_count)
    have sub: "set (remove1 (root, e) (ds_flight s)) = set (ds_flight s) - {(root, e)}"
    proof (rule set_eqI)
      show "x \<in> set (remove1 (root, e) (ds_flight s)) \<longleftrightarrow> x \<in> set (ds_flight s) - {(root, e)}" for x
        using gone other[of x] by (cases "x = (root, e)") auto
    qed
    have r: "gm_get (mg_draining (ds_mgr s)) root = Some e" using assms by (simp add: drain_inv_def)
    show ?thesis using assms(1) True r
      by (simp add: endDraining_def d drain_inv_def sub gm_get_put gm_get_del count_list_remove1)
         (fastforce dest: uniq)
  next
    case False
    then have "1 < ?n" using pos by linarith
    then have sub: "set (remove1 (root, e) (ds_flight s)) = set (ds_flight s)"
    proof (intro set_eqI)
      show "x \<in> set (remove1 (root, e) (ds_flight s)) \<longleftrightarrow> x \<in> set (ds_flight s)" for x
        using \<open>1 < ?n\<close> other[of x] assms(2) by (cases "x = (root, e)") (auto simp: in_set_remove1_count)
    qed
    have n: "int (?n - Suc 0) = int ?n - 1" "int ?n - 1 \<noteq> 0" using \<open>1 < ?n\<close> by auto
    let ?m = "(ds_mgr s)\<lparr>mg_entries := gm_put e \<lparr>de_n = int ?n - 1, de_closed = False\<rparr> (mg_entries (ds_mgr s))\<rparr>"
    have "gm_get (mg_entries ?m) x = Some \<lparr>de_n = int (count_list (remove1 (root, e) (ds_flight s)) (r, x)), de_closed = False\<rparr>"
      if "(r, x) \<in> set (ds_flight s)" for r x
    proof (cases "x = e")
      case True
      then show ?thesis using that uniq(1)[of r] n by (simp add: gm_get_put count_list_remove1)
    next
      case False
      moreover have "gm_get (mg_entries (ds_mgr s)) x = Some \<lparr>de_n = int (count_list (ds_flight s) (r, x)), de_closed = False\<rparr>"
        using assms(1) that unfolding drain_inv_def by blast
      ultimately show ?thesis by (simp add: gm_get_put count_list_remove1)
    qed
    then have "drain_inv (s\<lparr>ds_mgr := ?m, ds_flight := remove1 (root, e) (ds_flight s)\<rparr>)"
      using assms(1) by (simp add: drain_inv_def sub)
    then show ?thesis using n by (simp add: endDraining_def d)
  qed
qed

lemma drain_inv_cong:
  assumes "mg_draining m' = mg_draining (ds_mgr s)" "mg_entries m' = mg_entries (ds_mgr s)" "mg_next m' = mg_next (ds_mgr s)"
  shows "drain_inv (s\<lparr>ds_mgr := m'\<rparr>) \<longleftrightarrow> drain_inv s"
  by (simp add: drain_inv_def assms)

lemma drain_step_inv: "drain_step s s' \<Longrightarrow> drain_inv s \<Longrightarrow> drain_inv s'"
proof (induction rule: drain_step.induct)
  case (ds_begin root s e m')
  then show ?case by (simp add: drain_inv_begin)
next
  case (ds_end root e s m')
  then show ?case using endDraining_in_flight by fastforce
qed (subst drain_inv_cong; simp add: drop_grants_def mg_Apply_def mg_Record_def)+

lemma drain_reach_inv: "drain_reach s \<Longrightarrow> drain_inv s"
  by (induction rule: drain_reach.induct)
     (simp_all add: drain_step_inv, simp add: drain_inv_def NewManager_def)



section \<open>The recall barrier\<close>

lemma mark_end:
  assumes "drain_inv \<lparr>ds_mgr = m, ds_flight = fl\<rparr>"
  shows "\<exists>m'. endDraining root (fst (markDraining root m)) (snd (markDraining root m)) = Some m' \<and>
    set (mg_draining m') = set (mg_draining m) \<and> mg_grants m' = mg_grants m"
proof -
  obtain e m1 where m1: "markDraining root m = (e, m1)" by fastforce
  let ?s = "\<lparr>ds_mgr = m1, ds_flight = (root, e) # fl\<rparr>"
  have i: "drain_inv ?s" using drain_inv_begin[of "\<lparr>ds_mgr = m, ds_flight = fl\<rparr>"] assms m1 by simp
  obtain m' where m': "endDraining root e m1 = Some m'" "drain_inv \<lparr>ds_mgr = m', ds_flight = fl\<rparr>"
    using endDraining_in_flight[OF i, of root e] by auto
  have "set (mg_draining m') = set fl" "set (mg_draining m) = set fl"
    using m'(2) assms map_of_eq_Some_iff[of "mg_draining m'"] map_of_eq_Some_iff[of "mg_draining m"]
    unfolding drain_inv_def by auto
  moreover have "mg_grants m' = mg_grants m"
    using endDraining_grants[OF m'(1)] markDraining_grants[of root m] m1 by simp
  ultimately show ?thesis using m' m1 by simp
qed

lemma endDraining_drop:
  "endDraining root e (drop_grants r m) = map_option (drop_grants r) (endDraining root e m)"
  by (auto simp: endDraining_def drop_grants_def Let_def split: option.splits)

text \<open>C26: \<^verbatim>\<open>OnRecall\<close> always returns and releases its drain.  The flusher runs while no path under the recalled
  root admits a deferred operation.  When it fails, the grants are kept and the cache is left alone,
  so no clean handoff is reported; when it succeeds, exactly the grants above and below the root
  are gone and the cache is told to drop the subtree.\<close>

theorem on_recall_drops_only_after_flush:
  assumes "drain_reach s" and "\<And>w m. snd (snd (f w m)) = m"
  shows "\<exists>e m1 m' err w'. markDraining root (ds_mgr s) = (e, m1) \<and> f w m1 = (err, w', m1) \<and>
     (\<forall>p. cl_contains root p \<longrightarrow> \<not> IsWriteDelegated m1 p) \<and>
     OnRecall (Some f) root w (ds_mgr s) = Some (err, if err = None then [root] else [], w', m') \<and>
     set (mg_draining m') = set (mg_draining (ds_mgr s)) \<and>
     mg_grants m' = (if err = None then filter (\<lambda>(k, g). \<not> recalls root g) (mg_grants (ds_mgr s)) else mg_grants (ds_mgr s))"
proof -
  obtain e m1 where m1: "markDraining root (ds_mgr s) = (e, m1)" by fastforce
  obtain err w' where f: "f w m1 = (err, w', m1)" using assms(2)[of w m1] by (cases "f w m1") auto
  have inv: "drain_inv s" using drain_reach_inv[OF assms(1)] .
  have i: "drain_inv (s\<lparr>ds_mgr := m1, ds_flight := (root, e) # ds_flight s\<rparr>)"
    using drain_inv_begin[OF inv m1] .
  have "(root, e) \<in> set (mg_draining m1)"
    using i map_of_eq_Some_iff[of "mg_draining m1"] unfolding drain_inv_def by auto
  then have adm: "\<forall>p. cl_contains root p \<longrightarrow> \<not> IsWriteDelegated m1 p"
    by (auto simp: IsWriteDelegated_iff drainingLocked_iff)
  have s: "\<lparr>ds_mgr = ds_mgr s, ds_flight = ds_flight s\<rparr> = s" by simp
  obtain m2 where m2: "endDraining root e m1 = Some m2"
      "set (mg_draining m2) = set (mg_draining (ds_mgr s))" "mg_grants m2 = mg_grants (ds_mgr s)"
    using mark_end[of "ds_mgr s" "ds_flight s" root] inv m1 by (auto simp: s)
  let ?m' = "if err = None then drop_grants root m2 else m2"
  have "OnRecall (Some f) root w (ds_mgr s) = Some (err, if err = None then [root] else [], w', ?m')"
    using m2(1) by (cases err) (auto simp: OnRecall_def m1 f endDraining_drop)
  moreover have "set (mg_draining ?m') = set (mg_draining (ds_mgr s))"
    using m2 by (simp add: drop_grants_def)
  moreover have "mg_grants ?m' = (if err = None then filter (\<lambda>(k, g). \<not> recalls root g) (mg_grants (ds_mgr s)) else mg_grants (ds_mgr s))"
    using m2 by (simp add: drop_grants_def)
  ultimately show ?thesis using m1 f adm by blast
qed

theorem on_recall_drops_only_after_flush_witness:
  "\<exists>m'. OnRecall (Some (\<lambda>(w::nat) m. (None :: unit option, w, m))) ''d'' 0
       (mg_Apply \<lparr>dg_GrantedRoot = ''d'', dg_ExcludedPaths = [], dg_Gen = 1\<rparr> NewManager) = Some (None, [''d''], 0, m') \<and>
     mg_grants m' = []"
proof -
  let ?g = "\<lparr>dg_GrantedRoot = ''d'', dg_ExcludedPaths = [], dg_Gen = 1\<rparr>"
  let ?s = "\<lparr>ds_mgr = mg_Apply ?g NewManager, ds_flight = []\<rparr>"
  have r: "drain_reach ?s" using dr_step[OF dr_init ds_grant[of _ ?g]] by simp
  show ?thesis
    using on_recall_drops_only_after_flush[OF r, of "\<lambda>(w::nat) m. (None :: unit option, w, m)" "''d''" 0]
    by (auto simp: mg_Apply_def NewManager_def recalls_def cl_contains_def)
qed

section \<open>The root a client asks for\<close>

text \<open>A clean relative path: no empty, \<^verbatim>\<open>.\<close> or \<^verbatim>\<open>..\<close> component.\<close>

definition proper_comp :: "string \<Rightarrow> bool" where
  "proper_comp c \<longleftrightarrow> c \<noteq> '''' \<and> c \<noteq> ''.'' \<and> c \<noteq> ''..'' \<and> CHR ''/'' \<notin> set c"

definition clean_path :: "path \<Rightarrow> bool" where
  "clean_path p \<longleftrightarrow> list_all proper_comp (splitSlash p)"

lemma splitSlash_ne [simp]: "splitSlash s \<noteq> []"
  by (induction s) (auto split: list.splits)

lemma joinSlash_cons: "xs \<noteq> [] \<Longrightarrow> joinSlash (x # xs) = x @ ''/'' @ joinSlash xs"
  by (cases xs) simp_all

lemma joinSlash_splitSlash: "joinSlash (splitSlash s) = s"
proof (induction s)
  case (Cons c s)
  obtain x xs where "splitSlash s = x # xs" using splitSlash_ne[of s] by (cases "splitSlash s") auto
  then show ?case using Cons by (cases xs) (auto simp: joinSlash_cons)
qed simp

lemma splitSlash_append_slash: "CHR ''/'' \<notin> set c \<Longrightarrow> splitSlash (c @ CHR ''/'' # s) = c # splitSlash s"
  by (induction c) auto

lemma splitSlash_single: "CHR ''/'' \<notin> set c \<Longrightarrow> splitSlash c = [c]"
  by (induction c) auto

lemma splitSlash_joinSlash:
  "cs \<noteq> [] \<Longrightarrow> \<forall>c \<in> set cs. CHR ''/'' \<notin> set c \<Longrightarrow> splitSlash (joinSlash cs) = cs"
  by (induction cs rule: joinSlash.induct) (simp_all add: splitSlash_single splitSlash_append_slash)

lemma splitSlash_joinSlash_slash:
  "cs \<noteq> [] \<Longrightarrow> \<forall>c \<in> set cs. CHR ''/'' \<notin> set c \<Longrightarrow> splitSlash (joinSlash cs @ ''/'') = cs @ ['''']"
  by (induction cs rule: joinSlash.induct) (simp_all add: splitSlash_append_slash)

lemma joinSlash_append:
  "xs \<noteq> [] \<Longrightarrow> ys \<noteq> [] \<Longrightarrow> joinSlash (xs @ ys) = joinSlash xs @ ''/'' @ joinSlash ys"
  by (induction xs rule: joinSlash.induct) (auto simp: joinSlash_cons)

lemma clean_fold: "list_all proper_comp cs \<Longrightarrow> foldl (clean_step r) out cs = out @ cs"
  by (induction cs arbitrary: out) (auto simp: clean_step_def proper_comp_def)

lemma path_Dir_clean:
  assumes "clean_path p"
  shows "path_Dir p = (let cs = splitSlash p in if length cs = 1 then ''.'' else joinSlash (butlast cs))"
proof (cases "length (splitSlash p) = 1")
  case True
  then show ?thesis by (simp add: path_Dir_def path_Clean_def clean_step_def)
next
  case False
  let ?b = "butlast (splitSlash p)"
  have b: "?b \<noteq> []" using False splitSlash_ne[of p] by (cases "splitSlash p" rule: rev_cases) auto
  have pr: "list_all proper_comp ?b" using assms by (auto simp: clean_path_def list_all_iff dest: in_set_butlastD)
  then have ns: "\<forall>c \<in> set ?b. CHR ''/'' \<notin> set c" by (auto simp: list_all_iff proper_comp_def)
  have h: "hd (joinSlash ?b) \<noteq> CHR ''/''" "joinSlash ?b \<noteq> ''''"
    using b pr by (cases ?b rule: joinSlash.cases; auto simp: proper_comp_def hd_append neq_Nil_conv)+
  have "path_Clean (joinSlash ?b @ ''/'') = joinSlash ?b"
    using h b pr by (simp add: path_Clean_def splitSlash_joinSlash_slash[OF b ns] clean_fold hd_append) (simp add: clean_step_def)
  then show ?thesis using False by (simp add: path_Dir_def Let_def)
qed

lemma common_prefix_prefix: "prefix (common_prefix xs ys) xs \<and> prefix (common_prefix xs ys) ys"
  by (induction xs ys rule: common_prefix.induct) auto

text \<open>\<open>ls\<close> are the components of a directory strictly above every path of \<open>ps\<close>.\<close>

definition above_all :: "string list \<Rightarrow> path set \<Rightarrow> bool" where
  "above_all ls ps \<longleftrightarrow> ls \<noteq> [] \<and> list_all proper_comp ls \<and> (\<forall>p \<in> ps. strict_prefix ls (splitSlash p))"

lemma above_all_below:
  assumes "above_all ls ps" and "p \<in> ps" shows "strictly_below (joinSlash ls) p"
proof -
  obtain zs where zs: "splitSlash p = ls @ zs" "zs \<noteq> []"
    using assms by (auto simp: above_all_def elim!: strict_prefixE')
  then obtain x r where "splitSlash p = ls @ x # r" by (cases zs) auto
  then have "p = joinSlash ls @ ''/'' @ joinSlash (x # r)"
    using assms joinSlash_splitSlash[of p] by (simp add: joinSlash_append above_all_def)
  then show ?thesis unfolding strictly_below_def prefix_def by (metis append_assoc)
qed

lemma above_all_split: "above_all ls ps \<Longrightarrow> splitSlash (joinSlash ls) = ls"
  by (rule splitSlash_joinSlash) (auto simp: above_all_def list_all_iff proper_comp_def)

lemma path_Dir_cases:
  assumes "clean_path p"
  obtains "path_Dir p = ''.''" | ls where "path_Dir p = joinSlash ls" "above_all ls {p}"
proof (cases "length (splitSlash p) = 1")
  case True
  then show ?thesis using that(1) path_Dir_clean[OF assms] by simp
next
  case False
  let ?b = "butlast (splitSlash p)"
  have "?b \<noteq> []" using False splitSlash_ne[of p] by (cases "splitSlash p" rule: rev_cases) auto
  moreover have "list_all proper_comp ?b"
    using assms by (auto simp: clean_path_def list_all_iff dest: in_set_butlastD)
  moreover have "strict_prefix ?b (splitSlash p)"
    using splitSlash_ne[of p] by (cases "splitSlash p" rule: rev_cases) (auto simp: strict_prefix_def)
  ultimately show ?thesis using that(2)[of ?b] False path_Dir_clean[OF assms] by (simp add: above_all_def)
qed

lemma dot_not_proper: "above_all ls ps \<Longrightarrow> common_prefix ls [''.''] = [] \<and> common_prefix [''.''] ls = []"
  by (cases ls) (auto simp: above_all_def proper_comp_def)

lemma commonDir_above:
  assumes "above_all ls ps" and "clean_path p"
    and "commonDir (joinSlash ls) (path_Dir p) \<noteq> ''.''" "commonDir (joinSlash ls) (path_Dir p) \<noteq> ''''"
  shows "\<exists>ls'. commonDir (joinSlash ls) (path_Dir p) = joinSlash ls' \<and> above_all ls' (insert p ps)"
  using assms(2)
proof (cases rule: path_Dir_cases)
  case 1
  then have "commonDir (joinSlash ls) (path_Dir p) \<in> {''.'', ''''}"
    using dot_not_proper[OF assms(1)] above_all_split[OF assms(1)] by (auto simp: commonDir_def Let_def)
  then show ?thesis using assms(3,4) by simp
next
  case (2 bs)
  let ?ls' = "common_prefix ls bs"
  have pre: "prefix ?ls' ls" "prefix ?ls' bs" using common_prefix_prefix[of ls bs] by auto
  have same: "joinSlash ls = joinSlash bs \<Longrightarrow> ls = bs"
    using above_all_split[OF assms(1)] above_all_split[OF 2(2)] by metis
  have self: "common_prefix xs xs = xs" for xs :: "string list" by (induction xs) auto
  have c: "commonDir (joinSlash ls) (path_Dir p) = (if ?ls' = [] then '''' else joinSlash ?ls')"
  proof (cases "joinSlash ls = joinSlash bs")
    case True
    then show ?thesis using same self[of ls] assms(1) by (simp add: commonDir_def 2(1) above_all_def)
  next
    case False
    then show ?thesis using above_all_split[OF assms(1)] above_all_split[OF 2(2)]
      by (simp add: commonDir_def 2(1) Let_def)
  qed
  then have ne: "?ls' \<noteq> []" using assms(4) by auto
  have "above_all ?ls' (insert p ps)"
    unfolding above_all_def
  proof (intro conjI ballI)
    show "list_all proper_comp ?ls'"
      using set_mono_prefix[OF pre(2)] 2(2) by (auto simp: list_all_iff above_all_def)
    show "strict_prefix ?ls' (splitSlash q)" if "q \<in> insert p ps" for q
      using that pre 2(2) assms(1) prefix_order.le_less_trans unfolding above_all_def by blast
  qed (rule ne)
  then show ?thesis using c ne by auto
qed

lemma lca_loop_above:
  assumes "above_all ls ps" and "\<forall>p \<in> set qs. clean_path p" and "lca_loop (joinSlash ls) qs \<noteq> ''''"
  shows "\<exists>ls'. lca_loop (joinSlash ls) qs = joinSlash ls' \<and> above_all ls' (ps \<union> set qs)"
  using assms
proof (induction qs arbitrary: ls ps)
  case Nil
  then show ?case by (auto split: if_splits)
next
  case (Cons q qs)
  then have n: "commonDir (joinSlash ls) (path_Dir q) \<noteq> ''.''" "commonDir (joinSlash ls) (path_Dir q) \<noteq> ''''"
    by (auto simp: Let_def split: if_splits)
  obtain ls' where ls': "commonDir (joinSlash ls) (path_Dir q) = joinSlash ls'" "above_all ls' (insert q ps)"
    using commonDir_above[OF Cons.prems(1) _ n] Cons.prems(2) by auto
  then have "lca_loop (joinSlash ls) (q # qs) = lca_loop (joinSlash ls') qs" using n by simp
  then show ?case using Cons.IH[OF ls'(2)] Cons.prems by auto
qed

text \<open>The root a client asks a delegation for is a directory strictly above every path in its write set, and
  it is not already delegated to it.\<close>

theorem requested_root_covers_writes:
  assumes "RequestedRoot m = r" and "r \<noteq> ''''" and "\<forall>p \<in> set (ws_ring (mg_ws m)). clean_path p"
    and "q \<in> set (ws_ring (mg_ws m))"
  shows "strictly_below r q \<and> \<not> IsDelegated m r"
proof -
  have r: "ws_root (mg_ws m) = r" "\<not> IsDelegated m r"
    using assms(1,2) by (auto simp: RequestedRoot_def Let_def split: if_splits)
  obtain p ps where ring: "ws_ring (mg_ws m) = p # ps" using assms(4) by (cases "ws_ring (mg_ws m)") auto
  have lca: "lca_loop (path_Dir p) ps = r" using r ring by (simp add: ws_root_def)
  have cp: "clean_path p" using assms(3) ring by simp
  show ?thesis
    using cp
  proof (cases rule: path_Dir_cases)
    case 1
    have "lca_loop ''.'' ps = ''''"
    proof (cases ps)
      case (Cons x xs)
      then have "clean_path x" using assms(3) ring by simp
      then have "commonDir ''.'' (path_Dir x) \<in> {''.'', ''''}"
        by (cases rule: path_Dir_cases) (auto simp: commonDir_def Let_def above_all_split dot_not_proper)
      then show ?thesis using Cons by (auto simp: Let_def)
    qed simp
    then show ?thesis using 1 lca assms(2) by simp
  next
    case (2 ls)
    obtain ls' where "r = joinSlash ls'" "above_all ls' ({p} \<union> set ps)"
      using lca_loop_above[OF 2(2), of ps] assms(2,3) ring lca 2(1) by auto
    then show ?thesis using above_all_below assms(4) ring r(2) by simp
  qed
qed

theorem requested_root_covers_writes_witness:
  "RequestedRoot (mg_Record ''a/b/x'' (mg_Record ''a/c/y'' NewManager)) = ''a'' \<and> strictly_below ''a'' ''a/c/y''"
proof -
  have r: "RequestedRoot (mg_Record ''a/b/x'' (mg_Record ''a/c/y'' NewManager)) = ''a''"
    by code_simp
  show ?thesis using requested_root_covers_writes[OF r, of "''a/c/y''"] r
    by (simp add: mg_Record_def NewManager_def newWriteSet_def ws_record_def clean_path_def proper_comp_def)
qed

end
