(* ===== verification/Wal_Log.thy ===== *)
theory Wal_Log
  imports Wal_Op
begin

text \<open>
  The client's durable operation log (\<^verbatim>\<open>pkg/client/backend/wal/log.go\<close>).  The bbolt bucket \<^verbatim>\<open>ops\<close> is the
  list of its entries in key order (the keys are big-endian sequence numbers, so byte order is
  numeric order); a stored value is the JSON text of an operation or bytes that do not decode.  A
  transaction that fails to commit changes nothing; every transaction fails once the log is closed.

  The locale \<^verbatim>\<open>op_log\<close> states what the coordinator relies on; the bbolt log satisfies it.
\<close>

section \<open>Operations of the log\<close>

(* src/pkg/client/backend/wal/log.go:26-39 OpKind *)
datatype OpKind =
    OpWrite | OpCreate | OpSetAttr | OpMkdir | OpRename | OpUnlink | OpRmdir | OpSymlink | OpSetXAttr | OpRemoveXAttr
  | OpUnknown

text \<open>The offsets come from kernel requests and are not negative.\<close>

(* src/pkg/client/backend/wal/log.go:55-80 Op *)
record Op =
  op_Seq :: u64
  op_Gen :: u64
  op_Kind :: OpKind
  op_Path :: path
  op_NewPath :: path
  op_Offset :: nat
  op_Data :: bytes
  op_Mode :: u32
  op_Flags :: u32
  op_Valid :: u32
  op_UID :: u32
  op_GID :: u32
  op_Size :: u64
  op_AtimeSec :: int
  op_AtimeNsec :: u32
  op_MtimeSec :: int
  op_MtimeNsec :: u32
  op_XattrName :: string
  op_XattrValue :: bytes
  op_XattrFlags :: u32

datatype stored_op = JsonOp Op | CorruptOp

(* src/pkg/client/backend/wal/log.go:92-95 BboltLog *)
record BboltLog =
  bl_ops :: "(u64 \<times> stored_op) list"
  bl_hi :: "u64 option"
  bl_epoch :: string
  bl_closed :: bool

datatype log_error = DatabaseNotOpen | CommitFailed

definition empty_file :: BboltLog where
  "empty_file = \<lparr>bl_ops = [], bl_hi = None, bl_epoch = '''', bl_closed = True\<rparr>"

text \<open>Opening the file: \<open>uuid\<close> is the fresh identifier that a first open mints.\<close>

(* src/pkg/client/backend/wal/log.go:106-134 Open *)
definition log_Open :: "string \<Rightarrow> BboltLog \<Rightarrow> BboltLog" where
  "log_Open uuid file =
    file\<lparr>bl_epoch := (if bl_epoch file \<noteq> '''' then bl_epoch file else uuid), bl_closed := False\<rparr>"

(* src/pkg/client/backend/wal/log.go:276-282 loadHiSeq *)
definition loadHiSeq :: "BboltLog \<Rightarrow> u64" where
  "loadHiSeq l = (case bl_hi l of None \<Rightarrow> 0 | Some h \<Rightarrow> h)"

(* src/pkg/client/backend/wal/log.go:147-154 Append *)
definition nextSeq :: "BboltLog \<Rightarrow> u64" where
  "nextSeq l =
    (let nxt = (if bl_ops l = [] then 1 else fst (last (bl_ops l)) + 1);
         hi = loadHiSeq l
     in if hi + 1 > nxt then hi + 1 else nxt)"

text \<open>\<^verbatim>\<open>ob.Put\<close> keeps the bucket in key order and overwrites an equal key.\<close>

fun ops_put :: "u64 \<Rightarrow> stored_op \<Rightarrow> (u64 \<times> stored_op) list \<Rightarrow> (u64 \<times> stored_op) list" where
  "ops_put k v [] = [(k, v)]"
| "ops_put k v ((k', v') # xs) =
    (if k < k' then (k, v) # (k', v') # xs else if k = k' then (k, v) # xs else (k', v') # ops_put k v xs)"

(* src/pkg/client/backend/wal/log.go:141-177 Append *)
definition log_Append :: "bool \<Rightarrow> Op \<Rightarrow> BboltLog \<Rightarrow> (log_error + u64) \<times> BboltLog" where
  "log_Append commit op l =
    (if bl_closed l then (Inl DatabaseNotOpen, l)
     else (let nxt = nextSeq l in
           if \<not> commit then (Inl CommitFailed, l)
           else (Inr nxt, l\<lparr>bl_ops := ops_put nxt (JsonOp (op\<lparr>op_Seq := nxt\<rparr>)) (bl_ops l), bl_hi := Some nxt\<rparr>)))"

text \<open>The entries that decode; corrupt ones are skipped.\<close>

fun decode :: "(u64 \<times> stored_op) list \<Rightarrow> Op list" where
  "decode [] = []"
| "decode ((k, JsonOp op) # xs) = op # decode xs"
| "decode ((k, CorruptOp) # xs) = decode xs"

(* src/pkg/client/backend/wal/log.go:184-218 Replay *)
definition log_Replay :: "u64 \<Rightarrow> BboltLog \<Rightarrow> log_error + Op list" where
  "log_Replay fromSeq l =
    (if bl_closed l then Inl DatabaseNotOpen
     else Inr (decode (if fromSeq = 0 then bl_ops l else dropWhile (\<lambda>(k, v). k < fromSeq + 1) (bl_ops l))))"

(* src/pkg/client/backend/wal/log.go:223-237 Truncate *)
definition log_Truncate :: "bool \<Rightarrow> u64 \<Rightarrow> BboltLog \<Rightarrow> log_error option \<times> BboltLog" where
  "log_Truncate commit throughSeq l =
    (if bl_closed l then (Some DatabaseNotOpen, l)
     else if \<not> commit then (Some CommitFailed, l)
     else (None, l\<lparr>bl_ops := dropWhile (\<lambda>(k, v). \<not> k > throughSeq) (bl_ops l)\<rparr>))"

(* src/pkg/client/backend/wal/log.go:241-261 Prefix *)
definition log_Prefix :: "u64 \<Rightarrow> BboltLog \<Rightarrow> Op list" where
  "log_Prefix throughSeq l =
    (if bl_closed l then [] else decode (takeWhile (\<lambda>(k, v). \<not> k > throughSeq) (bl_ops l)))"

(* src/pkg/client/backend/wal/log.go:264-266 Close *)
definition log_Close :: "BboltLog \<Rightarrow> BboltLog" where
  "log_Close l = l\<lparr>bl_closed := True\<rparr>"

section \<open>Well-formedness\<close>

text \<open>Keys ascend strictly from 1 up to the persisted high-water mark, and an entry that decodes carries its
  key as its sequence number.\<close>

definition log_wf :: "BboltLog \<Rightarrow> bool" where
  "log_wf l \<longleftrightarrow> sorted_wrt (<) (map fst (bl_ops l)) \<and>
     (\<forall>(k, v) \<in> set (bl_ops l). 0 < k \<and> k \<le> loadHiSeq l \<and> (\<forall>op. v = JsonOp op \<longrightarrow> op_Seq op = k))"

lemma ops_put_last: "\<forall>(k', v') \<in> set xs. k' < k \<Longrightarrow> ops_put k v xs = xs @ [(k, v)]"
  by (induction k v xs rule: ops_put.induct) auto

lemma unat_inc: "unat (a::u64) + 1 < 2 ^ 64 \<Longrightarrow> unat (a + 1) = unat a + 1"
  by (simp add: unat_word_ariths)

lemma nextSeq_hi:
  assumes "log_wf l" and "unat (loadHiSeq l) + 1 < 2 ^ 64" shows "nextSeq l = loadHiSeq l + 1"
proof -
  have h: "unat (loadHiSeq l + 1) = unat (loadHiSeq l) + 1" using unat_inc[OF assms(2)] .
  show ?thesis
  proof (cases "bl_ops l = []")
    case True
    have "(1::u64) \<le> loadHiSeq l + 1" using h by (simp add: word_le_nat_alt)
    then show ?thesis using True by (auto simp: nextSeq_def Let_def)
  next
    case False
    have "fst (last (bl_ops l)) \<le> loadHiSeq l" using assms(1) last_in_set[OF False] unfolding log_wf_def by fastforce
    then have "unat (fst (last (bl_ops l))) \<le> unat (loadHiSeq l)" by (simp add: word_le_nat_alt)
    then have "fst (last (bl_ops l)) + 1 \<le> loadHiSeq l + 1"
      using h unat_inc[of "fst (last (bl_ops l))"] assms(2) by (simp add: word_le_nat_alt)
    then show ?thesis using False by (auto simp: nextSeq_def Let_def)
  qed
qed

lemma decode_append: "decode (xs @ ys) = decode xs @ decode ys"
  by (induction xs rule: decode.induct) auto

lemma set_decode: "op \<in> set (decode xs) \<longleftrightarrow> (\<exists>k. (k, JsonOp op) \<in> set xs)"
  by (induction xs rule: decode.induct) auto

text \<open>On a well-formed bucket the cursor loops select by sequence number.\<close>

lemma decode_dropWhile:
  assumes "sorted_wrt (<) (map fst xs)" and "\<forall>(k, v) \<in> set xs. \<forall>op. v = JsonOp op \<longrightarrow> op_Seq op = k"
  shows "decode (dropWhile (\<lambda>(k, v). \<not> k > t) xs) = filter (\<lambda>op. op_Seq op > t) (decode xs) \<and>
    decode (takeWhile (\<lambda>(k, v). \<not> k > t) xs) = filter (\<lambda>op. op_Seq op \<le> t) (decode xs)"
  using assms
proof (induction xs rule: decode.induct)
  case (2 k op xs)
  show ?case
  proof (cases "k > t")
    case True
    then have "\<forall>(k', v) \<in> set xs. k' > t" using 2(2) by fastforce
    then have "\<forall>o' \<in> set (decode xs). op_Seq o' > t" using 2(3) by (fastforce simp: set_decode)
    then show ?thesis using True 2(3) by (auto simp: filter_empty_conv not_le)
  qed (use 2 in auto)
next
  case (3 k xs)
  show ?case
  proof (cases "k > t")
    case True
    then have "\<forall>(k', v) \<in> set xs. k' > t" using 3(2) by fastforce
    then have "\<forall>o' \<in> set (decode xs). op_Seq o' > t" using 3(3) by (fastforce simp: set_decode)
    then show ?thesis using True by (auto simp: filter_empty_conv not_le)
  qed (use 3 in auto)
qed simp

lemma sorted_decode:
  assumes "sorted_wrt (<) (map fst xs)" and "\<forall>(k, v) \<in> set xs. \<forall>op. v = JsonOp op \<longrightarrow> op_Seq op = k"
  shows "sorted_wrt (<) (map op_Seq (decode xs))"
  using assms
proof (induction xs rule: decode.induct)
  case (2 k op xs)
  then have "\<forall>o' \<in> set (decode xs). k < op_Seq o'" by (fastforce simp: set_decode)
  then show ?case using 2 by auto
qed auto

section \<open>The interface of the log\<close>

definition log_pending :: "BboltLog \<Rightarrow> Op list" where
  "log_pending l = decode (bl_ops l)"

definition log_opened :: "BboltLog \<Rightarrow> bool" where
  "log_opened l \<longleftrightarrow> \<not> bl_closed l"

datatype log_event = EvAppend bool Op | EvTruncate bool u64 | EvReopen string

text \<open>A run of the log: the sequence numbers it hands out and the log at the end.\<close>

fun log_run ::
  "(bool \<Rightarrow> Op \<Rightarrow> 'l \<Rightarrow> (log_error + u64) \<times> 'l) \<Rightarrow> (bool \<Rightarrow> u64 \<Rightarrow> 'l \<Rightarrow> log_error option \<times> 'l) \<Rightarrow> (string \<Rightarrow> 'l \<Rightarrow> 'l)
    \<Rightarrow> log_event list \<Rightarrow> 'l \<Rightarrow> u64 list \<times> 'l" where
  "log_run app trunc reopen [] l = ([], l)"
| "log_run app trunc reopen (EvAppend c op # evs) l =
    (case app c op l of (r, l1) \<Rightarrow>
      (case log_run app trunc reopen evs l1 of (qs, l2) \<Rightarrow> ((case r of Inl _ \<Rightarrow> qs | Inr q \<Rightarrow> q # qs), l2)))"
| "log_run app trunc reopen (EvTruncate c t # evs) l = log_run app trunc reopen evs (snd (trunc c t l))"
| "log_run app trunc reopen (EvReopen u # evs) l = log_run app trunc reopen evs (reopen u l)"

locale op_log =
  fixes wf :: "'l \<Rightarrow> bool"
    and opened :: "'l \<Rightarrow> bool"
    and hi :: "'l \<Rightarrow> u64"
    and pending :: "'l \<Rightarrow> Op list"
    and app :: "bool \<Rightarrow> Op \<Rightarrow> 'l \<Rightarrow> (log_error + u64) \<times> 'l"
    and trunc :: "bool \<Rightarrow> u64 \<Rightarrow> 'l \<Rightarrow> log_error option \<times> 'l"
    and prefix_upto :: "u64 \<Rightarrow> 'l \<Rightarrow> Op list"
    and replay :: "u64 \<Rightarrow> 'l \<Rightarrow> log_error + Op list"
    and reopen :: "string \<Rightarrow> 'l \<Rightarrow> 'l"
  assumes app_ok: "wf l \<Longrightarrow> unat (hi l) + 1 < 2 ^ 64 \<Longrightarrow> app c op l = (Inr q, l') \<Longrightarrow>
        wf l' \<and> opened l' = opened l \<and> hi l' = q \<and> unat q = unat (hi l) + 1 \<and> pending l' = pending l @ [op\<lparr>op_Seq := q\<rparr>]"
    and app_err: "app c op l = (Inl e, l') \<Longrightarrow> l' = l"
    and app_commits: "opened l \<Longrightarrow> \<exists>q l'. app True op l = (Inr q, l')"
    and trunc_law: "wf l \<Longrightarrow> trunc c t l = (r, l') \<Longrightarrow> wf l' \<and> hi l' = hi l \<and> opened l' = opened l \<and>
        pending l' = (if r = None then filter (\<lambda>op. op_Seq op > t) (pending l) else pending l)"
    and prefix_law: "wf l \<Longrightarrow> opened l \<Longrightarrow> prefix_upto t l = filter (\<lambda>op. op_Seq op \<le> t) (pending l)"
    and replay_all: "opened l \<Longrightarrow> replay 0 l = Inr (pending l)"
    and reopen_law: "wf l \<Longrightarrow> wf (reopen u l) \<and> opened (reopen u l) \<and> hi (reopen u l) = hi l \<and> pending (reopen u l) = pending l"
    and pending_sorted: "wf l \<Longrightarrow> sorted_wrt (<) (map op_Seq (pending l))"
    and pending_bounds: "wf l \<Longrightarrow> op \<in> set (pending l) \<Longrightarrow> 0 < op_Seq op \<and> op_Seq op \<le> hi l"
begin

lemma run_sorted:
  assumes "wf l" and "unat (hi l) + length evs < 2 ^ 64" and "log_run app trunc reopen evs l = (qs, l')"
  shows "sorted_wrt (<) qs \<and> (\<forall>q \<in> set qs. hi l < q) \<and> wf l' \<and> hi l \<le> hi l' \<and> (\<forall>q \<in> set qs. q \<le> hi l')"
  using assms
proof (induction evs arbitrary: l qs)
  case (Cons ev evs)
  show ?case
  proof (cases ev)
    case (EvAppend c op)
    obtain r l1 where a: "app c op l = (r, l1)" by fastforce
    obtain qs1 where b: "log_run app trunc reopen evs l1 = (qs1, l')" "qs = (case r of Inl _ \<Rightarrow> qs1 | Inr q \<Rightarrow> q # qs1)"
      using Cons.prems(3) EvAppend a by (auto split: prod.splits)
    show ?thesis
    proof (cases r)
      case (Inl e)
      then show ?thesis using Cons.IH[of l1 qs1] Cons.prems a b app_err[of c op l e l1] by auto
    next
      case (Inr q)
      have l1: "wf l1" "hi l1 = q" "unat q = unat (hi l) + 1"
        using app_ok[of l c op q l1] Cons.prems a Inr by auto
      have lt: "hi l < q" using l1(3) by (simp add: word_less_nat_alt)
      have ih: "sorted_wrt (<) qs1 \<and> (\<forall>q' \<in> set qs1. q < q') \<and> wf l' \<and> q \<le> hi l' \<and> (\<forall>q' \<in> set qs1. q' \<le> hi l')"
        using Cons.IH[of l1 qs1] Cons.prems(2) l1 b by auto
      have "\<forall>q' \<in> set qs1. hi l < q'" using ih lt less_trans by blast
      moreover have "hi l \<le> hi l'" using ih lt by auto
      ultimately show ?thesis using ih lt b(2) Inr by simp
    qed
  next
    case (EvTruncate c t)
    then show ?thesis using Cons.IH[of "snd (trunc c t l)" qs] Cons.prems trunc_law[of l c t] by (cases "trunc c t l") auto
  next
    case (EvReopen u)
    then show ?thesis using Cons.IH[of "reopen u l" qs] Cons.prems reopen_law[of l u] by auto
  qed
qed simp

lemma prefix_then_rest: "wf l \<Longrightarrow> opened l \<Longrightarrow> pending l = prefix_upto t l @ filter (\<lambda>op. op_Seq op > t) (pending l)"
proof -
  assume w: "wf l" "opened l"
  have "sorted_wrt (<) (map op_Seq xs) \<Longrightarrow> xs = filter (\<lambda>op. op_Seq op \<le> t) xs @ filter (\<lambda>op. op_Seq op > t) xs" for xs
  proof (induction xs)
    case (Cons x xs)
    show ?case
    proof (cases "op_Seq x \<le> t")
      case False
      then have "\<forall>y \<in> set xs. op_Seq y > t" using Cons.prems by fastforce
      then show ?thesis using False by (auto simp: filter_empty_conv not_le)
    qed (use Cons in auto)
  qed simp
  then show ?thesis using pending_sorted[OF w(1)] prefix_law[OF w] by metis
qed

end

lemma Append_law:
  assumes "log_wf l" and "unat (loadHiSeq l) + 1 < 2 ^ 64" and "log_Append c op l = (Inr q, l')"
  shows "log_wf l' \<and> bl_closed l' = bl_closed l \<and> loadHiSeq l' = q \<and> unat q = unat (loadHiSeq l) + 1 \<and>
    log_pending l' = log_pending l @ [op\<lparr>op_Seq := q\<rparr>]"
proof -
  have q: "q = loadHiSeq l + 1" and l': "l' = l\<lparr>bl_ops := ops_put q (JsonOp (op\<lparr>op_Seq := q\<rparr>)) (bl_ops l), bl_hi := Some q\<rparr>"
    using assms nextSeq_hi[OF assms(1,2)] by (auto simp: log_Append_def Let_def split: if_splits)
  have u: "unat q = unat (loadHiSeq l) + 1" using q unat_inc[OF assms(2)] by simp
  have lt: "\<forall>(k, v) \<in> set (bl_ops l). k < q"
    using assms(1) u unfolding log_wf_def by (fastforce simp: word_le_nat_alt word_less_nat_alt)
  have ops: "bl_ops l' = bl_ops l @ [(q, JsonOp (op\<lparr>op_Seq := q\<rparr>))]" using ops_put_last[OF lt] l' by simp
  have "0 < q" using u by (simp add: word_less_nat_alt)
  then have "log_wf l'" using assms(1) lt l' unfolding log_wf_def ops
    by (fastforce simp: sorted_wrt_append loadHiSeq_def)
  then show ?thesis using ops u l' by (simp add: log_pending_def decode_append loadHiSeq_def)
qed

lemma log_wf_suffix:
  assumes "log_wf l" and "bl_ops l = xs @ ys" shows "log_wf (l\<lparr>bl_ops := ys\<rparr>)"
  using assms by (auto simp: log_wf_def loadHiSeq_def sorted_wrt_append)

lemma Truncate_law:
  assumes "log_wf l" and "log_Truncate c t l = (r, l')"
  shows "log_wf l' \<and> loadHiSeq l' = loadHiSeq l \<and> log_opened l' = log_opened l \<and>
    log_pending l' = (if r = None then filter (\<lambda>op. op_Seq op > t) (log_pending l) else log_pending l)"
proof (cases "bl_closed l \<or> \<not> c")
  case True
  then show ?thesis using assms by (auto simp: log_Truncate_def split: if_splits)
next
  case False
  let ?P = "\<lambda>(k, v :: stored_op). \<not> k > t"
  have l': "l' = l\<lparr>bl_ops := dropWhile ?P (bl_ops l)\<rparr>" "r = None" using assms(2) False by (simp_all add: log_Truncate_def)
  have "log_wf l'" unfolding l' by (rule log_wf_suffix[OF assms(1)], rule takeWhile_dropWhile_id[symmetric])
  moreover have "log_pending l' = filter (\<lambda>op. op_Seq op > t) (log_pending l)"
    using decode_dropWhile[of "bl_ops l" t] assms(1) unfolding log_wf_def log_pending_def l' by fastforce
  ultimately show ?thesis using l' by (simp add: loadHiSeq_def log_opened_def)
qed

interpretation bl: op_log log_wf log_opened loadHiSeq log_pending log_Append log_Truncate log_Prefix log_Replay
  "\<lambda>u l. log_Open u (log_Close l)"
proof (unfold_locales, goal_cases)
  case (1 l c op q l')
  then show ?case using Append_law[OF 1] by (simp add: log_opened_def)
next
  case (4 l c t r l')
  then show ?case by (rule Truncate_law)
next
  case (5 l t)
  then show ?case using decode_dropWhile[of "bl_ops l" t]
    by (fastforce simp: log_Prefix_def log_pending_def log_wf_def log_opened_def)
next
  case (8 l)
  then show ?case unfolding log_pending_def log_wf_def by (intro sorted_decode) auto
next
  case (9 l op)
  then show ?case unfolding log_pending_def log_wf_def set_decode by fastforce
qed (auto simp: log_Append_def log_Replay_def log_pending_def log_Open_def log_Close_def log_wf_def log_opened_def loadHiSeq_def Let_def split: if_splits)

section \<open>Properties\<close>

text \<open>C18: a sequence number of the log is never handed out twice: over any run of appends, failed appends,
  truncations (full ones too) and reopenings of the file the assigned numbers strictly ascend, starting
  above the number the file remembered.\<close>

theorem log_seqs_never_reused:
  assumes "log_wf l" and "unat (loadHiSeq l) + length evs < 2 ^ 64"
    and "log_run log_Append log_Truncate (\<lambda>u l. log_Open u (log_Close l)) evs l = (qs, l')"
  shows "sorted_wrt (<) qs \<and> distinct qs \<and> (\<forall>q \<in> set qs. loadHiSeq l < q \<and> q \<le> loadHiSeq l') \<and> log_wf l'"
  using bl.run_sorted[OF assms] strict_sorted_iff by blast

definition ex_wop :: Op where
  "ex_wop = \<lparr>op_Seq = 0, op_Gen = 1, op_Kind = OpWrite, op_Path = ''d/f'', op_NewPath = '''', op_Offset = 0, op_Data = [7],
     op_Mode = 0, op_Flags = 0, op_Valid = 0, op_UID = 0, op_GID = 0, op_Size = 0, op_AtimeSec = 0, op_AtimeNsec = 0,
     op_MtimeSec = 0, op_MtimeNsec = 0, op_XattrName = '''', op_XattrValue = [], op_XattrFlags = 0\<rparr>"

theorem log_seqs_never_reused_witness:
  "\<exists>l'. log_run log_Append log_Truncate (\<lambda>u l. log_Open u (log_Close l))
      [EvAppend True ex_wop, EvAppend True ex_wop, EvTruncate True 2, EvReopen ''u'', EvAppend True ex_wop]
      (log_Open ''e'' empty_file) = ([1, 2, 3], l') \<and> log_wf l'"
proof -
  let ?evs = "[EvAppend True ex_wop, EvAppend True ex_wop, EvTruncate True 2, EvReopen ''u'', EvAppend True ex_wop]"
  have w: "log_wf (log_Open ''e'' empty_file)" by (simp add: log_wf_def log_Open_def empty_file_def)
  obtain l' where r: "log_run log_Append log_Truncate (\<lambda>u l. log_Open u (log_Close l)) ?evs (log_Open ''e'' empty_file) = ([1, 2, 3], l')"
    by (simp add: log_Open_def empty_file_def log_Append_def log_Truncate_def log_Close_def nextSeq_def loadHiSeq_def Let_def)
  have h: "loadHiSeq (log_Open ''e'' empty_file) = 0" by (simp add: log_Open_def empty_file_def loadHiSeq_def)
  show ?thesis using log_seqs_never_reused[OF w _ r] r h by simp
qed

end
