(* ===== verification/Wal_Overlay.thy ===== *)
theory Wal_Overlay
  imports Wal_Log
begin

text \<open>
  The in-memory overlay of pending operations (\<^verbatim>\<open>pkg/client/backend/wal/overlay.go\<close>): a sparse map from
  paths to nodes that record what the pending operations changed, and the read side that lays it
  over the base content.

  Byte ranges and offsets are naturals (a request's offset is not negative).  An instant is its
  Unix second: the code keeps the nanoseconds it uses in separate fields.  Where the code asks the
  clock, the operation takes the answer as the argument \<open>now\<close>.
\<close>

section \<open>Nodes\<close>

(* src/pkg/client/backend/wal/overlay.go:109-109 byteRange *)
type_synonym byteRange = "nat \<times> nat"

(* src/pkg/client/backend/backend.go:49-69 Attr *)
record Attr =
  at_Ino :: u64
  at_Size :: u64
  at_Blocks :: u64
  at_Atime :: u64
  at_Mtime :: u64
  at_Ctime :: u64
  at_Atimensec :: u32
  at_Mtimensec :: u32
  at_Ctimensec :: u32
  at_Mode :: u32
  at_Nlink :: u32
  at_Uid :: u32
  at_Gid :: u32
  at_Rdev :: u32
  at_Blksize :: u32
  at_Version :: u64

(* src/pkg/client/backend/wal/overlay.go:63-106 overlayNode *)
record overlayNode =
  on_ino :: u64
  on_mode :: u32
  on_uid :: u32
  on_gid :: u32
  on_atime :: int
  on_mtime :: int
  on_ctime :: int
  on_atimeNsec :: u32
  on_mtimeNsec :: u32
  on_version :: u64
  on_data :: bytes
  on_intervals :: "byteRange list"
  on_target :: string
  on_xattrs :: "(string, bytes) gomap"
  on_xattrRemoved :: "string list"
  on_tomb :: bool
  on_baseDelta :: bool
  on_valid :: u32

definition zero_node :: overlayNode where
  "zero_node = \<lparr>on_ino = 0, on_mode = 0, on_uid = 0, on_gid = 0, on_atime = 0, on_mtime = 0, on_ctime = 0,
     on_atimeNsec = 0, on_mtimeNsec = 0, on_version = 0, on_data = [], on_intervals = [], on_target = '''',
     on_xattrs = [], on_xattrRemoved = [], on_tomb = False, on_baseDelta = False, on_valid = 0\<rparr>"

text \<open>\<open>S_IFMT\<close> 0xF000, \<open>S_IFLNK\<close> 0xA000, \<open>S_IFDIR\<close> 0x4000, \<open>S_IFREG\<close> 0x8000; the permission bits are 0xFFF.\<close>

(* src/pkg/client/backend/wal/overlay.go:131-146 size *)
definition node_size :: "overlayNode \<Rightarrow> u64" where
  "node_size n =
    (if on_mode n AND 0xF000 = 0xA000 then of_nat (length (on_target n))
     else if on_mode n AND 0xF000 = 0x4000 then 4096
     else if on_intervals n \<noteq> [] \<and> snd (last (on_intervals n)) > length (on_data n)
     then of_nat (snd (last (on_intervals n)))
     else of_nat (length (on_data n)))"

(* src/pkg/client/backend/wal/overlay.go:111-129 attr *)
definition node_attr :: "overlayNode \<Rightarrow> Attr" where
  "node_attr n = \<lparr>at_Ino = on_ino n, at_Size = node_size n, at_Blocks = (node_size n + 511) div 512,
     at_Atime = of_int (on_atime n), at_Mtime = of_int (on_mtime n), at_Ctime = of_int (on_ctime n),
     at_Atimensec = on_atimeNsec n, at_Mtimensec = on_mtimeNsec n, at_Ctimensec = 0,
     at_Mode = on_mode n, at_Nlink = 1, at_Uid = on_uid n, at_Gid = on_gid n, at_Rdev = 0, at_Blksize = 4096,
     at_Version = on_version n\<rparr>"

(* src/pkg/client/backend/wal/overlay.go:148-153 touch *)
definition touch :: "int \<Rightarrow> overlayNode \<Rightarrow> overlayNode" where
  "touch now n = n\<lparr>on_mtime := now, on_ctime := now, on_version := on_version n + 1\<rparr>"

text \<open>The loop of \<^verbatim>\<open>addInterval\<close> before and after the new range has been emitted.\<close>

fun ai_rest :: "byteRange list \<Rightarrow> byteRange list \<Rightarrow> byteRange list" where
  "ai_rest merged [] = merged"
| "ai_rest merged (r # rs) =
    (let l = last merged in
     if fst r \<le> snd l
     then ai_rest (if snd r > snd l then butlast merged @ [(fst l, snd r)] else merged) rs
     else ai_rest (merged @ [r]) rs)"

fun ai_scan :: "byteRange \<Rightarrow> byteRange list \<Rightarrow> byteRange list \<Rightarrow> byteRange list" where
  "ai_scan newR merged [] = merged @ [newR]"
| "ai_scan newR merged (r # rs) =
    (if fst newR \<le> snd r \<and> fst r \<le> snd newR
     then ai_scan (if fst r < fst newR then fst r else fst newR, if snd r > snd newR then snd r else snd newR) merged rs
     else if fst newR < fst r then ai_rest (merged @ [newR, r]) rs
     else ai_scan newR (merged @ [r]) rs)"

(* src/pkg/client/backend/wal/overlay.go:157-196 addInterval *)
definition addInterval :: "nat \<Rightarrow> nat \<Rightarrow> overlayNode \<Rightarrow> overlayNode" where
  "addInterval start end n = n\<lparr>on_intervals := ai_scan (start, end) [] (on_intervals n)\<rparr>"

(* src/pkg/client/backend/wal/overlay.go:199-211 clampIntervals *)
definition clampIntervals :: "nat \<Rightarrow> overlayNode \<Rightarrow> overlayNode" where
  "clampIntervals newSize n =
    n\<lparr>on_intervals := map (\<lambda>(s, e). (s, if e > newSize then newSize else e))
                       (filter (\<lambda>(s, e). \<not> s \<ge> newSize) (on_intervals n))\<rparr>"

section \<open>The overlay\<close>

(* src/pkg/client/backend/wal/overlay.go:218-222 Overlay *)
record Overlay =
  ov_nodes :: "(path, overlayNode) gomap"
  ov_nextIno :: u64

(* src/pkg/client/backend/wal/overlay.go:225-230 NewOverlay *)
definition NewOverlay :: Overlay where
  "NewOverlay = \<lparr>ov_nodes = [], ov_nextIno = 1\<rparr>"

abbreviation set_node :: "path \<Rightarrow> overlayNode \<Rightarrow> Overlay \<Rightarrow> Overlay" where
  "set_node p n ov \<equiv> ov\<lparr>ov_nodes := gm_put p n (ov_nodes ov)\<rparr>"

(* src/pkg/client/backend/wal/overlay.go:232-236 allocIno *)
definition allocIno :: "Overlay \<Rightarrow> u64 \<times> Overlay" where
  "allocIno ov = (ov_nextIno ov, ov\<lparr>ov_nextIno := ov_nextIno ov + 1\<rparr>)"

(* src/pkg/client/backend/wal/overlay.go:239-250 newFileNode *)
definition newFileNode :: "int \<Rightarrow> u32 \<Rightarrow> Overlay \<Rightarrow> overlayNode \<times> Overlay" where
  "newFileNode now mode ov =
    (case allocIno ov of (ino, ov') \<Rightarrow>
      (zero_node\<lparr>on_ino := ino, on_mode := mode, on_atime := now, on_mtime := now, on_ctime := now\<rparr>, ov'))"

(* src/pkg/client/backend/wal/overlay.go:253-264 newDirNode *)
definition newDirNode :: "int \<Rightarrow> u32 \<Rightarrow> Overlay \<Rightarrow> overlayNode \<times> Overlay" where
  "newDirNode now mode ov =
    (case allocIno ov of (ino, ov') \<Rightarrow>
      (zero_node\<lparr>on_ino := ino, on_mode := mode, on_atime := now, on_mtime := now, on_ctime := now\<rparr>, ov'))"

(* src/pkg/client/backend/wal/overlay.go:269-278 newBaseDeltaNode *)
definition newBaseDeltaNode :: "int \<Rightarrow> Overlay \<Rightarrow> overlayNode \<times> Overlay" where
  "newBaseDeltaNode now ov =
    (case allocIno ov of (ino, ov') \<Rightarrow> (zero_node\<lparr>on_ino := ino, on_ctime := now, on_baseDelta := True\<rparr>, ov'))"

(* src/pkg/client/backend/wal/overlay.go:281-283 tombNode *)
definition tombNode :: "int \<Rightarrow> overlayNode" where
  "tombNode now = zero_node\<lparr>on_tomb := True, on_ctime := now\<rparr>"

text \<open>The node an operation on an existing path works on: the live node, or a fresh base delta.\<close>

definition live_node :: "int \<Rightarrow> path \<Rightarrow> Overlay \<Rightarrow> overlayNode \<times> Overlay" where
  "live_node now p ov =
    (case gm_get (ov_nodes ov) p of
       Some n \<Rightarrow> if on_tomb n then newBaseDeltaNode now ov else (n, ov)
     | None \<Rightarrow> newBaseDeltaNode now ov)"

section \<open>Applying operations\<close>

(* src/pkg/client/backend/wal/overlay.go:336-346 applyCreate *)
definition ov_applyCreate :: "int \<Rightarrow> Op \<Rightarrow> Overlay \<Rightarrow> Overlay" where
  "ov_applyCreate now op ov =
    (let perm = op_Mode op AND 0xFFF; perm' = (if perm = 0 then 0x1A4 else perm)
     in case newFileNode now (0x8000 OR perm') ov of (n, ov') \<Rightarrow> set_node (op_Path op) n ov')"

(* src/pkg/client/backend/wal/overlay.go:348-359 applyMkdir *)
definition ov_applyMkdir :: "int \<Rightarrow> Op \<Rightarrow> Overlay \<Rightarrow> Overlay" where
  "ov_applyMkdir now op ov =
    (let perm = op_Mode op AND 0xFFF; perm' = (if perm = 0 then 0x1ED else perm)
     in case newDirNode now (0x4000 OR perm') ov of (n, ov') \<Rightarrow> set_node (op_Path op) n ov')"

text \<open>Growing with zero bytes, and \<^verbatim>\<open>copy\<close> into a slice.\<close>

definition grow :: "nat \<Rightarrow> bytes \<Rightarrow> bytes" where
  "grow len xs = (if len > length xs then xs @ replicate (len - length xs) 0 else xs)"

definition copy_at :: "nat \<Rightarrow> bytes \<Rightarrow> bytes \<Rightarrow> bytes" where
  "copy_at start src dst = take start dst @ src @ drop (start + length src) dst"

(* src/pkg/client/backend/wal/overlay.go:361-383 applyWrite *)
definition ov_applyWrite :: "int \<Rightarrow> Op \<Rightarrow> Overlay \<Rightarrow> Overlay" where
  "ov_applyWrite now op ov =
    (case live_node now (op_Path op) ov of (n, ov') \<Rightarrow>
      (let start = op_Offset op; end = start + length (op_Data op);
           n1 = n\<lparr>on_data := copy_at start (op_Data op) (grow end (on_data n))\<rparr>
       in set_node (op_Path op) (touch now (addInterval start end n1)) ov'))"

(* src/pkg/client/backend/wal/overlay.go:385-387 applyDelete *)
definition ov_applyDelete :: "int \<Rightarrow> Op \<Rightarrow> Overlay \<Rightarrow> Overlay" where
  "ov_applyDelete now op ov = set_node (op_Path op) (tombNode now) ov"

text \<open>The new key of a path under a renamed root.\<close>

definition rename_key :: "path \<Rightarrow> path \<Rightarrow> path \<Rightarrow> path option" where
  "rename_key old new p =
    (if p = old then Some new else if prefix (old @ ''/'') p then Some (new @ drop (length old) p) else None)"

definition rename_move :: "int \<Rightarrow> path \<times> path \<Rightarrow> (path, overlayNode) gomap \<Rightarrow> (path, overlayNode) gomap" where
  "rename_move now mv nodes =
    (case gm_get nodes (fst mv) of
       None \<Rightarrow> nodes
     | Some n \<Rightarrow> gm_put (fst mv) (tombNode now)
                   (gm_put (snd mv) (if on_tomb n then n else touch now n) nodes))"

(* src/pkg/client/backend/wal/overlay.go:389-418 applyRename *)
definition ov_applyRename :: "int \<Rightarrow> Op \<Rightarrow> Overlay \<Rightarrow> Overlay" where
  "ov_applyRename now op ov =
    (let moves = List.map_filter (\<lambda>(p, n). map_option (\<lambda>q. (p, q)) (rename_key (op_Path op) (op_NewPath op) p)) (ov_nodes ov);
         nodes = fold (rename_move now) moves (ov_nodes ov)
     in ov\<lparr>ov_nodes := (if gm_get nodes (op_Path op) = None then gm_put (op_Path op) (tombNode now) nodes else nodes)\<rparr>)"

(* src/pkg/client/backend/wal/overlay.go:443-455 applySetAttr *)
definition set_node_size :: "nat \<Rightarrow> overlayNode \<Rightarrow> overlayNode" where
  "set_node_size newSize n =
    clampIntervals newSize
      (n\<lparr>on_data := (if newSize > length (on_data n) then grow newSize (on_data n) else take newSize (on_data n))\<rparr>)"

text \<open>One guarded assignment: the field of the bit is set and the bit recorded in \<^verbatim>\<open>valid\<close>.\<close>

definition sa_step :: "u32 \<Rightarrow> u32 \<Rightarrow> (overlayNode \<Rightarrow> overlayNode) \<Rightarrow> overlayNode \<Rightarrow> overlayNode" where
  "sa_step v m f n = (if has_bit v m then (f n)\<lparr>on_valid := on_valid n OR m\<rparr> else n)"

(* src/pkg/client/backend/wal/overlay.go:431-467 applySetAttr *)
definition node_setattr :: "int \<Rightarrow> Op \<Rightarrow> overlayNode \<Rightarrow> overlayNode" where
  "node_setattr now op n =
    (let v = op_Valid op;
         n1 = sa_step v FATTR_MODE (\<lambda>n. n\<lparr>on_mode := (on_mode n AND 0xF000) OR (op_Mode op AND 0xFFF)\<rparr>) n;
         n2 = sa_step v FATTR_UID (\<lambda>n. n\<lparr>on_uid := op_UID op\<rparr>) n1;
         n3 = sa_step v FATTR_GID (\<lambda>n. n\<lparr>on_gid := op_GID op\<rparr>) n2;
         n4 = sa_step v FATTR_SIZE (set_node_size (unat (op_Size op))) n3;
         n5 = sa_step v FATTR_ATIME (\<lambda>n. n\<lparr>on_atime := op_AtimeSec op, on_atimeNsec := op_AtimeNsec op\<rparr>) n4;
         n6 = sa_step v FATTR_MTIME (\<lambda>n. n\<lparr>on_mtime := op_MtimeSec op, on_mtimeNsec := op_MtimeNsec op\<rparr>) n5
     in n6\<lparr>on_ctime := now, on_version := on_version n6 + 1\<rparr>)"

(* src/pkg/client/backend/wal/overlay.go:423-468 applySetAttr *)
definition ov_applySetAttr :: "int \<Rightarrow> Op \<Rightarrow> Overlay \<Rightarrow> Overlay" where
  "ov_applySetAttr now op ov =
    (case live_node now (op_Path op) ov of (n, ov') \<Rightarrow> set_node (op_Path op) (node_setattr now op n) ov')"

definition bytes_to_string :: "bytes \<Rightarrow> string" where
  "bytes_to_string bs = map (\<lambda>b. char_of (unat b)) bs"

(* src/pkg/client/backend/wal/overlay.go:470-484 applySymlink *)
definition ov_applySymlink :: "int \<Rightarrow> Op \<Rightarrow> Overlay \<Rightarrow> Overlay" where
  "ov_applySymlink now op ov =
    (case allocIno ov of (ino, ov') \<Rightarrow>
      set_node (op_Path op)
        (zero_node\<lparr>on_ino := ino, on_mode := 0xA1FF, on_target := bytes_to_string (op_Data op),
                   on_atime := now, on_mtime := now, on_ctime := now\<rparr>) ov')"

(* src/pkg/client/backend/wal/overlay.go:488-497 applySetXAttr *)
definition ov_applySetXAttr :: "int \<Rightarrow> Op \<Rightarrow> Overlay \<Rightarrow> Overlay" where
  "ov_applySetXAttr now op ov =
    (case live_node now (op_Path op) ov of (n, ov') \<Rightarrow>
      set_node (op_Path op)
        (touch now (n\<lparr>on_xattrRemoved := removeAll (op_XattrName op) (on_xattrRemoved n),
                      on_xattrs := gm_put (op_XattrName op) (op_XattrValue op) (on_xattrs n)\<rparr>)) ov')"

(* src/pkg/client/backend/wal/overlay.go:502-511 applyRemoveXAttr *)
definition ov_applyRemoveXAttr :: "int \<Rightarrow> Op \<Rightarrow> Overlay \<Rightarrow> Overlay" where
  "ov_applyRemoveXAttr now op ov =
    (case live_node now (op_Path op) ov of (n, ov') \<Rightarrow>
      set_node (op_Path op)
        (touch now (n\<lparr>on_xattrs := gm_del (op_XattrName op) (on_xattrs n),
                      on_xattrRemoved := List.insert (op_XattrName op) (on_xattrRemoved n)\<rparr>)) ov')"

(* src/pkg/client/backend/wal/overlay.go:297-318 applyLocked *)
definition ov_Apply :: "int \<Rightarrow> Op \<Rightarrow> Overlay \<Rightarrow> Overlay" where
  "ov_Apply now op ov =
    (case op_Kind op of
       OpCreate \<Rightarrow> ov_applyCreate now op ov
     | OpMkdir \<Rightarrow> ov_applyMkdir now op ov
     | OpWrite \<Rightarrow> ov_applyWrite now op ov
     | OpUnlink \<Rightarrow> ov_applyDelete now op ov
     | OpRmdir \<Rightarrow> ov_applyDelete now op ov
     | OpRename \<Rightarrow> ov_applyRename now op ov
     | OpSetAttr \<Rightarrow> ov_applySetAttr now op ov
     | OpSymlink \<Rightarrow> ov_applySymlink now op ov
     | OpSetXAttr \<Rightarrow> ov_applySetXAttr now op ov
     | OpRemoveXAttr \<Rightarrow> ov_applyRemoveXAttr now op ov
     | OpUnknown \<Rightarrow> ov)"

(* src/pkg/client/backend/wal/overlay.go:326-334 Reset *)
definition ov_Reset :: "int \<Rightarrow> Op list \<Rightarrow> Overlay \<Rightarrow> Overlay" where
  "ov_Reset now ops ov = fold (ov_Apply now) ops (ov\<lparr>ov_nodes := [], ov_nextIno := 1\<rparr>)"

section \<open>Queries\<close>

datatype ov_stat = NoEntry | Tombstoned | Pending Attr bool u32

(* src/pkg/client/backend/wal/overlay.go:534-546 Stat *)
definition ov_Stat :: "Overlay \<Rightarrow> path \<Rightarrow> ov_stat" where
  "ov_Stat ov p =
    (case gm_get (ov_nodes ov) p of
       None \<Rightarrow> NoEntry
     | Some n \<Rightarrow> if on_tomb n then Tombstoned else Pending (node_attr n) (on_baseDelta n) (on_valid n))"

datatype xattr_state = XNone | XSet bytes | XRemoved

(* src/pkg/client/backend/wal/overlay.go:552-567 Xattr *)
definition ov_Xattr :: "Overlay \<Rightarrow> path \<Rightarrow> string \<Rightarrow> xattr_state" where
  "ov_Xattr ov p name =
    (case gm_get (ov_nodes ov) p of
       None \<Rightarrow> XNone
     | Some n \<Rightarrow>
         if on_tomb n then XNone
         else (case gm_get (on_xattrs n) name of
                 Some v \<Rightarrow> XSet v
               | None \<Rightarrow> if name \<in> set (on_xattrRemoved n) then XRemoved else XNone))"

(* src/pkg/client/backend/wal/overlay.go:574-579 OwnsFull *)
definition OwnsFull :: "Overlay \<Rightarrow> path \<Rightarrow> bool" where
  "OwnsFull ov p \<longleftrightarrow>
    (case gm_get (ov_nodes ov) p of None \<Rightarrow> False | Some n \<Rightarrow> \<not> on_tomb n \<and> \<not> on_baseDelta n)"

(* src/pkg/client/backend/wal/overlay.go:582-587 Has *)
definition ov_Has :: "Overlay \<Rightarrow> path \<Rightarrow> bool" where
  "ov_Has ov p \<longleftrightarrow> gm_get (ov_nodes ov) p \<noteq> None"

(* src/pkg/client/backend/wal/overlay.go:591-604 HasSubtree *)
definition HasSubtree :: "Overlay \<Rightarrow> path \<Rightarrow> bool" where
  "HasSubtree ov root \<longleftrightarrow>
    gm_get (ov_nodes ov) root \<noteq> None \<or> list_ex (\<lambda>(p, n). prefix (root @ ''/'') p) (ov_nodes ov)"

record DirEntryPlus =
  dp_Ino :: u64
  dp_Mode :: u32
  dp_Name :: string
  dp_Attr :: "Attr option"
  dp_Xattrs :: "string list option"

text \<open>\<^verbatim>\<open>strings.LastIndex(p, "/")\<close> splits a path at its last slash.\<close>

(* src/pkg/client/backend/wal/overlay.go:763-772 splitPath2 *)
definition splitPath2 :: "path \<Rightarrow> path \<times> path" where
  "splitPath2 p =
    (if p = '''' then ('''', '''')
     else if CHR ''/'' \<notin> set p then ('''', p)
     else (let name = rev (takeWhile (\<lambda>c. c \<noteq> CHR ''/'') (rev p))
           in (take (length p - length name - 1) p, name)))"

definition pendingChildren :: "Overlay \<Rightarrow> path \<Rightarrow> (string, overlayNode) gomap" where
  "pendingChildren ov dir =
    fold (\<lambda>(p, n) m. case splitPath2 p of (parent, name) \<Rightarrow> if parent = dir then gm_put name n m else m) (ov_nodes ov) []"

(* src/pkg/client/backend/wal/overlay.go:609-659 ListMerge *)
definition ListMerge :: "Overlay \<Rightarrow> path \<Rightarrow> DirEntryPlus list \<Rightarrow> DirEntryPlus list" where
  "ListMerge ov dir base =
    (let pc = pendingChildren ov dir in
     filter (\<lambda>e. \<not> (case gm_get pc (dp_Name e) of None \<Rightarrow> False | Some n \<Rightarrow> on_tomb n)) base
     @ map (\<lambda>(name, n). \<lparr>dp_Ino = on_ino n, dp_Mode = on_mode n, dp_Name = name, dp_Attr = Some (node_attr n), dp_Xattrs = None\<rparr>)
         (filter (\<lambda>(name, n). \<not> on_tomb n \<and> name \<notin> dp_Name ` set base) pc))"

text \<open>One turn of the copy loop of \<^verbatim>\<open>ReadMerge\<close>.  The differences are those of the code clamped at zero.\<close>

definition merge_interval :: "bytes \<Rightarrow> nat \<Rightarrow> byteRange \<Rightarrow> bytes \<Rightarrow> bytes" where
  "merge_interval data off r out =
    (let outStart = fst r - off; dataOff = off - fst r; outEnd = min (snd r - off) (length out)
     in if outStart \<ge> outEnd then out
        else copy_at outStart (take (outEnd - outStart) (drop (fst r + dataOff) data)) out)"

(* src/pkg/client/backend/wal/overlay.go:666-722 ReadMerge *)
definition ReadMerge :: "Overlay \<Rightarrow> path \<Rightarrow> nat \<Rightarrow> bytes \<Rightarrow> bytes" where
  "ReadMerge ov p off base =
    (case gm_get (ov_nodes ov) p of
       None \<Rightarrow> base
     | Some n \<Rightarrow>
         if on_tomb n \<or> on_intervals n = [] then base
         else (let baseEnd = off + length base;
                   maxEnd = fold (\<lambda>r m. if snd r > m then snd r else m) (on_intervals n) baseEnd;
                   out = (if maxEnd > baseEnd then grow (maxEnd - off) base else base)
               in fold (merge_interval (on_data n) off) (on_intervals n) out))"

(* src/pkg/client/backend/wal/overlay.go:727-742 DropSubtree *)
definition DropSubtree :: "path \<Rightarrow> Overlay \<Rightarrow> Overlay" where
  "DropSubtree root ov =
    (if root = '''' then ov\<lparr>ov_nodes := []\<rparr>
     else ov\<lparr>ov_nodes := filter (\<lambda>(p, n). \<not> (p = root \<or> prefix (root @ ''/'') p)) (ov_nodes ov)\<rparr>)"

(* src/pkg/client/backend/wal/overlay.go:747-757 Paths *)
definition ov_Paths :: "Overlay \<Rightarrow> path list" where
  "ov_Paths ov = sort (map fst (ov_nodes ov))"

section \<open>Byte ranges\<close>

text \<open>What a list of ranges denotes, and the shape the code keeps: ascending, non-empty, with gaps between.\<close>

definition covered :: "byteRange list \<Rightarrow> nat set" where
  "covered rs = (\<Union>(s, e) \<in> set rs. {s..<e})"

definition ranges_ok :: "byteRange list \<Rightarrow> bool" where
  "ranges_ok rs \<longleftrightarrow> sorted_wrt (\<lambda>a b. snd a < fst b) rs \<and> (\<forall>(s, e) \<in> set rs. s < e)"

lemma covered_simps [simp]:
  "covered [] = {}" "covered (r # rs) = {fst r..<snd r} \<union> covered rs" "covered (xs @ ys) = covered xs \<union> covered ys"
  by (auto simp: covered_def split: prod.splits)

lemma ranges_ok_Cons: "ranges_ok (r # rs) \<longleftrightarrow> fst r < snd r \<and> (\<forall>q \<in> set rs. snd r < fst q) \<and> ranges_ok rs"
  by (cases r) (auto simp: ranges_ok_def)

lemma ranges_ok_snoc: "ranges_ok (rs @ [r]) \<longleftrightarrow> ranges_ok rs \<and> fst r < snd r \<and> (\<forall>q \<in> set rs. snd q < fst r)"
  by (cases r) (auto simp: ranges_ok_def sorted_wrt_append)

text \<open>After the new range is emitted, what follows lies behind it with a gap: the merge branch is dead.\<close>

lemma ai_rest_append:
  assumes "ranges_ok (merged @ rs)" and "merged \<noteq> []"
  shows "ai_rest merged rs = merged @ rs"
  using assms
proof (induction rs arbitrary: merged)
  case (Cons r rs)
  have "snd (last merged) < fst r"
    using Cons.prems by (auto simp: ranges_ok_def sorted_wrt_append)
  then show ?case using Cons.IH[of "merged @ [r]"] Cons.prems by simp
qed simp

lemma ai_scan_ok:
  assumes "ranges_ok (merged @ rs)" and "fst nr < snd nr" and "\<forall>q \<in> set merged. snd q < fst nr"
  shows "ranges_ok (ai_scan nr merged rs) \<and>
    covered (ai_scan nr merged rs) = covered merged \<union> {fst nr..<snd nr} \<union> covered rs"
  using assms
proof (induction nr merged rs rule: ai_scan.induct)
  case (1 newR merged)
  then show ?case by (auto simp: ranges_ok_snoc)
next
  case (2 newR merged r rs)
  obtain a b s e where r: "r = (a, b)" "newR = (s, e)" by fastforce
  have ok: "ranges_ok (merged @ rs)" "a < b" "\<forall>q \<in> set rs. b < fst q" "\<forall>q \<in> set merged. snd q < a"
    using 2(3) r by (auto simp: ranges_ok_def sorted_wrt_append)
  have n: "s < e" "\<forall>q \<in> set merged. snd q < s" using 2(4,5) r by auto
  consider (overlap) "s \<le> b \<and> a \<le> e" | (before) "\<not> (s \<le> b \<and> a \<le> e)" "s < a" | (after) "\<not> (s \<le> b \<and> a \<le> e)" "\<not> s < a"
    by blast
  then show ?case
  proof cases
    case overlap
    let ?n = "(if a < s then a else s, if b > e then b else e)"
    have h: "ranges_ok (ai_scan ?n merged rs) \<and> covered (ai_scan ?n merged rs) = covered merged \<union> {fst ?n..<snd ?n} \<union> covered rs"
      using 2(1) overlap ok n r by auto
    have "{fst ?n..<snd ?n} = {s..<e} \<union> {a..<b}" using overlap n(1) ok(2) by auto
    moreover have "ai_scan newR merged (r # rs) = ai_scan ?n merged rs" using overlap r by auto
    ultimately show ?thesis using h r by (simp only: covered_simps fst_conv snd_conv Un_assoc)
  next
    case before
    have "ranges_ok ((merged @ [(s, e), (a, b)]) @ rs)"
      using before n ok by (auto simp: ranges_ok_def sorted_wrt_append)
    then show ?thesis using before r ai_rest_append[of "merged @ [(s, e), (a, b)]" rs] by auto
  next
    case after
    have g: "b < s" using after n(1) ok(2) by auto
    have "ranges_ok ((merged @ [r]) @ rs)" using 2(3) by simp
    then show ?thesis using 2(2) after r g n ok(2) by auto
  qed
qed

lemma addInterval_ok:
  assumes "ranges_ok (on_intervals n)" and "s < e"
  shows "ranges_ok (on_intervals (addInterval s e n)) \<and>
    covered (on_intervals (addInterval s e n)) = covered (on_intervals n) \<union> {s..<e}"
  using ai_scan_ok[of "[]" "on_intervals n" "(s, e)"] assms by (auto simp: addInterval_def)

lemma clampIntervals_ok:
  assumes "ranges_ok (on_intervals n)"
  shows "ranges_ok (on_intervals (clampIntervals k n)) \<and>
    covered (on_intervals (clampIntervals k n)) = covered (on_intervals n) \<inter> {..<k}"
proof -
  have "ranges_ok rs \<Longrightarrow> ranges_ok (map (\<lambda>(s, e). (s, if e > k then k else e)) (filter (\<lambda>(s, e). \<not> s \<ge> k) rs)) \<and>
    covered (map (\<lambda>(s, e). (s, if e > k then k else e)) (filter (\<lambda>(s, e). \<not> s \<ge> k) rs)) = covered rs \<inter> {..<k}" for rs
    by (induction rs) (auto simp: ranges_ok_Cons ranges_ok_def[of "[]"] split: prod.splits if_splits)
  then show ?thesis using assms by (simp add: clampIntervals_def)
qed

section \<open>Reading through the overlay\<close>

lemma length_grow [simp]: "length (grow k xs) = max k (length xs)"
  by (simp add: grow_def)

lemma nth_grow: "i < max k (length xs) \<Longrightarrow> grow k xs ! i = (if i < length xs then xs ! i else 0)"
  by (auto simp: grow_def nth_append)

lemma length_copy_at: "start + length src \<le> length dst \<Longrightarrow> length (copy_at start src dst) = length dst"
  by (simp add: copy_at_def)

lemma nth_copy_at:
  "start + length src \<le> length dst \<Longrightarrow> i < length dst \<Longrightarrow>
   copy_at start src dst ! i = (if start \<le> i \<and> i < start + length src then src ! (i - start) else dst ! i)"
  by (auto simp: copy_at_def nth_append)

lemma clamp_arith:
  fixes s e off j len :: nat
  assumes "j < len"
  shows "(s - off \<le> j \<and> j < min (e - off) len) \<longleftrightarrow> (s \<le> off + j \<and> off + j < e)"
  using assms by linarith

lemma merge_interval_nth:
  assumes "snd r \<le> length data"
  shows "length (merge_interval data off r out) = length out \<and>
    (\<forall>j < length out. merge_interval data off r out ! j = (if fst r \<le> off + j \<and> off + j < snd r then data ! (off + j) else out ! j))"
proof -
  define st en where "st = fst r - off" and "en = min (snd r - off) (length out)"
  define src where "src = take (en - st) (drop (fst r + (off - fst r)) data)"
  have inr: "(st \<le> j \<and> j < en) \<longleftrightarrow> (fst r \<le> off + j \<and> off + j < snd r)" if "j < length out" for j
    unfolding st_def en_def using clamp_arith[OF that] .
  show ?thesis
  proof (cases "st \<ge> en")
    case True
    then have "\<not> (fst r \<le> off + j \<and> off + j < snd r)" if "j < length out" for j using inr[OF that] by linarith
    then show ?thesis using True by (auto simp: merge_interval_def Let_def st_def en_def)
  next
    case False
    have eq: "fst r + (off - fst r) = off + st" unfolding st_def by linarith
    have len: "off + st + (en - st) \<le> length data" using False assms unfolding st_def en_def by linarith
    have l: "length src = en - st" unfolding src_def eq using len by simp
    have b: "st + length src \<le> length out" using l False unfolding en_def by linarith
    have m: "merge_interval data off r out = copy_at st src out"
      using False by (simp add: merge_interval_def Let_def st_def en_def src_def)
    have "copy_at st src out ! j = (if st \<le> j \<and> j < en then data ! (off + j) else out ! j)" if "j < length out" for j
    proof (cases "st \<le> j \<and> j < en")
      case True
      then have "j - st < en - st" "off + st + (j - st) = off + j" by auto
      then have "src ! (j - st) = data ! (off + j)" unfolding src_def eq using len by simp
      then show ?thesis using nth_copy_at[OF b that] l True by simp
    qed (use nth_copy_at[OF b that] l in auto)
    then show ?thesis using m length_copy_at[OF b] inr by simp
  qed
qed

lemma merge_fold_nth:
  assumes "\<forall>r \<in> set rs. snd r \<le> length data"
  shows "length (fold (merge_interval data off) rs out) = length out \<and>
    (\<forall>j < length out. fold (merge_interval data off) rs out ! j = (if off + j \<in> covered rs then data ! (off + j) else out ! j))"
  using assms
proof (induction rs arbitrary: out)
  case (Cons r rs)
  then show ?case using merge_interval_nth[of r data off out] Cons.IH[of "merge_interval data off r out"] by auto
qed simp

text \<open>The invariant of a node: its pending bytes lie in its data.\<close>

definition node_ok :: "overlayNode \<Rightarrow> bool" where
  "node_ok n \<longleftrightarrow> ranges_ok (on_intervals n) \<and> (\<forall>r \<in> set (on_intervals n). snd r \<le> length (on_data n))"

definition nodes_ok :: "(path, overlayNode) gomap \<Rightarrow> bool" where
  "nodes_ok m \<longleftrightarrow> gm_wf m \<and> (\<forall>p n. gm_get m p = Some n \<longrightarrow> node_ok n)"

definition overlay_ok :: "Overlay \<Rightarrow> bool" where
  "overlay_ok ov \<longleftrightarrow> nodes_ok (ov_nodes ov)"

lemma nodes_ok_put [simp, intro]: "nodes_ok m \<Longrightarrow> node_ok n \<Longrightarrow> nodes_ok (gm_put p n m)"
  by (auto simp: nodes_ok_def gm_get_put simp del: map_of_eq_Some_iff)

lemma nodes_okD: "nodes_ok m \<Longrightarrow> gm_get m p = Some n \<Longrightarrow> node_ok n"
  by (auto simp: nodes_ok_def simp del: map_of_eq_Some_iff)

lemma overlay_okD: "overlay_ok ov \<Longrightarrow> gm_get (ov_nodes ov) p = Some n \<Longrightarrow> node_ok n"
  by (auto simp: overlay_ok_def intro: nodes_okD)

lemma max_end_fold:
  fixes b :: nat
  shows "b \<le> fold (\<lambda>r m. if snd r > m then snd r else m) rs b \<and>
   (\<forall>r \<in> set rs. snd r \<le> fold (\<lambda>r m. if snd r > m then snd r else m) rs b) \<and>
   (fold (\<lambda>r m. if snd r > m then snd r else m) rs b = b \<or>
    (\<exists>r \<in> set rs. fold (\<lambda>r m. if snd r > m then snd r else m) rs b = snd r))"
proof (induction rs arbitrary: b)
  case (Cons r rs)
  show ?case using Cons[of "if snd r > b then snd r else b"] by (cases "snd r > b") (auto intro: order.trans less_imp_le)
qed simp

text \<open>The bytes a read through the overlay returns, position by position.\<close>

definition pend_end :: "Overlay \<Rightarrow> path \<Rightarrow> nat" where
  "pend_end ov p =
    (case gm_get (ov_nodes ov) p of None \<Rightarrow> 0
     | Some n \<Rightarrow> if on_tomb n then 0 else fold (\<lambda>r m. if snd r > m then snd r else m) (on_intervals n) 0)"

definition pend_byte :: "Overlay \<Rightarrow> path \<Rightarrow> nat \<Rightarrow> byte option" where
  "pend_byte ov p i =
    (case gm_get (ov_nodes ov) p of None \<Rightarrow> None
     | Some n \<Rightarrow> if \<not> on_tomb n \<and> i \<in> covered (on_intervals n) then Some (on_data n ! i) else None)"

lemma fold_max_start: "fold (\<lambda>r m. if snd r > m then snd r else m) rs (b::nat) = max b (fold (\<lambda>r m. if snd r > m then snd r else m) rs 0)"
proof (induction rs arbitrary: b)
  case (Cons r rs)
  show ?case using Cons[of "max (snd r) b"] Cons[of "snd r"] by (auto simp: max_def)
qed simp

lemma ReadMerge_nth:
  assumes "overlay_ok ov"
  shows "length (ReadMerge ov p off base) = max (length base) (pend_end ov p - off) \<and>
    (\<forall>j < length (ReadMerge ov p off base). ReadMerge ov p off base ! j =
       (case pend_byte ov p (off + j) of Some b \<Rightarrow> b | None \<Rightarrow> if j < length base then base ! j else 0))"
proof (cases "\<exists>n. gm_get (ov_nodes ov) p = Some n \<and> \<not> on_tomb n \<and> on_intervals n \<noteq> []")
  case False
  then have "ReadMerge ov p off base = base" "pend_end ov p = 0" "pend_byte ov p i = None" for i
    by (auto simp: ReadMerge_def pend_end_def pend_byte_def split: option.splits)
  then show ?thesis by simp
next
  case True
  then obtain n where n: "gm_get (ov_nodes ov) p = Some n" "\<not> on_tomb n" "on_intervals n \<noteq> []" by blast
  define m where "m = fold (\<lambda>r m. if snd r > m then snd r else m) (on_intervals n) 0"
  define out where "out = (if max (off + length base) m > off + length base then grow (max (off + length base) m - off) base else base)"
  have ok: "\<forall>r \<in> set (on_intervals n). snd r \<le> length (on_data n)"
    using overlay_okD[OF assms n(1)] by (simp add: node_ok_def)
  have rm: "ReadMerge ov p off base = fold (merge_interval (on_data n) off) (on_intervals n) out"
    using n fold_max_start[of "on_intervals n" "off + length base"] by (simp add: ReadMerge_def Let_def m_def out_def)
  have pe: "pend_end ov p = m" "pend_byte ov p i = (if i \<in> covered (on_intervals n) then Some (on_data n ! i) else None)" for i
    using n by (simp_all add: pend_end_def pend_byte_def m_def)
  have lo: "length out = max (length base) (m - off)" by (auto simp: out_def)
  have no: "out ! j = (if j < length base then base ! j else 0)" if "j < length out" for j
    using that nth_grow[of j "max (off + length base) m - off" base] by (auto simp: out_def split: if_splits)
  show ?thesis
    using merge_fold_nth[OF ok, of off out] lo no unfolding rm pe by simp
qed

section \<open>The reference file\<close>

text \<open>A positioned write on a file's content: a gap is filled with zeros.\<close>

definition pwrite :: "nat \<Rightarrow> bytes \<Rightarrow> bytes \<Rightarrow> bytes" where
  "pwrite off d xs = copy_at off d (grow (off + length d) xs)"

lemma pwrite_nth:
  "length (pwrite off d xs) = max (off + length d) (length xs) \<and>
   (\<forall>i < length (pwrite off d xs). pwrite off d xs ! i =
      (if off \<le> i \<and> i < off + length d then d ! (i - off) else if i < length xs then xs ! i else 0))"
proof -
  have b: "off + length d \<le> length (grow (off + length d) xs)" by simp
  have l: "length (pwrite off d xs) = max (off + length d) (length xs)"
    using length_copy_at[OF b] by (simp add: pwrite_def)
  show ?thesis using l nth_copy_at[OF b] nth_grow[of _ "off + length d" xs] by (simp add: pwrite_def)
qed

text \<open>What a deferred write does to the pending bytes of its path.\<close>

lemma live_node_cases:
  assumes "live_node now p ov = (n, ov')"
  shows "ov_nodes ov' = ov_nodes ov \<and>
    (gm_get (ov_nodes ov) p = Some n \<and> \<not> on_tomb n \<or>
     ((gm_get (ov_nodes ov) p = None \<or> (\<exists>t. gm_get (ov_nodes ov) p = Some t \<and> on_tomb t)) \<and>
      on_data n = [] \<and> on_intervals n = [] \<and> \<not> on_tomb n \<and> on_baseDelta n))"
  using assms by (auto simp: live_node_def newBaseDeltaNode_def allocIno_def zero_node_def split: option.splits if_splits)

lemma node_ok_zero [simp]: "on_intervals n = [] \<Longrightarrow> node_ok n"
  by (simp add: node_ok_def ranges_ok_def)

section \<open>Operations keep the invariant\<close>

lemma node_ok_cong: "on_intervals n' = on_intervals n \<Longrightarrow> on_data n' = on_data n \<Longrightarrow> node_ok n' = node_ok n"
  by (simp add: node_ok_def)

lemma node_ok_touch [simp]: "node_ok (touch now n) = node_ok n"
  by (rule node_ok_cong) (simp_all add: touch_def)

lemma touch_simps [simp]:
  "on_data (touch now n) = on_data n" "on_intervals (touch now n) = on_intervals n" "on_tomb (touch now n) = on_tomb n"
  "on_baseDelta (touch now n) = on_baseDelta n"
  by (simp_all add: touch_def)

lemma live_node_ok:
  assumes "overlay_ok ov" and "live_node now p ov = (n, ov')"
  shows "node_ok n \<and> ov_nodes ov' = ov_nodes ov"
  using live_node_cases[OF assms(2)] overlay_okD[OF assms(1)] by auto

lemma covered_bound:
  assumes "ranges_ok rs" shows "(\<forall>r \<in> set rs. snd r \<le> k) \<longleftrightarrow> covered rs \<subseteq> {..<k}"
proof
  assume "\<forall>r \<in> set rs. snd r \<le> k"
  then show "covered rs \<subseteq> {..<k}" by (fastforce simp: covered_def)
next
  assume c: "covered rs \<subseteq> {..<k}"
  show "\<forall>r \<in> set rs. snd r \<le> k"
  proof
    fix r assume r: "r \<in> set rs"
    then have lt: "fst r < snd r" using assms by (auto simp: ranges_ok_def)
    then have "snd r - 1 \<in> {fst r..<snd r}" by auto
    then have "snd r - 1 \<in> covered rs" using r unfolding covered_def by (metis (mono_tags, lifting) UN_I case_prod_beta)
    then show "snd r \<le> k" using c lt by fastforce
  qed
qed

lemma node_ok_write:
  assumes "node_ok n" and "d \<noteq> []"
  shows "node_ok (addInterval off (off + length d) (n\<lparr>on_data := copy_at off d (grow (off + length d) (on_data n))\<rparr>))"
proof -
  let ?n = "n\<lparr>on_data := copy_at off d (grow (off + length d) (on_data n))\<rparr>"
  have len: "length (on_data ?n) = max (off + length d) (length (on_data n))"
    using length_copy_at[of off d "grow (off + length d) (on_data n)"] by simp
  have r: "ranges_ok (on_intervals (addInterval off (off + length d) ?n))"
      "covered (on_intervals (addInterval off (off + length d) ?n)) = covered (on_intervals n) \<union> {off..<off + length d}"
    using addInterval_ok[of ?n off "off + length d"] assms by (auto simp: node_ok_def)
  have "covered (on_intervals n) \<subseteq> {..<length (on_data n)}"
    using assms(1) covered_bound by (auto simp: node_ok_def)
  then have "covered (on_intervals (addInterval off (off + length d) ?n)) \<subseteq> {..<length (on_data ?n)}"
    unfolding r(2) len by auto
  then show ?thesis using r(1) covered_bound[OF r(1)] by (simp add: node_ok_def addInterval_def)
qed

lemma node_ok_resize: "node_ok n \<Longrightarrow> node_ok (set_node_size k n)"
proof -
  assume n: "node_ok n"
  let ?n = "n\<lparr>on_data := (if k > length (on_data n) then grow k (on_data n) else take k (on_data n))\<rparr>"
  have len: "length (on_data ?n) = k" by auto
  have r: "ranges_ok (on_intervals (clampIntervals k ?n))"
      "covered (on_intervals (clampIntervals k ?n)) = covered (on_intervals n) \<inter> {..<k}"
    using clampIntervals_ok[of ?n k] n by (auto simp: node_ok_def)
  have "covered (on_intervals (clampIntervals k ?n)) \<subseteq> {..<length (on_data ?n)}" unfolding r(2) len by auto
  then show "node_ok (set_node_size k n)"
    using r(1) covered_bound[OF r(1)] by (simp add: node_ok_def set_node_size_def clampIntervals_def)
qed

lemma sa_step_simps [simp]:
  "on_data (sa_step v b f n) = (if has_bit v b then on_data (f n) else on_data n)"
  "on_intervals (sa_step v b f n) = (if has_bit v b then on_intervals (f n) else on_intervals n)"
  "on_tomb (sa_step v b f n) = (if has_bit v b then on_tomb (f n) else on_tomb n)"
  "on_baseDelta (sa_step v b f n) = (if has_bit v b then on_baseDelta (f n) else on_baseDelta n)"
  by (simp_all add: sa_step_def)

lemma set_node_size_simps [simp]:
  "on_tomb (set_node_size k n) = on_tomb n" "on_baseDelta (set_node_size k n) = on_baseDelta n"
  by (simp_all add: set_node_size_def clampIntervals_def)

lemma set_node_size_cong:
  "on_data n' = on_data n \<Longrightarrow> on_intervals n' = on_intervals n \<Longrightarrow>
   on_data (set_node_size k n') = on_data (set_node_size k n) \<and> on_intervals (set_node_size k n') = on_intervals (set_node_size k n)"
  by (simp add: set_node_size_def clampIntervals_def)

text \<open>Among the attributes only the size touches the bytes of a node.\<close>

lemma node_setattr_bytes:
  "on_data (node_setattr now op n) = on_data (if has_bit (op_Valid op) FATTR_SIZE then set_node_size (unat (op_Size op)) n else n) \<and>
   on_intervals (node_setattr now op n) = on_intervals (if has_bit (op_Valid op) FATTR_SIZE then set_node_size (unat (op_Size op)) n else n) \<and>
   on_tomb (node_setattr now op n) = on_tomb n \<and> on_baseDelta (node_setattr now op n) = on_baseDelta n"
  using set_node_size_cong[of "sa_step (op_Valid op) FATTR_GID (\<lambda>n. n\<lparr>on_gid := op_GID op\<rparr>)
     (sa_step (op_Valid op) FATTR_UID (\<lambda>n. n\<lparr>on_uid := op_UID op\<rparr>)
       (sa_step (op_Valid op) FATTR_MODE (\<lambda>n. n\<lparr>on_mode := (on_mode n AND 0xF000) OR (op_Mode op AND 0xFFF)\<rparr>) n))" n "unat (op_Size op)"]
  by (simp add: node_setattr_def Let_def)

lemma node_ok_setattr: "node_ok n \<Longrightarrow> node_ok (node_setattr now op n)"
proof -
  assume n: "node_ok n"
  let ?m = "if has_bit (op_Valid op) FATTR_SIZE then set_node_size (unat (op_Size op)) n else n"
  have "node_ok (node_setattr now op n) = node_ok ?m"
    using node_setattr_bytes[of now op n] by (intro node_ok_cong) blast+
  then show ?thesis using n node_ok_resize by simp
qed

lemma node_ok_tomb [simp]: "node_ok (tombNode now)"
  by (simp add: tombNode_def zero_node_def)

lemma rename_move_ok: "nodes_ok nodes \<Longrightarrow> nodes_ok (rename_move now m nodes)"
  by (cases "gm_get nodes (fst m)") (auto simp: rename_move_def nodes_okD intro!: nodes_ok_put)

lemma rename_fold_ok: "nodes_ok nodes \<Longrightarrow> nodes_ok (fold (rename_move now) moves nodes)"
  by (induction moves arbitrary: nodes) (auto simp: rename_move_ok)

definition nonempty_write :: "Op \<Rightarrow> bool" where
  "nonempty_write op \<longleftrightarrow> (op_Kind op = OpWrite \<longrightarrow> op_Data op \<noteq> [])"

lemma overlay_ok_Apply:
  assumes "overlay_ok ov" and "nonempty_write op" shows "overlay_ok (ov_Apply now op ov)"
proof -
  obtain n ov' where l: "live_node now (op_Path op) ov = (n, ov')" by fastforce
  have n: "node_ok n" "ov_nodes ov' = ov_nodes ov" using live_node_ok[OF assms(1) l] by auto
  have m: "nodes_ok (ov_nodes ov)" using assms(1) by (simp add: overlay_ok_def)
  have setattr: "overlay_ok (ov_applySetAttr now op ov)"
    using n m node_ok_setattr by (simp add: ov_applySetAttr_def l overlay_ok_def)
  show ?thesis
  proof (cases "op_Kind op")
    case OpRename
    then show ?thesis using rename_fold_ok[OF m]
      by (simp add: ov_Apply_def ov_applyRename_def overlay_ok_def Let_def tombNode_def zero_node_def)
  next
    case OpWrite
    then show ?thesis using n m node_ok_write[OF n(1)] assms(2)
      by (simp add: ov_Apply_def ov_applyWrite_def l Let_def nonempty_write_def overlay_ok_def)
  qed (use n m setattr in \<open>simp_all add: ov_Apply_def ov_applyCreate_def ov_applyMkdir_def ov_applyDelete_def ov_applySymlink_def
         ov_applySetXAttr_def ov_applyRemoveXAttr_def newFileNode_def newDirNode_def tombNode_def zero_node_def allocIno_def l Let_def
         overlay_ok_def node_ok_def ranges_ok_def\<close>)
qed

lemma overlay_ok_fold: "overlay_ok ov \<Longrightarrow> \<forall>op \<in> set ops. nonempty_write op \<Longrightarrow> overlay_ok (fold (ov_Apply now) ops ov)"
  by (induction ops arbitrary: ov) (auto simp: overlay_ok_Apply)

lemma overlay_ok_New [simp]: "overlay_ok NewOverlay"
  by (simp add: overlay_ok_def nodes_ok_def NewOverlay_def)

section \<open>Reads see the deferred writes\<close>

lemma fold_end_char:
  assumes "ranges_ok rs"
  shows "i < fold (\<lambda>r m. if snd r > m then snd r else m) rs 0 \<longleftrightarrow> (\<exists>k \<in> covered rs. i \<le> k)"
proof -
  let ?m = "fold (\<lambda>r m. if snd r > m then snd r else m) rs 0"
  have le: "\<forall>r \<in> set rs. snd r \<le> ?m" using max_end_fold[of 0 rs] by blast
  show ?thesis
  proof
    assume i: "i < ?m"
    then obtain r where r: "r \<in> set rs" "?m = snd r" using max_end_fold[of 0 rs] by auto
    have lt: "fst r < snd r" using assms r(1) by (auto simp: ranges_ok_def)
    then have "snd r - 1 \<in> {fst r..<snd r}" by auto
    then have "snd r - 1 \<in> covered rs" using r(1) unfolding covered_def by (metis (mono_tags, lifting) UN_I case_prod_beta)
    moreover have "i \<le> snd r - 1" using i r(2) by linarith
    ultimately show "\<exists>k \<in> covered rs. i \<le> k" by blast
  next
    assume "\<exists>k \<in> covered rs. i \<le> k"
    then obtain k where "k \<in> covered rs" "i \<le> k" by blast
    then show "i < ?m" using le covered_bound[OF assms, of ?m] by auto
  qed
qed

lemma pend_end_char:
  assumes "overlay_ok ov" shows "i < pend_end ov p \<longleftrightarrow> (\<exists>k \<ge> i. pend_byte ov p k \<noteq> None)"
proof (cases "gm_get (ov_nodes ov) p")
  case (Some n)
  then have "ranges_ok (on_intervals n)" using overlay_okD[OF assms Some] by (simp add: node_ok_def)
  then show ?thesis using fold_end_char[of "on_intervals n" i] Some by (auto simp: pend_end_def pend_byte_def)
qed (simp add: pend_end_def pend_byte_def)

lemma pend_end_eqI:
  assumes "overlay_ok ov" and "overlay_ok ov'"
    and "\<And>k. pend_byte ov' p k \<noteq> None \<longleftrightarrow> pend_byte ov p k \<noteq> None \<or> (off \<le> k \<and> k < off + len)" and "0 < len"
  shows "pend_end ov' p = max (pend_end ov p) (off + len)"
proof -
  have "i < pend_end ov' p \<longleftrightarrow> i < max (pend_end ov p) (off + len)" for i
  proof -
    have "i < pend_end ov' p \<longleftrightarrow> (\<exists>k \<ge> i. pend_byte ov p k \<noteq> None) \<or> (\<exists>k \<ge> i. off \<le> k \<and> k < off + len)"
      using pend_end_char[OF assms(2)] assms(3) by blast
    moreover have "(\<exists>k \<ge> i. off \<le> k \<and> k < off + len) \<longleftrightarrow> i < off + len"
      using assms(4) by (metis add.commute le_add2 le_less_trans less_add_same_cancel2 nat_le_linear order.strict_trans1)
    ultimately show ?thesis using pend_end_char[OF assms(1), of i p] by (simp only: less_max_iff_disj)
  qed
  then show ?thesis by (metis linorder_neq_iff)
qed

lemma pend_byte_write:
  assumes "overlay_ok ov" and "op_Kind op = OpWrite" and "op_Data op \<noteq> []"
  shows "pend_byte (ov_Apply now op ov) p i =
    (if p = op_Path op \<and> op_Offset op \<le> i \<and> i < op_Offset op + length (op_Data op)
     then Some (op_Data op ! (i - op_Offset op)) else pend_byte ov p i)"
proof -
  let ?o = "op_Offset op" and ?d = "op_Data op"
  obtain n ov' where l: "live_node now (op_Path op) ov = (n, ov')" by fastforce
  have n: "node_ok n" "ov_nodes ov' = ov_nodes ov" using live_node_ok[OF assms(1) l] by auto
  let ?n = "n\<lparr>on_data := copy_at ?o ?d (grow (?o + length ?d) (on_data n))\<rparr>"
  have nodes: "ov_nodes (ov_Apply now op ov) = gm_put (op_Path op) (touch now (addInterval ?o (?o + length ?d) ?n)) (ov_nodes ov)"
    using assms(2) n(2) by (simp add: ov_Apply_def ov_applyWrite_def l Let_def)
  show ?thesis
  proof (cases "p = op_Path op")
    case False
    then show ?thesis by (simp add: pend_byte_def nodes gm_get_put)
  next
    case True
    have cov: "covered (on_intervals (addInterval ?o (?o + length ?d) ?n)) = covered (on_intervals n) \<union> {?o..<?o + length ?d}"
      using addInterval_ok[of ?n ?o "?o + length ?d"] n(1) assms(3) by (auto simp: node_ok_def)
    have t: "on_tomb n = False" using live_node_cases[OF l] by auto
    have old: "pend_byte ov p i = (if i \<in> covered (on_intervals n) then Some (on_data n ! i) else None)"
      using live_node_cases[OF l] True by (auto simp: pend_byte_def)
    have bnd: "i \<in> covered (on_intervals n) \<Longrightarrow> i < length (on_data n)"
      using n(1) covered_bound[of "on_intervals n" "length (on_data n)"] by (auto simp: node_ok_def)
    have dat: "on_data ?n ! i = (if ?o \<le> i \<and> i < ?o + length ?d then ?d ! (i - ?o) else on_data n ! i)"
      if "i < length (on_data n) \<or> ?o \<le> i \<and> i < ?o + length ?d"
      using that nth_copy_at[of ?o ?d "grow (?o + length ?d) (on_data n)" i] nth_grow[of i "?o + length ?d" "on_data n"] by auto
    have "pend_byte (ov_Apply now op ov) p i =
      (if i \<in> covered (on_intervals n) \<union> {?o..<?o + length ?d} then Some (on_data ?n ! i) else None)"
      using True t cov by (simp add: pend_byte_def nodes gm_get_put) (simp add: addInterval_def)
    then show ?thesis using True old dat bnd by auto
  qed
qed

lemma read_after_write:
  assumes "overlay_ok ov" and "op_Kind op = OpWrite" and "op_Data op \<noteq> []"
  shows "ReadMerge (ov_Apply now op ov) (op_Path op) 0 c = pwrite (op_Offset op) (op_Data op) (ReadMerge ov (op_Path op) 0 c)"
proof -
  let ?ov = "ov_Apply now op ov" and ?p = "op_Path op" and ?o = "op_Offset op" and ?d = "op_Data op"
  have ok: "overlay_ok ?ov" using overlay_ok_Apply[OF assms(1)] assms(3) by (simp add: nonempty_write_def)
  have e: "pend_end ?ov ?p = max (pend_end ov ?p) (?o + length ?d)"
    using assms(3) by (intro pend_end_eqI[OF assms(1) ok]) (auto simp: pend_byte_write[OF assms])
  note r' = ReadMerge_nth[OF ok, of ?p 0 c] and r = ReadMerge_nth[OF assms(1), of ?p 0 c]
  note w = pwrite_nth[of ?o ?d "ReadMerge ov ?p 0 c"]
  have len: "length (ReadMerge ?ov ?p 0 c) = length (pwrite ?o ?d (ReadMerge ov ?p 0 c))"
    using r' r w e by simp
  show ?thesis
  proof (rule nth_equalityI[OF len])
    fix i assume i: "i < length (ReadMerge ?ov ?p 0 c)"
    show "ReadMerge ?ov ?p 0 c ! i = pwrite ?o ?d (ReadMerge ov ?p 0 c) ! i"
    proof (cases "?o \<le> i \<and> i < ?o + length ?d")
      case True
      then show ?thesis using r' w i len by (simp add: pend_byte_write[OF assms])
    next
      case False
      then have "pend_byte ?ov ?p i = pend_byte ov ?p i" by (auto simp: pend_byte_write[OF assms])
      then have l: "ReadMerge ?ov ?p 0 c ! i = (case pend_byte ov ?p i of Some b \<Rightarrow> b | None \<Rightarrow> if i < length c then c ! i else 0)"
        using r' i by simp
      have rr: "pwrite ?o ?d (ReadMerge ov ?p 0 c) ! i = (if i < length (ReadMerge ov ?p 0 c) then ReadMerge ov ?p 0 c ! i else 0)"
        using w i len False by auto
      have "pend_byte ov ?p i = None \<and> \<not> i < length c" if "\<not> i < length (ReadMerge ov ?p 0 c)"
        using that r pend_end_char[OF assms(1), of i ?p] by auto
      then show ?thesis using l rr r by auto
    qed
  qed
qed

lemma read_slice:
  assumes "overlay_ok ov"
  shows "take n (ReadMerge ov p off (take n (drop off c))) = take n (drop off (ReadMerge ov p 0 c))"
proof -
  note r' = ReadMerge_nth[OF assms, of p off "take n (drop off c)"] and r = ReadMerge_nth[OF assms, of p 0 c]
  have len: "length (take n (ReadMerge ov p off (take n (drop off c)))) = length (take n (drop off (ReadMerge ov p 0 c)))"
    using r' r by (auto simp: min_def max_def)
  show ?thesis
  proof (rule nth_equalityI[OF len])
    fix j assume j: "j < length (take n (ReadMerge ov p off (take n (drop off c))))"
    then have j': "j < n" "off + j < length (ReadMerge ov p 0 c)" using len by auto
    show "take n (ReadMerge ov p off (take n (drop off c))) ! j = take n (drop off (ReadMerge ov p 0 c)) ! j"
      using j j' r' r by (auto split: option.splits)
  qed
qed

text \<open>Operations on other paths leave the pending bytes of a path alone; a rename may move them.\<close>

lemma Apply_other:
  assumes "op_Kind op \<noteq> OpRename" and "op_Path op \<noteq> p"
  shows "gm_get (ov_nodes (ov_Apply now op ov)) p = gm_get (ov_nodes ov) p"
proof -
  obtain n ov' where l: "live_node now (op_Path op) ov = (n, ov')" by fastforce
  have "ov_nodes ov' = ov_nodes ov" using live_node_cases[OF l] by blast
  then show ?thesis using assms
    by (cases "op_Kind op") (auto simp: ov_Apply_def ov_applyCreate_def ov_applyMkdir_def ov_applyWrite_def ov_applyDelete_def
      ov_applySetAttr_def ov_applySymlink_def ov_applySetXAttr_def ov_applyRemoveXAttr_def newFileNode_def newDirNode_def allocIno_def
      l Let_def gm_get_put)
qed

definition writes_on :: "path \<Rightarrow> Op list \<Rightarrow> Op list" where
  "writes_on p ops = filter (\<lambda>op. op_Path op = p) ops"

lemma reads_fold:
  assumes "overlay_ok ov" and "\<forall>op \<in> set ops. nonempty_write op \<and> op_Kind op \<noteq> OpRename \<and> (op_Path op = p \<longrightarrow> op_Kind op = OpWrite)"
  shows "ReadMerge (fold (ov_Apply now) ops ov) p 0 c =
    fold (\<lambda>op. pwrite (op_Offset op) (op_Data op)) (writes_on p ops) (ReadMerge ov p 0 c)"
  using assms
proof (induction ops arbitrary: ov)
  case (Cons op ops)
  have ok: "overlay_ok (ov_Apply now op ov)" using overlay_ok_Apply Cons.prems by simp
  have ih: "ReadMerge (fold (ov_Apply now) ops (ov_Apply now op ov)) p 0 c =
      fold (\<lambda>op. pwrite (op_Offset op) (op_Data op)) (writes_on p ops) (ReadMerge (ov_Apply now op ov) p 0 c)"
    using Cons.IH[OF ok] Cons.prems(2) by simp
  show ?case
  proof (cases "op_Path op = p")
    case True
    then show ?thesis using ih read_after_write[OF Cons.prems(1), of op now c] Cons.prems(2)
      by (simp add: writes_on_def nonempty_write_def)
  next
    case False
    then have "ReadMerge (ov_Apply now op ov) p 0 c = ReadMerge ov p 0 c"
      using Apply_other[of op p now ov] Cons.prems(2) by (simp add: ReadMerge_def)
    then show ?thesis using ih False by (simp add: writes_on_def)
  qed
qed (simp add: writes_on_def)



text \<open>C36: a deferred truncation is not seen by reads.  After shrinking a base file to nothing the overlay reports
  size 0, yet a read through it still returns the old content; growing the file again exposes the old
  bytes where zeros belong.\<close>

theorem truncated_bytes_reappear:
  assumes "unat (of_nat (length c) :: u64) = length c"
    and "op0 = ex_wop\<lparr>op_Kind := OpSetAttr, op_Path := p, op_Valid := FATTR_SIZE, op_Size := 0\<rparr>"
    and "op1 = op0\<lparr>op_Size := of_nat (length c)\<rparr>"
  shows "\<exists>a0 a1. ov_Stat (ov_Apply now op0 NewOverlay) p = Pending a0 True FATTR_SIZE \<and> at_Size a0 = 0 \<and>
    ReadMerge (ov_Apply now op0 NewOverlay) p 0 c = c \<and>
    ov_Stat (ov_Apply now op1 (ov_Apply now op0 NewOverlay)) p = Pending a1 True FATTR_SIZE \<and> at_Size a1 = of_nat (length c) \<and>
    ReadMerge (ov_Apply now op1 (ov_Apply now op0 NewOverlay)) p 0 c = c"
  unfolding assms(2,3)
  by (simp add: ov_Apply_def ov_applySetAttr_def live_node_def newBaseDeltaNode_def allocIno_def NewOverlay_def zero_node_def
      node_setattr_def sa_step_def has_bit_def set_node_size_def clampIntervals_def ov_Stat_def ReadMerge_def node_attr_def
      node_size_def ex_wop_def Let_def assms(1) grow_def)

theorem truncated_bytes_reappear_witness:
  "ReadMerge (ov_Apply 0 (ex_wop\<lparr>op_Kind := OpSetAttr, op_Valid := FATTR_SIZE, op_Size := 0\<rparr>) NewOverlay) ''d/f'' 0 [1, 2] = [1, 2]"
  using truncated_bytes_reappear[of "[1, 2]" "ex_wop\<lparr>op_Kind := OpSetAttr, op_Path := ''d/f'', op_Valid := FATTR_SIZE, op_Size := 0\<rparr>" "''d/f''" _ 0]
  by (auto simp: ex_wop_def)

end
