(* ===== verification/Wal_Coordinator.thy ===== *)
theory Wal_Coordinator
  imports Wal_Overlay Client_Manager Apply_Server
begin

text \<open>
  The WAL coordinator of the client (\<^verbatim>\<open>pkg/client/backend/wal\<close>: \<^verbatim>\<open>wal.go\<close>, \<^verbatim>\<open>flush.go\<close>, \<^verbatim>\<open>loss.go\<close>): admission
  of deferred operations, the flush of the log over Apply streams, the treatment of the server's
  acknowledgement, loss reporting and recovery at mount time.

  One Apply stream is a function of the server's state: opening it can fail, sending can fail, the
  final receive can fail, or an acknowledgement arrives.  The locale \<^verbatim>\<open>apply_service\<close> states what the
  coordinator relies on; theory \<^verbatim>\<open>Wal_Service\<close> interprets it on the server's Apply handler.  \<open>env\<close>
  holds what the outside decides during a flush: the clock and whether a truncation commits.  The
  calls of the loss hook and of the cache invalidation are recorded in the state.
\<close>

section \<open>State\<close>

(* src/pkg/client/backend/wal/flush.go:48-73 flushConfig *)
record flushConfig =
  fc_volume :: string
  fc_caller :: "Caller option"
  fc_applyFactory :: bool
  fc_capOps :: int
  fc_maxApplyOps :: int
  fc_maxApplyBytes :: int

datatype loss_reason = ApplyFailure | GenFenced | WalUnreadable

record loss =
  lo_reason :: loss_reason
  lo_ops :: "Op list"
  lo_fserr :: FsError

(* src/pkg/client/backend/wal/wal.go:79-138 Coordinator *)
record Coordinator =
  co_log :: BboltLog
  co_overlay :: Overlay
  co_cfg :: flushConfig
  co_watermark :: u64
  co_losses :: "loss list"
  co_invalidated :: "path list"

record flush_env =
  fe_truncate :: "u64 \<Rightarrow> bool"
  fe_now :: int

(* src/pkg/client/backend/wal/wal.go:147-163 NewCoordinator *)
definition NewCoordinator :: "flushConfig \<Rightarrow> BboltLog \<Rightarrow> Overlay \<Rightarrow> Coordinator" where
  "NewCoordinator cfg lg ov = \<lparr>co_log = lg, co_overlay = ov, co_cfg = cfg, co_watermark = 0, co_losses = [], co_invalidated = []\<rparr>"

section \<open>Recording\<close>

datatype record_error = ErrNotDelegated | ErrNotOwned | AppendError log_error

text \<open>The part of \<^verbatim>\<open>RecordOp\<close> under \<^verbatim>\<open>recordMu\<close>.\<close>

(* src/pkg/client/backend/wal/wal.go:258-279 RecordOp *)
definition record_locked :: "bool \<Rightarrow> int \<Rightarrow> Manager \<Rightarrow> Op \<Rightarrow> Coordinator \<Rightarrow> record_error option \<times> Coordinator" where
  "record_locked commit now mgr op c =
    (if \<not> IsWriteDelegated mgr (op_Path op) \<or> (op_NewPath op \<noteq> '''' \<and> \<not> IsWriteDelegated mgr (op_NewPath op))
     then (Some ErrNotDelegated, c)
     else if op_Kind op = OpRename \<and> \<not> OwnsFull (co_overlay c) (op_Path op) then (Some ErrNotOwned, c)
     else (let op' = op\<lparr>op_Gen := GenFor mgr (op_Path op)\<rparr> in
           case log_Append commit op' (co_log c) of
             (Inl e, l') \<Rightarrow> (Some (AppendError e), c\<lparr>co_log := l'\<rparr>)
           | (Inr q, l') \<Rightarrow> (None, c\<lparr>co_log := l', co_overlay := ov_Apply now op' (co_overlay c)\<rparr>)))"

text \<open>The whole call: the cheap check reads the manager before the wait for capacity (\<open>pre\<close>), the locked
  part reads it afterwards (\<open>mgr\<close>).\<close>

(* src/pkg/client/backend/wal/wal.go:246-279 RecordOp *)
definition RecordOp :: "bool \<Rightarrow> int \<Rightarrow> Manager \<Rightarrow> Manager \<Rightarrow> Op \<Rightarrow> Coordinator \<Rightarrow> record_error option \<times> Coordinator" where
  "RecordOp commit now pre mgr op c =
    (if \<not> IsWriteDelegated pre (op_Path op) then (Some ErrNotDelegated, c) else record_locked commit now mgr op c)"

(* src/pkg/client/backend/wal/wal.go:293-310 commitFlushed *)
definition commitFlushed :: "flush_env \<Rightarrow> u64 \<Rightarrow> Coordinator \<Rightarrow> Coordinator" where
  "commitFlushed env through c =
    (let l1 = (if through > 0 then snd (log_Truncate (fe_truncate env through) through (co_log c)) else co_log c)
     in case log_Replay 0 l1 of
          Inl e \<Rightarrow> c\<lparr>co_log := l1, co_overlay := DropSubtree '''' (co_overlay c)\<rparr>
        | Inr remaining \<Rightarrow> c\<lparr>co_log := l1, co_overlay := ov_Reset (fe_now env) remaining (co_overlay c)\<rparr>)"

section \<open>Converting operations\<close>

text \<open>\<open>XATTR_CREATE\<close> is 1 and \<open>XATTR_REPLACE\<close> 2, as are their wire values.\<close>

(* src/pkg/common/fsconv/fsconv.go:92-101 XAttrModeToProto *)
definition XAttrModeToProto :: "u32 \<Rightarrow> int" where
  "XAttrModeToProto flags = (if flags AND 1 \<noteq> 0 then 1 else if flags AND 2 \<noteq> 0 then 2 else 0)"

(* src/pkg/client/backend/wal/flush.go:411-527 opToWalOp *)
definition opToWalOp :: "string \<Rightarrow> Caller option \<Rightarrow> string \<Rightarrow> Op \<Rightarrow> WalOp" where
  "opToWalOp vol caller epoch op =
    (let h = \<lparr>rh_Volume = vol, rh_Caller = caller\<rparr>; v = op_Valid op;
         body = (case op_Kind op of
             OpWrite \<Rightarrow> WWrite h (op_Path op) (int (op_Offset op)) (op_Data op)
           | OpCreate \<Rightarrow> WCreate h (op_Path op) (op_Flags op) (op_Mode op)
           | OpMkdir \<Rightarrow> WMkdir h (op_Path op) (op_Mode op)
           | OpUnlink \<Rightarrow> WUnlink h (op_Path op)
           | OpRmdir \<Rightarrow> WRmdir h (op_Path op)
           | OpRename \<Rightarrow> WRename h (op_Path op) (op_NewPath op)
           | OpSymlink \<Rightarrow> WSymlink h (op_Path op) (bytes_to_string (op_Data op))
           | OpSetAttr \<Rightarrow> WSetAttr h
               \<lparr>sa_Path = op_Path op, sa_Valid = v,
                sa_Mode = (if has_bit v FATTR_MODE then op_Mode op else 0),
                sa_Uid = (if has_bit v FATTR_UID then op_UID op else 0),
                sa_Gid = (if has_bit v FATTR_GID then op_GID op else 0),
                sa_Size = (if has_bit v FATTR_SIZE then op_Size op else 0),
                sa_Atime = (if has_bit v FATTR_ATIME then Some \<lparr>ft_Sec = of_int (op_AtimeSec op), ft_Nsec = op_AtimeNsec op\<rparr> else None),
                sa_Mtime = (if has_bit v FATTR_MTIME then Some \<lparr>ft_Sec = of_int (op_MtimeSec op), ft_Nsec = op_MtimeNsec op\<rparr> else None)\<rparr>
           | OpSetXAttr \<Rightarrow> WSetXattr h (op_Path op) (op_XattrName op) (op_XattrValue op) (XAttrModeToProto (op_XattrFlags op))
           | OpRemoveXAttr \<Rightarrow> WRemoveXattr h (op_Path op) (op_XattrName op)
           | OpUnknown \<Rightarrow> WRelease h (op_Path op))
     in \<lparr>wo_Body = body, wo_Seq = op_Seq op, wo_Gen = op_Gen op, wo_WalEpoch = epoch\<rparr>)"

section \<open>Flushing\<close>

datatype stream_result = StreamOpenFailed | StreamSendFailed | StreamRecvFailed | StreamAck ApplyAck

type_synonym 's stream = "WalOp list \<Rightarrow> 's \<Rightarrow> stream_result \<times> 's"

datatype flush_error = NoApplyFactory | TransportError stream_result | OrderedHalt u64 FsError | LogReadError log_error

(* src/pkg/client/backend/wal/flush.go:149-182 applyOps *)
definition applyOps :: "'s stream \<Rightarrow> Op list \<Rightarrow> Coordinator \<Rightarrow> 's \<Rightarrow> (flush_error + ApplyAck) \<times> 's" where
  "applyOps strm ops c s =
    (if \<not> fc_applyFactory (co_cfg c) then (Inl NoApplyFactory, s)
     else (case strm (map (opToWalOp (fc_volume (co_cfg c)) (fc_caller (co_cfg c)) (bl_epoch (co_log c))) ops) s of
             (StreamAck a, s') \<Rightarrow> (Inr a, s')
           | (r, s') \<Rightarrow> (Inl (TransportError r), s')))"

(* src/pkg/client/backend/wal/flush.go:85-94 applyLimits *)
definition applyLimits :: "flushConfig \<Rightarrow> int \<times> int" where
  "applyLimits cfg =
    (if fc_maxApplyOps cfg \<le> 0 then 2000 else fc_maxApplyOps cfg,
     if fc_maxApplyBytes cfg \<le> 0 then 16777216 else fc_maxApplyBytes cfg)"

text \<open>\<^verbatim>\<open>NewLayer\<close> installs the hook that drops the flushed paths from the inner cache.\<close>

(* src/pkg/client/backend/wal/layer.go:152-159 NewLayer *)
definition onFlushed :: "Op list \<Rightarrow> Coordinator \<Rightarrow> Coordinator" where
  "onFlushed sent c = c\<lparr>co_invalidated := co_invalidated c @
     concat (map (\<lambda>op. op_Path op # (if op_NewPath op \<noteq> '''' then [op_NewPath op] else [])) sent)\<rparr>"

(* src/pkg/client/backend/wal/flush.go:243-314 processAck *)
definition processAck ::
  "flush_env \<Rightarrow> loss_reason \<Rightarrow> flush_error + ApplyAck \<Rightarrow> Op list \<Rightarrow> Coordinator \<Rightarrow> flush_error option \<times> Coordinator" where
  "processAck env reason r sent c =
    (case r of
       Inl e \<Rightarrow> (Some e, c)
     | Inr ack \<Rightarrow>
         (let committed = aa_Watermark ack; failedSeq = aa_FailedSeq ack; c1 = onFlushed sent c in
          if failedSeq = 0 then (None, (commitFlushed env committed c1)\<lparr>co_watermark := committed\<rparr>)
          else
            (let lostOps = filter (\<lambda>op. op_Seq op \<ge> failedSeq) sent;
                 c2 = (if sent \<noteq> [] then commitFlushed env (op_Seq (last sent)) c1 else c1)
             in (Some (OrderedHalt failedSeq (aa_Fserr ack)),
                 c2\<lparr>co_watermark := committed,
                    co_losses := co_losses c2 @ [\<lparr>lo_reason = reason, lo_ops = lostOps, lo_fserr = aa_Fserr ack\<rparr>]\<rparr>))))"

text \<open>The inner loop of \<^verbatim>\<open>Flush\<close>: the longest batch within the limits.\<close>

fun batch_take :: "int \<Rightarrow> int \<Rightarrow> int \<Rightarrow> int \<Rightarrow> Op list \<Rightarrow> Op list" where
  "batch_take maxOps maxBytes n bs [] = []"
| "batch_take maxOps maxBytes n bs (op # ops) =
    (if n < maxOps \<and> bs < maxBytes
     then op # batch_take maxOps maxBytes (n + 1) (bs + int (length (op_Data op))) ops else [])"

text \<open>The outer loop; with limits that admit no operation it would never return, which is \<^const>\<open>None\<close>.\<close>

(* src/pkg/client/backend/wal/flush.go:222-236 Flush *)
function flush_loop ::
  "flush_env \<Rightarrow> 's stream \<Rightarrow> int \<Rightarrow> int \<Rightarrow> Op list \<Rightarrow> Coordinator \<Rightarrow> 's \<Rightarrow> (flush_error option \<times> Coordinator \<times> 's) option" where
  "flush_loop env strm maxOps maxBytes pending c s =
    (if pending = [] then Some (None, c, s)
     else (let batch = batch_take maxOps maxBytes 0 0 pending in
           if batch = [] then None
           else (case applyOps strm batch c s of (r, s1) \<Rightarrow>
                  (case processAck env ApplyFailure r batch c of
                     (Some e, c1) \<Rightarrow> Some (Some e, c1, s1)
                   | (None, c1) \<Rightarrow> flush_loop env strm maxOps maxBytes (drop (length batch) pending) c1 s1))))"
  by pat_completeness auto
termination
  by (relation "measure (\<lambda>(env, strm, a, b, pending, c, s). length pending)") auto

declare flush_loop.simps [simp del]

(* src/pkg/client/backend/wal/flush.go:193-236 Flush *)
definition Flush :: "flush_env \<Rightarrow> 's stream \<Rightarrow> u64 \<Rightarrow> Coordinator \<Rightarrow> 's \<Rightarrow> (flush_error option \<times> Coordinator \<times> 's) option" where
  "Flush env strm throughSeq c s =
    (let pending = filter (\<lambda>op. op_Seq op > co_watermark c) (log_Prefix throughSeq (co_log c)) in
     if pending = [] then Some (None, c, s)
     else (case applyLimits (co_cfg c) of (maxOps, maxBytes) \<Rightarrow> flush_loop env strm maxOps maxBytes pending c s))"

(* src/pkg/client/backend/wal/flush.go:321-333 Fsync *)
definition co_Fsync :: "flush_env \<Rightarrow> 's stream \<Rightarrow> Coordinator \<Rightarrow> 's \<Rightarrow> (FsError \<times> Coordinator \<times> 's) option" where
  "co_Fsync env strm c s =
    (case log_Replay 0 (co_log c) of
       Inl e \<Rightarrow> Some (FS_OK, c, s)
     | Inr ops \<Rightarrow>
         if ops = [] then Some (FS_OK, c, s)
         else map_option (\<lambda>(e, c', s'). (if e = None then FS_OK else FS_EIO, c', s')) (Flush env strm (op_Seq (last ops)) c s))"

(* src/pkg/client/backend/wal/flush.go:368-379 FlushForRecall *)
definition FlushForRecall :: "flush_env \<Rightarrow> 's stream \<Rightarrow> Coordinator \<Rightarrow> 's \<Rightarrow> (flush_error option \<times> Coordinator \<times> 's) option" where
  "FlushForRecall env strm c s =
    (case log_Replay 0 (co_log c) of
       Inl e \<Rightarrow> Some (Some (LogReadError e), c, s)
     | Inr ops \<Rightarrow> if ops = [] then Some (None, c, s) else Flush env strm (op_Seq (last ops)) c s)"

(* src/pkg/client/backend/wal/flush.go:386-400 Coordinator.Replay *)
definition co_Replay :: "flush_env \<Rightarrow> 's stream \<Rightarrow> u64 \<Rightarrow> Coordinator \<Rightarrow> 's \<Rightarrow> flush_error option \<times> Coordinator \<times> 's" where
  "co_Replay env strm resumeWatermark c s =
    (case log_Replay resumeWatermark (co_log c) of
       Inl e \<Rightarrow> (Some (LogReadError e), c, s)
     | Inr ops \<Rightarrow>
         if ops = [] then (None, c, s)
         else (case applyOps strm ops c s of (r, s1) \<Rightarrow>
                (case processAck env GenFenced r ops c of (e, c1) \<Rightarrow> (e, c1, s1))))"

(* src/pkg/client/backend/wal/wal.go:369-381 RebuildOverlay *)
definition RebuildOverlay :: "int \<Rightarrow> Coordinator \<Rightarrow> flush_error option \<times> Coordinator" where
  "RebuildOverlay now c =
    (case log_Replay 0 (co_log c) of
       Inl e \<Rightarrow> (Some (LogReadError e), c\<lparr>co_losses := co_losses c @ [\<lparr>lo_reason = WalUnreadable, lo_ops = [], lo_fserr = FS_EIO\<rparr>]\<rparr>)
     | Inr ops \<Rightarrow> (None, c\<lparr>co_overlay := fold (ov_Apply now) ops (co_overlay c)\<rparr>))"

(* src/pkg/client/backend/wal/wal.go:446-461 Close *)
definition co_Close :: "flush_env \<Rightarrow> 's stream \<Rightarrow> Coordinator \<Rightarrow> 's \<Rightarrow> (flush_error option \<times> Coordinator \<times> 's) option" where
  "co_Close env strm c s =
    map_option (\<lambda>(e, c', s'). (e, c'\<lparr>co_log := log_Close (co_log c')\<rparr>, s'))
      (if fc_applyFactory (co_cfg c)
       then (case log_Replay 0 (co_log c) of
               Inl e \<Rightarrow> Some (None, c, s)
             | Inr ops \<Rightarrow> if ops = [] then Some (None, c, s) else Flush env strm (op_Seq (last ops)) c s)
       else Some (None, c, s))"

(* src/pkg/client/backend/wal/flush.go:586-592 pendingCount *)
definition pendingCount :: "Coordinator \<Rightarrow> nat" where
  "pendingCount c = (case log_Replay (co_watermark c) (co_log c) of Inl e \<Rightarrow> 0 | Inr ops \<Rightarrow> length ops)"

text \<open>\<^verbatim>\<open>waitForCap\<close> returns in a state in which this holds; until then it waits and drains.\<close>

(* src/pkg/client/backend/wal/flush.go:602-626 waitForCap *)
definition waitForCap_done :: "Coordinator \<Rightarrow> bool" where
  "waitForCap_done c \<longleftrightarrow> fc_capOps (co_cfg c) = 0 \<or> \<not> int (pendingCount c) \<ge> fc_capOps (co_cfg c)"

(* src/pkg/client/backend/wal/loss.go:94-100 distinctPaths *)
definition distinctPaths :: "string list \<Rightarrow> nat" where
  "distinctPaths paths = length (fold List.insert paths [])"

record loss_report =
  lr_reason :: loss_reason
  lr_seq_min :: u64
  lr_seq_max :: u64
  lr_lost_paths :: "path list"
  lr_files :: nat

(* src/pkg/client/backend/wal/loss.go:58-91 logDataLost *)
definition logDataLost :: "loss \<Rightarrow> loss_report option" where
  "logDataLost lo =
    (case lo_ops lo of
       [] \<Rightarrow> None
     | op # ops \<Rightarrow>
         (let paths = map op_Path (lo_ops lo) in
          Some \<lparr>lr_reason = lo_reason lo, lr_seq_min = op_Seq op, lr_seq_max = op_Seq (last (lo_ops lo)),
                lr_lost_paths = paths, lr_files = distinctPaths paths\<rparr>))"

section \<open>Draining a file handle\<close>

text \<open>One turn of the loop of \<^verbatim>\<open>Drain\<close>: the manager as seen by the admission snapshot, by the two checks of
  \<^verbatim>\<open>RecordOp\<close> and by the last check, since other goroutines change it in between.\<close>

record drain_turn =
  dt_snap :: Manager
  dt_pre :: Manager
  dt_lock :: Manager
  dt_after :: Manager
  dt_ctxDead :: bool
  dt_commit :: bool

datatype drain_result = WireFlush | DrainOK | DrainEIO | DrainAgain

definition drain_once :: "int \<Rightarrow> path \<Rightarrow> bytes \<Rightarrow> nat \<Rightarrow> drain_turn \<Rightarrow> Coordinator \<Rightarrow> drain_result \<times> Coordinator" where
  "drain_once now p pendingData pendingOff t c =
    (case AdmissionState (dt_snap t) p of (delegated, draining) \<Rightarrow>
      if \<not> delegated \<and> \<not> draining then (WireFlush, c)
      else if pendingData = [] then (DrainOK, c)
      else (case RecordOp (dt_commit t) now (dt_pre t) (dt_lock t)
                   \<lparr>op_Seq = 0, op_Gen = 0, op_Kind = OpWrite, op_Path = p, op_NewPath = '''', op_Offset = pendingOff, op_Data = pendingData,
                    op_Mode = 0, op_Flags = 0, op_Valid = 0, op_UID = 0, op_GID = 0, op_Size = 0, op_AtimeSec = 0, op_AtimeNsec = 0,
                    op_MtimeSec = 0, op_MtimeNsec = 0, op_XattrName = '''', op_XattrValue = [], op_XattrFlags = 0\<rparr> c of
              (None, c1) \<Rightarrow> (DrainOK, c1)
            | (Some e, c1) \<Rightarrow>
                if e \<noteq> ErrNotDelegated then (DrainEIO, c1)
                else if snd (AdmissionState (dt_after t) p) \<and> dt_ctxDead t then (DrainEIO, c1)
                else (DrainAgain, c1)))"

text \<open>The loop over the turns the scheduler allows; \<^const>\<open>DrainAgain\<close> at the end means it is still running.\<close>

(* src/pkg/client/backend/wal/wal.go:191-232 Drain *)
fun co_Drain :: "int \<Rightarrow> path \<Rightarrow> bytes \<Rightarrow> nat \<Rightarrow> drain_turn list \<Rightarrow> Coordinator \<Rightarrow> drain_result \<times> Coordinator" where
  "co_Drain now p pendingData pendingOff [] c = (DrainAgain, c)"
| "co_Drain now p pendingData pendingOff (t # ts) c =
    (case drain_once now p pendingData pendingOff t c of
       (DrainAgain, c1) \<Rightarrow> co_Drain now p pendingData pendingOff ts c1
     | r \<Rightarrow> r)"

section \<open>A flush returns\<close>

lemma applyLimits_pos: "applyLimits cfg = (a, b) \<Longrightarrow> 0 < a \<and> 0 < b"
  by (auto simp: applyLimits_def split: if_splits)

lemma batch_take_ne: "0 < a \<Longrightarrow> 0 < b \<Longrightarrow> ops \<noteq> [] \<Longrightarrow> batch_take a b 0 0 ops \<noteq> []"
  by (cases ops) auto

lemma batch_take_prefix: "\<exists>rest. ops = batch_take a b n k ops @ rest"
  by (induction ops arbitrary: n k) auto

lemma batch_take_append: "batch_take a b n k ops @ drop (length (batch_take a b n k ops)) ops = ops"
  by (metis append_eq_conv_conj batch_take_prefix)

lemma batch_take_len: "n \<le> a \<Longrightarrow> int (length (batch_take a b n k ops)) \<le> a - n"
  by (induction ops arbitrary: n k) (auto, smt (verit))

lemma flush_loop_returns:
  "0 < a \<Longrightarrow> 0 < b \<Longrightarrow> flush_loop env strm a b pending c s \<noteq> None"
proof (induction env strm a b pending c s rule: flush_loop.induct)
  case (1 env strm a b pending c s)
  then show ?case
    using batch_take_ne[of a b pending]
    by (subst flush_loop.simps) (auto simp: Let_def split: prod.splits option.splits)
qed

lemma Flush_returns: "Flush env strm q c s \<noteq> None"
proof -
  obtain a b where l: "applyLimits (co_cfg c) = (a, b)" by fastforce
  show ?thesis using applyLimits_pos[OF l] flush_loop_returns[of a b env strm _ c s] by (simp add: Flush_def Let_def l)
qed

section \<open>What a flush does to the log\<close>

lemma commitFlushed_log:
  assumes "log_wf (co_log c)" and "c' = commitFlushed env q c"
  shows "log_wf (co_log c') \<and> co_watermark c' = co_watermark c \<and> co_losses c' = co_losses c \<and> co_cfg c' = co_cfg c \<and>
    bl_epoch (co_log c') = bl_epoch (co_log c) \<and> bl_closed (co_log c') = bl_closed (co_log c) \<and>
    (log_pending (co_log c') = filter (\<lambda>op. op_Seq op > q) (log_pending (co_log c)) \<or> log_pending (co_log c') = log_pending (co_log c))"
proof -
  obtain r l1 where t: "log_Truncate (fe_truncate env q) q (co_log c) = (r, l1)" by fastforce
  have ep: "bl_epoch l1 = bl_epoch (co_log c)" "bl_closed l1 = bl_closed (co_log c)"
    using t by (auto simp: log_Truncate_def split: if_splits)
  have "co_log c' = (if q > 0 then l1 else co_log c) \<and> co_watermark c' = co_watermark c \<and> co_losses c' = co_losses c \<and> co_cfg c' = co_cfg c"
    using assms(2) t by (auto simp: commitFlushed_def Let_def split: sum.splits)
  then show ?thesis using Truncate_law[OF assms(1) t] assms(1) ep by auto
qed

lemma onFlushed_simps [simp]:
  "co_log (onFlushed sent c) = co_log c" "co_watermark (onFlushed sent c) = co_watermark c"
  "co_losses (onFlushed sent c) = co_losses c" "co_cfg (onFlushed sent c) = co_cfg c" "co_overlay (onFlushed sent c) = co_overlay c"
  by (simp_all add: onFlushed_def)

lemma processAck_err: "processAck env reason (Inl e) sent c = (Some e, c)"
  by (simp add: processAck_def)

lemma processAck_ok:
  assumes "processAck env reason (Inr a) sent c = (e, c')" and "log_wf (co_log c)" and "sent \<noteq> []"
  shows "log_wf (co_log c') \<and> co_cfg c' = co_cfg c \<and> bl_epoch (co_log c') = bl_epoch (co_log c) \<and> bl_closed (co_log c') = bl_closed (co_log c) \<and>
    co_watermark c' = aa_Watermark a \<and>
    (e = None \<longleftrightarrow> aa_FailedSeq a = 0) \<and>
    set (log_pending (co_log c')) \<subseteq> set (log_pending (co_log c)) \<and>
    (\<forall>op \<in> set (log_pending (co_log c)). op \<in> set (log_pending (co_log c')) \<or>
        op_Seq op \<le> (if aa_FailedSeq a = 0 then aa_Watermark a else op_Seq (last sent))) \<and>
    co_losses c' = co_losses c @ (if aa_FailedSeq a = 0 then [] else
       [\<lparr>lo_reason = reason, lo_ops = filter (\<lambda>op. op_Seq op \<ge> aa_FailedSeq a) sent, lo_fserr = aa_Fserr a\<rparr>])"
proof -
  let ?q = "if aa_FailedSeq a = 0 then aa_Watermark a else op_Seq (last sent)"
  let ?c = "commitFlushed env ?q (onFlushed sent c)"
  have w: "log_wf (co_log (onFlushed sent c))" using assms(2) by simp
  have c': "co_log c' = co_log ?c \<and> co_cfg c' = co_cfg ?c \<and> co_watermark c' = aa_Watermark a \<and> (e = None \<longleftrightarrow> aa_FailedSeq a = 0) \<and>
      co_losses c' = co_losses ?c @ (if aa_FailedSeq a = 0 then [] else
       [\<lparr>lo_reason = reason, lo_ops = filter (\<lambda>op. op_Seq op \<ge> aa_FailedSeq a) sent, lo_fserr = aa_Fserr a\<rparr>])"
    using assms(1,3) by (auto simp: processAck_def Let_def split: if_splits)
  have k: "log_wf (co_log ?c) \<and> co_losses ?c = co_losses c \<and> co_cfg ?c = co_cfg c \<and>
    bl_epoch (co_log ?c) = bl_epoch (co_log c) \<and> bl_closed (co_log ?c) = bl_closed (co_log c) \<and>
    (log_pending (co_log ?c) = filter (\<lambda>op. op_Seq op > ?q) (log_pending (co_log c)) \<or> log_pending (co_log ?c) = log_pending (co_log c))"
    using commitFlushed_log[OF w refl, of env ?q] by simp
  then have "log_pending (co_log ?c) = filter (\<lambda>op. op_Seq op > ?q) (log_pending (co_log c)) \<or> log_pending (co_log ?c) = log_pending (co_log c)"
    by blast
  then have "set (log_pending (co_log ?c)) \<subseteq> set (log_pending (co_log c)) \<and>
    (\<forall>op \<in> set (log_pending (co_log c)). op \<in> set (log_pending (co_log ?c)) \<or> op_Seq op \<le> ?q)"
    by (elim disjE; simp only: set_filter) (auto simp: not_less)
  then show ?thesis using c' k by simp
qed

section \<open>The Apply service\<close>

text \<open>
  What the coordinator relies on: an acknowledged watermark is durable at the server, it covers every
  operation sent before the one that failed, and the durable watermark never decreases.
\<close>

definition speaks :: "(WalOp \<Rightarrow> bool) \<Rightarrow> Coordinator \<Rightarrow> bool" where
  "speaks ours c \<longleftrightarrow> (\<forall>op. ours (opToWalOp (fc_volume (co_cfg c)) (fc_caller (co_cfg c)) (bl_epoch (co_log c)) op))"

text \<open>Accounted for: still in the log, durable at the server, or reported lost.\<close>

definition accounted :: "u64 \<Rightarrow> Op \<Rightarrow> Coordinator \<Rightarrow> bool" where
  "accounted durable op c \<longleftrightarrow>
    op \<in> set (log_pending (co_log c)) \<or> op_Seq op \<le> durable \<or> (\<exists>lo \<in> set (co_losses c). op \<in> set (lo_ops lo))"

text \<open>The loop invariant: the operations of the log are the ones still to be sent, durable ones, or later ones.\<close>

definition loop_inv :: "(WalOp \<Rightarrow> bool) \<Rightarrow> Op list \<Rightarrow> Coordinator \<Rightarrow> u64 \<Rightarrow> bool" where
  "loop_inv ours pending c durable \<longleftrightarrow> log_wf (co_log c) \<and> speaks ours c \<and> sorted_wrt (<) (map op_Seq pending) \<and>
     (\<forall>op \<in> set (log_pending (co_log c)). op \<in> set pending \<or> op_Seq op \<le> durable \<or> (\<forall>q \<in> set pending. op_Seq q < op_Seq op))"

lemma opToWalOp_seq [simp]: "wo_Seq (opToWalOp v ca ep op) = op_Seq op"
  by (simp add: opToWalOp_def Let_def)

lemma last_op_max: "sorted_wrt (<) (map op_Seq ops) \<Longrightarrow> op \<in> set ops \<Longrightarrow> op_Seq op \<le> op_Seq (last ops)"
  by (induction ops rule: rev_induct) (auto simp: sorted_wrt_append less_imp_le)

locale apply_service =
  fixes strm :: "'s stream"
    and ours :: "WalOp \<Rightarrow> bool"
    and upto :: "'s \<Rightarrow> u64"
  assumes ack_durable: "\<forall>w \<in> set ws. ours w \<Longrightarrow> ws \<noteq> [] \<Longrightarrow> strm ws s = (StreamAck a, s') \<Longrightarrow> aa_Watermark a \<le> upto s'"
    and ack_covers: "\<forall>w \<in> set ws. ours w \<Longrightarrow> seqs_increasing ws \<Longrightarrow> strm ws s = (StreamAck a, s') \<Longrightarrow> w \<in> set ws \<Longrightarrow>
          aa_FailedSeq a = 0 \<or> wo_Seq w < aa_FailedSeq a \<Longrightarrow> wo_Seq w \<le> aa_Watermark a"
    and upto_mono: "\<forall>w \<in> set ws. ours w \<Longrightarrow> strm ws s = (r, s') \<Longrightarrow> upto s \<le> upto s'"
begin

lemma applyOps_mono: "speaks ours c \<Longrightarrow> applyOps strm ops c s = (r, s') \<Longrightarrow> upto s \<le> upto s'"
proof -
  assume o: "speaks ours c" and a: "applyOps strm ops c s = (r, s')"
  let ?ws = "map (opToWalOp (fc_volume (co_cfg c)) (fc_caller (co_cfg c)) (bl_epoch (co_log c))) ops"
  obtain r1 s1 where st: "strm ?ws s = (r1, s1)" by fastforce
  have "s' = s \<or> s' = s1" using a st by (auto simp: applyOps_def split: if_splits stream_result.splits)
  moreover have "upto s \<le> upto s1" using o by (intro upto_mono[OF _ st]) (simp add: speaks_def)
  ultimately show ?thesis by auto
qed

lemma applyOps_ack:
  assumes "speaks ours c" and "applyOps strm ops c s = (Inr a, s')" and "ops \<noteq> []" and "sorted_wrt (<) (map op_Seq ops)"
  shows "aa_Watermark a \<le> upto s' \<and>
    (\<forall>op \<in> set ops. aa_FailedSeq a = 0 \<or> op_Seq op < aa_FailedSeq a \<longrightarrow> op_Seq op \<le> aa_Watermark a)"
proof -
  let ?ws = "map (opToWalOp (fc_volume (co_cfg c)) (fc_caller (co_cfg c)) (bl_epoch (co_log c))) ops"
  have st: "strm ?ws s = (StreamAck a, s')"
    using assms(2) by (auto simp: applyOps_def split: if_splits prod.splits stream_result.splits)
  have o: "\<forall>w \<in> set ?ws. ours w" "?ws \<noteq> []" using assms(1,3) by (auto simp: speaks_def)
  have "map wo_Seq ?ws = map op_Seq ops" by simp
  then have inc: "seqs_increasing ?ws" using assms(4) by metis
  show ?thesis
  proof (intro conjI ballI impI)
    show "aa_Watermark a \<le> upto s'" using ack_durable[OF o st] .
    fix op assume "op \<in> set ops" "aa_FailedSeq a = 0 \<or> op_Seq op < aa_FailedSeq a"
    then show "op_Seq op \<le> aa_Watermark a"
      using ack_covers[OF o(1) inc st, of "opToWalOp (fc_volume (co_cfg c)) (fc_caller (co_cfg c)) (bl_epoch (co_log c)) op"]
      by auto
  qed
qed

lemma flush_step:
  assumes inv: "loop_inv ours (batch @ rest) c (upto s)" and ne: "batch \<noteq> []"
    and ap: "applyOps strm batch c s = (r, s1)" and pa: "processAck env reason r batch c = (e, c1)"
  shows "upto s \<le> upto s1 \<and> (co_watermark c \<le> upto s \<longrightarrow> co_watermark c1 \<le> upto s1) \<and>
    (\<forall>op. accounted (upto s) op c \<longrightarrow> accounted (upto s1) op c1) \<and>
    (e = None \<longrightarrow> loop_inv ours rest c1 (upto s1) \<and> (\<forall>op \<in> set batch. op_Seq op \<le> upto s1))"
proof (cases r)
  case (Inl x)
  then have "e \<noteq> None" "c1 = c" using pa by (auto simp: processAck_err)
  moreover have m: "upto s \<le> upto s1" using applyOps_mono inv ap by (auto simp: loop_inv_def)
  ultimately show ?thesis by (auto simp: accounted_def)
next
  case (Inr a)
  have m: "upto s \<le> upto s1" using applyOps_mono inv ap by (auto simp: loop_inv_def)
  have sb: "sorted_wrt (<) (map op_Seq batch)" "\<forall>x \<in> set batch. \<forall>y \<in> set rest. op_Seq x < op_Seq y" "sorted_wrt (<) (map op_Seq rest)"
    using inv by (auto simp: loop_inv_def sorted_wrt_append)
  have ack: "aa_Watermark a \<le> upto s1" "\<forall>op \<in> set batch. aa_FailedSeq a = 0 \<or> op_Seq op < aa_FailedSeq a \<longrightarrow> op_Seq op \<le> aa_Watermark a"
    using applyOps_ack[OF _ ap[unfolded Inr] ne sb(1)] inv by (auto simp: loop_inv_def)
  have wm: "co_watermark c1 = aa_Watermark a" using processAck_ok[OF pa[unfolded Inr]] inv ne by (simp add: loop_inv_def)
  have k: "log_wf (co_log c1)" "co_cfg c1 = co_cfg c" "bl_epoch (co_log c1) = bl_epoch (co_log c)" "e = None \<longleftrightarrow> aa_FailedSeq a = 0"
      "set (log_pending (co_log c1)) \<subseteq> set (log_pending (co_log c))"
      "\<forall>op \<in> set (log_pending (co_log c)). op \<in> set (log_pending (co_log c1)) \<or>
        op_Seq op \<le> (if aa_FailedSeq a = 0 then aa_Watermark a else op_Seq (last batch))"
      "co_losses c1 = co_losses c @ (if aa_FailedSeq a = 0 then [] else
        [\<lparr>lo_reason = reason, lo_ops = filter (\<lambda>op. op_Seq op \<ge> aa_FailedSeq a) batch, lo_fserr = aa_Fserr a\<rparr>])"
    using processAck_ok[OF pa[unfolded Inr]] inv ne by (auto simp: loop_inv_def)
  have last: "\<forall>op \<in> set batch. op_Seq op \<le> op_Seq (last batch)" using last_op_max[OF sb(1)] by blast
  have acc: "accounted (upto s1) op c1" if "op \<in> set (log_pending (co_log c))" for op
  proof (cases "op \<in> set (log_pending (co_log c1))")
    case False
    show ?thesis
    proof (cases "aa_FailedSeq a = 0")
      case True
      then show ?thesis using k(6) that False ack(1) by (auto simp: accounted_def)
    next
      case halt: False
      then have le: "op_Seq op \<le> op_Seq (last batch)" using k(6) that False by auto
      have "op \<in> set (batch @ rest) \<or> op_Seq op \<le> upto s \<or> (\<forall>q \<in> set (batch @ rest). op_Seq q < op_Seq op)"
        using inv that by (auto simp: loop_inv_def)
      then have "op \<in> set batch \<or> op_Seq op \<le> upto s"
        using le ne sb(2) last_in_set[OF ne] by (metis Un_iff leD set_append)
      then show ?thesis
      proof
        assume b: "op \<in> set batch"
        then show ?thesis using ack k(7) halt by (cases "op_Seq op < aa_FailedSeq a") (auto simp: accounted_def)
      qed (use m in \<open>auto simp: accounted_def\<close>)
    qed
  qed (simp add: accounted_def)
  have acc2: "accounted (upto s1) op c1" if "accounted (upto s) op c" for op
  proof (cases "op \<in> set (log_pending (co_log c))")
    case False
    then have "op_Seq op \<le> upto s \<or> (\<exists>lo \<in> set (co_losses c). op \<in> set (lo_ops lo))" using that by (simp add: accounted_def)
    then show ?thesis using m k(7) by (auto simp: accounted_def intro: order.trans)
  qed (rule acc)
  have "loop_inv ours rest c1 (upto s1) \<and> (\<forall>op \<in> set batch. op_Seq op \<le> upto s1)" if "e = None"
  proof -
    have b: "\<forall>op \<in> set batch. op_Seq op \<le> upto s1" using that k(4) ack by (auto intro: order.trans)
    have "op \<in> set rest \<or> op_Seq op \<le> upto s1 \<or> (\<forall>q \<in> set rest. op_Seq q < op_Seq op)"
      if "op \<in> set (log_pending (co_log c1))" for op
    proof -
      have "op \<in> set (batch @ rest) \<or> op_Seq op \<le> upto s \<or> (\<forall>q \<in> set (batch @ rest). op_Seq q < op_Seq op)"
        using inv that k(5) unfolding loop_inv_def by blast
      then show ?thesis using b m by auto
    qed
    then show ?thesis using b k(1,2,3) inv sb(3) by (auto simp: loop_inv_def speaks_def)
  qed
  then show ?thesis using m acc2 wm ack(1) by simp
qed

lemma flush_loop_accounts:
  assumes "flush_loop env strm a b pending c s = Some (e, c', s')" and "loop_inv ours pending c (upto s)"
  shows "(\<forall>op. accounted (upto s) op c \<longrightarrow> accounted (upto s') op c') \<and>
    (e = None \<longrightarrow> (\<forall>op \<in> set pending. op_Seq op \<le> upto s')) \<and> upto s \<le> upto s' \<and>
    (co_watermark c \<le> upto s \<longrightarrow> co_watermark c' \<le> upto s')"
  using assms
proof (induction "length pending" arbitrary: pending c s rule: less_induct)
  case less
  show ?case
  proof (cases "pending = []")
    case True
    then show ?thesis using less.prems(1) by (simp add: flush_loop.simps)
  next
    case False
    define batch where "batch = batch_take a b 0 0 pending"
    define rest where "rest = drop (length batch) pending"
    have pend: "pending = batch @ rest" using batch_take_append[of a b 0 0 pending] by (simp add: batch_def rest_def)
    obtain r s1 where ap: "applyOps strm batch c s = (r, s1)" by fastforce
    obtain e1 c1 where pa: "processAck env ApplyFailure r batch c = (e1, c1)" by fastforce
    have ne: "batch \<noteq> []"
      using less.prems(1) False by (subst (asm) flush_loop.simps) (auto simp: Let_def batch_def split: if_splits)
    have loop: "flush_loop env strm a b pending c s =
        (case e1 of Some x \<Rightarrow> Some (Some x, c1, s1) | None \<Rightarrow> flush_loop env strm a b rest c1 s1)"
      using False ne ap pa by (subst flush_loop.simps) (simp add: Let_def batch_def[symmetric] rest_def split: option.splits)
    note st = flush_step[OF less.prems(2)[unfolded pend] ne ap pa]
    show ?thesis
    proof (cases e1)
      case (Some x)
      then show ?thesis using less.prems(1) loop st by auto
    next
      case None
      have ih: "(\<forall>op. accounted (upto s1) op c1 \<longrightarrow> accounted (upto s') op c') \<and>
          (e = None \<longrightarrow> (\<forall>op \<in> set rest. op_Seq op \<le> upto s')) \<and> upto s1 \<le> upto s' \<and>
          (co_watermark c1 \<le> upto s1 \<longrightarrow> co_watermark c' \<le> upto s')"
        using less.hyps[of rest c1 s1] less.prems(1) loop None st ne pend by simp
      have "\<forall>op \<in> set batch. op_Seq op \<le> upto s'" using st None ih order.trans by blast
      then show ?thesis using ih st pend order.trans by auto
    qed
  qed
qed

lemma flush_accounts:
  assumes "Flush env strm q c s = Some (e, c', s')" and "log_wf (co_log c)" and "log_opened (co_log c)"
    and "speaks ours c" and "co_watermark c \<le> upto s"
  shows "(\<forall>op. accounted (upto s) op c \<longrightarrow> accounted (upto s') op c') \<and>
    (e = None \<longrightarrow> (\<forall>op \<in> set (log_pending (co_log c)). op_Seq op \<le> q \<longrightarrow> op_Seq op \<le> upto s')) \<and> upto s \<le> upto s' \<and>
    co_watermark c' \<le> upto s'"
proof -
  let ?pre = "log_Prefix q (co_log c)"
  let ?p = "filter (\<lambda>op. op_Seq op > co_watermark c) ?pre"
  have pre: "?pre = filter (\<lambda>op. op_Seq op \<le> q) (log_pending (co_log c))" using bl.prefix_law[OF assms(2,3)] .
  have srt: "sorted_wrt (<) (map op_Seq ?p)"
    using bl.pending_sorted[OF assms(2)] unfolding pre by (simp add: sorted_wrt_map sorted_wrt_filter)
  have mem: "op \<in> set ?p \<or> op_Seq op \<le> upto s \<or> (\<forall>x \<in> set ?p. op_Seq x < op_Seq op)"
    if "op \<in> set (log_pending (co_log c))" for op
    using that assms(5) unfolding pre by (cases "op_Seq op \<le> q") (auto simp: not_le not_less intro: order.trans)
  show ?thesis
  proof (cases "?p = []")
    case True
    then have "op_Seq op \<le> upto s" if "op \<in> set (log_pending (co_log c))" "op_Seq op \<le> q" for op
      using that assms(5) unfolding pre by (auto simp: filter_empty_conv not_less intro: order.trans)
    then show ?thesis using assms(1,5) True by (auto simp: Flush_def Let_def)
  next
    case False
    obtain a b where l: "applyLimits (co_cfg c) = (a, b)" by fastforce
    have f: "flush_loop env strm a b ?p c s = Some (e, c', s')" using assms(1) False by (simp add: Flush_def Let_def l)
    have inv: "loop_inv ours ?p c (upto s)" using assms(2,4) srt mem by (simp add: loop_inv_def)
    have fl: "(\<forall>op. accounted (upto s) op c \<longrightarrow> accounted (upto s') op c') \<and>
      (e = None \<longrightarrow> (\<forall>op \<in> set ?p. op_Seq op \<le> upto s')) \<and> upto s \<le> upto s' \<and> co_watermark c' \<le> upto s'"
      using flush_loop_accounts[OF f inv] assms(5) by blast
    have "op_Seq op \<le> upto s'" if "e = None" "op \<in> set (log_pending (co_log c))" "op_Seq op \<le> q" for op
      using that fl assms(5) unfolding pre by (cases "op_Seq op > co_watermark c") (auto simp: not_less intro: order.trans)
    then show ?thesis using fl by (intro conjI) auto
  qed
qed

text \<open>Recovery after a crash: the whole log in one stream.\<close>

lemma replay_accounts:
  assumes "co_Replay env strm 0 c s = (e, c', s')" and "log_wf (co_log c)" and "log_opened (co_log c)" and "speaks ours c"
  shows "(\<forall>op. accounted (upto s) op c \<longrightarrow> accounted (upto s') op c') \<and>
    (e = None \<longrightarrow> (\<forall>op \<in> set (log_pending (co_log c)). op_Seq op \<le> upto s'))"
proof -
  define ops where "ops = log_pending (co_log c)"
  have rp: "log_Replay 0 (co_log c) = Inr ops" using bl.replay_all[OF assms(3)] by (simp add: ops_def)
  show ?thesis
  proof (cases "ops = []")
    case True
    then show ?thesis using assms(1) rp by (auto simp: co_Replay_def ops_def)
  next
    case False
    obtain r s1 where ap: "applyOps strm ops c s = (r, s1)" by fastforce
    have pa: "processAck env GenFenced r ops c = (e, c')" "s1 = s'"
      using assms(1) rp False ap by (auto simp: co_Replay_def split: prod.splits)
    have "sorted_wrt (<) (map op_Seq ops)" using bl.pending_sorted[OF assms(2)] by (simp add: ops_def)
    then have inv: "loop_inv ours (ops @ []) c (upto s)" using assms(2,4) by (simp add: loop_inv_def ops_def)
    from flush_step[OF inv False ap pa(1)] show ?thesis using pa(2) by (simp add: ops_def)
  qed
qed

end

end
