(* ===== verification/Wal_Service.thy ===== *)
theory Wal_Service
  imports Wal_Coordinator
begin

text \<open>
  The coordinator of the client against the Apply handler of the server.  The network between them is
  described by one \<open>stream_fate\<close> per Apply stream: whether it opens, after how many messages the
  transport breaks, whether the durable write at the server commits, and whether the answer arrives.
  The handler satisfies the locale \<^verbatim>\<open>apply_service\<close>, so that what the coordinator proves of a flush holds end
  to end: no operation leaves the log without being durable at the server or reported lost.
\<close>

section \<open>The handler as a stream\<close>

record stream_fate =
  sf_open :: bool
  sf_cut :: "nat option"
  sf_commit :: bool
  sf_answered :: bool

record 'fs world =
  aw_srv :: "'fs srv"
  aw_db :: "bboltStore option"
  aw_fates :: "stream_fate list"

definition received :: "nat option \<Rightarrow> WalOp list \<Rightarrow> recv list" where
  "received brk ws = (case brk of None \<Rightarrow> map RvOp ws @ [RvEOF] | Some n \<Rightarrow> map RvOp (take n ws) @ [RvErr])"

definition server_stream :: "'fs idbind \<Rightarrow> (string \<Rightarrow> bool) \<Rightarrow> string \<Rightarrow> 'fs world stream" where
  "server_stream bind sess_ok sid ws w =
    (case aw_fates w of
       [] \<Rightarrow> (StreamOpenFailed, w)
     | f # fs \<Rightarrow>
         if \<not> sf_open f then (StreamOpenFailed, w\<lparr>aw_fates := fs\<rparr>)
         else (case Apply bind sess_ok (sf_commit f) sid (received (sf_cut f) ws) (aw_srv w) (aw_db w) of
                 (r, s', db') \<Rightarrow>
                   ((case r of Inr a \<Rightarrow> if sf_answered f then StreamAck a else StreamRecvFailed | Inl e \<Rightarrow> StreamRecvFailed),
                    w\<lparr>aw_srv := s', aw_db := db', aw_fates := fs\<rparr>)))"

text \<open>The operations of one client: a volume, a caller and the epoch of its log.\<close>

definition sent_by :: "string \<Rightarrow> Caller option \<Rightarrow> string \<Rightarrow> WalOp \<Rightarrow> bool" where
  "sent_by vol caller epoch w \<longleftrightarrow> vol \<noteq> '''' \<and> walOpVolumeCaller (wo_Body w) = (vol, caller) \<and> wo_WalEpoch w = epoch"

text \<open>The durable watermark of its stream.\<close>

definition durable_of :: "'fs idbind \<Rightarrow> string \<Rightarrow> Caller option \<Rightarrow> string \<Rightarrow> bboltStore option \<Rightarrow> u64" where
  "durable_of bind vol caller epoch store =
    (case (bind vol caller, store) of
       (Some (pf, ident), Some db) \<Rightarrow> (case wm_Get db (stream_key ident vol epoch) of Inl e \<Rightarrow> 0 | Inr r \<Rightarrow> wr_Watermark r)
     | _ \<Rightarrow> 0)"

abbreviation durable_upto :: "'fs idbind \<Rightarrow> string \<Rightarrow> Caller option \<Rightarrow> string \<Rightarrow> 'fs world \<Rightarrow> u64" where
  "durable_upto bind vol caller epoch w \<equiv> durable_of bind vol caller epoch (aw_db w)"

lemma uniform_iff: "uniform vol caller epoch ws \<longleftrightarrow> vol \<noteq> '''' \<and> (\<forall>w \<in> set ws. sent_by vol caller epoch w)"
  by (auto simp: uniform_def sent_by_def)

lemma walOpVolumeCaller_opToWalOp: "walOpVolumeCaller (wo_Body (opToWalOp vol caller epoch op)) = (vol, caller)"
  by (cases "op_Kind op") (simp_all add: opToWalOp_def Let_def)

lemma opToWalOp_sent_by: "vol \<noteq> '''' \<Longrightarrow> sent_by vol caller epoch (opToWalOp vol caller epoch op)"
  by (simp add: sent_by_def walOpVolumeCaller_opToWalOp) (simp add: opToWalOp_def Let_def)

section \<open>One stream\<close>

lemma ap_op_committed:
  assumes "av_bound v = Some b" and "ap_op sid op v s = (vd, v', s')"
  shows "av_committed v \<le> av_committed v' \<and> av_bound v' = Some b \<and>
    (case vd of Continue \<Rightarrow> wo_Seq op \<le> av_committed v' | Halt q e \<Rightarrow> q = wo_Seq op \<and> q \<noteq> 0)"
proof -
  obtain k pf ident where "b = (k, pf, ident)" by (metis prod_cases3)
  then show ?thesis using assms ap_op_cases[of v k pf ident sid op s] by (auto split: if_splits simp: not_le)
qed

lemma ap_ops_committed:
  assumes "av_bound v = Some b" and "ap_ops sid ops v s = (vd, v', s')"
  shows "av_committed v \<le> av_committed v' \<and> av_bound v' = Some b \<and>
    (case vd of Continue \<Rightarrow> \<forall>op \<in> set ops. wo_Seq op \<le> av_committed v'
     | Halt q e \<Rightarrow> q \<noteq> 0 \<and> q \<in> wo_Seq ` set ops \<and> (seqs_increasing ops \<longrightarrow> (\<forall>op \<in> set ops. wo_Seq op < q \<longrightarrow> wo_Seq op \<le> av_committed v')))"
  using assms
proof (induction ops arbitrary: v s)
  case (Cons op ops)
  obtain vd1 v1 s1 where a: "ap_op sid op v s = (vd1, v1, s1)" by (metis prod_cases3)
  note c = ap_op_committed[OF Cons.prems(1) a]
  show ?case
  proof (cases vd1)
    case Continue
    then have r: "ap_ops sid ops v1 s1 = (vd, v', s')" using Cons.prems(2) a by simp
    have b1: "av_bound v1 = Some b" using c by simp
    note ih = Cons.IH[OF b1 r]
    have "wo_Seq op \<le> av_committed v'" using c Continue ih by (auto intro: order.trans)
    then show ?thesis using c ih by (auto split: ap_verdict.splits intro: order.trans)
  next
    case (Halt q e)
    then have "vd = Halt q e" "v' = v1" using Cons.prems(2) a by auto
    then show ?thesis using c Halt by auto
  qed
qed simp

definition stream_end :: "bool \<Rightarrow> recv \<Rightarrow> ap_verdict \<Rightarrow> 'fs ap_vars \<Rightarrow> bboltStore \<Rightarrow> (apply_error + ApplyAck) \<times> bboltStore" where
  "stream_end commit z vd v store = (if vd = Continue \<and> z \<noteq> RvEOF then (Inl RecvFailed, store) else verdict_ack commit vd v store)"

lemma apply_loop_end:
  assumes "av_bound v \<noteq> None" and "z = RvEOF \<or> z = RvErr"
  shows "apply_loop bind commit sid (map RvOp ops @ [z]) (v, s, store) =
    (case ap_ops sid ops v s of (vd, v', s') \<Rightarrow>
      (case stream_end commit z vd v' store of (r, store') \<Rightarrow> (r, s', store')))"
  using assms
proof (induction ops arbitrary: v s)
  case Nil
  then show ?case by (auto simp: apply_recv_def verdict_ack_def stream_end_def split: prod.splits)
next
  case (Cons op ops)
  obtain vd v1 s1 where a: "ap_op sid op v s = (vd, v1, s1)" by (metis prod_cases3)
  have "av_bound v1 \<noteq> None" using ap_op_bound[OF a] Cons.prems by simp
  then show ?case
    using Cons a by (cases vd) (simp_all add: apply_recv_def ap_bind_bound verdict_ack_def stream_end_def split: prod.splits)
qed

lemma sendAck_store:
  assumes "av_bound v = Some (k, pf, ident)" and "sendAck commit q e v store = (r, store')"
  shows "store' = snd (wm_Advance commit k (av_committed v) store) \<and>
    (\<forall>a. r = Inr a \<longrightarrow> aa_Watermark a = av_committed v \<and> aa_FailedSeq a = q \<and> aa_Fserr a = e \<and>
       (\<exists>rc. wm_Get store' k = Inr rc \<and> av_committed v \<le> wr_Watermark rc))"
  using assms bbolt.adv_then_watermark[of commit k "av_committed v" store]
  by (auto simp: sendAck_def Let_def split: prod.splits sum.splits)

lemma watermark_of_advance:
  "(case wm_Get db k of Inl e \<Rightarrow> 0 | Inr r \<Rightarrow> wr_Watermark r) \<le>
   (case wm_Get (snd (wm_Advance commit k w db)) k of Inl e \<Rightarrow> 0 | Inr r \<Rightarrow> wr_Watermark r)"
proof (cases "wm_Advance commit k w db")
  case (Pair res db')
  show ?thesis
  proof (cases res)
    case (Inl e)
    then show ?thesis using bbolt.adv_err[of commit k w db e db'] Pair by simp
  next
    case (Inr u)
    then show ?thesis using bbolt.adv_ok[of commit k w db u db'] Pair by (auto split: sum.splits)
  qed
qed

definition stream_ok :: "WalOp list \<Rightarrow> apply_error + ApplyAck \<Rightarrow> u64 \<Rightarrow> bool" where
  "stream_ok ws res durable \<longleftrightarrow> (\<forall>a. res = Inr a \<longrightarrow> aa_Watermark a \<le> durable \<and>
     (seqs_increasing ws \<longrightarrow> (\<forall>w \<in> set ws. aa_FailedSeq a = 0 \<or> wo_Seq w < aa_FailedSeq a \<longrightarrow> wo_Seq w \<le> aa_Watermark a)))"

lemma stream_ok_Inl [simp]: "stream_ok ws (Inl e) d"
  by (simp add: stream_ok_def)

lemma stream_end_ok:
  assumes "av_bound v = Some (k, pf, ident)" and "ap_ops sid ops v s = (vd, v', s')"
    and "stream_end commit z vd v' store = (res, store')" and "z = RvEOF \<Longrightarrow> rest = []"
  shows "(store' = store \<or> store' = snd (wm_Advance commit k (av_committed v') store)) \<and>
    stream_ok (ops @ rest) res (case wm_Get store' k of Inl e \<Rightarrow> 0 | Inr r \<Rightarrow> wr_Watermark r)"
proof -
  note c = ap_ops_committed[OF assms(1,2)]
  have b: "av_bound v' = Some (k, pf, ident)" using c by simp
  show ?thesis
  proof (cases vd)
    case Continue
    show ?thesis
    proof (cases "z = RvEOF")
      case True
      then have "sendAck commit 0 FS_OK v' store = (res, store')" using assms(3) Continue by (simp add: stream_end_def verdict_ack_def)
      note a = sendAck_store[OF b this]
      show ?thesis using a c Continue True assms(4) by (auto simp: stream_ok_def split: sum.splits)
    next
      case False
      then show ?thesis using assms(3) Continue by (auto simp: stream_end_def)
    qed
  next
    case (Halt q e)
    then have "sendAck commit q e v' store = (res, store')" using assms(3) by (simp add: stream_end_def verdict_ack_def)
    note a = sendAck_store[OF b this]
    obtain x where x: "x \<in> set ops" "wo_Seq x = q" using c Halt by auto
    have "wo_Seq w \<le> av_committed v'" if "seqs_increasing (ops @ rest)" "w \<in> set (ops @ rest)" "wo_Seq w < q" for w
    proof (cases "w \<in> set ops")
      case True
      have "seqs_increasing ops" using that(1) by (simp add: sorted_wrt_append)
      then show ?thesis using c Halt that(3) True by auto
    next
      case False
      then have "q < wo_Seq w" using that(1,2) x by (auto simp: sorted_wrt_append)
      then show ?thesis using that(3) by simp
    qed
    then show ?thesis using a c Halt by (auto simp: stream_ok_def split: sum.splits)
  qed
qed

lemma apply_loop_first:
  assumes "sent_by vol caller epoch op" and "z = RvEOF \<or> z = RvErr"
    and "apply_loop bind commit sid (map RvOp (op # ops) @ [z]) (ap_init, s, db) = (res, s', db')"
    and "z = RvEOF \<Longrightarrow> rest = []"
  shows "durable_of bind vol caller epoch (Some db) \<le> durable_of bind vol caller epoch (Some db') \<and>
    stream_ok (op # ops @ rest) res (durable_of bind vol caller epoch (Some db'))"
proof (cases "bind vol caller")
  case None
  then have "ap_bind bind op ap_init db = Inl BindFailed" using assms(1) by (simp add: ap_bind_def ap_init_def sent_by_def)
  then show ?thesis using assms(3) by (auto simp: apply_recv_def)
next
  case (Some b)
  obtain pf ident where b: "bind vol caller = Some (pf, ident)" using Some by (cases b) auto
  let ?k = "stream_key ident vol epoch"
  show ?thesis
  proof (cases "wm_Get db ?k")
    case (Inl e)
    then have "ap_bind bind op ap_init db = Inl (GetFailed e)"
      using assms(1) b by (simp add: ap_bind_def ap_init_def sent_by_def stream_key_def Let_def)
    then show ?thesis using assms(3) by (auto simp: apply_recv_def)
  next
    case (Inr r)
    let ?v = "bound_vars pf ident ?k r"
    have bv: "av_bound ?v = Some (?k, pf, ident)" by (simp add: bound_vars_def)
    have "ap_bind bind op ap_init db = Inr ?v" "ap_bind bind op ?v db = Inr ?v"
      using assms(1) b Inr by (simp_all add: ap_bind_def ap_init_def sent_by_def stream_key_def bound_vars_def Let_def)
    then have "apply_loop bind commit sid (map RvOp (op # ops) @ [z]) (?v, s, db) = (res, s', db')"
      using assms(3) by (simp add: apply_recv_def split: prod.splits)
    then have l: "(case ap_ops sid (op # ops) ?v s of (vd, v', s1) \<Rightarrow>
      (case stream_end commit z vd v' db of (r, store') \<Rightarrow> (r, s1, store'))) = (res, s', db')"
      using apply_loop_end[of ?v z bind commit sid "op # ops" s db] assms(2) bv by simp
    obtain vd v' s1 where a: "ap_ops sid (op # ops) ?v s = (vd, v', s1)" by (metis prod_cases3)
    have e: "stream_end commit z vd v' db = (res, db')" using l a by (auto split: prod.splits)
    note se = stream_end_ok[OF bv a e assms(4)]
    have d: "durable_of bind vol caller epoch (Some d) = (case wm_Get d ?k of Inl e \<Rightarrow> 0 | Inr r \<Rightarrow> wr_Watermark r)" for d
      using b by (simp add: durable_of_def)
    show ?thesis using se watermark_of_advance[of db ?k commit "av_committed v'"] unfolding d by auto
  qed
qed

lemma Apply_stream:
  assumes "\<forall>w \<in> set ws. sent_by vol caller epoch w"
    and "Apply bind sess_ok commit sid (received brk ws) s store = (res, s', store')"
  shows "durable_of bind vol caller epoch store \<le> durable_of bind vol caller epoch store' \<and>
    (ws \<noteq> [] \<longrightarrow> stream_ok ws res (durable_of bind vol caller epoch store'))"
proof (cases "sid = '''' \<or> \<not> sess_ok sid \<or> store = None")
  case True
  then show ?thesis using assms(2) by (auto simp: Apply_def split: if_splits)
next
  case False
  then obtain db where db: "store = Some db" by auto
  define ops where "ops = (case brk of None \<Rightarrow> ws | Some n \<Rightarrow> take n ws)"
  define rest where "rest = (case brk of None \<Rightarrow> [] | Some n \<Rightarrow> drop n ws)"
  define z where "z = (case brk of None \<Rightarrow> RvEOF | Some n \<Rightarrow> RvErr)"
  have ws: "ws = ops @ rest" by (simp add: ops_def rest_def split: option.splits)
  have z: "z = RvEOF \<or> z = RvErr" "z = RvEOF \<Longrightarrow> rest = []" by (auto simp: z_def rest_def split: option.splits)
  have rv: "received brk ws = map RvOp ops @ [z]" by (simp add: received_def ops_def z_def split: option.splits)
  obtain db' where l: "apply_loop bind commit sid (map RvOp ops @ [z]) (ap_init, s, db) = (res, s', db')" "store' = Some db'"
    using assms(2) False db rv by (auto simp: Apply_def split: prod.splits)
  show ?thesis
  proof (cases ops)
    case Nil
    then have "db' = db \<and> (z = RvErr \<longrightarrow> (\<exists>e. res = Inl e))"
      using l(1) z(1) by (auto simp: apply_recv_def sendAck_def ap_init_def Let_def split: recv.splits)
    then show ?thesis using Nil ws z db l(2) by auto
  next
    case (Cons op tl)
    have "sent_by vol caller epoch op" using assms(1) ws Cons by simp
    from apply_loop_first[OF this z(1) l(1)[unfolded Cons] z(2)]
    show ?thesis using db l(2) ws Cons by simp
  qed
qed

lemma server_stream_law:
  assumes "\<forall>w \<in> set ws. sent_by vol caller epoch w" and "server_stream bind sess_ok sid ws w = (r, w')"
  shows "durable_upto bind vol caller epoch w \<le> durable_upto bind vol caller epoch w' \<and>
    (ws \<noteq> [] \<longrightarrow> (\<forall>a. r = StreamAck a \<longrightarrow> stream_ok ws (Inr a) (durable_upto bind vol caller epoch w')))"
proof (cases "aw_fates w")
  case Nil
  then show ?thesis using assms(2) by (auto simp: server_stream_def)
next
  case (Cons f fs)
  show ?thesis
  proof (cases "sf_open f")
    case False
    then show ?thesis using assms(2) Cons by (auto simp: server_stream_def)
  next
    case True
    obtain res s1 db1 where a: "Apply bind sess_ok (sf_commit f) sid (received (sf_cut f) ws) (aw_srv w) (aw_db w) = (res, s1, db1)"
      by (metis prod_cases3)
    note st = Apply_stream[OF assms(1) a]
    have "aw_db w' = db1" "\<forall>a. r = StreamAck a \<longrightarrow> res = Inr a"
      using assms(2) Cons True a by (auto simp: server_stream_def split: sum.splits if_splits)
    then show ?thesis using st by auto
  qed
qed

interpretation sv: apply_service "server_stream bind sess_ok sid" "sent_by vol caller epoch" "durable_upto bind vol caller epoch"
  for bind :: "'fs idbind" and sess_ok sid vol caller epoch
proof (unfold_locales, goal_cases)
  case (1 ws s a s')
  then show ?case using server_stream_law by (fastforce simp: stream_ok_def)
next
  case (2 ws s a s' w)
  then have "ws \<noteq> []" by auto
  then show ?case using 2 server_stream_law[OF 2(1,3)] by (auto simp: stream_ok_def)
next
  case (3 ws s r s')
  then show ?case using server_stream_law by blast
qed

end
