(* ===== verification/Wal_Recovery.thy ===== *)
theory Wal_Recovery
  imports Wal_Service
begin

text \<open>
  The overlay and the log of a coordinator belong together: the overlay is what the operations that are
  still in the log amount to.  The statement leaves out what depends on the moment an operation is
  applied to the overlay (times, versions and provisional inode numbers), which the code assigns
  anew when it rebuilds the overlay after a flush or a crash.
\<close>

section \<open>The view of an overlay\<close>

definition node_view :: "overlayNode \<Rightarrow> overlayNode" where
  "node_view n = n\<lparr>on_ino := 0, on_atime := 0, on_mtime := 0, on_ctime := 0, on_atimeNsec := 0, on_mtimeNsec := 0, on_version := 0\<rparr>"

definition nodes_view :: "(path, overlayNode) gomap \<Rightarrow> (path, overlayNode) gomap" where
  "nodes_view m = map (apsnd node_view) m"

definition ov_view :: "Overlay \<Rightarrow> Overlay" where
  "ov_view ov = \<lparr>ov_nodes = nodes_view (ov_nodes ov), ov_nextIno = 0\<rparr>"

lemma node_view_idem [simp]: "node_view (node_view n) = node_view n"
  by (simp add: node_view_def)

lemma node_view_simps [simp]:
  "on_mode (node_view n) = on_mode n" "on_uid (node_view n) = on_uid n" "on_gid (node_view n) = on_gid n"
  "on_data (node_view n) = on_data n" "on_intervals (node_view n) = on_intervals n" "on_target (node_view n) = on_target n"
  "on_xattrs (node_view n) = on_xattrs n" "on_xattrRemoved (node_view n) = on_xattrRemoved n"
  "on_tomb (node_view n) = on_tomb n" "on_baseDelta (node_view n) = on_baseDelta n" "on_valid (node_view n) = on_valid n"
  by (simp_all add: node_view_def)

lemma node_view_iff:
  "node_view n = node_view m \<longleftrightarrow> on_mode n = on_mode m \<and> on_uid n = on_uid m \<and> on_gid n = on_gid m \<and> on_data n = on_data m \<and>
    on_intervals n = on_intervals m \<and> on_target n = on_target m \<and> on_xattrs n = on_xattrs m \<and> on_xattrRemoved n = on_xattrRemoved m \<and>
    on_tomb n = on_tomb m \<and> on_baseDelta n = on_baseDelta m \<and> on_valid n = on_valid m"
  by (cases n; cases m) (auto simp: node_view_def)

lemma view_get [simp]: "gm_get (nodes_view m) p = map_option node_view (gm_get m p)"
  by (induction m) (auto simp: nodes_view_def)

lemma view_put [simp]: "nodes_view (gm_put p n m) = gm_put p (node_view n) (nodes_view m)"
  by (induction m) (auto simp: nodes_view_def)

lemma view_touch [simp]: "node_view (touch now n) = node_view n"
  by (simp add: node_view_def touch_def)

lemma view_tomb [simp]: "node_view (tombNode now) = tombNode 0"
  by (simp add: node_view_def tombNode_def zero_node_def)

lemma view_empty [simp]: "nodes_view [] = []"
  by (simp add: nodes_view_def)

lemma ov_view_eq: "ov_view a = ov_view b \<longleftrightarrow> nodes_view (ov_nodes a) = nodes_view (ov_nodes b)"
  by (simp add: ov_view_def)

lemma view_get_eq:
  assumes "nodes_view m = nodes_view m'" shows "map_option node_view (gm_get m p) = map_option node_view (gm_get m' p)"
  using assms view_get by metis

lemma view_None:
  assumes "nodes_view m = nodes_view m'" shows "gm_get m p = None \<longleftrightarrow> gm_get m' p = None"
  using view_get_eq[OF assms, of p] by (cases "gm_get m p"; cases "gm_get m' p") simp_all

section \<open>Operations respect the view\<close>

lemma view_live_node:
  assumes "ov_view a = ov_view b" and "live_node t p a = (n, a')" and "live_node u p b = (m, b')"
  shows "node_view n = node_view m \<and> ov_view a' = ov_view b'"
proof -
  have g: "map_option node_view (gm_get (ov_nodes a) p) = map_option node_view (gm_get (ov_nodes b) p)"
    using assms(1) by (intro view_get_eq) (simp add: ov_view_eq)
  have f: "node_view (fst (newBaseDeltaNode x o1)) = zero_node\<lparr>on_baseDelta := True\<rparr> \<and>
      ov_nodes (snd (newBaseDeltaNode x o1)) = ov_nodes o1" for x o1
    by (simp add: newBaseDeltaNode_def allocIno_def node_view_def zero_node_def)
  show ?thesis
  proof (cases "gm_get (ov_nodes a) p")
    case None
    then have "gm_get (ov_nodes b) p = None" using g by simp
    then show ?thesis using None assms f[of t a] f[of u b] by (auto simp: live_node_def ov_view_eq)
  next
    case (Some x)
    then obtain y where y: "gm_get (ov_nodes b) p = Some y" "node_view x = node_view y"
      using g by (cases "gm_get (ov_nodes b) p") (simp_all del: map_of_eq_Some_iff)
    have tomb: "on_tomb x = on_tomb y" using arg_cong[OF y(2), of on_tomb] by simp
    show ?thesis
    proof (cases "on_tomb x")
      case True
      then show ?thesis using Some y tomb assms f[of t a] f[of u b] by (auto simp: live_node_def ov_view_eq)
    next
      case False
      then show ?thesis using Some y tomb assms by (auto simp: live_node_def)
    qed
  qed
qed

text \<open>An operation on one node: it suffices that the update of the node respects the view.\<close>

lemma view_on_node:
  assumes "ov_view a = ov_view b" and "\<And>n m. node_view n = node_view m \<Longrightarrow> node_view (f n) = node_view (g m)"
  shows "ov_view (case live_node t p a of (n, a') \<Rightarrow> set_node p (f n) a') = ov_view (case live_node u p b of (n, b') \<Rightarrow> set_node p (g n) b')"
proof -
  obtain n a' where a: "live_node t p a = (n, a')" by fastforce
  obtain m b' where b: "live_node u p b = (m, b')" by fastforce
  show ?thesis using view_live_node[OF assms(1) a b] assms(2)[of n m] a b by (simp add: ov_view_eq)
qed

lemma view_write:
  "node_view n = node_view m \<Longrightarrow>
   node_view (touch t (addInterval s e (n\<lparr>on_data := d (on_data n)\<rparr>))) = node_view (touch u (addInterval s e (m\<lparr>on_data := d (on_data m)\<rparr>)))"
  by (simp add: addInterval_def node_view_iff)

lemma view_sa_step:
  "node_view n = node_view m \<Longrightarrow> node_view (f n) = node_view (f m) \<Longrightarrow> node_view (sa_step v b f n) = node_view (sa_step v b f m)"
  by (simp add: sa_step_def node_view_iff)

lemma view_set_size: "node_view n = node_view m \<Longrightarrow> node_view (set_node_size k n) = node_view (set_node_size k m)"
  by (simp add: set_node_size_def clampIntervals_def node_view_iff)

lemma view_setattr:
  assumes "node_view n = node_view m" shows "node_view (node_setattr t op n) = node_view (node_setattr u op m)"
proof -
  have fin: "node_view (x\<lparr>on_ctime := t, on_version := on_version x + 1\<rparr>) = node_view x" for x t
    by (simp add: node_view_def)
  have upd: "node_view x = node_view y \<Longrightarrow> node_view (x\<lparr>on_uid := a\<rparr>) = node_view (y\<lparr>on_uid := a\<rparr>)"
    "node_view x = node_view y \<Longrightarrow> node_view (x\<lparr>on_gid := a\<rparr>) = node_view (y\<lparr>on_gid := a\<rparr>)"
    "node_view x = node_view y \<Longrightarrow> node_view (x\<lparr>on_mode := on_mode x AND a OR b\<rparr>) = node_view (y\<lparr>on_mode := on_mode y AND a OR b\<rparr>)"
    "node_view x = node_view y \<Longrightarrow> node_view (x\<lparr>on_atime := i, on_atimeNsec := a\<rparr>) = node_view (y\<lparr>on_atime := i, on_atimeNsec := a\<rparr>)"
    "node_view x = node_view y \<Longrightarrow> node_view (x\<lparr>on_mtime := i, on_mtimeNsec := a\<rparr>) = node_view (y\<lparr>on_mtime := i, on_mtimeNsec := a\<rparr>)"
    for x y a b i by (simp_all add: node_view_iff)
  show ?thesis unfolding node_setattr_def Let_def fin
    by (intro view_sa_step upd view_set_size assms)
qed

lemma view_new_node:
  assumes "ov_view a = ov_view b" and "node_view n = node_view m" and "ov_nodes a' = ov_nodes a" and "ov_nodes b' = ov_nodes b"
  shows "ov_view (set_node p n a') = ov_view (set_node p m b')"
  using assms by (simp add: ov_view_eq)

lemma view_keys: "nodes_view m = nodes_view m' \<Longrightarrow> map fst m = map fst m'"
proof -
  have "map fst (nodes_view x) = map fst x" for x by (simp add: nodes_view_def)
  then show "nodes_view m = nodes_view m' \<Longrightarrow> map fst m = map fst m'" by metis
qed

lemma map_filter_keys: "List.map_filter (\<lambda>(p, n). f p) xs = List.map_filter f (map fst xs)"
  by (induction xs) (auto simp: List.map_filter_simps split: option.splits)

lemma view_rename_move:
  assumes "nodes_view m = nodes_view m'"
  shows "nodes_view (rename_move t mv m) = nodes_view (rename_move u mv m')"
proof (cases "gm_get m (fst mv)")
  case None
  then show ?thesis using view_get_eq[OF assms, of "fst mv"] assms by (simp add: rename_move_def)
next
  case (Some x)
  then obtain y where y: "gm_get m' (fst mv) = Some y" "node_view x = node_view y"
    using view_get_eq[OF assms, of "fst mv"] by (cases "gm_get m' (fst mv)") (simp_all del: map_of_eq_Some_iff)
  then have "on_tomb x = on_tomb y" by (simp add: node_view_iff)
  then show ?thesis using Some y assms by (auto simp: rename_move_def)
qed

lemma view_rename_fold:
  "nodes_view m = nodes_view m' \<Longrightarrow> nodes_view (fold (rename_move t) mvs m) = nodes_view (fold (rename_move u) mvs m')"
proof (induction mvs arbitrary: m m')
  case (Cons mv mvs)
  show ?case unfolding fold_simps by (intro Cons.IH view_rename_move Cons.prems)
qed simp

lemma view_rename:
  assumes "ov_view a = ov_view b" shows "ov_view (ov_applyRename t op a) = ov_view (ov_applyRename u op b)"
proof -
  let ?mv = "\<lambda>ov. List.map_filter (\<lambda>(p, n). map_option (\<lambda>q. (p, q)) (rename_key (op_Path op) (op_NewPath op) p)) (ov_nodes ov)"
  have n: "nodes_view (ov_nodes a) = nodes_view (ov_nodes b)" using assms by (simp add: ov_view_eq)
  have "?mv a = ?mv b" unfolding map_filter_keys view_keys[OF n] ..
  then have f: "nodes_view (fold (rename_move t) (?mv a) (ov_nodes a)) = nodes_view (fold (rename_move u) (?mv b) (ov_nodes b))"
    using view_rename_fold[OF n] by simp
  have "gm_get (fold (rename_move t) (?mv a) (ov_nodes a)) (op_Path op) = None \<longleftrightarrow>
      gm_get (fold (rename_move u) (?mv b) (ov_nodes b)) (op_Path op) = None"
    by (rule view_None[OF f])
  then show ?thesis using f by (simp add: ov_view_eq ov_applyRename_def Let_def)
qed

lemma view_Apply:
  assumes "ov_view a = ov_view b" shows "ov_view (ov_Apply t op a) = ov_view (ov_Apply u op b)"
proof (cases "op_Kind op")
  case OpCreate
  then show ?thesis using assms
    by (simp add: ov_Apply_def ov_applyCreate_def newFileNode_def allocIno_def Let_def ov_view_eq node_view_def zero_node_def)
next
  case OpMkdir
  then show ?thesis using assms
    by (simp add: ov_Apply_def ov_applyMkdir_def newDirNode_def allocIno_def Let_def ov_view_eq node_view_def zero_node_def)
next
  case OpSymlink
  then show ?thesis using assms
    by (simp add: ov_Apply_def ov_applySymlink_def allocIno_def ov_view_eq node_view_def zero_node_def)
next
  case OpWrite
  show ?thesis unfolding ov_Apply_def OpWrite OpKind.simps ov_applyWrite_def Let_def
    by (intro view_on_node assms view_write[where d = "\<lambda>d. copy_at (op_Offset op) (op_Data op) (grow (op_Offset op + length (op_Data op)) d)"])
next
  case OpSetAttr
  show ?thesis unfolding ov_Apply_def OpSetAttr OpKind.simps ov_applySetAttr_def
    by (intro view_on_node assms view_setattr)
next
  case OpSetXAttr
  show ?thesis unfolding ov_Apply_def OpSetXAttr OpKind.simps ov_applySetXAttr_def
    by (intro view_on_node assms) (simp add: node_view_iff)
next
  case OpRemoveXAttr
  show ?thesis unfolding ov_Apply_def OpRemoveXAttr OpKind.simps ov_applyRemoveXAttr_def
    by (intro view_on_node assms) (simp add: node_view_iff)
next
  case OpRename
  show ?thesis unfolding ov_Apply_def OpRename OpKind.simps by (rule view_rename[OF assms])
qed (use assms in \<open>simp_all add: ov_Apply_def ov_applyDelete_def ov_view_eq\<close>)

lemma view_fold: "ov_view a = ov_view b \<Longrightarrow> ov_view (fold (ov_Apply t) ops a) = ov_view (fold (ov_Apply u) ops b)"
proof (induction ops arbitrary: a b)
  case (Cons op ops)
  show ?case unfolding fold_simps by (intro Cons.IH view_Apply Cons.prems)
qed simp

text \<open>The sequence number of an operation does not matter to the overlay.\<close>

lemma Apply_seq: "ov_Apply t (op\<lparr>op_Seq := q\<rparr>) ov = ov_Apply t op ov"
proof -
  have "node_setattr t (op\<lparr>op_Seq := q\<rparr>) n = node_setattr t op n" for n by (simp add: node_setattr_def Let_def)
  then show ?thesis
    by (cases "op_Kind op") (simp_all add: ov_Apply_def ov_applyCreate_def ov_applyMkdir_def ov_applyWrite_def ov_applyDelete_def
      ov_applyRename_def ov_applySetAttr_def ov_applySymlink_def ov_applySetXAttr_def ov_applyRemoveXAttr_def Let_def)
qed

section \<open>Runs of a coordinator\<close>

text \<open>The atomic steps: the locked part of a record, the treatment of an acknowledgement, and a crash followed by
  opening the file again.  Records interleave freely with the acknowledgements of a flush in progress.\<close>

definition remount :: "int \<Rightarrow> string \<Rightarrow> flushConfig \<Rightarrow> BboltLog \<Rightarrow> Coordinator" where
  "remount now uuid cfg l = snd (RebuildOverlay now (NewCoordinator cfg (log_Open uuid (log_Close l)) NewOverlay))"

inductive co_step :: "Coordinator \<Rightarrow> Coordinator \<Rightarrow> bool" where
  record_op: "record_locked commit now mgr op c = (r, c') \<Longrightarrow> unat (loadHiSeq (co_log c)) + 1 < 2 ^ 64 \<Longrightarrow> co_step c c'"
| ack: "processAck env reason r sent c = (e, c') \<Longrightarrow> co_step c c'"
| crash: "co_step c (remount now uuid cfg (co_log c))"

inductive co_reach :: "Coordinator \<Rightarrow> bool" where
  mount: "log_wf l \<Longrightarrow> co_reach (remount now uuid cfg l)"
| step: "co_reach c \<Longrightarrow> co_step c c' \<Longrightarrow> co_reach c'"

definition pending_overlay :: "BboltLog \<Rightarrow> Overlay" where
  "pending_overlay l = fold (ov_Apply 0) (log_pending l) NewOverlay"

definition mirrors :: "Coordinator \<Rightarrow> bool" where
  "mirrors c \<longleftrightarrow> log_wf (co_log c) \<and> log_opened (co_log c) \<and> ov_view (co_overlay c) = ov_view (pending_overlay (co_log c))"

lemma remount_log: "co_log (remount now uuid cfg l) = log_Open uuid (log_Close l)"
  by (simp add: remount_def RebuildOverlay_def NewCoordinator_def split: sum.splits)

lemma remount_mirrors: "log_wf l \<Longrightarrow> mirrors (remount now uuid cfg l)"
proof -
  assume w: "log_wf l"
  let ?l = "log_Open uuid (log_Close l)"
  note o = bl.reopen_law[OF w, of uuid]
  then have "log_Replay 0 ?l = Inr (log_pending ?l)" by (simp add: bl.replay_all)
  then have "co_overlay (remount now uuid cfg l) = fold (ov_Apply now) (log_pending ?l) NewOverlay"
    by (simp add: remount_def RebuildOverlay_def NewCoordinator_def)
  then show ?thesis using o view_fold[OF refl, of now _ NewOverlay 0] by (simp add: mirrors_def remount_log pending_overlay_def)
qed

lemma commitFlushed_mirrors:
  assumes "mirrors c" shows "mirrors (commitFlushed env q c)"
proof -
  obtain r l1 where t: "log_Truncate (fe_truncate env q) q (co_log c) = (r, l1)" by fastforce
  define l where "l = (if q > 0 then l1 else co_log c)"
  have l: "log_wf l" "log_opened l" using assms bl.trunc_law[OF _ t] by (auto simp: mirrors_def l_def)
  have "ov_view (fold (ov_Apply t') ops (ov\<lparr>ov_nodes := [], ov_nextIno := 1\<rparr>)) = ov_view (fold (ov_Apply 0) ops NewOverlay)"
    for t' ops ov by (rule view_fold) (simp add: NewOverlay_def ov_view_eq)
  then have v: "ov_view (ov_Reset t' ops ov) = ov_view (fold (ov_Apply 0) ops NewOverlay)" for t' ops ov by (simp add: ov_Reset_def)
  have "(if q > 0 then snd (log_Truncate (fe_truncate env q) q (co_log c)) else co_log c) = l" by (simp add: l_def t)
  then show ?thesis using l bl.replay_all[OF l(2)]
    unfolding commitFlushed_def by (simp add: mirrors_def pending_overlay_def v)
qed

lemma record_mirrors:
  assumes "mirrors c" and "record_locked commit now mgr op c = (r, c')" and "unat (loadHiSeq (co_log c)) + 1 < 2 ^ 64"
  shows "mirrors c'"
proof -
  define op' where "op' = op\<lparr>op_Gen := GenFor mgr (op_Path op)\<rparr>"
  obtain a l where ap: "log_Append commit op' (co_log c) = (a, l)" by fastforce
  show ?thesis
  proof (cases "co_log c' = co_log c \<and> co_overlay c' = co_overlay c")
    case True
    then show ?thesis using assms(1) by (simp add: mirrors_def)
  next
    case False
    then obtain q where q: "a = Inr q" "c' = c\<lparr>co_log := l, co_overlay := ov_Apply now op' (co_overlay c)\<rparr>"
      using assms(2) ap bl.app_err[of commit op' "co_log c" _ l]
      by (auto simp: record_locked_def Let_def op'_def[symmetric] split: if_splits sum.splits)
    have l: "log_wf l" "log_opened l" "log_pending l = log_pending (co_log c) @ [op'\<lparr>op_Seq := q\<rparr>]"
      using bl.app_ok[OF _ assms(3) ap[unfolded q(1)]] assms(1) by (auto simp: mirrors_def)
    have "ov_view (ov_Apply now op' (co_overlay c)) = ov_view (ov_Apply 0 op' (pending_overlay (co_log c)))"
      using assms(1) by (intro view_Apply) (simp add: mirrors_def)
    then show ?thesis using l q(2) by (simp add: mirrors_def pending_overlay_def Apply_seq)
  qed
qed

lemma processAck_mirrors:
  assumes "mirrors c" and "processAck env reason r sent c = (e, c')" shows "mirrors c'"
proof -
  have f: "mirrors (onFlushed sent c)" using assms(1) by (simp add: mirrors_def)
  have "mirrors (commitFlushed env q (onFlushed sent c))" for q by (rule commitFlushed_mirrors[OF f])
  then show ?thesis using assms f by (auto simp: processAck_def mirrors_def Let_def split: sum.splits if_splits)
qed

lemma reach_mirrors: "co_reach c \<Longrightarrow> mirrors c"
proof (induction rule: co_reach.induct)
  case (step c c')
  from step.hyps(2) show ?case
  proof cases
    case (record_op commit now mgr op r)
    then show ?thesis using record_mirrors[OF step.IH] by blast
  next
    case (ack env reason r sent e)
    then show ?thesis using processAck_mirrors[OF step.IH] by blast
  next
    case (crash now uuid cfg)
    then show ?thesis using remount_mirrors step.IH by (simp add: mirrors_def)
  qed
qed (rule remount_mirrors)

section \<open>Properties\<close>

text \<open>C4: the overlay is exactly what the durable log still holds.  However records, acknowledgements of flushes
  (successful, halted, with failing truncations) and crashes interleave, the overlay equals, up to
  times, versions and provisional inode numbers, the result of applying the pending operations of the
  log to an empty overlay; so a process that crashes and mounts again shows the same pending state as
  before the crash.\<close>

theorem overlay_mirrors_log:
  assumes "co_reach c"
  shows "ov_view (co_overlay c) = ov_view (pending_overlay (co_log c)) \<and>
    ov_view (co_overlay (remount now uuid cfg (co_log c))) = ov_view (co_overlay c)"
proof -
  have m: "mirrors c" by (rule reach_mirrors[OF assms])
  then have "mirrors (remount now uuid cfg (co_log c))" by (intro remount_mirrors) (simp add: mirrors_def)
  moreover have "log_pending (log_Open uuid (log_Close (co_log c))) = log_pending (co_log c)"
    using m bl.reopen_law[of "co_log c" uuid] by (simp add: mirrors_def)
  ultimately show ?thesis using m by (simp add: mirrors_def remount_log pending_overlay_def)
qed

definition ex_cfg :: flushConfig where
  "ex_cfg = \<lparr>fc_volume = ''v'', fc_caller = None, fc_applyFactory = True, fc_capOps = 0, fc_maxApplyOps = 0, fc_maxApplyBytes = 0\<rparr>"

definition ex_log :: BboltLog where
  "ex_log = snd (log_Append True ex_wop (log_Open ''e'' empty_file))"

lemma ex_log_eq: "ex_log = (log_Open ''e'' empty_file)\<lparr>bl_ops := [(1, JsonOp (ex_wop\<lparr>op_Seq := 1\<rparr>))], bl_hi := Some 1\<rparr>"
  by (simp add: ex_log_def log_Append_def log_Open_def empty_file_def nextSeq_def loadHiSeq_def Let_def)

lemma ex_log_ok: "log_wf ex_log" "log_opened ex_log" "log_pending ex_log = [ex_wop\<lparr>op_Seq := 1\<rparr>]" "bl_epoch ex_log = ''e''"
  by (auto simp: ex_log_eq log_wf_def log_opened_def log_pending_def log_Open_def empty_file_def loadHiSeq_def ex_wop_def)

theorem overlay_mirrors_log_witness:
  "ReadMerge (pending_overlay ex_log) ''d/f'' 0 [1, 2] = [7, 2] \<and>
   ov_view (co_overlay (remount 5 ''u'' ex_cfg ex_log)) = ov_view (pending_overlay ex_log)"
proof -
  have r: "co_reach (remount 0 ''u'' ex_cfg ex_log)" by (rule co_reach.mount[OF ex_log_ok(1)])
  have l: "co_log (remount 0 ''u'' ex_cfg ex_log) = ex_log"
    by (simp add: remount_log ex_log_eq log_Open_def log_Close_def empty_file_def)
  show ?thesis using overlay_mirrors_log[OF r, of 5 "''u''" ex_cfg] unfolding l
    by (simp add: pending_overlay_def ex_log_ok ReadMerge_def ov_Apply_def ov_applyWrite_def live_node_def newBaseDeltaNode_def
      allocIno_def NewOverlay_def zero_node_def addInterval_def ex_wop_def grow_def copy_at_def touch_def merge_interval_def Let_def)
qed

section \<open>Flushing end to end\<close>

text \<open>C3: no operation disappears silently.  Whatever the network does to the streams of a flush (refused,
  broken after any message, answer lost) and whatever the server answers, every operation that was in
  the log is afterwards still in the log, covered by the watermark that is durable at the server, or
  part of a reported loss; a flush without an error leaves all operations up to its bound durable.  The
  client's own watermark never runs ahead of the durable one.\<close>

theorem flush_loses_nothing_silently:
  assumes "log_wf (co_log c)" and "log_opened (co_log c)" and "fc_volume (co_cfg c) \<noteq> ''''"
    and "durable = durable_upto bind (fc_volume (co_cfg c)) (fc_caller (co_cfg c)) (bl_epoch (co_log c))"
    and "co_watermark c \<le> durable w"
    and "Flush env (server_stream bind sess_ok sid) q c w = Some (e, c', w')"
  shows "(\<forall>op \<in> set (log_pending (co_log c)). accounted (durable w') op c') \<and>
    (e = None \<longrightarrow> (\<forall>op \<in> set (log_pending (co_log c)). op_Seq op \<le> q \<longrightarrow> op_Seq op \<le> durable w')) \<and>
    durable w \<le> durable w' \<and> co_watermark c' \<le> durable w'"
proof -
  have "speaks (sent_by (fc_volume (co_cfg c)) (fc_caller (co_cfg c)) (bl_epoch (co_log c))) c"
    using opToWalOp_sent_by[OF assms(3)] by (simp add: speaks_def)
  from sv.flush_accounts[OF assms(6,1,2) this assms(5)[unfolded assms(4)]]
  show ?thesis unfolding assms(4) by (auto simp: accounted_def)
qed

text \<open>C23: recovery after a crash loses nothing silently either: after the startup replay of the whole log every
  operation is still in the log, durable at the server, or reported lost.\<close>

theorem startup_replay_loses_nothing_silently:
  assumes "log_wf l" and "fc_volume cfg \<noteq> ''''" and "c = remount now uuid cfg l"
    and "durable = durable_upto bind (fc_volume cfg) (fc_caller cfg) (bl_epoch (co_log c))"
    and "co_Replay env (server_stream bind sess_ok sid) 0 c w = (e, c', w')"
  shows "(\<forall>op \<in> set (log_pending l). accounted (durable w') op c') \<and>
    (e = None \<longrightarrow> (\<forall>op \<in> set (log_pending l). op_Seq op \<le> durable w'))"
proof -
  note o = bl.reopen_law[OF assms(1), of uuid]
  have l: "co_log c = log_Open uuid (log_Close l)" "co_cfg c = cfg"
    by (simp_all add: assms(3) remount_log) (simp add: remount_def RebuildOverlay_def NewCoordinator_def split: sum.splits)
  then have "speaks (sent_by (fc_volume cfg) (fc_caller cfg) (bl_epoch (co_log c))) c"
    using opToWalOp_sent_by[OF assms(2)] by (simp add: speaks_def)
  from sv.replay_accounts[OF assms(5) _ _ this] show ?thesis using o unfolding assms(4) by (auto simp: accounted_def l)
qed

section \<open>The size of a stream\<close>

definition traced :: "'s stream \<Rightarrow> ('s \<times> WalOp list list) stream" where
  "traced strm ws st = (case strm ws (fst st) of (r, s') \<Rightarrow> (r, s', snd st @ [ws]))"

abbreviation wire :: "Coordinator \<Rightarrow> Op \<Rightarrow> WalOp" where
  "wire c \<equiv> opToWalOp (fc_volume (co_cfg c)) (fc_caller (co_cfg c)) (bl_epoch (co_log c))"

definition payload :: "Op list \<Rightarrow> int" where
  "payload ops = (\<Sum>op \<leftarrow> ops. int (length (op_Data op)))"

definition within_limits :: "int \<times> int \<Rightarrow> Op list \<Rightarrow> bool" where
  "within_limits lim b \<longleftrightarrow> b \<noteq> [] \<and> int (length b) \<le> fst lim \<and> payload (butlast b) < snd lim"

lemma batch_take_bytes: "batch_take a b n k ops \<noteq> [] \<Longrightarrow> k + payload (butlast (batch_take a b n k ops)) < b"
proof (induction ops arbitrary: n k)
  case (Cons op ops)
  let ?r = "batch_take a b (n + 1) (k + int (length (op_Data op))) ops"
  show ?case using Cons.prems Cons.IH[of "n + 1" "k + int (length (op_Data op))"]
    by (cases "?r = []") (auto simp: payload_def split: if_splits)
qed simp

lemma batch_take_within: "0 < a \<Longrightarrow> batch_take a b 0 0 ops \<noteq> [] \<Longrightarrow> within_limits (a, b) (batch_take a b 0 0 ops)"
  using batch_take_bytes[of a b 0 0 ops] batch_take_len[of 0 a b 0 ops] by (simp add: within_limits_def)

lemma applyOps_traced:
  "applyOps (traced strm) ops c (s, tr) = (r, s1) \<Longrightarrow> \<exists>s' more. s1 = (s', tr @ more) \<and> (more = [map (wire c) ops] \<or> more = [] \<and> (\<exists>e. r = Inl e))"
  by (auto simp: applyOps_def traced_def split: if_splits prod.splits stream_result.splits)

lemma processAck_wire: "processAck env reason r sent c = (e, c') \<Longrightarrow> wire c' = wire c"
  by (auto simp: processAck_def commitFlushed_def onFlushed_def log_Truncate_def Let_def split: sum.splits if_splits)

lemma flush_loop_traced:
  assumes "0 < a" and "flush_loop env (traced strm) a b pending c (s, tr) = Some (e, c', s', tr')"
  shows "\<exists>bs. tr' = tr @ map (map (wire c)) bs \<and> (\<forall>x \<in> set bs. within_limits (a, b) x) \<and> prefix (concat bs) pending \<and>
    (e = None \<longrightarrow> concat bs = pending)"
  using assms(2)
proof (induction "length pending" arbitrary: pending c s tr rule: less_induct)
  case less
  show ?case
  proof (cases "pending = []")
    case True
    then show ?thesis using less.prems by (intro exI[of _ "[]"]) (simp add: flush_loop.simps)
  next
    case False
    define batch where "batch = batch_take a b 0 0 pending"
    define rest where "rest = drop (length batch) pending"
    have pend: "pending = batch @ rest" using batch_take_append[of a b 0 0 pending] by (simp add: batch_def rest_def)
    have ne: "batch \<noteq> []" using less.prems False by (subst (asm) flush_loop.simps) (auto simp: Let_def batch_def split: if_splits)
    then have lim: "within_limits (a, b) batch" using batch_take_within[OF assms(1)] by (simp add: batch_def)
    obtain r st1 where ap: "applyOps (traced strm) batch c (s, tr) = (r, st1)" by (meson surj_pair)
    obtain s1 more where st1: "st1 = (s1, tr @ more)" "more = [map (wire c) batch] \<or> more = [] \<and> (\<exists>e. r = Inl e)"
      using applyOps_traced[OF ap] by blast
    obtain e1 c1 where pa: "processAck env ApplyFailure r batch c = (e1, c1)" by fastforce
    have loop: "flush_loop env (traced strm) a b pending c (s, tr) =
        (case e1 of Some x \<Rightarrow> Some (Some x, c1, st1) | None \<Rightarrow> flush_loop env (traced strm) a b rest c1 st1)"
      using False ne ap pa by (subst flush_loop.simps) (simp add: Let_def batch_def[symmetric] rest_def split: option.splits)
    show ?thesis
    proof (cases e1)
      case (Some x)
      then have "tr' = tr @ more" "e = Some x" using less.prems loop st1 by auto
      moreover have "\<exists>bs. more = map (map (wire c)) bs \<and> (\<forall>x \<in> set bs. within_limits (a, b) x) \<and> prefix (concat bs) pending"
        using st1(2) lim pend by (elim disjE) (auto intro: exI[of _ "[batch]"] exI[of _ "[]"])
      ultimately show ?thesis by auto
    next
      case None
      then have more: "more = [map (wire c) batch]" using st1(2) pa by (auto simp: processAck_err)
      have "flush_loop env (traced strm) a b rest c1 (s1, tr @ more) = Some (e, c', s', tr')" using less.prems loop None st1 by simp
      from less.hyps[OF _ this] ne pend obtain bs where
        bs: "tr' = (tr @ more) @ map (map (wire c1)) bs" "\<forall>x \<in> set bs. within_limits (a, b) x" "prefix (concat bs) rest"
          "e = None \<longrightarrow> concat bs = rest" by auto
      then show ?thesis using more lim pend processAck_wire[OF pa] by (intro exI[of _ "batch # bs"]) auto
    qed
  qed
qed

text \<open>C22: a flush always returns, and it sends its operations in order, in streams of at most the configured number
  of operations whose payload is below the configured size up to the last operation; without an
  error all pending operations up to its bound have been sent.\<close>

theorem flush_terminates_in_bounded_streams:
  "\<exists>e c' s' bs pending. Flush env (traced strm) q c (s, []) = Some (e, c', s', map (map (wire c)) bs) \<and>
     pending = filter (\<lambda>op. op_Seq op > co_watermark c) (log_Prefix q (co_log c)) \<and>
     (\<forall>b \<in> set bs. b \<noteq> [] \<and> int (length b) \<le> fst (applyLimits (co_cfg c)) \<and> payload (butlast b) < snd (applyLimits (co_cfg c))) \<and>
     prefix (concat bs) pending \<and> (e = None \<longrightarrow> concat bs = pending)"
proof -
  let ?p = "filter (\<lambda>op. op_Seq op > co_watermark c) (log_Prefix q (co_log c))"
  obtain a b where l: "applyLimits (co_cfg c) = (a, b)" by fastforce
  obtain e c' s' tr where f: "Flush env (traced strm) q c (s, []) = Some (e, c', s', tr)"
    using Flush_returns[of env "traced strm" q c "(s, [])"] by (metis option.exhaust prod.exhaust)
  have "\<exists>bs. tr = map (map (wire c)) bs \<and> (\<forall>x \<in> set bs. within_limits (a, b) x) \<and> prefix (concat bs) ?p \<and> (e = None \<longrightarrow> concat bs = ?p)"
  proof (cases "?p = []")
    case True
    then show ?thesis using f by (intro exI[of _ "[]"]) (auto simp: Flush_def Let_def)
  next
    case False
    then have "flush_loop env (traced strm) a b ?p c (s, []) = Some (e, c', s', tr)" using f l by (simp add: Flush_def Let_def)
    from flush_loop_traced[OF _ this] applyLimits_pos[OF l] show ?thesis by simp
  qed
  then show ?thesis using f l by (auto simp: within_limits_def)
qed

lemma commitFlushed_cfg: "co_cfg (commitFlushed env q c) = co_cfg c"
  by (simp add: commitFlushed_def Let_def split: sum.splits)

definition ex_two :: "BboltLog" where
  "ex_two = snd (log_Append True ex_wop ex_log)"

lemma ex_two_eq:
  "ex_two = ex_log\<lparr>bl_ops := [(1, JsonOp (ex_wop\<lparr>op_Seq := 1\<rparr>)), (2, JsonOp (ex_wop\<lparr>op_Seq := 2\<rparr>))], bl_hi := Some 2\<rparr>"
  by (simp add: ex_two_def ex_log_eq log_Append_def log_Open_def empty_file_def nextSeq_def loadHiSeq_def Let_def)

theorem flush_terminates_in_bounded_streams_witness:
  "\<exists>c' s' bs. Flush \<lparr>fe_truncate = (\<lambda>_. True), fe_now = 0\<rparr>
      (traced (\<lambda>ws n. (StreamAck \<lparr>aa_Watermark = wo_Seq (last ws), aa_FailedSeq = 0, aa_Fserr = FS_OK\<rparr>, n + 1))) 2
      (NewCoordinator (ex_cfg\<lparr>fc_maxApplyOps := 1\<rparr>) ex_two NewOverlay) (0 :: nat, []) = Some (None, c', s', bs) \<and> map length bs = [1, 1]"
proof -
  let ?env = "\<lparr>fe_truncate = (\<lambda>_. True), fe_now = 0\<rparr>"
    and ?st = "\<lambda>ws n. (StreamAck \<lparr>aa_Watermark = wo_Seq (last ws), aa_FailedSeq = 0, aa_Fserr = FS_OK\<rparr>, n + 1 :: nat)"
    and ?c = "NewCoordinator (ex_cfg\<lparr>fc_maxApplyOps := 1\<rparr>) ex_two NewOverlay"
  let ?p = "filter (\<lambda>op. op_Seq op > co_watermark ?c) (log_Prefix 2 (co_log ?c))"
  have p: "?p = [ex_wop\<lparr>op_Seq := 1\<rparr>, ex_wop\<lparr>op_Seq := 2\<rparr>]"
    by (simp add: ex_two_eq NewCoordinator_def log_Prefix_def ex_log_eq log_Open_def empty_file_def word_less_nat_alt)
  obtain e c' s' bs where f: "Flush ?env (traced ?st) 2 ?c (0, []) = Some (e, c', s', map (map (wire ?c)) bs)"
      "\<And>b. b \<in> set bs \<Longrightarrow> b \<noteq> [] \<and> int (length b) \<le> 1" "e = None \<Longrightarrow> concat bs = ?p"
    using flush_terminates_in_bounded_streams[of ?env ?st 2 ?c 0]
    by (auto simp: applyLimits_def NewCoordinator_def ex_cfg_def)
  have "fst (the (flush_loop env (traced ?st) 1 b pending c st)) = None" if "0 < b" "fc_applyFactory (co_cfg c)" for env b pending c st
    using that
  proof (induction "length pending" arbitrary: pending c st rule: less_induct)
    case less
    then show ?case using batch_take_ne[of 1 b pending]
      by (subst flush_loop.simps) (auto simp: Let_def applyOps_def traced_def processAck_def commitFlushed_cfg)
  qed
  then have "fst (the (Flush ?env (traced ?st) 2 ?c (0, []))) = None"
    by (simp add: Flush_def applyLimits_def NewCoordinator_def ex_cfg_def Let_def)
  then have e: "e = None" using f(1) by simp
  have "map length bs = replicate (length bs) 1" using f(2) by (intro replicate_eqI) (auto simp: le_Suc_eq)
  moreover from this have "length (concat bs) = length bs" by (simp add: length_concat sum_list_replicate)
  then have "length bs = 2" using f(3)[OF e] p by simp
  ultimately show ?thesis using f(1) e by (auto simp: numeral_2_eq_2 comp_def)
qed

text \<open>The startup replay does not observe the limits of a stream: it sends everything that is pending, however
  much that is, in one stream.\<close>

theorem replay_ignores_batch_limits:
  assumes "log_Replay q (co_log c) = Inr ops" and "ops \<noteq> []" and "fc_applyFactory (co_cfg c)"
  shows "\<exists>e c' s'. co_Replay env (traced strm) q c (s, []) = (e, c', s', [map (wire c) ops])"
proof -
  obtain r st1 where ap: "applyOps (traced strm) ops c (s, []) = (r, st1)" by (meson surj_pair)
  then have "\<exists>s1. st1 = (s1, [map (wire c) ops])"
    using assms(3) by (auto simp: applyOps_def traced_def split: prod.splits stream_result.splits)
  then show ?thesis using assms ap by (auto simp: co_Replay_def split: prod.splits)
qed

theorem replay_ignores_batch_limits_witness:
  "\<exists>e c' s' ops. co_Replay \<lparr>fe_truncate = (\<lambda>_. True), fe_now = 0\<rparr> (traced (\<lambda>ws n. (StreamRecvFailed, n + 1))) 0
      (NewCoordinator (ex_cfg\<lparr>fc_maxApplyOps := 1\<rparr>) ex_two NewOverlay) (0 :: nat, []) = (e, c', s', [ops]) \<and> length ops = 2"
proof -
  let ?c = "NewCoordinator (ex_cfg\<lparr>fc_maxApplyOps := 1\<rparr>) ex_two NewOverlay"
  have r: "log_Replay 0 (co_log ?c) = Inr [ex_wop\<lparr>op_Seq := 1\<rparr>, ex_wop\<lparr>op_Seq := 2\<rparr>]"
    by (simp add: ex_two_eq NewCoordinator_def log_Replay_def ex_log_eq log_Open_def empty_file_def)
  show ?thesis
    using replay_ignores_batch_limits[OF r, of "\<lparr>fe_truncate = (\<lambda>_. True), fe_now = 0\<rparr>" "\<lambda>ws n. (StreamRecvFailed, n + 1)" 0]
    by (fastforce simp: NewCoordinator_def ex_cfg_def)
qed

text \<open>A server for examples, with one stream that works.\<close>

definition ex_world :: "string list world" where
  "ex_world = \<lparr>aw_srv = ex_srv [], aw_db = Some [],
     aw_fates = [\<lparr>sf_open = True, sf_cut = None, sf_commit = True, sf_answered = True\<rparr>]\<rparr>"

definition ex_env :: flush_env where
  "ex_env = \<lparr>fe_truncate = (\<lambda>_. True), fe_now = 0\<rparr>"

lemma ex_durable: "durable_upto ex_bind ''v'' None ''e'' ex_world = 0"
  by (simp add: durable_of_def ex_bind_def ex_world_def wm_Get_def getRecord_def zero_record_def)

theorem flush_loses_nothing_silently_witness:
  "\<exists>e c' w'. Flush ex_env (server_stream ex_bind (\<lambda>_. True) ''s'') 1 (NewCoordinator ex_cfg ex_log NewOverlay) ex_world = Some (e, c', w') \<and>
     accounted (durable_upto ex_bind ''v'' None ''e'' w') (ex_wop\<lparr>op_Seq := 1\<rparr>) c'"
proof -
  let ?c = "NewCoordinator ex_cfg ex_log NewOverlay" and ?st = "server_stream ex_bind (\<lambda>_. True) ''s''"
  obtain e c' w' where f: "Flush ex_env ?st 1 ?c ex_world = Some (e, c', w')"
    using Flush_returns[of ex_env ?st 1 ?c ex_world] by (metis option.exhaust prod.exhaust)
  show ?thesis using flush_loses_nothing_silently[OF _ _ _ refl _ f] f
    by (simp add: NewCoordinator_def ex_cfg_def ex_log_ok ex_durable)
qed

theorem startup_replay_loses_nothing_silently_witness:
  "accounted (durable_upto ex_bind ''v'' None ''e''
      (snd (snd (co_Replay ex_env (server_stream ex_bind (\<lambda>_. True) ''s'') 0 (remount 0 ''u'' ex_cfg ex_log) ex_world))))
     (ex_wop\<lparr>op_Seq := 1\<rparr>)
     (fst (snd (co_Replay ex_env (server_stream ex_bind (\<lambda>_. True) ''s'') 0 (remount 0 ''u'' ex_cfg ex_log) ex_world)))"
proof -
  let ?r = "co_Replay ex_env (server_stream ex_bind (\<lambda>_. True) ''s'') 0 (remount 0 ''u'' ex_cfg ex_log) ex_world"
  have e: "bl_epoch (co_log (remount 0 ''u'' ex_cfg ex_log)) = ''e''"
    by (simp add: remount_log log_Open_def log_Close_def ex_log_ok)
  have p: "?r = (fst ?r, fst (snd ?r), snd (snd ?r))" by simp
  show ?thesis
    using startup_replay_loses_nothing_silently[OF ex_log_ok(1) _ refl refl p] e by (simp add: ex_cfg_def ex_log_ok)
qed

end
