(* ===== verification/Wal_Layer.thy ===== *)
theory Wal_Layer
  imports Wal_Recovery
begin

text \<open>
  The WAL layer of the client's backend stack (\<^verbatim>\<open>pkg/client/backend/wal/layer.go\<close>): reads are answered from the
  inner backend merged with the pending operations, mutations are recorded in the log or forwarded.
  The inner backend is a record of its operations on a state of its own (the interface
  \<^verbatim>\<open>FileSystemBackend\<close> of \<^verbatim>\<open>pkg/client/backend/backend.go\<close>, the part the layers call).

  The delegation manager is shared with other goroutines: an operation reads it at several moments,
  and every read has its own argument.  A result \<^const>\<open>None\<close> of a mutation means that the call is still
  waiting for a drain to end.
\<close>

section \<open>The inner backend\<close>

text \<open>A handle of an outer layer wraps one of an inner layer; \<^verbatim>\<open>Unwrap\<close> of a leaf is the leaf.\<close>

(* src/pkg/client/backend/wal/layer.go:109-112 syntheticHandle *)
datatype 'h FileHandle = SyntheticHandle path | LeafHandle path 'h | WrappedHandle "'h FileHandle"

fun handle_path :: "'h FileHandle \<Rightarrow> path" where
  "handle_path (SyntheticHandle p) = p"
| "handle_path (LeafHandle p h) = p"
| "handle_path (WrappedHandle f) = handle_path f"

(* src/pkg/client/backend/wal/layer.go:117-132 asSynthetic *)
fun asSynthetic :: "'h FileHandle \<Rightarrow> path option" where
  "asSynthetic (SyntheticHandle p) = Some p"
| "asSynthetic (LeafHandle p h) = None"
| "asSynthetic (WrappedHandle f) = asSynthetic f"

(* src/pkg/client/backend/backend.go:77-85 SetAttrIn *)
record SetAttrIn =
  si_Valid :: u32
  si_Mode :: u32
  si_Uid :: u32
  si_Gid :: u32
  si_Size :: u64
  si_Atime :: "(int \<times> u32) option"
  si_Mtime :: "(int \<times> u32) option"

(* src/pkg/client/backend/backend.go:106-115 StatFs *)
record StatFs =
  sf_Blocks :: u64
  sf_Bfree :: u64
  sf_Bavail :: u64
  sf_Files :: u64
  sf_Ffree :: u64
  sf_Bsize :: u32
  sf_Namelen :: u32
  sf_Frsize :: u32

(* src/pkg/client/backend/backend.go:159-254 FileSystemBackend *)
record ('h, 'i) Backend =
  be_Stat :: "path \<Rightarrow> 'i \<Rightarrow> (FsError + Attr) \<times> 'i"
  be_GetAttrIfChanged :: "path \<Rightarrow> u64 \<Rightarrow> 'i \<Rightarrow> (FsError + Attr option) \<times> 'i"
  be_Lookup :: "path \<Rightarrow> string \<Rightarrow> 'i \<Rightarrow> (FsError + Attr) \<times> 'i"
  be_ListDir :: "path \<Rightarrow> 'i \<Rightarrow> (FsError + DirEntryPlus list) \<times> 'i"
  be_GetXAttr :: "path \<Rightarrow> string \<Rightarrow> 'i \<Rightarrow> (FsError + bytes) \<times> 'i"
  be_SetXAttr :: "path \<Rightarrow> string \<Rightarrow> bytes \<Rightarrow> u32 \<Rightarrow> 'i \<Rightarrow> FsError \<times> 'i"
  be_RemoveXAttr :: "path \<Rightarrow> string \<Rightarrow> 'i \<Rightarrow> FsError \<times> 'i"
  be_Open :: "path \<Rightarrow> u32 \<Rightarrow> 'i \<Rightarrow> (FsError + 'h FileHandle) \<times> 'i"
  be_Create :: "path \<Rightarrow> string \<Rightarrow> u32 \<Rightarrow> u32 \<Rightarrow> 'i \<Rightarrow> (FsError + 'h FileHandle \<times> Attr option) \<times> 'i"
  be_Read :: "'h FileHandle \<Rightarrow> nat \<Rightarrow> nat \<Rightarrow> 'i \<Rightarrow> (bytes \<times> FsError) \<times> 'i"
  be_Write :: "'h FileHandle \<Rightarrow> nat \<Rightarrow> bytes \<Rightarrow> 'i \<Rightarrow> (FsError + nat) \<times> 'i"
  be_Flush :: "'h FileHandle \<Rightarrow> 'i \<Rightarrow> FsError \<times> 'i"
  be_Fsync :: "'h FileHandle \<Rightarrow> int \<Rightarrow> 'i \<Rightarrow> FsError \<times> 'i"
  be_Release :: "'h FileHandle \<Rightarrow> 'i \<Rightarrow> FsError \<times> 'i"
  be_Mkdir :: "path \<Rightarrow> u32 \<Rightarrow> 'i \<Rightarrow> (FsError + Attr option) \<times> 'i"
  be_Rmdir :: "path \<Rightarrow> 'i \<Rightarrow> FsError \<times> 'i"
  be_Unlink :: "path \<Rightarrow> 'i \<Rightarrow> FsError \<times> 'i"
  be_Rename :: "path \<Rightarrow> path \<Rightarrow> 'i \<Rightarrow> FsError \<times> 'i"
  be_Symlink :: "string \<Rightarrow> path \<Rightarrow> 'i \<Rightarrow> (FsError + Attr option) \<times> 'i"
  be_SetAttr :: "path \<Rightarrow> SetAttrIn \<Rightarrow> 'i \<Rightarrow> (FsError + Attr option) \<times> 'i"
  be_Close :: "'i \<Rightarrow> bool \<times> 'i"
  be_Access :: "path \<Rightarrow> u32 \<Rightarrow> 'i \<Rightarrow> FsError \<times> 'i"
  be_StatFs :: "path \<Rightarrow> 'i \<Rightarrow> (FsError + StatFs) \<times> 'i"
  be_ListXAttr :: "path \<Rightarrow> 'i \<Rightarrow> (FsError + string list) \<times> 'i"
  be_Allocate :: "'h FileHandle \<Rightarrow> nat \<Rightarrow> nat \<Rightarrow> u32 \<Rightarrow> 'i \<Rightarrow> FsError \<times> 'i"
  be_CopyFileRange :: "'h FileHandle \<Rightarrow> nat \<Rightarrow> 'h FileHandle \<Rightarrow> nat \<Rightarrow> nat \<Rightarrow> u64 \<Rightarrow> 'i \<Rightarrow> (FsError + nat) \<times> 'i"

(* src/pkg/client/backend/wal/layer.go:135-139 Layer *)
record 'i Layer =
  ly_coord :: Coordinator
  ly_inner :: 'i

definition on_inner :: "('i \<Rightarrow> 'r \<times> 'i) \<Rightarrow> 'i Layer \<Rightarrow> 'r \<times> 'i Layer" where
  "on_inner f L = (case f (ly_inner L) of (r, i) \<Rightarrow> (r, L\<lparr>ly_inner := i\<rparr>))"

abbreviation ly_ov :: "'i Layer \<Rightarrow> Overlay" where
  "ly_ov L \<equiv> co_overlay (ly_coord L)"

section \<open>Reading\<close>

text \<open>Laying the touched fields of a base delta over the base attributes.\<close>

(* src/pkg/client/backend/wal/layer.go:690-730 mergedStat *)
definition merge_attr :: "Attr \<Rightarrow> u32 \<Rightarrow> Attr \<Rightarrow> Attr" where
  "merge_attr attr valid base =
    (let m1 = (if has_bit valid FATTR_MODE then base\<lparr>at_Mode := (at_Mode base AND 0xF000) OR (at_Mode attr AND 0xFFF)\<rparr> else base);
         m2 = (if has_bit valid FATTR_UID then m1\<lparr>at_Uid := at_Uid attr\<rparr> else m1);
         m3 = (if has_bit valid FATTR_GID then m2\<lparr>at_Gid := at_Gid attr\<rparr> else m2);
         m4 = (if has_bit valid FATTR_SIZE \<or> at_Size attr > at_Size m3
               then m3\<lparr>at_Size := at_Size attr, at_Blocks := (at_Size attr + 511) div 512\<rparr> else m3);
         m5 = (if has_bit valid FATTR_ATIME then m4\<lparr>at_Atime := at_Atime attr, at_Atimensec := at_Atimensec attr\<rparr> else m4);
         m6 = (if has_bit valid FATTR_MTIME then m5\<lparr>at_Mtime := at_Mtime attr, at_Mtimensec := at_Mtimensec attr\<rparr> else m5)
     in m6\<lparr>at_Ctime := at_Ctime attr, at_Version := at_Version attr\<rparr>)"

(* src/pkg/client/backend/wal/layer.go:668-731 mergedStat *)
definition mergedStat :: "('h, 'i) Backend \<Rightarrow> path \<Rightarrow> 'i Layer \<Rightarrow> (FsError + Attr) \<times> 'i Layer" where
  "mergedStat be p L =
    (case ov_Stat (ly_ov L) p of
       NoEntry \<Rightarrow> on_inner (be_Stat be p) L
     | Tombstoned \<Rightarrow> (Inl FS_ENOENT, L)
     | Pending attr baseDelta valid \<Rightarrow>
         if \<not> baseDelta then (Inr attr, L)
         else (case on_inner (be_Stat be p) L of
                 (Inl e, L') \<Rightarrow> (Inr attr, L')
               | (Inr base, L') \<Rightarrow> (Inr (merge_attr attr valid base), L')))"

(* src/pkg/client/backend/wal/layer.go:750-755 joinPath *)
definition joinPath :: "path \<Rightarrow> string \<Rightarrow> path" where
  "joinPath parent name = (if parent = '''' then name else parent @ ''/'' @ name)"

(* src/pkg/client/backend/wal/layer.go:181-186 Stat *)
definition ly_Stat :: "('h, 'i) Backend \<Rightarrow> Manager \<Rightarrow> path \<Rightarrow> 'i Layer \<Rightarrow> (FsError + Attr) \<times> 'i Layer" where
  "ly_Stat be mgr p L =
    (if IsDelegated mgr p \<and> ov_Has (ly_ov L) p then mergedStat be p L else on_inner (be_Stat be p) L)"

(* src/pkg/client/backend/wal/layer.go:189-195 Lookup *)
definition ly_Lookup :: "('h, 'i) Backend \<Rightarrow> Manager \<Rightarrow> path \<Rightarrow> string \<Rightarrow> 'i Layer \<Rightarrow> (FsError + Attr) \<times> 'i Layer" where
  "ly_Lookup be mgr parent name L =
    (let p = joinPath parent name in
     if IsDelegated mgr p \<and> ov_Has (ly_ov L) p then mergedStat be p L else on_inner (be_Lookup be parent name) L)"

(* src/pkg/client/backend/wal/layer.go:199-208 GetAttrIfChanged *)
definition ly_GetAttrIfChanged :: "('h, 'i) Backend \<Rightarrow> Manager \<Rightarrow> path \<Rightarrow> u64 \<Rightarrow> 'i Layer \<Rightarrow> (FsError + Attr option) \<times> 'i Layer" where
  "ly_GetAttrIfChanged be mgr p known L =
    (if IsDelegated mgr p \<and> ov_Has (ly_ov L) p
     then (case mergedStat be p L of (Inl e, L') \<Rightarrow> (Inl e, L') | (Inr a, L') \<Rightarrow> (Inr (Some a), L'))
     else on_inner (be_GetAttrIfChanged be p known) L)"

(* src/pkg/client/backend/wal/layer.go:211-225 ListDir *)
definition ly_ListDir :: "('h, 'i) Backend \<Rightarrow> Manager \<Rightarrow> path \<Rightarrow> 'i Layer \<Rightarrow> (FsError + DirEntryPlus list) \<times> 'i Layer" where
  "ly_ListDir be mgr p L =
    (if IsDelegated mgr p
     then (case on_inner (be_ListDir be p) L of
             (Inl e, L') \<Rightarrow> if e \<noteq> FS_ENOENT then (Inl e, L') else (Inr (ListMerge (ly_ov L') p []), L')
           | (Inr base, L') \<Rightarrow> (Inr (ListMerge (ly_ov L') p base), L'))
     else on_inner (be_ListDir be p) L)"

text \<open>The shared tail of the merged reads: \<^verbatim>\<open>copy(dest, merged)\<close> for a buffer of \<open>n\<close> bytes.\<close>

definition merged_read :: "path \<Rightarrow> nat \<Rightarrow> nat \<Rightarrow> (bytes \<times> FsError) \<times> 'i Layer \<Rightarrow> (FsError + bytes) \<times> 'i Layer" where
  "merged_read p off n r =
    (case r of ((base, e), L) \<Rightarrow>
      if e \<noteq> FS_OK \<and> e \<noteq> FS_ENOENT then (Inl e, L)
      else (Inr (take n (ReadMerge (ly_ov L) p off (take n base))), L))"

(* src/pkg/client/backend/wal/layer.go:275-287 readThrough *)
definition readThrough :: "('h, 'i) Backend \<Rightarrow> path \<Rightarrow> nat \<Rightarrow> nat \<Rightarrow> 'i Layer \<Rightarrow> (FsError + bytes) \<times> 'i Layer" where
  "readThrough be p off n L =
    (case on_inner (be_Open be p 0) L of
       (Inl e, L1) \<Rightarrow> (Inl e, L1)
     | (Inr ih, L1) \<Rightarrow>
         (case merged_read p off n (on_inner (be_Read be ih off n) L1) of
            (r, L2) \<Rightarrow> (r, snd (on_inner (be_Release be ih) L2))))"

(* src/pkg/client/backend/wal/layer.go:240-270 Read *)
definition ly_Read :: "('h, 'i) Backend \<Rightarrow> Manager \<Rightarrow> 'h FileHandle \<Rightarrow> nat \<Rightarrow> nat \<Rightarrow> 'i Layer \<Rightarrow> (FsError + bytes) \<times> 'i Layer" where
  "ly_Read be mgr fh off n L =
    (case asSynthetic fh of
       Some p \<Rightarrow>
         (case ov_Stat (ly_ov L) p of
            Pending attr False valid \<Rightarrow> (Inr (take n (ReadMerge (ly_ov L) p off [])), L)
          | _ \<Rightarrow> readThrough be p off n L)
     | None \<Rightarrow>
         if IsDelegated mgr (handle_path fh) \<and> ov_Has (ly_ov L) (handle_path fh)
         then merged_read (handle_path fh) off n (on_inner (be_Read be fh off n) L)
         else (case on_inner (be_Read be fh off n) L of
                 ((bs, e), L') \<Rightarrow> (if e \<noteq> FS_OK then Inl e else Inr bs, L')))"

(* src/pkg/client/backend/wal/layer.go:341-350 Open *)
definition ly_Open :: "('h, 'i) Backend \<Rightarrow> Manager \<Rightarrow> path \<Rightarrow> u32 \<Rightarrow> 'i Layer \<Rightarrow> (FsError + 'h FileHandle) \<times> 'i Layer" where
  "ly_Open be mgr p flags L =
    (case (IsDelegated mgr p, ov_Stat (ly_ov L) p) of
       (True, Pending attr False valid) \<Rightarrow> (Inr (SyntheticHandle p), L)
     | _ \<Rightarrow> on_inner (be_Open be p flags) L)"

(* src/pkg/client/backend/wal/layer.go:391-403 GetXAttr *)
definition ly_GetXAttr :: "('h, 'i) Backend \<Rightarrow> Manager \<Rightarrow> path \<Rightarrow> string \<Rightarrow> 'i Layer \<Rightarrow> (FsError + bytes) \<times> 'i Layer" where
  "ly_GetXAttr be mgr p a L =
    (case (if IsDelegated mgr p \<and> ov_Has (ly_ov L) p then ov_Xattr (ly_ov L) p a else XNone) of
       XSet v \<Rightarrow> (Inr v, L)
     | XRemoved \<Rightarrow> (Inl FS_ENO_XATTR, L)
     | XNone \<Rightarrow> on_inner (be_GetXAttr be p a) L)"

section \<open>Deferring\<close>

text \<open>One turn of the loop of \<^verbatim>\<open>recordDeferred\<close>: the manager as the two checks of \<^verbatim>\<open>RecordOp\<close> and the snapshot after
  a refusal see it, whether the context is dead and whether the append commits.\<close>

record admit_turn =
  tn_pre :: Manager
  tn_lock :: Manager
  tn_after :: Manager
  tn_ctxDead :: bool
  tn_commit :: bool

definition calm :: "Manager \<Rightarrow> admit_turn" where
  "calm m = \<lparr>tn_pre = m, tn_lock = m, tn_after = m, tn_ctxDead = False, tn_commit = True\<rparr>"

(* src/pkg/client/backend/wal/layer.go:427-453 recordDeferred *)
fun recordDeferred :: "int \<Rightarrow> admit_turn list \<Rightarrow> Op \<Rightarrow> Coordinator \<Rightarrow> (record_error option \<times> Coordinator) option" where
  "recordDeferred now [] op c = None"
| "recordDeferred now (t # ts) op c =
    (case RecordOp (tn_commit t) now (tn_pre t) (tn_lock t) op c of
       (err, c1) \<Rightarrow>
         if err \<noteq> Some ErrNotDelegated then Some (err, c1)
         else (case AdmissionState (tn_after t) (op_Path op) of
                 (delegated, draining) \<Rightarrow>
                   if draining then (if tn_ctxDead t then Some (err, c1) else recordDeferred now ts op c1)
                   else if delegated \<and> op_NewPath op = '''' then recordDeferred now ts op c1
                   else Some (err, c1)))"

definition mk_op :: "OpKind \<Rightarrow> path \<Rightarrow> Op" where
  "mk_op k p = \<lparr>op_Seq = 0, op_Gen = 0, op_Kind = k, op_Path = p, op_NewPath = '''', op_Offset = 0, op_Data = [],
     op_Mode = 0, op_Flags = 0, op_Valid = 0, op_UID = 0, op_GID = 0, op_Size = 0, op_AtimeSec = 0, op_AtimeNsec = 0,
     op_MtimeSec = 0, op_MtimeNsec = 0, op_XattrName = '''', op_XattrValue = [], op_XattrFlags = 0\<rparr>"

text \<open>The three ways out the mutations share: recorded, refused and run on the inner backend, or an error.\<close>

definition defer_or ::
  "int \<Rightarrow> admit_turn list \<Rightarrow> Op \<Rightarrow> ('i Layer \<Rightarrow> 'r \<times> 'i Layer) \<Rightarrow> ('i Layer \<Rightarrow> 'r \<times> 'i Layer) \<Rightarrow> 'r \<Rightarrow> 'i Layer \<Rightarrow> ('r \<times> 'i Layer) option" where
  "defer_or now ts op deferred forward failed L =
    map_option (\<lambda>(err, c).
      let L1 = L\<lparr>ly_coord := c\<rparr> in
      case err of None \<Rightarrow> deferred L1 | Some ErrNotDelegated \<Rightarrow> forward L1 | Some e \<Rightarrow> (failed, L1))
      (recordDeferred now ts op (ly_coord L))"

(* src/pkg/client/backend/wal/layer.go:457-466 deferOrForward *)
definition deferOrForward :: "int \<Rightarrow> admit_turn list \<Rightarrow> Op \<Rightarrow> ('i \<Rightarrow> FsError \<times> 'i) \<Rightarrow> 'i Layer \<Rightarrow> (FsError \<times> 'i Layer) option" where
  "deferOrForward now ts op forward L = defer_or now ts op (\<lambda>L. (FS_OK, L)) (on_inner forward) FS_EIO L"

(* src/pkg/client/backend/wal/layer.go:321-335 writeThrough *)
definition writeThrough :: "('h, 'i) Backend \<Rightarrow> path \<Rightarrow> nat \<Rightarrow> bytes \<Rightarrow> 'i Layer \<Rightarrow> (FsError + nat) \<times> 'i Layer" where
  "writeThrough be p off data L =
    (case on_inner (be_Open be p 1) L of
       (Inl e, L1) \<Rightarrow> (Inl e, L1)
     | (Inr ih, L1) \<Rightarrow>
         (case on_inner (be_Write be ih off data) L1 of
            (Inl e, L2) \<Rightarrow> (Inl e, snd (on_inner (be_Release be ih) L2))
          | (Inr n, L2) \<Rightarrow>
              (case on_inner (be_Flush be ih) L2 of
                 (st, L3) \<Rightarrow> (if st \<noteq> FS_OK then Inl st else Inr n, snd (on_inner (be_Release be ih) L3)))))"

(* src/pkg/client/backend/wal/layer.go:301-317 Write *)
definition ly_Write :: "('h, 'i) Backend \<Rightarrow> int \<Rightarrow> admit_turn list \<Rightarrow> 'h FileHandle \<Rightarrow> nat \<Rightarrow> bytes \<Rightarrow> 'i Layer \<Rightarrow> ((FsError + nat) \<times> 'i Layer) option" where
  "ly_Write be now ts fh off data L =
    (case asSynthetic fh of
       Some p \<Rightarrow> defer_or now ts ((mk_op OpWrite p)\<lparr>op_Offset := off, op_Data := data\<rparr>)
                   (\<lambda>L. (Inr (length data), L)) (writeThrough be p off data) (Inl FS_EIO) L
     | None \<Rightarrow> Some (on_inner (be_Write be fh off data) L))"

(* src/pkg/client/backend/wal/layer.go:355-360 Flush *)
definition ly_Flush :: "('h, 'i) Backend \<Rightarrow> 'h FileHandle \<Rightarrow> 'i Layer \<Rightarrow> FsError \<times> 'i Layer" where
  "ly_Flush be fh L = (if asSynthetic fh \<noteq> None then (FS_OK, L) else on_inner (be_Flush be fh) L)"

(* src/pkg/client/backend/wal/layer.go:368-378 Fsync *)
definition ly_Fsync ::
  "('h, 'i) Backend \<Rightarrow> flush_env \<Rightarrow> 's stream \<Rightarrow> 'h FileHandle \<Rightarrow> int \<Rightarrow> 'i Layer \<Rightarrow> 's \<Rightarrow> (FsError \<times> 'i Layer \<times> 's) option" where
  "ly_Fsync be env strm fh flags L s =
    (if asSynthetic fh \<noteq> None \<or> ov_Has (ly_ov L) (handle_path fh)
     then (case co_Fsync env strm (ly_coord L) s of
             None \<Rightarrow> None
           | Some (st, c, s') \<Rightarrow>
               if asSynthetic fh \<noteq> None \<or> st \<noteq> FS_OK then Some (st, L\<lparr>ly_coord := c\<rparr>, s')
               else (case on_inner (be_Fsync be fh flags) (L\<lparr>ly_coord := c\<rparr>) of (st', L') \<Rightarrow> Some (st', L', s')))
     else (case on_inner (be_Fsync be fh flags) L of (st', L') \<Rightarrow> Some (st', L', s)))"

(* src/pkg/client/backend/wal/layer.go:383-388 Release *)
definition ly_Release :: "('h, 'i) Backend \<Rightarrow> 'h FileHandle \<Rightarrow> 'i Layer \<Rightarrow> FsError \<times> 'i Layer" where
  "ly_Release be fh L = (if asSynthetic fh \<noteq> None then (FS_OK, L) else on_inner (be_Release be fh) L)"

section \<open>Mutations\<close>

text \<open>The attributes a deferred creation answers with: those of the new node.\<close>

definition pending_attr :: "path \<Rightarrow> 'i Layer \<Rightarrow> Attr option" where
  "pending_attr p L = (case ov_Stat (ly_ov L) p of Pending a d v \<Rightarrow> Some a | _ \<Rightarrow> None)"

(* src/pkg/client/backend/wal/layer.go:476-491 Create *)
definition ly_Create ::
  "('h, 'i) Backend \<Rightarrow> int \<Rightarrow> admit_turn list \<Rightarrow> path \<Rightarrow> string \<Rightarrow> u32 \<Rightarrow> u32 \<Rightarrow> 'i Layer \<Rightarrow> ((FsError + 'h FileHandle \<times> Attr option) \<times> 'i Layer) option" where
  "ly_Create be now ts parent name flags mode L =
    (let p = joinPath parent name in
     defer_or now ts ((mk_op OpCreate p)\<lparr>op_Mode := mode, op_Flags := flags\<rparr>)
       (\<lambda>L. (if ov_Stat (ly_ov L) p = NoEntry then Inl FS_EIO else Inr (SyntheticHandle p, pending_attr p L), L))
       (on_inner (be_Create be parent name flags mode)) (Inl FS_EIO) L)"

(* src/pkg/client/backend/wal/layer.go:495-511 Mkdir *)
definition ly_Mkdir :: "('h, 'i) Backend \<Rightarrow> int \<Rightarrow> admit_turn list \<Rightarrow> path \<Rightarrow> u32 \<Rightarrow> 'i Layer \<Rightarrow> ((FsError + Attr option) \<times> 'i Layer) option" where
  "ly_Mkdir be now ts p mode L =
    defer_or now ts ((mk_op OpMkdir p)\<lparr>op_Mode := mode\<rparr>)
      (\<lambda>L. (if ov_Stat (ly_ov L) p = NoEntry then Inl FS_EIO else Inr (pending_attr p L), L))
      (on_inner (be_Mkdir be p mode)) (Inl FS_EIO) L"

(* src/pkg/client/backend/wal/layer.go:515-519 Unlink *)
definition ly_Unlink :: "('h, 'i) Backend \<Rightarrow> int \<Rightarrow> admit_turn list \<Rightarrow> path \<Rightarrow> 'i Layer \<Rightarrow> (FsError \<times> 'i Layer) option" where
  "ly_Unlink be now ts p L = deferOrForward now ts (mk_op OpUnlink p) (be_Unlink be p) L"

(* src/pkg/client/backend/wal/layer.go:523-527 Rmdir *)
definition ly_Rmdir :: "('h, 'i) Backend \<Rightarrow> int \<Rightarrow> admit_turn list \<Rightarrow> path \<Rightarrow> 'i Layer \<Rightarrow> (FsError \<times> 'i Layer) option" where
  "ly_Rmdir be now ts p L = deferOrForward now ts (mk_op OpRmdir p) (be_Rmdir be p) L"

(* src/pkg/client/backend/wal/layer.go:583-601 SetAttr *)
definition setattr_op :: "path \<Rightarrow> SetAttrIn \<Rightarrow> Op" where
  "setattr_op p si =
    (let v = si_Valid si; op = (mk_op OpSetAttr p)\<lparr>op_Valid := v, op_Mode := si_Mode si, op_UID := si_Uid si, op_GID := si_Gid si\<rparr>;
         op1 = (if has_bit v FATTR_SIZE then op\<lparr>op_Size := si_Size si\<rparr> else op);
         op2 = (case si_Atime si of Some (s, n) \<Rightarrow> if has_bit v FATTR_ATIME then op1\<lparr>op_AtimeSec := s, op_AtimeNsec := n\<rparr> else op1 | None \<Rightarrow> op1)
     in case si_Mtime si of Some (s, n) \<Rightarrow> if has_bit v FATTR_MTIME then op2\<lparr>op_MtimeSec := s, op_MtimeNsec := n\<rparr> else op2 | None \<Rightarrow> op2)"

(* src/pkg/client/backend/wal/layer.go:582-610 SetAttr *)
definition ly_SetAttr :: "('h, 'i) Backend \<Rightarrow> int \<Rightarrow> admit_turn list \<Rightarrow> path \<Rightarrow> SetAttrIn \<Rightarrow> 'i Layer \<Rightarrow> ((FsError + Attr option) \<times> 'i Layer) option" where
  "ly_SetAttr be now ts p si L =
    defer_or now ts (setattr_op p si)
      (\<lambda>L. case mergedStat be p L of (Inl e, L') \<Rightarrow> (Inl e, L') | (Inr a, L') \<Rightarrow> (Inr (Some a), L'))
      (on_inner (be_SetAttr be p si)) (Inl FS_EIO) L"

definition string_to_bytes :: "string \<Rightarrow> bytes" where
  "string_to_bytes s = map (\<lambda>c. of_nat (of_char c)) s"

(* src/pkg/client/backend/wal/layer.go:614-628 Symlink *)
definition ly_Symlink :: "('h, 'i) Backend \<Rightarrow> int \<Rightarrow> admit_turn list \<Rightarrow> string \<Rightarrow> path \<Rightarrow> 'i Layer \<Rightarrow> ((FsError + Attr option) \<times> 'i Layer) option" where
  "ly_Symlink be now ts target p L =
    defer_or now ts ((mk_op OpSymlink p)\<lparr>op_Data := string_to_bytes target\<rparr>)
      (\<lambda>L. (if ov_Stat (ly_ov L) p = NoEntry then Inl FS_EIO else Inr (pending_attr p L), L))
      (on_inner (be_Symlink be target p)) (Inl FS_EIO) L"

(* src/pkg/client/backend/wal/layer.go:632-643 SetXAttr *)
definition ly_SetXAttr :: "('h, 'i) Backend \<Rightarrow> int \<Rightarrow> admit_turn list \<Rightarrow> path \<Rightarrow> string \<Rightarrow> bytes \<Rightarrow> u32 \<Rightarrow> 'i Layer \<Rightarrow> (FsError \<times> 'i Layer) option" where
  "ly_SetXAttr be now ts p a v flags L =
    deferOrForward now ts ((mk_op OpSetXAttr p)\<lparr>op_XattrName := a, op_XattrValue := v, op_XattrFlags := flags\<rparr>) (be_SetXAttr be p a v flags) L"

(* src/pkg/client/backend/wal/layer.go:647-652 RemoveXAttr *)
definition ly_RemoveXAttr :: "('h, 'i) Backend \<Rightarrow> int \<Rightarrow> admit_turn list \<Rightarrow> path \<Rightarrow> string \<Rightarrow> 'i Layer \<Rightarrow> (FsError \<times> 'i Layer) option" where
  "ly_RemoveXAttr be now ts p a L =
    deferOrForward now ts ((mk_op OpRemoveXAttr p)\<lparr>op_XattrName := a\<rparr>) (be_RemoveXAttr be p a) L"

text \<open>The synchronous rename: both endpoints are drained, pending state at either of them is flushed, then the inner
  backend renames; the drains end in reverse order on every way out.\<close>

(* src/pkg/client/backend/wal/layer.go:568-578 Rename *)
definition rename_sync ::
  "('h, 'i) Backend \<Rightarrow> flush_env \<Rightarrow> 's stream \<Rightarrow> path \<Rightarrow> path \<Rightarrow> Manager \<Rightarrow> 'i Layer \<Rightarrow> 's \<Rightarrow> (FsError \<times> Manager \<times> 'i Layer \<times> 's) option" where
  "rename_sync be env strm old new mgr L s =
    (case markDraining old mgr of (eo, m1) \<Rightarrow>
      (case markDraining new m1 of (en, m2) \<Rightarrow>
        (case (if HasSubtree (ly_ov L) old \<or> HasSubtree (ly_ov L) new then co_Fsync env strm (ly_coord L) s
               else Some (FS_OK, ly_coord L, s)) of
           None \<Rightarrow> None
         | Some (st, c, s') \<Rightarrow>
             (case (if st \<noteq> FS_OK then (st, L\<lparr>ly_coord := c\<rparr>) else on_inner (be_Rename be old new) (L\<lparr>ly_coord := c\<rparr>)) of
                (r, L') \<Rightarrow>
                  (case endDraining new en m2 of
                     None \<Rightarrow> None
                   | Some m3 \<Rightarrow> map_option (\<lambda>m4. (r, m4, L', s')) (endDraining old eo m3))))))"

(* src/pkg/client/backend/wal/layer.go:545-578 Rename *)
definition ly_Rename ::
  "('h, 'i) Backend \<Rightarrow> flush_env \<Rightarrow> 's stream \<Rightarrow> int \<Rightarrow> admit_turn list \<Rightarrow> path \<Rightarrow> path \<Rightarrow> Manager \<Rightarrow> 'i Layer \<Rightarrow> 's
    \<Rightarrow> (FsError \<times> Manager \<times> 'i Layer \<times> 's) option" where
  "ly_Rename be env strm now ts old new mgr L s =
    (case recordDeferred now ts ((mk_op OpRename old)\<lparr>op_NewPath := new\<rparr>) (ly_coord L) of
       None \<Rightarrow> None
     | Some (None, c) \<Rightarrow> Some (FS_OK, mgr, L\<lparr>ly_coord := c\<rparr>, s)
     | Some (Some (AppendError e), c) \<Rightarrow> Some (FS_EIO, mgr, L\<lparr>ly_coord := c\<rparr>, s)
     | Some (Some e, c) \<Rightarrow> rename_sync be env strm old new mgr (L\<lparr>ly_coord := c\<rparr>) s)"

(* src/pkg/client/backend/wal/layer.go:738-745 Close *)
definition ly_Close :: "('h, 'i) Backend \<Rightarrow> flush_env \<Rightarrow> 's stream \<Rightarrow> 'i Layer \<Rightarrow> 's \<Rightarrow> (bool \<times> 'i Layer \<times> 's) option" where
  "ly_Close be env strm L s =
    map_option (\<lambda>(e, c, s'). case on_inner (be_Close be) (L\<lparr>ly_coord := c\<rparr>) of (ok, L') \<Rightarrow> (e = None \<and> ok, L', s'))
      (co_Close env strm (ly_coord L) s)"

section \<open>Deferred or forwarded, never both\<close>

text \<open>Some snapshot on the way out allowed the synchronous path: the grant is gone and nothing drains, or the
  context was dead while a drain was in flight.\<close>

definition released :: "admit_turn list \<Rightarrow> path \<Rightarrow> bool" where
  "released ts p \<longleftrightarrow> (\<exists>t \<in> set ts. AdmissionState (tn_after t) p = (False, False) \<or> snd (AdmissionState (tn_after t) p) \<and> tn_ctxDead t)"

definition logged :: "Op \<Rightarrow> Coordinator \<Rightarrow> Coordinator \<Rightarrow> bool" where
  "logged op c c' \<longleftrightarrow> (\<exists>gen q. log_pending (co_log c') = log_pending (co_log c) @ [op\<lparr>op_Gen := gen, op_Seq := q\<rparr>])"

definition deferred :: "Op \<Rightarrow> 'i Layer \<Rightarrow> 'i Layer \<Rightarrow> bool" where
  "deferred op L L' \<longleftrightarrow> ly_inner L' = ly_inner L \<and>
    logged op (ly_coord L) (ly_coord L')"

definition forwarded :: "('i \<Rightarrow> 'r \<times> 'i) \<Rightarrow> 'i Layer \<Rightarrow> 'r \<Rightarrow> 'i Layer \<Rightarrow> bool" where
  "forwarded f L r L' \<longleftrightarrow> ly_coord L' = ly_coord L \<and> f (ly_inner L) = (r, ly_inner L')"

lemma record_locked_cases:
  assumes "record_locked commit now m op c = (err, c')" and "log_wf (co_log c)" and "unat (loadHiSeq (co_log c)) + 1 < 2 ^ 64"
  shows "(err = None \<longrightarrow> logged op c c') \<and>
    (err \<noteq> None \<longrightarrow> c' = c)"
proof -
  obtain a l where ap: "log_Append commit (op\<lparr>op_Gen := GenFor m (op_Path op)\<rparr>) (co_log c) = (a, l)" by fastforce
  have e: "a = Inl x \<Longrightarrow> l = co_log c" for x using bl.app_err ap by blast
  have "a = Inr x \<Longrightarrow> logged op c (c\<lparr>co_log := l, co_overlay := ov\<rparr>)" for x ov
    using bl.app_ok[OF assms(2,3)] ap by (fastforce simp: logged_def)
  then show ?thesis using assms(1) ap e by (auto simp: record_locked_def Let_def split: if_splits sum.splits)
qed

lemma RecordOp_cases:
  assumes "RecordOp commit now pre m op c = (err, c')" and "log_wf (co_log c)" and "unat (loadHiSeq (co_log c)) + 1 < 2 ^ 64"
  shows "(err = None \<longrightarrow> logged op c c') \<and>
    (err \<noteq> None \<longrightarrow> c' = c)"
  using assms record_locked_cases[of commit now m op c err c'] by (auto simp: RecordOp_def split: if_splits)

lemma recordDeferred_cases:
  assumes "recordDeferred now ts op c = Some (err, c')" and "log_wf (co_log c)" and "unat (loadHiSeq (co_log c)) + 1 < 2 ^ 64"
  shows "(err = None \<longrightarrow> logged op c c') \<and>
    (err \<noteq> None \<longrightarrow> c' = c) \<and> (err = Some ErrNotDelegated \<longrightarrow> op_NewPath op = '''' \<longrightarrow> released ts (op_Path op))"
  using assms
proof (induction ts)
  case (Cons t ts)
  obtain e1 c1 where r: "RecordOp (tn_commit t) now (tn_pre t) (tn_lock t) op c = (e1, c1)" by fastforce
  note rc = RecordOp_cases[OF r Cons.prems(2,3)]
  obtain dl dr where a: "AdmissionState (tn_after t) (op_Path op) = (dl, dr)" by fastforce
  have mono: "released ts p \<Longrightarrow> released (t # ts) p" for p by (auto simp: released_def)
  show ?case
  proof (cases "e1 = Some ErrNotDelegated \<and> (dr \<and> \<not> tn_ctxDead t \<or> \<not> dr \<and> dl \<and> op_NewPath op = '''')")
    case True
    then have "c1 = c" "recordDeferred now ts op c1 = Some (err, c')" using rc Cons.prems(1) r a by (auto split: if_splits)
    then show ?thesis using Cons.IH Cons.prems(2,3) mono by auto
  next
    case False
    then have "err = e1" "c' = c1" "err = Some ErrNotDelegated \<longrightarrow> op_NewPath op = '''' \<longrightarrow> (dr \<and> tn_ctxDead t \<or> \<not> dr \<and> \<not> dl)"
      using Cons.prems(1) r a by (auto split: if_splits)
    then show ?thesis using rc a by (auto simp: released_def)
  qed
qed simp

lemma defer_or_cases:
  assumes "defer_or now ts op dfr fwd bad L = Some (r, L')" and "log_wf (co_log (ly_coord L))"
    and "unat (loadHiSeq (co_log (ly_coord L))) + 1 < 2 ^ 64" and "op_NewPath op = ''''"
  shows "(\<exists>L1. deferred op L L1 \<and> dfr L1 = (r, L')) \<or> (fwd L = (r, L') \<and> released ts (op_Path op)) \<or> (r = bad \<and> L' = L)"
proof -
  obtain err c where rd: "recordDeferred now ts op (ly_coord L) = Some (err, c)"
    using assms(1) by (auto simp: defer_or_def)
  note rc = recordDeferred_cases[OF rd assms(2,3)]
  have same: "err \<noteq> None \<Longrightarrow> L\<lparr>ly_coord := c\<rparr> = L" using rc by simp
  show ?thesis
  proof (cases err)
    case None
    then have "deferred op L (L\<lparr>ly_coord := c\<rparr>)" using rc by (simp add: deferred_def)
    then show ?thesis using assms(1) rd None by (auto simp: defer_or_def)
  next
    case (Some e)
    then show ?thesis using assms(1,4) rd same rc by (cases e) (auto simp: defer_or_def Let_def)
  qed
qed

definition defer_outcome :: "admit_turn list \<Rightarrow> Op \<Rightarrow> ('i \<Rightarrow> 'r \<times> 'i) \<Rightarrow> ('r \<Rightarrow> bool) \<Rightarrow> 'r \<Rightarrow> 'i Layer \<Rightarrow> 'r \<Rightarrow> 'i Layer \<Rightarrow> bool" where
  "defer_outcome ts op f ok bad L r L' \<longleftrightarrow>
    (deferred op L L' \<and> ok r) \<or> (forwarded f L r L' \<and> released ts (op_Path op)) \<or> (r = bad \<and> L' = L)"

lemma defer_or_outcome:
  assumes "defer_or now ts op dfr (on_inner f) bad L = Some (r, L')" and "log_wf (co_log (ly_coord L))"
    and "unat (loadHiSeq (co_log (ly_coord L))) + 1 < 2 ^ 64" and "op_NewPath op = ''''" and "\<And>L1. snd (dfr L1) = L1 \<and> ok (fst (dfr L1))"
  shows "defer_outcome ts op f ok bad L r L'"
proof -
  have "on_inner f L = (r, L') \<Longrightarrow> forwarded f L r L'" by (auto simp: on_inner_def forwarded_def split: prod.splits)
  moreover have "dfr L1 = (r, L') \<Longrightarrow> L1 = L' \<and> ok r" for L1 using assms(5)[of L1] by auto
  ultimately show ?thesis using defer_or_cases[OF assms(1-4)] unfolding defer_outcome_def by metis
qed

section \<open>Properties\<close>


section \<open>A file created under a delegation\<close>

lemma Apply_gen: "ov_Apply t (op\<lparr>op_Gen := g\<rparr>) ov = ov_Apply t op ov"
proof -
  have "node_setattr t (op\<lparr>op_Gen := g\<rparr>) n = node_setattr t op n" for n by (simp add: node_setattr_def Let_def)
  then show ?thesis
    by (cases "op_Kind op") (simp_all add: ov_Apply_def ov_applyCreate_def ov_applyMkdir_def ov_applyWrite_def ov_applyDelete_def
      ov_applyRename_def ov_applySetAttr_def ov_applySymlink_def ov_applySetXAttr_def ov_applyRemoveXAttr_def Let_def)
qed

lemma calm_records:
  assumes "IsWriteDelegated m (op_Path op)" and "op_NewPath op = ''''" and "op_Kind op \<noteq> OpRename" and "log_opened (co_log c)"
  shows "\<exists>l. recordDeferred now [calm m] op c = Some (None, c\<lparr>co_log := l, co_overlay := ov_Apply now op (co_overlay c)\<rparr>) \<and> log_opened l"
proof -
  let ?op = "op\<lparr>op_Gen := GenFor m (op_Path op)\<rparr>"
  obtain q l where "log_Append True ?op (co_log c) = (Inr q, l)" using bl.app_commits[OF assms(4)] by blast
  moreover from this have "log_opened l" using assms(4) by (auto simp: log_Append_def log_opened_def Let_def split: if_splits)
  ultimately show ?thesis using assms(1-3)
    by (intro exI[of _ l]) (simp add: calm_def RecordOp_def record_locked_def Let_def Apply_gen)
qed

text \<open>What the overlay holds of a file that exists only in it: a live regular node, its content, and reads that
  agree with the content.\<close>

definition owns_file :: "Overlay \<Rightarrow> path \<Rightarrow> bytes \<Rightarrow> bool" where
  "owns_file ov p d \<longleftrightarrow> overlay_ok ov \<and> ReadMerge ov p 0 [] = d \<and>
    (\<exists>n. gm_get (ov_nodes ov) p = Some n \<and> \<not> on_tomb n \<and> \<not> on_baseDelta n \<and> on_data n = d \<and> on_mode n AND 0xF000 = 0x8000)"

lemma regular_mode: "((0x8000 :: u32) OR (x AND 0xFFF)) AND 0xF000 = 0x8000"
proof -
  have "(x AND 0xFFF) AND 0xF000 = (0 :: u32)" by (simp add: and.assoc)
  then show ?thesis by (simp add: bit.conj_disj_distrib2)
qed

lemma owns_file_create:
  assumes "overlay_ok ov" and "op = (mk_op OpCreate p)\<lparr>op_Mode := md, op_Flags := fl\<rparr>"
  shows "owns_file (ov_Apply now op ov) p []"
proof -
  have ok: "overlay_ok (ov_Apply now op ov)" using overlay_ok_Apply[OF assms(1)] by (simp add: assms(2) nonempty_write_def mk_op_def)
  have m: "((0x8000 :: u32) OR (if md AND 0xFFF = 0 then 0x1A4 else md AND 0xFFF)) AND 0xF000 = 0x8000"
    using regular_mode[of md] by auto
  show ?thesis using ok m
    by (simp add: owns_file_def ov_Apply_def ov_applyCreate_def newFileNode_def allocIno_def assms(2) mk_op_def gm_get_put
      ReadMerge_def zero_node_def Let_def split del: if_split)
qed

lemma owns_file_write:
  assumes "owns_file ov p d" and "dat \<noteq> []" and "op = (mk_op OpWrite p)\<lparr>op_Offset := off, op_Data := dat\<rparr>"
  shows "owns_file (ov_Apply now op ov) p (pwrite off dat d)"
proof -
  have k: "op_Kind op = OpWrite" "op_Data op = dat" "op_Offset op = off" "op_Path op = p" by (simp_all add: assms(3) mk_op_def)
  have ov: "overlay_ok ov" "ReadMerge ov p 0 [] = d" using assms(1) by (simp_all add: owns_file_def)
  have ok: "overlay_ok (ov_Apply now op ov)" using overlay_ok_Apply[OF ov(1)] assms(2) k by (simp add: nonempty_write_def)
  have rd: "ReadMerge (ov_Apply now op ov) p 0 [] = pwrite off dat d"
    using read_after_write[OF ov(1) k(1), of now "[]"] assms(2) k ov(2) by simp
  obtain n where n: "gm_get (ov_nodes ov) p = Some n" "\<not> on_tomb n" "\<not> on_baseDelta n" "on_data n = d" "on_mode n AND 0xF000 = 0x8000"
    using assms(1) by (auto simp: owns_file_def simp del: map_of_eq_Some_iff)
  show ?thesis using ok rd n
    by (simp add: owns_file_def ov_Apply_def ov_applyWrite_def k live_node_def gm_get_put Let_def addInterval_def touch_def pwrite_def)
qed

lemma owns_file_Stat:
  assumes "owns_file ov p d" shows "\<exists>a v. ov_Stat ov p = Pending a False v \<and> at_Size a = of_nat (length d)"
proof -
  obtain n where n: "gm_get (ov_nodes ov) p = Some n" "\<not> on_tomb n" "\<not> on_baseDelta n" "on_data n = d" "on_mode n AND 0xF000 = 0x8000"
    using assms by (auto simp: owns_file_def simp del: map_of_eq_Some_iff)
  have "node_ok n" using assms overlay_okD[OF _ n(1)] by (simp add: owns_file_def)
  then have "on_intervals n \<noteq> [] \<Longrightarrow> snd (last (on_intervals n)) \<le> length (on_data n)" by (simp add: node_ok_def)
  then have "node_size n = of_nat (length d)" using n(4,5) by (auto simp: node_size_def)
  then show ?thesis using n by (simp add: ov_Stat_def node_attr_def del: map_of_eq_Some_iff)
qed

text \<open>A sequence of writes through one handle; all of them must succeed in full.\<close>

fun write_all :: "('h, 'i) Backend \<Rightarrow> int \<Rightarrow> Manager \<Rightarrow> 'h FileHandle \<Rightarrow> (nat \<times> bytes) list \<Rightarrow> 'i Layer \<Rightarrow> 'i Layer option" where
  "write_all be now m fh [] L = Some L"
| "write_all be now m fh ((off, d) # ws) L =
    (case ly_Write be now [calm m] fh off d L of
       Some (Inr n, L') \<Rightarrow> if n = length d then write_all be now m fh ws L' else None
     | _ \<Rightarrow> None)"

lemma write_all_owned:
  assumes "IsWriteDelegated m p" and "\<forall>(off, d) \<in> set ws. d \<noteq> []" and "owns_file (ly_ov L) p c" and "log_opened (co_log (ly_coord L))"
  shows "\<exists>L'. write_all be now m (SyntheticHandle p) ws L = Some L' \<and> ly_inner L' = ly_inner L \<and>
    owns_file (ly_ov L') p (fold (\<lambda>(off, d). pwrite off d) ws c)"
  using assms(2-4)
proof (induction ws arbitrary: L c)
  case (Cons w ws)
  obtain off d where w: "w = (off, d)" by fastforce
  let ?op = "(mk_op OpWrite p)\<lparr>op_Offset := off, op_Data := d\<rparr>"
  obtain l where r: "recordDeferred now [calm m] ?op (ly_coord L) =
      Some (None, (ly_coord L)\<lparr>co_log := l, co_overlay := ov_Apply now ?op (ly_ov L)\<rparr>)" "log_opened l"
    using calm_records[of m ?op "ly_coord L" now] assms(1) Cons.prems(3) by (auto simp: mk_op_def)
  let ?L = "L\<lparr>ly_coord := (ly_coord L)\<lparr>co_log := l, co_overlay := ov_Apply now ?op (ly_ov L)\<rparr>\<rparr>"
  have "ly_Write be now [calm m] (SyntheticHandle p) off d L = Some (Inr (length d), ?L)"
    using r by (simp add: ly_Write_def defer_or_def del: recordDeferred.simps)
  moreover have "owns_file (ly_ov ?L) p (pwrite off d c)"
    using owns_file_write[OF Cons.prems(2), of d ?op off now] Cons.prems(1) w by simp
  ultimately show ?case using Cons.IH[of ?L "pwrite off d c"] Cons.prems(1) r(2) w by simp
qed simp

text \<open>C7: a file created under a write delegation behaves like a file although the server has not heard of it: after
  any sequence of non-empty writes through its handle a read of any window returns the window of the
  written content, and the attributes report its size; the inner backend is not involved.\<close>

theorem created_file_reads_back:
  assumes "IsWriteDelegated m p" and "p = joinPath parent name" and "log_opened (co_log (ly_coord L))" and "overlay_ok (ly_ov L)"
    and "\<forall>(off, d) \<in> set ws. d \<noteq> []"
  shows "\<exists>a L1 L2 a'. ly_Create be now [calm m] parent name flags mode L = Some (Inr (SyntheticHandle p, Some a), L1) \<and>
    write_all be now m (SyntheticHandle p) ws L1 = Some L2 \<and>
    ly_Read be m (SyntheticHandle p) off n L2 = (Inr (take n (drop off (fold (\<lambda>(off, d). pwrite off d) ws []))), L2) \<and>
    ly_Stat be m p L2 = (Inr a', L2) \<and> at_Size a' = of_nat (length (fold (\<lambda>(off, d). pwrite off d) ws [])) \<and>
    ly_inner L2 = ly_inner L"
proof -
  let ?op = "(mk_op OpCreate p)\<lparr>op_Mode := mode, op_Flags := flags\<rparr>" and ?c = "fold (\<lambda>(off, d). pwrite off d) ws []"
  obtain l where r: "recordDeferred now [calm m] ?op (ly_coord L) =
      Some (None, (ly_coord L)\<lparr>co_log := l, co_overlay := ov_Apply now ?op (ly_ov L)\<rparr>)" "log_opened l"
    using calm_records[of m ?op "ly_coord L" now] assms(1,3) by (auto simp: mk_op_def)
  let ?L = "L\<lparr>ly_coord := (ly_coord L)\<lparr>co_log := l, co_overlay := ov_Apply now ?op (ly_ov L)\<rparr>\<rparr>"
  have own: "owns_file (ly_ov ?L) p []" using owns_file_create[OF assms(4) refl] by simp
  obtain a v where "ov_Stat (ly_ov ?L) p = Pending a False v" using owns_file_Stat[OF own] by blast
  then have cr: "ly_Create be now [calm m] parent name flags mode L = Some (Inr (SyntheticHandle p, Some a), ?L)"
    using r(1) assms(2) by (simp add: ly_Create_def defer_or_def pending_attr_def Let_def del: recordDeferred.simps)
  obtain L2 where L2: "write_all be now m (SyntheticHandle p) ws ?L = Some L2" "ly_inner L2 = ly_inner L" "owns_file (ly_ov L2) p ?c"
    using write_all_owned[OF assms(1,5) own] r(2) by auto
  obtain a' v' where st: "ov_Stat (ly_ov L2) p = Pending a' False v'" "at_Size a' = of_nat (length ?c)"
    using owns_file_Stat[OF L2(3)] by blast
  have "take n (ReadMerge (ly_ov L2) p off (take n (drop off []))) = take n (drop off (ReadMerge (ly_ov L2) p 0 []))"
    using L2(3) by (intro read_slice) (simp add: owns_file_def)
  then have rd: "ly_Read be m (SyntheticHandle p) off n L2 = (Inr (take n (drop off ?c)), L2)"
    using st(1) L2(3) by (simp add: ly_Read_def owns_file_def)
  have "ov_Has (ly_ov L2) p" "IsDelegated m p" using L2(3) assms(1) by (auto simp: ov_Has_def owns_file_def IsWriteDelegated_iff)
  then have "ly_Stat be m p L2 = (Inr a', L2)" using st(1) by (simp add: ly_Stat_def mergedStat_def)
  then show ?thesis using cr L2 rd st(2) by blast
qed

definition ex_attr :: Attr where
  "ex_attr = \<lparr>at_Ino = 9, at_Size = 4, at_Blocks = 1, at_Atime = 100, at_Mtime = 100, at_Ctime = 100, at_Atimensec = 0, at_Mtimensec = 0,
     at_Ctimensec = 0, at_Mode = 0x81A4, at_Nlink = 1, at_Uid = 0, at_Gid = 0, at_Rdev = 0, at_Blksize = 4096, at_Version = 77\<rparr>"

text \<open>A backend for examples that holds one file of four bytes and counts its calls.\<close>

definition ex_be :: "(unit, nat) Backend" where
  "ex_be = \<lparr>be_Stat = \<lambda>p n. (Inr ex_attr, n + 1), be_GetAttrIfChanged = \<lambda>p v n. (Inr (Some ex_attr), n + 1),
     be_Lookup = \<lambda>p x n. (Inr ex_attr, n + 1), be_ListDir = \<lambda>p n. (Inr [], n + 1), be_GetXAttr = \<lambda>p a n. (Inl FS_ENO_XATTR, n + 1),
     be_SetXAttr = \<lambda>p a v f n. (FS_OK, n + 1), be_RemoveXAttr = \<lambda>p a n. (FS_OK, n + 1),
     be_Open = \<lambda>p f n. (Inr (LeafHandle p ()), n + 1), be_Create = \<lambda>p x f m n. (Inr (LeafHandle (joinPath p x) (), Some ex_attr), n + 1),
     be_Read = \<lambda>h off len n. ((take len (drop off [1, 2, 3, 4]), FS_OK), n + 1), be_Write = \<lambda>h off d n. (Inr (length d), n + 1),
     be_Flush = \<lambda>h n. (FS_OK, n + 1), be_Fsync = \<lambda>h f n. (FS_OK, n + 1), be_Release = \<lambda>h n. (FS_OK, n + 1),
     be_Mkdir = \<lambda>p m n. (Inr (Some ex_attr), n + 1), be_Rmdir = \<lambda>p n. (FS_ENOTEMPTY, n + 1), be_Unlink = \<lambda>p n. (FS_OK, n + 1),
     be_Rename = \<lambda>p q n. (FS_OK, n + 1), be_Symlink = \<lambda>t p n. (Inr (Some ex_attr), n + 1),
     be_SetAttr = \<lambda>p s n. (Inr (Some ex_attr), n + 1), be_Close = \<lambda>n. (True, n + 1),
     be_Access = \<lambda>p m n. (FS_OK, n + 1), be_StatFs = \<lambda>p n. (Inl FS_ENOSYS, n + 1), be_ListXAttr = \<lambda>p n. (Inr [], n + 1),
     be_Allocate = \<lambda>h a b m n. (FS_OK, n + 1), be_CopyFileRange = \<lambda>h a g b l f n. (Inr l, n + 1)\<rparr>"

definition ex_mgr :: Manager where
  "ex_mgr = mg_Apply \<lparr>dg_GrantedRoot = ''d'', dg_ExcludedPaths = [], dg_Gen = 1\<rparr> NewManager"

definition ex_layer :: "nat Layer" where
  "ex_layer = \<lparr>ly_coord = NewCoordinator ex_cfg (log_Open ''e'' empty_file) NewOverlay, ly_inner = 0\<rparr>"

lemma ex_mgr_covers: "IsWriteDelegated ex_mgr (''d/'' @ x)"
  by (simp add: ex_mgr_def mg_Apply_def NewManager_def IsWriteDelegated_def drainingLocked_def grant_covers_def cl_contains_def)

lemma ex_mgr_d: "IsWriteDelegated ex_mgr ''d/f''" "IsWriteDelegated ex_mgr ''d/x''" "IsDelegated ex_mgr ''d/f''"
  using ex_mgr_covers[of "''f''"] ex_mgr_covers[of "''x''"] by (simp_all add: IsWriteDelegated_iff)

lemma ex_layer_ok: "log_wf (co_log (ly_coord ex_layer))" "log_opened (co_log (ly_coord ex_layer))" "loadHiSeq (co_log (ly_coord ex_layer)) = 0"
  "overlay_ok (ly_ov ex_layer)"
  by (simp_all add: ex_layer_def NewCoordinator_def log_wf_def log_opened_def log_Open_def empty_file_def loadHiSeq_def)


theorem created_file_reads_back_witness:
  "\<exists>L2 a'. write_all ex_be 0 ex_mgr (SyntheticHandle ''d/f'') [(0, [5, 6]), (3, [7])]
      (snd (the (ly_Create ex_be 0 [calm ex_mgr] ''d'' ''f'' 0 0 ex_layer))) = Some L2 \<and>
     ly_Read ex_be ex_mgr (SyntheticHandle ''d/f'') 1 2 L2 = (Inr [6, 0], L2) \<and>
     ly_Stat ex_be ex_mgr ''d/f'' L2 = (Inr a', L2) \<and> at_Size a' = 4 \<and> ly_inner L2 = 0"
proof -
  let ?ws = "[(0, [5, 6]), (3, [7])]"
  have i: "ly_inner ex_layer = 0" by (simp add: ex_layer_def)
  have c: "fold (\<lambda>(off, d). pwrite off d) ?ws [] = [5, 6, 0, 7]"
    by (simp add: pwrite_def copy_at_def grow_def)
  have j: "''d/f'' = joinPath ''d'' ''f''" by (simp add: joinPath_def)
  have ne: "\<forall>(off, d) \<in> set ?ws. d \<noteq> []" by simp
  obtain a L1 L2 a' where r: "ly_Create ex_be 0 [calm ex_mgr] ''d'' ''f'' 0 0 ex_layer = Some (Inr (SyntheticHandle ''d/f'', Some a), L1)"
      "write_all ex_be 0 ex_mgr (SyntheticHandle ''d/f'') ?ws L1 = Some L2"
      "ly_Read ex_be ex_mgr (SyntheticHandle ''d/f'') 1 2 L2 = (Inr (take 2 (drop 1 [5, 6, 0, 7])), L2)"
      "ly_Stat ex_be ex_mgr ''d/f'' L2 = (Inr a', L2)" "at_Size a' = of_nat (length [5, 6, 0, 7 :: byte])" "ly_inner L2 = ly_inner ex_layer"
    using created_file_reads_back[OF ex_mgr_d(1) j ex_layer_ok(2,4) ne, of ex_be 0 0 0 1 2] unfolding c by blast
  show ?thesis using r(2-6) unfolding r(1) i by (intro exI[of _ L2] exI[of _ a']) (simp add: numeral_2_eq_2)
qed

text \<open>A deferred write does not change the modification time.  On a file that exists at the server, after a deferred
  write, whenever it happens, the attributes still carry the modification time of the server although
  the change time is that of the write.\<close>

theorem deferred_write_keeps_old_mtime:
  assumes "IsDelegated m p" and "gm_get (ov_nodes (ly_ov L)) p = None" and "d \<noteq> []"
    and "be_Stat be p (ly_inner L) = (Inr base, i')"
    and "op = (mk_op OpWrite p)\<lparr>op_Offset := off, op_Data := d\<rparr>"
    and "L' = L\<lparr>ly_coord := (ly_coord L)\<lparr>co_overlay := ov_Apply now op (ly_ov L)\<rparr>\<rparr>"
  shows "\<exists>a L''. ly_Stat be m p L' = (Inr a, L'') \<and> at_Mtime a = at_Mtime base \<and> at_Mtimensec a = at_Mtimensec base \<and> at_Ctime a = of_int now"
  unfolding assms(5,6) using assms(1-4)
  by (simp add: gm_get_put ly_Stat_def ov_Has_def mergedStat_def ov_Stat_def on_inner_def ov_Apply_def ov_applyWrite_def mk_op_def live_node_def
      newBaseDeltaNode_def allocIno_def zero_node_def touch_def addInterval_def merge_attr_def node_attr_def has_bit_def Let_def)

theorem deferred_write_keeps_old_mtime_witness:
  "\<exists>a L''. ly_Stat ex_be ex_mgr ''d/f'' (ex_layer\<lparr>ly_coord := (ly_coord ex_layer)\<lparr>co_overlay :=
      ov_Apply 500 ((mk_op OpWrite ''d/f'')\<lparr>op_Offset := 0, op_Data := [9]\<rparr>) (ly_ov ex_layer)\<rparr>\<rparr>) = (Inr a, L'') \<and> at_Mtime a = 100 \<and> at_Ctime a = 500"
proof -
  have "be_Stat ex_be ''d/f'' (ly_inner ex_layer) = (Inr ex_attr, 1)" by (simp add: ex_be_def ex_layer_def)
  moreover have "gm_get (ov_nodes (ly_ov ex_layer)) ''d/f'' = None" by (simp add: ex_layer_def NewCoordinator_def NewOverlay_def)
  ultimately show ?thesis
    using deferred_write_keeps_old_mtime[where L = ex_layer and d = "[9]" and off = 0 and now = 500, OF ex_mgr_d(3) _ _ _ refl refl]
    by (fastforce simp: ex_attr_def)
qed

text \<open>A server on which every directory is in use: \<open>ENOTEMPTY\<close> is 39.\<close>

definition full_bind :: "string list idbind" where
  "full_bind vol caller = Some (nm_fs\<lparr>pf_Rmdir := (\<lambda>p x fs. (39, fs))\<rparr>, ex_ident)"

definition ex_rm :: Op where
  "ex_rm = mk_op OpRmdir ''d/s''"

definition ex_wr :: Op where
  "ex_wr = (mk_op OpWrite ''d/f'')\<lparr>op_Data := [9]\<rparr>"

text \<open>The coordinator after both operations were deferred.\<close>

definition ex_rm_coord :: Coordinator where
  "ex_rm_coord = \<lparr>co_log = \<lparr>bl_ops = [(1, JsonOp (ex_rm\<lparr>op_Gen := 1, op_Seq := 1\<rparr>)), (2, JsonOp (ex_wr\<lparr>op_Gen := 1, op_Seq := 2\<rparr>))],
       bl_hi = Some 2, bl_epoch = ''e'', bl_closed = False\<rparr>,
     co_overlay = fold (ov_Apply 0) [ex_rm, ex_wr] NewOverlay, co_cfg = ex_cfg, co_watermark = 0, co_losses = [], co_invalidated = []\<rparr>"

lemma ex_rm_deferred:
  "\<exists>L1. ly_Rmdir ex_be 0 [calm ex_mgr] ''d/s'' ex_layer = Some (FS_OK, L1) \<and>
     recordDeferred 0 [calm ex_mgr] ex_wr (ly_coord L1) = Some (None, ex_rm_coord)"
proof -
  have c: "coveringGrant (mg_grants ex_mgr) ''d/s'' = Some \<lparr>gs_grantedRoot = ''d'', gs_excludedPaths = [], gs_gen = 1\<rparr>"
    "coveringGrant (mg_grants ex_mgr) ''d/f'' = Some \<lparr>gs_grantedRoot = ''d'', gs_excludedPaths = [], gs_gen = 1\<rparr>"
    "drainingLocked ex_mgr p = False" for p
    by (simp_all add: ex_mgr_def mg_Apply_def NewManager_def drainingLocked_def grant_covers_def cl_contains_def)
  have mk: "op_Path (mk_op k p) = p" "op_NewPath (mk_op k p) = ''''" "op_Kind (mk_op k p) = k" for k p by (simp_all add: mk_op_def)
  show ?thesis
    by (simp add: ly_Rmdir_def deferOrForward_def defer_or_def calm_def RecordOp_def record_locked_def IsWriteDelegated_def c GenFor_def
      ex_layer_def NewCoordinator_def log_Append_def log_Open_def empty_file_def nextSeq_def loadHiSeq_def Let_def ex_rm_coord_def ex_rm_def
      ex_wr_def mk Apply_gen)
qed

lemma ex_rm_apply:
  "Apply full_bind (\<lambda>_. True) True ''s'' (map RvOp (map (wire ex_rm_coord) (log_pending (co_log ex_rm_coord))) @ [RvEOF]) (ex_srv []) (Some []) =
    (Inr \<lparr>aa_Watermark = 0, aa_FailedSeq = 1, aa_Fserr = FS_ENOTEMPTY\<rparr>, ex_srv [], Some [])"
proof -
  have e: "fromErrno_status 39 = FS_ENOTEMPTY" using FromErrno_ToErrno[OF refl, of FS_ENOTEMPTY]
    by (simp add: ToErrno_def toErrno_def toErrno_table_def toErrnoExtra_def)
  show ?thesis
    by (simp add: ex_rm_coord_def log_pending_def opToWalOp_def ex_rm_def ex_wr_def mk_op_def ex_cfg_def full_bind_def ex_defs apply_eval e
      deleteEmit_def)
qed

text \<open>A deferred rmdir is acknowledged without asking anybody whether the directory is empty.  The server refuses
  it when the log is flushed, the ordered halt drops it together with every operation recorded after
  it, and a write of another file that the application saw succeed is lost.\<close>

theorem deferred_rmdir_loses_later_writes:
  "\<exists>L1 c3 w'. fst (be_Rmdir ex_be ''d/s'' (ly_inner ex_layer)) = FS_ENOTEMPTY \<and>
     ly_Rmdir ex_be 0 [calm ex_mgr] ''d/s'' ex_layer = Some (FS_OK, L1) \<and>
     recordDeferred 0 [calm ex_mgr] ex_wr (ly_coord L1) = Some (None, ex_rm_coord) \<and>
     Flush ex_env (server_stream full_bind (\<lambda>_. True) ''s'') 2 ex_rm_coord ex_world = Some (Some (OrderedHalt 1 FS_ENOTEMPTY), c3, w') \<and>
     log_pending (co_log c3) = [] \<and> ov_nodes (co_overlay c3) = [] \<and>
     (\<exists>lo \<in> set (co_losses c3). lo_reason lo = ApplyFailure \<and> op_Path (last (lo_ops lo)) = ''d/f'' \<and> length (lo_ops lo) = 2)"
proof -
  let ?st = "server_stream full_bind (\<lambda>_. True) ''s''" and ?p = "log_pending (co_log ex_rm_coord)"
  have p: "?p = [ex_rm\<lparr>op_Gen := 1, op_Seq := 1\<rparr>, ex_wr\<lparr>op_Gen := 1, op_Seq := 2\<rparr>]"
    by (simp add: ex_rm_coord_def log_pending_def)
  have st: "?st (map (wire ex_rm_coord) ?p) ex_world =
      (StreamAck \<lparr>aa_Watermark = 0, aa_FailedSeq = 1, aa_Fserr = FS_ENOTEMPTY\<rparr>, ex_world\<lparr>aw_fates := []\<rparr>)"
    using ex_rm_apply by (simp add: server_stream_def ex_world_def received_def)
  have ap: "applyOps ?st ?p ex_rm_coord ex_world = (Inr \<lparr>aa_Watermark = 0, aa_FailedSeq = 1, aa_Fserr = FS_ENOTEMPTY\<rparr>, ex_world\<lparr>aw_fates := []\<rparr>)"
    using st by (simp add: applyOps_def ex_rm_coord_def ex_cfg_def)
  have lim: "applyLimits (co_cfg ex_rm_coord) = (2000, 16777216)" by (simp add: ex_rm_coord_def ex_cfg_def applyLimits_def)
  have pre: "filter (\<lambda>op. op_Seq op > co_watermark ex_rm_coord) (log_Prefix 2 (co_log ex_rm_coord)) = ?p"
    unfolding p by (simp add: ex_rm_coord_def log_Prefix_def word_less_nat_alt)
  have b: "batch_take 2000 16777216 0 0 ?p = ?p" unfolding p by (simp add: ex_rm_def ex_wr_def mk_op_def)
  obtain c3 where pa: "processAck ex_env ApplyFailure (Inr \<lparr>aa_Watermark = 0, aa_FailedSeq = 1, aa_Fserr = FS_ENOTEMPTY\<rparr>) ?p ex_rm_coord =
      (Some (OrderedHalt 1 FS_ENOTEMPTY), c3)" and
    c3: "log_pending (co_log c3) = []" "ov_nodes (co_overlay c3) = []"
      "co_losses c3 = [\<lparr>lo_reason = ApplyFailure, lo_ops = ?p, lo_fserr = FS_ENOTEMPTY\<rparr>]"
    unfolding p by (simp add: processAck_def onFlushed_def commitFlushed_def ex_rm_coord_def ex_env_def log_Truncate_def log_Replay_def
      ov_Reset_def log_pending_def Let_def word_le_nat_alt)
  have ne: "?p \<noteq> []" unfolding p by simp
  then have "flush_loop ex_env ?st 2000 16777216 ?p ex_rm_coord ex_world = Some (Some (OrderedHalt 1 FS_ENOTEMPTY), c3, ex_world\<lparr>aw_fates := []\<rparr>)"
    by (subst flush_loop.simps) (simp add: b ap pa)
  then have "Flush ex_env ?st 2 ex_rm_coord ex_world = Some (Some (OrderedHalt 1 FS_ENOTEMPTY), c3, ex_world\<lparr>aw_fates := []\<rparr>)"
    using ne by (simp add: Flush_def pre lim)
  moreover have "fst (be_Rmdir ex_be ''d/s'' (ly_inner ex_layer)) = FS_ENOTEMPTY" by (simp add: ex_be_def)
  moreover have "op_Path (last ?p) = ''d/f''" "length ?p = 2" unfolding p by (simp_all add: ex_wr_def mk_op_def)
  ultimately show ?thesis using ex_rm_deferred c3 by (metis list.set_intros(1) loss.select_convs(1,2))
qed

section \<open>The synchronous rename\<close>

lemma nested_drains:
  assumes "drain_inv \<lparr>ds_mgr = m, ds_flight = fl\<rparr>" and "markDraining old m = (eo, m1)" and "markDraining new m1 = (en, m2)"
  shows "\<exists>m3 m4. endDraining new en m2 = Some m3 \<and> endDraining old eo m3 = Some m4 \<and>
    set (mg_draining m4) = set (mg_draining m) \<and> mg_grants m4 = mg_grants m \<and> drainingLocked m2 old \<and> drainingLocked m2 new"
proof -
  have i1: "drain_inv \<lparr>ds_mgr = m1, ds_flight = (old, eo) # fl\<rparr>" using drain_inv_begin[OF assms(1), of old eo m1] assms(2) by simp
  have i2: "drain_inv \<lparr>ds_mgr = m2, ds_flight = (new, en) # (old, eo) # fl\<rparr>" using drain_inv_begin[OF i1, of new en m2] assms(3) by simp
  obtain m3 where m3: "endDraining new en m2 = Some m3" "drain_inv \<lparr>ds_mgr = m3, ds_flight = (old, eo) # fl\<rparr>"
    using endDraining_in_flight[OF i2, of new en] by auto
  obtain m4 where m4: "endDraining old eo m3 = Some m4" "drain_inv \<lparr>ds_mgr = m4, ds_flight = fl\<rparr>"
    using endDraining_in_flight[OF m3(2), of old eo] by auto
  have fl: "set (mg_draining x) = set f" if "drain_inv \<lparr>ds_mgr = x, ds_flight = f\<rparr>" for x f
    using that map_of_eq_Some_iff[of "mg_draining x"] unfolding drain_inv_def by auto
  have g: "mg_grants m1 = mg_grants m" "mg_grants m2 = mg_grants m1"
    using markDraining_grants[of old m] markDraining_grants[of new m1] assms(2,3) by simp_all
  have "(old, eo) \<in> set (mg_draining m2)" "(new, en) \<in> set (mg_draining m2)" using fl[OF i2] by simp_all
  then have "drainingLocked m2 old" "drainingLocked m2 new"
    by (auto simp: drainingLocked_def list_ex_iff cl_contains_def)
  then show ?thesis using m3(1) m4(1) fl[OF m4(2)] fl[OF assms(1)] endDraining_grants[OF m3(1)] endDraining_grants[OF m4(1)] g by auto
qed

lemma Fsync_durable:
  assumes "log_wf (co_log c)" and "log_opened (co_log c)" and "fc_volume (co_cfg c) \<noteq> ''''"
    and "durable = durable_upto bind (fc_volume (co_cfg c)) (fc_caller (co_cfg c)) (bl_epoch (co_log c))" and "co_watermark c \<le> durable w"
  shows "\<exists>st c' w'. co_Fsync env (server_stream bind sess_ok sid) c w = Some (st, c', w') \<and>
    (st = FS_OK \<longrightarrow> (\<forall>op \<in> set (log_pending (co_log c)). op_Seq op \<le> durable w'))"
proof -
  let ?st = "server_stream bind sess_ok sid" and ?p = "log_pending (co_log c)"
  have rp: "log_Replay 0 (co_log c) = Inr ?p" by (rule bl.replay_all[OF assms(2)])
  have sp: "speaks (sent_by (fc_volume (co_cfg c)) (fc_caller (co_cfg c)) (bl_epoch (co_log c))) c"
    using opToWalOp_sent_by[OF assms(3)] by (simp add: speaks_def)
  show ?thesis
  proof (cases "?p = []")
    case True
    then show ?thesis using rp by (simp add: co_Fsync_def)
  next
    case False
    have last: "op_Seq op \<le> op_Seq (last ?p)" if "op \<in> set ?p" for op
      using last_op_max[OF bl.pending_sorted[OF assms(1)] that] .
    obtain e c' w' where f: "Flush env ?st (op_Seq (last ?p)) c w = Some (e, c', w')"
      using Flush_returns[of env ?st "op_Seq (last ?p)" c w] by (metis option.exhaust prod.exhaust)
    have "e = None \<Longrightarrow> \<forall>op \<in> set ?p. op_Seq op \<le> durable w'"
      using sv.flush_accounts[OF f assms(1,2) sp] assms(4,5) last by blast
    then show ?thesis using rp False f by (cases e) (auto simp: co_Fsync_def)
  qed
qed



end
