(* ===== verification/Cache_Store.thy ===== *)
theory Cache_Store
  imports Wal_Overlay
begin

text \<open>
  The memory tier of the client cache (\<^verbatim>\<open>pkg/client/backend/cache\<close>: \<^verbatim>\<open>accountant.go\<close>, \<^verbatim>\<open>store.go\<close>).  Several stores
  (attributes, listings, chunks, attribute names) share one accountant: a byte budget, an entry cap
  and one list of all entries from the most to the least recently used.  An entry is identified by
  its store and its key; its value is a parameter of the theory.

  A store may front a disk tier (\<open>loader\<close>, \<open>putter\<close>, \<open>remover\<close>): it is a map of its own, and memory eviction
  leaves it alone.
\<close>

section \<open>The accountant\<close>

type_synonym ckey = "string \<times> string"

(* src/pkg/client/backend/cache/accountant.go:20-26 entry *)
record 'v centry =
  ce_value :: 'v
  ce_size :: int

text \<open>The accountant and the maps of the stores.\<close>

(* src/pkg/client/backend/cache/accountant.go:40-46 accountant *)
record 'v tier =
  tr_budget :: int
  tr_maxEntries :: int
  tr_used :: int
  tr_lru :: "ckey list"
  tr_entries :: "(ckey, 'v centry) gomap"

(* src/pkg/client/backend/cache/accountant.go:50-52 newAccountant *)
definition newAccountant :: "int \<Rightarrow> int \<Rightarrow> 'v tier" where
  "newAccountant budget maxEntries = \<lparr>tr_budget = budget, tr_maxEntries = maxEntries, tr_used = 0, tr_lru = [], tr_entries = []\<rparr>"

(* src/pkg/client/backend/cache/accountant.go:65-70 deriveMaxEntries *)
definition deriveMaxEntries :: "int \<Rightarrow> int" where
  "deriveMaxEntries memoryMaxBytes = (if memoryMaxBytes \<le> 0 then 0 else memoryMaxBytes div 128)"

(* src/pkg/client/backend/cache/accountant.go:130-138 overLimitLocked *)
definition overLimit :: "'v tier \<Rightarrow> bool" where
  "overLimit t \<longleftrightarrow> (tr_budget t > 0 \<and> tr_used t > tr_budget t) \<or> (tr_maxEntries t > 0 \<and> int (length (tr_lru t)) > tr_maxEntries t)"

text \<open>Deregistering an entry of the given size; an entry that is not tracked (its list element is nil) stays out.\<close>

(* src/pkg/client/backend/cache/accountant.go:100-110 removeLocked *)
definition acct_remove :: "ckey \<Rightarrow> int \<Rightarrow> 'v tier \<Rightarrow> 'v tier" where
  "acct_remove k sz t =
    (if k \<notin> set (tr_lru t) then t
     else t\<lparr>tr_lru := remove1 k (tr_lru t), tr_used := (if tr_used t - sz < 0 then 0 else tr_used t - sz)\<rparr>)"

text \<open>The eviction loop: the least recently used entry leaves the accountant and the map of its store.\<close>

definition evict_one :: "'v tier \<Rightarrow> 'v tier" where
  "evict_one t =
    (let k = last (tr_lru t); sz = (case gm_get (tr_entries t) k of None \<Rightarrow> 0 | Some e \<Rightarrow> ce_size e);
         t1 = acct_remove k sz t
     in t1\<lparr>tr_entries := gm_del k (tr_entries t1)\<rparr>)"

(* src/pkg/client/backend/cache/accountant.go:114-126 evictLocked *)
function evict :: "'v tier \<Rightarrow> 'v tier" where
  "evict t = (if \<not> overLimit t \<or> tr_lru t = [] then t else evict (evict_one t))"
  by pat_completeness auto
termination
proof (relation "measure (\<lambda>t. length (tr_lru t))")
  fix t :: "'v tier" assume "\<not> (\<not> overLimit t \<or> tr_lru t = [])"
  then show "(evict_one t, t) \<in> measure (\<lambda>t. length (tr_lru t))"
    by (cases "tr_lru t") (simp_all add: evict_one_def acct_remove_def Let_def length_remove1)
qed simp

declare evict.simps [simp del]

(* src/pkg/client/backend/cache/accountant.go:75-81 insert *)
definition acct_insert :: "ckey \<Rightarrow> int \<Rightarrow> 'v tier \<Rightarrow> 'v tier" where
  "acct_insert k sz t = evict (t\<lparr>tr_lru := k # tr_lru t, tr_used := tr_used t + sz\<rparr>)"

(* src/pkg/client/backend/cache/accountant.go:85-91 touch *)
definition acct_touch :: "ckey \<Rightarrow> 'v tier \<Rightarrow> 'v tier" where
  "acct_touch k t = (if k \<in> set (tr_lru t) then t\<lparr>tr_lru := k # remove1 k (tr_lru t)\<rparr> else t)"

section \<open>The stores\<close>

(* src/pkg/client/backend/cache/store.go:201-212 insertMem *)
definition insertMem :: "ckey \<Rightarrow> 'v \<Rightarrow> int \<Rightarrow> 'v tier \<Rightarrow> 'v tier" where
  "insertMem k v sz t =
    (let t1 = t\<lparr>tr_entries := gm_put k \<lparr>ce_value = v, ce_size = sz\<rparr> (tr_entries t)\<rparr>;
         t2 = (case gm_get (tr_entries t) k of None \<Rightarrow> t1 | Some prior \<Rightarrow> acct_remove k (ce_size prior) t1)
     in acct_insert k sz t2)"

text \<open>The memory part of \<^verbatim>\<open>get\<close>: a hit is promoted.\<close>

definition mem_get :: "ckey \<Rightarrow> 'v tier \<Rightarrow> 'v option \<times> 'v tier" where
  "mem_get k t = (case gm_get (tr_entries t) k of None \<Rightarrow> (None, t) | Some e \<Rightarrow> (Some (ce_value e), acct_touch k t))"

text \<open>The memory part of \<^verbatim>\<open>remove\<close>.\<close>

definition mem_remove :: "ckey \<Rightarrow> 'v tier \<Rightarrow> 'v tier" where
  "mem_remove k t =
    (case gm_get (tr_entries t) k of
       None \<Rightarrow> t
     | Some e \<Rightarrow> acct_remove k (ce_size e) (t\<lparr>tr_entries := gm_del k (tr_entries t)\<rparr>))"

text \<open>A store with an optional disk tier; \<^verbatim>\<open>sizeOf\<close> recomputes the size of a loaded value.\<close>

record 'v disk =
  dk_on :: bool
  dk_data :: "(ckey, 'v) gomap"

(* src/pkg/client/backend/cache/store.go:107-155 get *)
definition store_get :: "(ckey \<Rightarrow> 'v \<Rightarrow> int) \<Rightarrow> ckey \<Rightarrow> 'v tier \<times> 'v disk \<Rightarrow> 'v option \<times> 'v tier \<times> 'v disk" where
  "store_get sizeOf k s =
    (case s of (t, d) \<Rightarrow>
      (case mem_get k t of
         (Some v, t') \<Rightarrow> (Some v, t', d)
       | (None, t') \<Rightarrow>
           (case (if dk_on d then gm_get (dk_data d) k else None) of
              None \<Rightarrow> (None, t', d)
            | Some v \<Rightarrow>
                (let t2 = insertMem k v (sizeOf k v) t'
                 in (map_option ce_value (gm_get (tr_entries t2) k), t2, d)))))"

(* src/pkg/client/backend/cache/store.go:162-189 putGen *)
definition store_put :: "ckey \<Rightarrow> 'v \<Rightarrow> int \<Rightarrow> 'v tier \<times> 'v disk \<Rightarrow> 'v tier \<times> 'v disk" where
  "store_put k v sz s =
    (case s of (t, d) \<Rightarrow> (insertMem k v sz t, if dk_on d then d\<lparr>dk_data := gm_put k v (dk_data d)\<rparr> else d))"

(* src/pkg/client/backend/cache/store.go:279-294 remove *)
definition store_remove :: "ckey \<Rightarrow> 'v tier \<times> 'v disk \<Rightarrow> 'v tier \<times> 'v disk" where
  "store_remove k s =
    (case s of (t, d) \<Rightarrow> (mem_remove k t, if dk_on d then d\<lparr>dk_data := gm_del k (dk_data d)\<rparr> else d))"

(* src/pkg/client/backend/cache/store.go:309-326 removeMatching *)
definition store_removeMatching :: "string \<Rightarrow> (string \<Rightarrow> bool) \<Rightarrow> 'v tier \<times> 'v disk \<Rightarrow> 'v tier \<times> 'v disk" where
  "store_removeMatching sid P s =
    fold store_remove (filter (\<lambda>(s', k). s' = sid \<and> P k) (map fst (tr_entries (fst s)))) s"

section \<open>Accounting\<close>

definition tier_view :: "'v tier \<Rightarrow> ckey \<Rightarrow> 'v option" where
  "tier_view t k = map_option ce_value (gm_get (tr_entries t) k)"

definition total_size :: "(ckey, 'v centry) gomap \<Rightarrow> int" where
  "total_size m = (\<Sum>(k, e) \<leftarrow> m. ce_size e)"

text \<open>Everything but the limits: the list tracks exactly the entries of the maps, and the byte count is their sum.\<close>

definition tier_core :: "'v tier \<Rightarrow> bool" where
  "tier_core t \<longleftrightarrow> gm_wf (tr_entries t) \<and> distinct (tr_lru t) \<and> set (tr_lru t) = fst ` set (tr_entries t) \<and>
     (\<forall>(k, e) \<in> set (tr_entries t). 0 \<le> ce_size e) \<and> tr_used t = total_size (tr_entries t)"

definition tier_inv :: "'v tier \<Rightarrow> bool" where
  "tier_inv t \<longleftrightarrow> tier_core t \<and> \<not> overLimit t"

lemma total_size_nonneg: "\<forall>(k, e) \<in> set m. 0 \<le> ce_size e \<Longrightarrow> 0 \<le> total_size m"
  unfolding total_size_def by (induction m) auto

lemma total_size_del:
  "gm_wf m \<Longrightarrow> gm_get m k = Some e \<Longrightarrow> total_size (gm_del k m) = total_size m - ce_size e"
proof (induction m)
  case (Cons x m)
  obtain k' e' where x: "x = (k', e')" by fastforce
  show ?case
  proof (cases "k' = k")
    case True
    then have "gm_del k m = m" using Cons.prems(1) x by (intro delete_id) simp
    then show ?thesis using True Cons.prems x by (simp add: total_size_def)
  next
    case False
    then show ?thesis using Cons x by (simp add: total_size_def)
  qed
qed simp

lemma total_size_put:
  "gm_wf m \<Longrightarrow> total_size (gm_put k e m) = total_size m - (case gm_get m k of None \<Rightarrow> 0 | Some p \<Rightarrow> ce_size p) + ce_size e"
proof (induction m)
  case (Cons x m)
  obtain k' e' where x: "x = (k', e')" by fastforce
  have "k' = k \<Longrightarrow> gm_get m k = None" using Cons.prems x by (simp add: map_of_eq_None_iff)
  then show ?case using Cons x by (auto simp: total_size_def)
qed (simp add: total_size_def)

lemma gm_del_keys: "fst ` set (gm_del k m) = fst ` set m - {k}"
  by (auto simp: AList.delete_eq image_iff)

lemma gm_del_sub: "set (gm_del k m) \<subseteq> set m"
  by (auto simp: AList.delete_eq)

lemma entry_of_lru: "tier_core t \<Longrightarrow> k \<in> set (tr_lru t) \<longleftrightarrow> (\<exists>e. gm_get (tr_entries t) k = Some e)"
  by (metis dom_map_of_conv_image_fst domD domI tier_core_def)

text \<open>Taking an entry out of the list and of its map, the common step of removal and eviction.\<close>

lemma drop_entry_core:
  assumes "tier_core t" and "gm_get (tr_entries t) k = Some e"
  shows "tier_core (acct_remove k (ce_size e) (t\<lparr>tr_entries := gm_del k (tr_entries t)\<rparr>))"
proof -
  have wf: "gm_wf (tr_entries t)" using assms(1) by (simp add: tier_core_def)
  have k: "k \<in> set (tr_lru t)" using entry_of_lru[OF assms(1)] assms(2) by blast
  have u: "tr_used t - ce_size e = total_size (gm_del k (tr_entries t))"
    using total_size_del[OF wf assms(2)] assms(1) by (simp add: tier_core_def)
  have nn: "\<forall>(k, e) \<in> set (gm_del k (tr_entries t)). 0 \<le> ce_size e" using assms(1) gm_del_sub[of k "tr_entries t"] by (auto simp: tier_core_def)
  show ?thesis using assms(1) k u nn total_size_nonneg[OF nn] wf
    by (auto simp: tier_core_def acct_remove_def gm_del_keys)
qed

lemma tier_core_lru_cong: "tier_core t \<Longrightarrow> distinct l \<Longrightarrow> set l = set (tr_lru t) \<Longrightarrow> tier_core (t\<lparr>tr_lru := l\<rparr>)"
  by (simp add: tier_core_def)

lemma evict_one_step:
  assumes "tier_core t" and "tr_lru t \<noteq> []"
  shows "tier_core (evict_one t) \<and> tr_lru (evict_one t) = butlast (tr_lru t) \<and> tier_view (evict_one t) \<subseteq>\<^sub>m tier_view t \<and>
    tr_budget (evict_one t) = tr_budget t \<and> tr_maxEntries (evict_one t) = tr_maxEntries t \<and>
    (\<forall>k. k \<noteq> last (tr_lru t) \<longrightarrow> gm_get (tr_entries (evict_one t)) k = gm_get (tr_entries t) k)"
proof -
  let ?k = "last (tr_lru t)"
  obtain e where e: "gm_get (tr_entries t) ?k = Some e" using entry_of_lru[OF assms(1), of ?k] assms(2) by auto
  have eq: "evict_one t = acct_remove ?k (ce_size e) (t\<lparr>tr_entries := gm_del ?k (tr_entries t)\<rparr>)"
    using e by (simp add: evict_one_def acct_remove_def Let_def)
  have d: "distinct (tr_lru t)" using assms(1) by (simp add: tier_core_def)
  have "remove1 ?k (tr_lru t) = butlast (tr_lru t)"
    using assms(2) d by (cases "tr_lru t" rule: rev_cases) (auto simp: remove1_append)
  then show ?thesis using drop_entry_core[OF assms(1) e] assms(2) unfolding eq
    by (auto simp: acct_remove_def tier_view_def map_le_def gm_get_del)
qed

lemma evict_spec:
  assumes "tier_core t"
  shows "tier_core (evict t) \<and> \<not> overLimit (evict t) \<and> tier_view (evict t) \<subseteq>\<^sub>m tier_view t \<and> prefix (tr_lru (evict t)) (tr_lru t) \<and>
    tr_budget (evict t) = tr_budget t \<and> tr_maxEntries (evict t) = tr_maxEntries t"
  using assms
proof (induction t rule: evict.induct)
  case (1 t)
  show ?case
  proof (cases "\<not> overLimit t \<or> tr_lru t = []")
    case True
    have "tr_lru t = [] \<Longrightarrow> \<not> overLimit t" using 1(2) by (auto simp: overLimit_def tier_core_def total_size_def)
    then have "\<not> overLimit t" using True by blast
    then show ?thesis using True 1(2) by (simp add: evict.simps[of t])
  next
    case False
    then have ne: "tr_lru t \<noteq> []" by simp
    note s = evict_one_step[OF 1(2) ne]
    have "prefix (butlast (tr_lru t)) (tr_lru t)" by (metis append_butlast_last_id ne prefixI)
    then show ?thesis using 1(1)[OF False] s False
      by (subst (1 2 3 4 5 6) evict.simps) (auto intro: map_le_trans prefix_order.order_trans)
  qed
qed

section \<open>A lossy store\<close>

text \<open>
  What the caches above rely on: a lookup that hits returns what was stored last, an entry may disappear at any
  operation, and nothing appears that was not put.  A content that agrees with a function of the
  keys (the truth at the server) keeps agreeing under every operation that respects it.
\<close>

locale lossy_store =
  fixes inv :: "'s \<Rightarrow> bool"
    and view :: "'s \<Rightarrow> 'k \<Rightarrow> 'v option"
    and get :: "'k \<Rightarrow> 's \<Rightarrow> 'v option \<times> 's"
    and put :: "'k \<Rightarrow> 'v \<Rightarrow> 's \<Rightarrow> 's"
    and del :: "'k \<Rightarrow> 's \<Rightarrow> 's"
  assumes get_inv: "inv s \<Longrightarrow> inv (snd (get k s))"
    and put_inv: "inv s \<Longrightarrow> inv (put k v s)"
    and del_inv: "inv s \<Longrightarrow> inv (del k s)"
    and get_hit: "fst (get k s) = Some v \<Longrightarrow> view s k = Some v"
    and get_sub: "view (snd (get k s)) \<subseteq>\<^sub>m view s"
    and put_sub: "inv s \<Longrightarrow> view (put k v s) \<subseteq>\<^sub>m (view s)(k \<mapsto> v)"
    and del_sub: "view (del k s) \<subseteq>\<^sub>m (view s)(k := None)"
begin

definition agrees :: "('k \<Rightarrow> 'v \<Rightarrow> bool) \<Rightarrow> 's \<Rightarrow> bool" where
  "agrees ok s \<longleftrightarrow> (\<forall>k v. view s k = Some v \<longrightarrow> ok k v)"

lemma agrees_sub: "agrees ok s \<Longrightarrow> view s' \<subseteq>\<^sub>m view s \<Longrightarrow> agrees ok s'"
  unfolding agrees_def map_le_def by (metis domI)

lemma agrees_get: "agrees ok s \<Longrightarrow> get k s = (r, s') \<Longrightarrow> agrees ok s' \<and> (\<forall>v. r = Some v \<longrightarrow> ok k v)"
  using get_hit[of k s] get_sub[of k s] agrees_sub[of ok s s'] by (auto simp: agrees_def)

lemma agrees_put: "inv s \<Longrightarrow> agrees ok s \<Longrightarrow> ok k v \<Longrightarrow> agrees ok (put k v s)"
  using put_sub[of s k v] unfolding agrees_def map_le_def by (metis domI fun_upd_apply option.inject)

lemma agrees_del: "(\<And>k' v. k' \<noteq> k \<Longrightarrow> view s k' = Some v \<Longrightarrow> ok k' v) \<Longrightarrow> agrees ok (del k s)"
  using del_sub[of k s] unfolding agrees_def map_le_def by (metis domI fun_upd_apply option.distinct(1))

lemma del_gone: "view (del k s) k = None"
  using del_sub[of k s] unfolding map_le_def by (metis domIff fun_upd_same)

end

lemma touch_core: "tier_inv t \<Longrightarrow> tier_inv (acct_touch k t)"
proof -
  assume i: "tier_inv t"
  show ?thesis
  proof (cases "k \<in> set (tr_lru t)")
    case True
    have "distinct (k # remove1 k (tr_lru t))" "set (k # remove1 k (tr_lru t)) = set (tr_lru t)"
      using i True by (auto simp: tier_inv_def tier_core_def)
    then have "tier_core (t\<lparr>tr_lru := k # remove1 k (tr_lru t)\<rparr>)" using i by (intro tier_core_lru_cong) (auto simp: tier_inv_def)
    moreover have "length (k # remove1 k (tr_lru t)) = length (tr_lru t)"
      using True by (simp add: length_remove1) (metis Suc_pred length_pos_if_in_set)
    ultimately show ?thesis using i True by (simp add: tier_inv_def acct_touch_def overLimit_def)
  qed (use i in \<open>simp add: acct_touch_def\<close>)
qed

lemma remove_inv: "tier_inv t \<Longrightarrow> tier_inv (mem_remove k t)"
proof -
  assume i: "tier_inv t"
  show ?thesis
  proof (cases "gm_get (tr_entries t) k")
    case (Some e)
    let ?t = "acct_remove k (ce_size e) (t\<lparr>tr_entries := gm_del k (tr_entries t)\<rparr>)"
    have c: "tier_core ?t" using drop_entry_core[OF _ Some] i by (simp add: tier_inv_def)
    have "0 \<le> ce_size e" "0 \<le> tr_used t"
      using i map_of_SomeD[OF Some] total_size_nonneg[of "tr_entries t"] by (auto simp: tier_inv_def tier_core_def)
    moreover have "length (remove1 k (tr_lru t)) \<le> length (tr_lru t)" by (simp add: length_remove1)
    ultimately have "\<not> overLimit ?t" using i by (auto simp: tier_inv_def overLimit_def acct_remove_def split: if_splits)
    then show ?thesis using c Some by (simp add: mem_remove_def tier_inv_def)
  qed (use i in \<open>simp add: mem_remove_def\<close>)
qed

text \<open>The state just before the eviction loop of an insertion.\<close>

definition with_entry :: "ckey \<Rightarrow> 'v \<Rightarrow> int \<Rightarrow> 'v tier \<Rightarrow> 'v tier" where
  "with_entry k v sz t = t\<lparr>tr_entries := gm_put k \<lparr>ce_value = v, ce_size = sz\<rparr> (tr_entries t), tr_lru := k # remove1 k (tr_lru t),
     tr_used := tr_used t - (case gm_get (tr_entries t) k of None \<Rightarrow> 0 | Some p \<Rightarrow> ce_size p) + sz\<rparr>"

lemma entry_size_le: "tier_core t \<Longrightarrow> gm_get (tr_entries t) k = Some e \<Longrightarrow> ce_size e \<le> tr_used t"
proof -
  assume c: "tier_core t" and e: "gm_get (tr_entries t) k = Some e"
  have "0 \<le> total_size (gm_del k (tr_entries t))"
    using c gm_del_sub[of k "tr_entries t"] by (intro total_size_nonneg) (auto simp: tier_core_def)
  then show ?thesis using total_size_del[OF _ e] c by (simp add: tier_core_def)
qed

lemma insertMem_eq:
  assumes "tier_core t" shows "insertMem k v sz t = evict (with_entry k v sz t)"
proof (cases "gm_get (tr_entries t) k")
  case None
  then have "remove1 k (tr_lru t) = tr_lru t" using entry_of_lru[OF assms, of k] by (simp add: remove1_idem)
  then show ?thesis using None by (simp add: insertMem_def with_entry_def acct_insert_def Let_def)
next
  case (Some p)
  have "k \<in> set (tr_lru t)" using entry_of_lru[OF assms] Some by blast
  moreover have "ce_size p \<le> tr_used t" by (rule entry_size_le[OF assms Some])
  ultimately show ?thesis using Some by (simp add: insertMem_def with_entry_def acct_insert_def acct_remove_def Let_def)
qed

lemma gm_put_set: "set (gm_put k v m) \<subseteq> insert (k, v) (set m)"
  by (induction m) auto

lemma with_entry_core:
  assumes "tier_core t" and "0 \<le> sz" shows "tier_core (with_entry k v sz t) \<and> tier_view (with_entry k v sz t) = (tier_view t)(k \<mapsto> v)"
proof -
  have n: "\<forall>(k', e) \<in> set (gm_put k \<lparr>ce_value = v, ce_size = sz\<rparr> (tr_entries t)). 0 \<le> ce_size e"
    using assms gm_put_set[of k "\<lparr>ce_value = v, ce_size = sz\<rparr>" "tr_entries t"] by (fastforce simp: tier_core_def)
  show ?thesis using assms n total_size_put[of "tr_entries t" k "\<lparr>ce_value = v, ce_size = sz\<rparr>"]
    by (auto simp: tier_core_def with_entry_def gm_keys_put tier_view_def gm_get_put fun_eq_iff)
qed

lemma insertMem_inv: "tier_inv t \<Longrightarrow> 0 \<le> sz \<Longrightarrow> tier_inv (insertMem k v sz t)"
  using evict_spec[of "with_entry k v sz t"] with_entry_core[of t sz k v] insertMem_eq[of t k v sz] by (simp add: tier_inv_def)

text \<open>The sizes the caches compute are sums of lengths, hence natural numbers.\<close>

interpretation ms: lossy_store tier_inv tier_view mem_get "\<lambda>k v. insertMem k v (int (f k v))" mem_remove
  for f :: "ckey \<Rightarrow> 'v \<Rightarrow> nat"
proof (unfold_locales, goal_cases)
  case (1 s k)
  then show ?case by (simp add: mem_get_def touch_core split: option.splits)
next
  case (2 s k v)
  then show ?case by (simp add: insertMem_inv)
next
  case (3 s k)
  then show ?case by (rule remove_inv)
next
  case (4 k s v)
  then show ?case by (auto simp: mem_get_def tier_view_def split: option.splits)
next
  case (5 k s)
  then show ?case by (auto simp: mem_get_def acct_touch_def tier_view_def map_le_def split: option.splits)
next
  case (6 s k v)
  then have "tier_core s" by (simp add: tier_inv_def)
  then show ?case using evict_spec[of "with_entry k v (int (f k v)) s"] with_entry_core[of s "int (f k v)" k v] insertMem_eq[of s k v "int (f k v)"] by simp
next
  case (7 k s)
  then show ?case by (auto simp: mem_remove_def acct_remove_def tier_view_def map_le_def gm_get_del split: option.splits)
qed

section \<open>Accounting over whole runs\<close>

datatype 'v store_op = SGet ckey | SPut ckey 'v nat | SRemove ckey

fun mem_step :: "'v store_op \<Rightarrow> 'v tier \<Rightarrow> 'v tier" where
  "mem_step (SGet k) t = snd (mem_get k t)"
| "mem_step (SPut k v n) t = insertMem k v (int n) t"
| "mem_step (SRemove k) t = mem_remove k t"


lemma evict_keeps_head:
  assumes "tier_core t" and "tr_lru t = k # ks" and "gm_get (tr_entries t) k = Some e" and "tr_budget t \<le> 0 \<or> ce_size e \<le> tr_budget t"
  shows "gm_get (tr_entries (evict t)) k = Some e"
  using assms
proof (induction t arbitrary: ks rule: evict.induct)
  case (1 t)
  show ?case
  proof (cases "\<not> overLimit t \<or> tr_lru t = []")
    case True
    then show ?thesis using 1 by (simp add: evict.simps[of t])
  next
    case False
    then have ne: "tr_lru t \<noteq> []" by simp
    note s = evict_one_step[OF 1(2) ne]
    have "ks \<noteq> []"
    proof
      assume "ks = []"
      then have "fst ` set (tr_entries t) = {k}" "gm_wf (tr_entries t)" "tr_used t = total_size (tr_entries t)"
        using 1(2,3) by (auto simp: tier_core_def)
      moreover from this have "length (tr_entries t) = 1" by (metis card.empty card_insert_disjoint distinct_card empty_iff finite.emptyI length_map list.set_map One_nat_def)
      ultimately have "tr_used t = ce_size e" using 1(4) by (cases "tr_entries t") (auto simp: total_size_def)
      then show False using False \<open>ks = []\<close> 1(3,5) by (auto simp: overLimit_def)
    qed
    then have l: "tr_lru (evict_one t) = k # butlast ks" "last (tr_lru t) \<noteq> k" using s 1(2,3) by (auto simp: tier_core_def)
    have g: "gm_get (tr_entries (evict_one t)) k = Some e" using s l(2) 1(4) by metis
    have "tier_core (evict_one t)" "tr_budget (evict_one t) = tr_budget t" using s by simp_all
    then have "gm_get (tr_entries (evict (evict_one t))) k = Some e" using 1(1)[OF False _ l(1) g] 1(5) by simp
    then show ?thesis using False by (subst evict.simps) simp
  qed
qed

lemma evict_entries: "tier_core t \<Longrightarrow> gm_get (tr_entries (evict t)) \<subseteq>\<^sub>m gm_get (tr_entries t)"
proof (induction t rule: evict.induct)
  case (1 t)
  show ?case
  proof (cases "\<not> overLimit t \<or> tr_lru t = []")
    case False
    then have ne: "tr_lru t \<noteq> []" by simp
    note s = evict_one_step[OF 1(2) ne]
    then have "last (tr_lru t) \<notin> set (tr_lru (evict_one t))"
      using 1(2) ne by (metis append_butlast_last_id distinct_butlast not_distinct_conv_prefix tier_core_def)
    then have "gm_get (tr_entries (evict_one t)) \<subseteq>\<^sub>m gm_get (tr_entries t)"
      using s entry_of_lru[of "evict_one t"] unfolding map_le_def by (metis domD)
    then show ?thesis using 1(1)[OF False] s False by (subst evict.simps) (auto intro: map_le_trans)
  qed (simp add: evict.simps[of t])
qed

lemma insert_oversized:
  assumes "tier_core t" and "0 < tr_budget t" and "tr_budget t < int n"
  shows "tr_entries (evict (with_entry k v (int n) t)) = []"
proof -
  let ?w = "with_entry k v (int n) t"
  have cw: "tier_core ?w" using with_entry_core[OF assms(1) of_nat_0_le_iff, of k v n] by blast
  note s = evict_spec[OF cw]
  have "k \<notin> set (tr_lru (evict ?w))"
  proof
    assume "k \<in> set (tr_lru (evict ?w))"
    then obtain x where x: "gm_get (tr_entries (evict ?w)) k = Some x" using s entry_of_lru by blast
    then have "gm_get (tr_entries ?w) k = Some x" using evict_entries[OF cw] unfolding map_le_def by (metis domI)
    then have "ce_size x = int n" by (auto simp: with_entry_def gm_get_put)
    moreover have "ce_size x \<le> tr_used (evict ?w)" using entry_size_le[OF _ x] s by blast
    moreover have "tr_budget (evict ?w) = tr_budget t" using s by (simp add: with_entry_def)
    ultimately show False using s assms(2,3) by (auto simp: overLimit_def)
  qed
  moreover have "prefix (tr_lru (evict ?w)) (k # remove1 k (tr_lru t))" using s by (simp add: with_entry_def)
  ultimately have "tr_lru (evict ?w) = []" by (metis list.set_intros(1) prefix_Cons)
  then show ?thesis using s by (simp add: tier_core_def)
qed

text \<open>An insertion keeps the new entry whenever its size alone fits the byte budget (or there is no budget), and otherwise
  evicts everything, the new entry included.  What survives is a prefix of the recency order with the new key
  in front, and every survivor keeps its value.
\<close>

theorem insert_evicts_least_recent:
  assumes "tier_inv t"
  shows "tier_view (insertMem k v (int n) t) k = (if tr_budget t \<le> 0 \<or> int n \<le> tr_budget t then Some v else None) \<and>
    (0 < tr_budget t \<longrightarrow> tr_budget t < int n \<longrightarrow> tr_entries (insertMem k v (int n) t) = []) \<and>
    prefix (tr_lru (insertMem k v (int n) t)) (k # remove1 k (tr_lru t)) \<and>
    tier_view (insertMem k v (int n) t) \<subseteq>\<^sub>m (tier_view t)(k \<mapsto> v)"
proof -
  have c: "tier_core t" using assms by (simp add: tier_inv_def)
  let ?w = "with_entry k v (int n) t" and ?e = "\<lparr>ce_value = v, ce_size = int n\<rparr>"
  note w = with_entry_core[OF c of_nat_0_le_iff, of k v n]
  have lw: "tr_lru ?w = k # remove1 k (tr_lru t)" "tr_budget ?w = tr_budget t" "gm_get (tr_entries ?w) k = Some ?e"
    by (simp_all add: with_entry_def gm_get_put)
  have "tr_budget t \<le> 0 \<or> int n \<le> tr_budget t \<Longrightarrow> gm_get (tr_entries (evict ?w)) k = Some ?e"
    using evict_keeps_head[OF conjunct1[OF w] lw(1) lw(3)] lw(2) by simp
  then show ?thesis using evict_spec[OF conjunct1[OF w]] insert_oversized[OF c, of n k v] w lw unfolding insertMem_eq[OF c]
    by (auto simp: tier_view_def)
qed

theorem insert_evicts_least_recent_witness:
  "let t = insertMem (''attr'', ''b'') 2 60 (insertMem (''attr'', ''a'') (1::nat) 60 (newAccountant 100 0)) in
   tier_view (insertMem (''attr'', ''c'') 3 (int 30) t) (''attr'', ''c'') = Some 3 \<and> tr_lru (insertMem (''attr'', ''c'') 3 30 t) = [(''attr'', ''c''), (''attr'', ''b'')] \<and>
   tr_entries (insertMem (''attr'', ''c'') 3 (int 300) t) = []"
proof -
  let ?t = "insertMem (''attr'', ''b'') 2 60 (insertMem (''attr'', ''a'') (1::nat) 60 (newAccountant 100 0))"
  have i: "tier_inv ?t" "tr_budget ?t = 100" by code_simp+
  have l: "tr_lru (insertMem (''attr'', ''c'') 3 30 ?t) = [(''attr'', ''c''), (''attr'', ''b'')]" by code_simp
  show ?thesis using insert_evicts_least_recent[OF i(1), of "(''attr'', ''c'')" 3 30] insert_evicts_least_recent[OF i(1), of "(''attr'', ''c'')" 3 300] i(2) l
    by (simp add: Let_def)
qed

end
