(* ===== verification/Cache_Persist.thy ===== *)
theory Cache_Persist
  imports Cache_Store
begin

text \<open>
  The disk tier of the client cache (\<^verbatim>\<open>pkg/client/backend/cache/persist\<close>).  File contents are stored once per content: a
  chunk file is named by the hash of its bytes, the bucket \<^verbatim>\<open>data_idx\<close> maps a file and a chunk number to a reference
  (hash, size, version), and \<^verbatim>\<open>chunk_refs\<close> counts how many references name a hash; a chunk whose count reaches zero is unlinked.

  Buckets are association lists; the keys are byte strings, as the database orders them.  The transactions of the database are
  atomic: a failed one changes nothing.  The files live outside the transactions, so that an index entry may lack its file
  and a file may lack its entry.  The hash (\<^verbatim>\<open>xxh3\<close>) is a parameter of the operations that compute it.  Every call takes the
  faults of its input and output operations as an argument, and returns \<open>False\<close> on an error.
\<close>

section \<open>Encodings\<close>

text \<open>\<^verbatim>\<open>binary.PutUvarint\<close>: seven bits per byte, low bits first, the high bit set on all but the last byte.\<close>

function putUvarint :: "nat \<Rightarrow> bytes" where
  "putUvarint n = (if n < 128 then [of_nat n] else of_nat (n mod 128 + 128) # putUvarint (n div 128))"
  by pat_completeness auto
termination by (relation "measure id") auto

declare putUvarint.simps [simp del]

text \<open>
  \<^verbatim>\<open>binary.Uvarint\<close>, from byte number \<open>i\<close> on: a truncated input and a value of more than 64 bits read as 0.  The bits read so
  far are below \<open>2 ^ s\<close>, hence the disjunction of the source is a sum.
\<close>

fun uvarint_from :: "nat \<Rightarrow> nat \<Rightarrow> nat \<Rightarrow> bytes \<Rightarrow> nat" where
  "uvarint_from i s x [] = 0"
| "uvarint_from i s x (b # bs) =
    (if i = 10 then 0
     else if unat b < 128 then (if i = 9 \<and> unat b > 1 then 0 else x + unat b * 2 ^ s)
     else uvarint_from (i + 1) (s + 7) (x + (unat b - 128) * 2 ^ s) bs)"

definition uvarint :: "bytes \<Rightarrow> nat" where
  "uvarint = uvarint_from 0 0 0"

definition put_be32 :: "u32 \<Rightarrow> bytes" where
  "put_be32 v = [ucast (drop_bit 24 v), ucast (drop_bit 16 v), ucast (drop_bit 8 v), ucast v]"

definition be32 :: "bytes \<Rightarrow> u32" where
  "be32 b = or (ucast (b ! 3)) (or (push_bit 8 (ucast (b ! 2))) (or (push_bit 16 (ucast (b ! 1))) (push_bit 24 (ucast (b ! 0)))))"

definition put_be64 :: "u64 \<Rightarrow> bytes" where
  "put_be64 v = put_be32 (ucast (drop_bit 32 v)) @ put_be32 (ucast v)"

definition be64 :: "bytes \<Rightarrow> u64" where
  "be64 b = or (push_bit 32 (ucast (be32 b))) (ucast (be32 (drop 4 b)))"

(* src/pkg/client/backend/cache/persist/dataidx.go:17-21 ChunkRef *)
record ChunkRef =
  rf_Hash :: bytes
  rf_Size :: u32
  rf_Version :: u64

(* src/pkg/client/backend/cache/persist/dataidx.go:279-285 encodeChunkRef *)
definition encodeChunkRef :: "ChunkRef \<Rightarrow> bytes" where
  "encodeChunkRef r = rf_Hash r @ put_be32 (rf_Size r) @ put_be64 (rf_Version r)"

(* src/pkg/client/backend/cache/persist/dataidx.go:287-296 decodeChunkRef *)
definition decodeChunkRef :: "bytes \<Rightarrow> ChunkRef option" where
  "decodeChunkRef b =
    (if length b \<noteq> 28 then None
     else Some \<lparr>rf_Hash = take 16 b, rf_Size = be32 (take 4 (drop 16 b)), rf_Version = be64 (take 8 (drop 20 b))\<rparr>)"

definition byte_char :: "byte \<Rightarrow> char" where
  "byte_char b = char_of (unat b)"

(* src/pkg/client/backend/cache/persist/dataidx.go:35-40 dataIdxPathPrefix *)
definition dataIdxPathPrefix :: "path \<Rightarrow> string" where
  "dataIdxPathPrefix p = p @ [CHR 0x00]"

(* src/pkg/client/backend/cache/persist/dataidx.go:25-33 dataIdxKey *)
definition dataIdxKey :: "path \<Rightarrow> nat \<Rightarrow> string" where
  "dataIdxKey p i = p @ [CHR 0x00] @ map byte_char (putUvarint i)"

text \<open>A path the kernel can hand out has no NUL.\<close>

definition path_ok :: "path \<Rightarrow> bool" where
  "path_ok p \<longleftrightarrow> CHR 0x00 \<notin> set p"

subsection \<open>Round trips\<close>

lemma be32_put: "be32 (put_be32 v) = v"
proof (rule bit_word_eqI)
  fix n assume "n < LENGTH(32)"
  then consider "n < 8" | "8 \<le> n" "n < 16" | "16 \<le> n" "n < 24" | "24 \<le> n" "n < 32" by fastforce
  then show "bit (be32 (put_be32 v)) n = bit v n"
    by cases (auto simp: be32_def put_be32_def bit_or_iff bit_push_bit_iff bit_ucast_iff bit_drop_bit_eq)
qed

lemma put_be32_length [simp]: "length (put_be32 v) = 4"
  by (simp add: put_be32_def)

lemma put_be64_length [simp]: "length (put_be64 v) = 8"
  by (simp add: put_be64_def)

lemma be32_take: "4 \<le> length b \<Longrightarrow> be32 (take 4 b) = be32 b"
  by (simp add: be32_def)

lemma be64_put: "be64 (put_be64 v) = v"
proof -
  have "be32 (put_be32 a @ put_be32 b) = a" for a b
    using be32_take[of "put_be32 a @ put_be32 b"] by (simp add: be32_put)
  then have e: "be64 (put_be64 v) = or (push_bit 32 (ucast (ucast (drop_bit 32 v) :: u32))) (ucast (ucast v :: u32))"
    by (simp add: be64_def put_be64_def be32_put)
  show ?thesis unfolding e
  proof (rule bit_word_eqI)
    fix n assume "n < LENGTH(64)"
    then show "bit (or (push_bit 32 (ucast (ucast (drop_bit 32 v) :: u32))) (ucast (ucast v :: u32)) :: u64) n = bit v n"
      by (cases "n < 32") (auto simp: bit_or_iff bit_push_bit_iff bit_ucast_iff bit_drop_bit_eq)
  qed
qed

lemma decode_encode: "length (rf_Hash r) = 16 \<Longrightarrow> decodeChunkRef (encodeChunkRef r) = Some r"
  by (simp add: decodeChunkRef_def encodeChunkRef_def be32_put be64_put)

lemma unat_small: "n < 256 \<Longrightarrow> unat (of_nat n :: byte) = n"
  by (simp add: unat_of_nat)

lemma uvarint_from_put:
  "n * 2 ^ s < 2 ^ 64 \<Longrightarrow> s = 7 * i \<Longrightarrow> i \<le> 9 \<Longrightarrow> uvarint_from i s x (putUvarint n) = x + n * 2 ^ s"
proof (induction n arbitrary: i s x rule: putUvarint.induct)
  case (1 n)
  show ?case
  proof (cases "n < 128")
    case True
    have "i = 9 \<Longrightarrow> n \<le> 1" using 1(2,3) by auto
    then show ?thesis using True 1(3,4) by (auto simp: putUvarint.simps[of n] unat_small)
  next
    case False
    have i: "i + 1 \<le> 9"
    proof (rule ccontr)
      assume "\<not> i + 1 \<le> 9"
      then have "i = 9" using 1(4) by simp
      then show False using 1(2,3) False by auto
    qed
    have m: "n div 128 * 2 ^ (s + 7) \<le> n * 2 ^ s" by (simp add: power_add)
    have d: "n mod 128 * 2 ^ s + n div 128 * 2 ^ (s + 7) = n * 2 ^ s"
      by (simp add: power_add) (metis add_mult_distrib mod_mult_div_eq mult.commute mult.left_commute)
    have u: "unat (of_nat (n mod 128 + 128) :: byte) = n mod 128 + 128" by (rule unat_small) simp
    have "uvarint_from i s x (putUvarint n) = uvarint_from (i + 1) (s + 7) (x + n mod 128 * 2 ^ s) (putUvarint (n div 128))"
      using False 1(4) u by (subst putUvarint.simps) simp
    also have "\<dots> = x + n mod 128 * 2 ^ s + n div 128 * 2 ^ (s + 7)"
      using False 1(2,3) i m by (intro 1(1)) simp_all
    finally show ?thesis using d by simp
  qed
qed

lemma uvarint_put: "n < 2 ^ 64 \<Longrightarrow> uvarint (putUvarint n) = n"
  using uvarint_from_put[of n 0 0 0] by (simp add: uvarint_def)

lemma putUvarint_ne [simp]: "putUvarint n \<noteq> []"
  by (subst putUvarint.simps) simp

lemma putUvarint_inj: "putUvarint n = putUvarint m \<Longrightarrow> n = m"
proof (induction n arbitrary: m rule: putUvarint.induct)
  case (1 n)
  have big: "\<not> k < 128 \<Longrightarrow> unat (hd (putUvarint k)) = k mod 128 + 128" for k
    by (subst putUvarint.simps) (simp add: unat_small del: of_nat_add)
  have small: "k < 128 \<Longrightarrow> unat (hd (putUvarint k)) = k" for k
    by (subst putUvarint.simps) (simp add: unat_small)
  have hd: "unat (hd (putUvarint n)) = unat (hd (putUvarint m))" using 1(2) by simp
  show ?case
  proof (cases "n < 128")
    case True
    then have "m < 128" using hd small[of n] big[of m] by fastforce
    then show ?thesis using hd small True by metis
  next
    case False
    then have m: "\<not> m < 128" using hd big[OF False] small[of m] by fastforce
    then have "n mod 128 = m mod 128" using hd big False by simp
    moreover have "putUvarint (n div 128) = putUvarint (m div 128)"
      using 1(2) False m by (subst (asm) (1 2) putUvarint.simps) simp
    ultimately show ?thesis using 1(1)[OF False] by (metis div_mult_mod_eq)
  qed
qed

lemma byte_char_inj: "byte_char a = byte_char b \<Longrightarrow> a = b"
proof -
  assume "byte_char a = byte_char b"
  then have "of_char (char_of (unat a) :: char) = (of_char (char_of (unat b) :: char) :: nat)" by (simp add: byte_char_def)
  moreover have "unat x < 256" for x :: byte using unsigned_less[where ?'a = nat, of x] by simp
  then have "unat x mod 256 = unat x" for x :: byte by simp
  ultimately show ?thesis by (simp add: unsigned_word_eqI)
qed

lemma nul_split:
  assumes "path_ok p" and "path_ok q" and "p @ CHR 0x00 # x = q @ CHR 0x00 # y"
  shows "p = q \<and> x = y"
  using assms
proof (induction p arbitrary: q)
  case Nil
  then show ?case by (cases q) (auto simp: path_ok_def)
next
  case (Cons a p)
  then obtain q' where "q = a # q'" by (cases q) (auto simp: path_ok_def)
  then show ?case using Cons.IH[of q'] Cons.prems by (auto simp: path_ok_def)
qed

lemma dataIdxKey_inj: "path_ok p \<Longrightarrow> path_ok q \<Longrightarrow> dataIdxKey p i = dataIdxKey q j \<longleftrightarrow> p = q \<and> i = j"
proof
  assume ok: "path_ok p" "path_ok q" and e: "dataIdxKey p i = dataIdxKey q j"
  then have s: "p = q \<and> map byte_char (putUvarint i) = map byte_char (putUvarint j)"
    using nul_split[OF ok] by (simp add: dataIdxKey_def)
  then have "putUvarint i = putUvarint j" by (auto intro: map_injective injI byte_char_inj)
  then show "p = q \<and> i = j" using s putUvarint_inj by blast
qed simp

lemma prefix_of_key: "path_ok p \<Longrightarrow> path_ok q \<Longrightarrow> prefix (dataIdxPathPrefix p) (dataIdxKey q i) \<longleftrightarrow> p = q"
proof
  assume ok: "path_ok p" "path_ok q" and e: "prefix (dataIdxPathPrefix p) (dataIdxKey q i)"
  then obtain r where "q @ CHR 0x00 # map byte_char (putUvarint i) = p @ CHR 0x00 # r"
    by (auto simp: prefix_def dataIdxPathPrefix_def dataIdxKey_def)
  then show "p = q" using nul_split[OF ok(2,1)] by blast
qed (auto simp: prefix_def dataIdxPathPrefix_def dataIdxKey_def)

text \<open>The encodings of the disk index are faithful: a reference decodes to itself, a stored reference count reads back for every
  64-bit value, the keys of two chunks differ whenever their files or their numbers do, and the prefix scan
  of a file meets the keys of that file only.
\<close>

theorem index_encodings_roundtrip:
  assumes "length (rf_Hash r) = 16" and "n < 2 ^ 64" and "path_ok p" and "path_ok q"
  shows "decodeChunkRef (encodeChunkRef r) = Some r \<and> uvarint (putUvarint n) = n \<and>
    (dataIdxKey p i = dataIdxKey q j \<longleftrightarrow> p = q \<and> i = j) \<and>
    (prefix (dataIdxPathPrefix p) (dataIdxKey q j) \<longleftrightarrow> p = q)"
  using assms decode_encode uvarint_put dataIdxKey_inj prefix_of_key by blast

theorem index_encodings_roundtrip_witness:
  "decodeChunkRef (encodeChunkRef \<lparr>rf_Hash = replicate 16 7, rf_Size = 300, rf_Version = 0\<rparr>) = Some \<lparr>rf_Hash = replicate 16 7, rf_Size = 300, rf_Version = 0\<rparr> \<and>
   uvarint (putUvarint 300) = 300 \<and> dataIdxKey ''a'' 300 \<noteq> dataIdxKey ''ab'' 300 \<and> \<not> prefix (dataIdxPathPrefix ''a'') (dataIdxKey ''ab'' 1)"
  using index_encodings_roundtrip[of "\<lparr>rf_Hash = replicate 16 7, rf_Size = 300, rf_Version = 0\<rparr>" 300 "''a''" "''ab''" 300 300]
    index_encodings_roundtrip[of "\<lparr>rf_Hash = replicate 16 7, rf_Size = 300, rf_Version = 0\<rparr>" 300 "''a''" "''ab''" 300 1]
  by (simp add: path_ok_def)

section \<open>State\<close>

text \<open>The files below \<^verbatim>\<open>chunks/\<close>: a chunk, named by its hash, or the temporary file of a write that has not been renamed.\<close>

datatype fname = Chunk bytes | Tmp bytes bytes

(* src/pkg/client/backend/cache/persist/persist.go:122-136 Persist *)
record Persist =
  ps_attr :: "(string, bytes) gomap"
  ps_dir :: "(string, bytes) gomap"
  ps_idx :: "(string, bytes) gomap"
  ps_refs :: "(bytes, bytes) gomap"
  ps_files :: "(fname, bytes \<times> int) gomap"
  ps_used :: int
  ps_budget :: int
  ps_underflows :: nat

text \<open>
  The faults of one call: the read transaction, the write transaction, the synchronisation of the database, the
  write of a chunk file, the synchronisation of its directory, and the hashes whose file cannot be unlinked.
\<close>

record faults =
  pf_view :: bool
  pf_update :: bool
  pf_sync :: bool
  pf_write :: bool
  pf_dirsync :: bool
  pf_unlink :: "bytes list"

definition no_faults :: faults where
  "no_faults = \<lparr>pf_view = False, pf_update = False, pf_sync = False, pf_write = False, pf_dirsync = False, pf_unlink = []\<rparr>"

(* src/pkg/client/backend/cache/persist/diskaccountant.go:23-32 Over *)
definition disk_over :: "Persist \<Rightarrow> int" where
  "disk_over s = (if ps_budget s \<le> 0 then 0 else if ps_used s - ps_budget s < 0 then 0 else ps_used s - ps_budget s)"

section \<open>Plain buckets\<close>

(* src/pkg/client/backend/cache/persist/kv.go:11-25 kvGet *)
definition kvGet :: "faults \<Rightarrow> string \<Rightarrow> (string, bytes) gomap \<Rightarrow> bool \<times> bytes option" where
  "kvGet f k b = (if pf_view f then (False, None) else (True, gm_get b k))"

(* src/pkg/client/backend/cache/persist/kv.go:27-31 kvPut *)
definition kvPut :: "faults \<Rightarrow> string \<Rightarrow> bytes \<Rightarrow> (string, bytes) gomap \<Rightarrow> bool \<times> (string, bytes) gomap" where
  "kvPut f k v b = (if pf_update f then (False, b) else (True, gm_put k v b))"

(* src/pkg/client/backend/cache/persist/kv.go:33-56 kvDelete *)
definition kvDelete :: "faults \<Rightarrow> string \<Rightarrow> (string, bytes) gomap \<Rightarrow> bool \<times> (string, bytes) gomap" where
  "kvDelete f k b =
    (case kvGet f k b of
       (False, _) \<Rightarrow> (False, b)
     | (True, None) \<Rightarrow> (True, b)
     | (True, Some _) \<Rightarrow> if pf_update f then (False, b) else (\<not> pf_sync f, gm_del k b))"

(* src/pkg/client/backend/cache/persist/kv.go:65-89 kvDeletePrefix *)
definition kvDeletePrefix :: "faults \<Rightarrow> string \<Rightarrow> (string, bytes) gomap \<Rightarrow> bool \<times> (string, bytes) gomap" where
  "kvDeletePrefix f p b =
    (if pf_update f then (False, b)
     else (let b' = filter (\<lambda>(k, _). \<not> (k = p \<or> prefix (p @ ''/'') k)) b
           in (if length b' = length b then True else \<not> pf_sync f, b')))"

section \<open>Reference counts\<close>

definition ref_count :: "(bytes, bytes) gomap \<Rightarrow> bytes \<Rightarrow> nat" where
  "ref_count m h = (case gm_get m h of None \<Rightarrow> 0 | Some v \<Rightarrow> uvarint v)"

(* src/pkg/client/backend/cache/persist/refcount.go:52-64 ChunkRefCount *)
definition ChunkRefCount :: "faults \<Rightarrow> bytes \<Rightarrow> Persist \<Rightarrow> nat option" where
  "ChunkRefCount f h s = (if pf_view f then None else Some (ref_count (ps_refs s) h))"

(* src/pkg/client/backend/cache/persist/refcount.go:68-75 incRefTx *)
definition incRefTx :: "bytes \<Rightarrow> (bytes, bytes) gomap \<Rightarrow> (bytes, bytes) gomap" where
  "incRefTx h m = gm_put h (putUvarint ((ref_count m h + 1) mod 2 ^ 64)) m"

text \<open>The surviving count, whether the key existed, and the bucket.\<close>

(* src/pkg/client/backend/cache/persist/refcount.go:82-96 decRefTx *)
definition decRefTx :: "bytes \<Rightarrow> (bytes, bytes) gomap \<Rightarrow> nat \<times> bool \<times> (bytes, bytes) gomap" where
  "decRefTx h m =
    (case gm_get m h of
       None \<Rightarrow> (0, False, m)
     | Some v \<Rightarrow> if uvarint v \<le> 1 then (0, True, gm_del h m) else (uvarint v - 1, True, gm_put h (putUvarint (uvarint v - 1)) m))"

section \<open>Chunk files\<close>

(* src/pkg/client/backend/cache/persist/chunks.go:141-161 unlinkChunk *)
definition unlinkChunk :: "faults \<Rightarrow> bytes \<Rightarrow> Persist \<Rightarrow> bool \<times> Persist" where
  "unlinkChunk f h s =
    (case gm_get (ps_files s) (Chunk h) of
       None \<Rightarrow> (True, s)
     | Some (d, _) \<Rightarrow>
         if h \<in> set (pf_unlink f) then (False, s)
         else (True, s\<lparr>ps_files := gm_del (Chunk h) (ps_files s), ps_used := ps_used s - int (length d)\<rparr>))"

text \<open>The unlinks after a transaction: the first failure ends them.\<close>

fun unlink_all :: "faults \<Rightarrow> bytes list \<Rightarrow> Persist \<Rightarrow> bool \<times> Persist" where
  "unlink_all f [] s = (True, s)"
| "unlink_all f (h # hs) s = (case unlinkChunk f h s of (ok, s') \<Rightarrow> if ok then unlink_all f hs s' else (False, s'))"

(* src/pkg/client/backend/cache/persist/chunks.go:119-125 ReadChunk *)
definition ReadChunk :: "bytes \<Rightarrow> Persist \<Rightarrow> bytes option" where
  "ReadChunk h s = map_option fst (gm_get (ps_files s) (Chunk h))"

(* src/pkg/client/backend/cache/persist/chunks.go:165-189 seedDiskBytes *)
definition seedDiskBytes :: "Persist \<Rightarrow> Persist" where
  "seedDiskBytes s =
    s\<lparr>ps_used := ps_used s + (\<Sum>(n, d, t) \<leftarrow> ps_files s. case n of Chunk _ \<Rightarrow> int (length d) | Tmp _ _ \<Rightarrow> 0)\<rparr>"

section \<open>The index\<close>

text \<open>The part of the state a write transaction of the index changes, with the chunks to unlink once it is committed.\<close>

record index_tx =
  tx_idx :: "(string, bytes) gomap"
  tx_refs :: "(bytes, bytes) gomap"
  tx_underflows :: nat
  tx_unlink :: "bytes list"

definition tx_begin :: "Persist \<Rightarrow> index_tx" where
  "tx_begin s = \<lparr>tx_idx = ps_idx s, tx_refs = ps_refs s, tx_underflows = ps_underflows s, tx_unlink = []\<rparr>"

definition tx_commit :: "index_tx \<Rightarrow> Persist \<Rightarrow> Persist" where
  "tx_commit t s = s\<lparr>ps_idx := tx_idx t, ps_refs := tx_refs t, ps_underflows := tx_underflows t\<rparr>"

text \<open>Dropping the reference of a hash, and of the entry that holds it.\<close>

definition tx_dec :: "bytes \<Rightarrow> index_tx \<Rightarrow> index_tx" where
  "tx_dec h t =
    (case decRefTx h (tx_refs t) of
       (remaining, found, refs) \<Rightarrow>
         t\<lparr>tx_refs := refs, tx_underflows := (if found then tx_underflows t else tx_underflows t + 1),
           tx_unlink := (if remaining = 0 then tx_unlink t @ [h] else tx_unlink t)\<rparr>)"

definition tx_drop :: "string \<Rightarrow> bytes \<Rightarrow> index_tx \<Rightarrow> index_tx" where
  "tx_drop k h t = tx_dec h (t\<lparr>tx_idx := gm_del k (tx_idx t)\<rparr>)"

text \<open>Committing a transaction, then synchronising the database and unlinking the chunks it freed.\<close>

definition finish_drop :: "faults \<Rightarrow> index_tx \<Rightarrow> Persist \<Rightarrow> bool \<times> Persist" where
  "finish_drop f t s =
    (let s1 = tx_commit t s in if pf_sync f then (False, s1) else unlink_all f (tx_unlink t) s1)"

(* src/pkg/client/backend/cache/persist/dataidx.go:46-98 PutChunkRef *)
definition PutChunkRef :: "faults \<Rightarrow> path \<Rightarrow> nat \<Rightarrow> ChunkRef \<Rightarrow> Persist \<Rightarrow> bool \<times> Persist" where
  "PutChunkRef f p i ref s =
    (if pf_update f then (False, s)
     else let key = dataIdxKey p i; t = tx_begin s;
              store = (\<lambda>t. t\<lparr>tx_idx := gm_put key (encodeChunkRef ref) (tx_idx t), tx_refs := incRefTx (rf_Hash ref) (tx_refs t)\<rparr>)
          in (case gm_get (ps_idx s) key of
                None \<Rightarrow> (True, tx_commit (store t) s)
              | Some prior \<Rightarrow>
                  (case decodeChunkRef prior of
                     None \<Rightarrow> (False, s)
                   | Some old \<Rightarrow>
                       if rf_Hash old = rf_Hash ref then (True, s)
                       else let t1 = store (tx_dec (rf_Hash old) t) in unlink_all f (tx_unlink t1) (tx_commit t1 s))))"

(* src/pkg/client/backend/cache/persist/dataidx.go:102-119 GetChunkRef *)
definition GetChunkRef :: "faults \<Rightarrow> path \<Rightarrow> nat \<Rightarrow> Persist \<Rightarrow> bool \<times> ChunkRef option" where
  "GetChunkRef f p i s =
    (if pf_view f then (False, None)
     else (case gm_get (ps_idx s) (dataIdxKey p i) of
             None \<Rightarrow> (True, None)
           | Some v \<Rightarrow> (case decodeChunkRef v of None \<Rightarrow> (False, None) | Some r \<Rightarrow> (True, Some r))))"

text \<open>The cursor walk over the keys of a file, in key order.\<close>

definition path_keys :: "path \<Rightarrow> Persist \<Rightarrow> (string \<times> bytes) list" where
  "path_keys p s = sort_key fst (filter (\<lambda>(k, _). prefix (dataIdxPathPrefix p) k) (ps_idx s))"

fun decode_all :: "(string \<times> bytes) list \<Rightarrow> (string \<times> ChunkRef) list option" where
  "decode_all [] = Some []"
| "decode_all ((k, v) # kvs) =
    (case decodeChunkRef v of None \<Rightarrow> None | Some r \<Rightarrow> map_option ((#) (k, r)) (decode_all kvs))"

(* src/pkg/client/backend/cache/persist/dataidx.go:124-197 InvalidatePathChunks *)
definition InvalidatePathChunks :: "faults \<Rightarrow> path \<Rightarrow> Persist \<Rightarrow> bool \<times> Persist" where
  "InvalidatePathChunks f p s =
    (if pf_view f then (False, s)
     else if path_keys p s = [] then (True, s)
     else (case (if pf_update f then None else decode_all (path_keys p s)) of
             None \<Rightarrow> (False, s)
           | Some krs \<Rightarrow> finish_drop f (fold (\<lambda>(k, r). tx_drop k (rf_Hash r)) krs (tx_begin s)) s))"

fun range_tx :: "path \<Rightarrow> nat list \<Rightarrow> index_tx \<Rightarrow> index_tx option" where
  "range_tx p [] t = Some t"
| "range_tx p (i # is) t =
    (case gm_get (tx_idx t) (dataIdxKey p i) of
       None \<Rightarrow> range_tx p is t
     | Some v \<Rightarrow>
         (case decodeChunkRef v of
            None \<Rightarrow> None
          | Some r \<Rightarrow> range_tx p is (tx_drop (dataIdxKey p i) (rf_Hash r) t)))"

(* src/pkg/client/backend/cache/persist/dataidx.go:202-268 InvalidateChunkRange *)
definition InvalidateChunkRange :: "faults \<Rightarrow> path \<Rightarrow> nat \<Rightarrow> nat \<Rightarrow> Persist \<Rightarrow> bool \<times> Persist" where
  "InvalidateChunkRange f p lo hi s =
    (if pf_view f then (False, s)
     else if \<forall>i \<in> set [lo..<Suc hi]. gm_get (ps_idx s) (dataIdxKey p i) = None then (True, s)
     else (case (if pf_update f then None else range_tx p [lo..<Suc hi] (tx_begin s)) of
             None \<Rightarrow> (False, s)
           | Some t \<Rightarrow> finish_drop f t s))"

section \<open>Sweeps and the disk budget\<close>

text \<open>A file younger than the minimum age is left alone: its write, or the recording of its reference, may be under way.\<close>

definition too_fresh :: "int \<Rightarrow> int \<Rightarrow> int \<Rightarrow> bool" where
  "too_fresh minAge now mtime \<longleftrightarrow> minAge > 0 \<and> mtime > now - minAge"

definition orphan_file :: "faults \<Rightarrow> int \<Rightarrow> int \<Rightarrow> fname \<Rightarrow> Persist \<Rightarrow> bool \<times> Persist" where
  "orphan_file f minAge now n s =
    (case gm_get (ps_files s) n of
       None \<Rightarrow> (True, s)
     | Some (d, mtime) \<Rightarrow>
         if too_fresh minAge now mtime then (True, s)
         else (case n of
                 Tmp _ _ \<Rightarrow> (True, s\<lparr>ps_files := gm_del n (ps_files s)\<rparr>)
               | Chunk h \<Rightarrow>
                   (case ChunkRefCount f h s of
                      None \<Rightarrow> (False, s)
                    | Some c \<Rightarrow> if c = 0 then unlinkChunk f h s else (True, s))))"

fun orphan_walk :: "faults \<Rightarrow> int \<Rightarrow> int \<Rightarrow> fname list \<Rightarrow> Persist \<Rightarrow> bool \<times> Persist" where
  "orphan_walk f minAge now [] s = (True, s)"
| "orphan_walk f minAge now (n # ns) s =
    (case orphan_file f minAge now n s of (ok, s') \<Rightarrow> if ok then orphan_walk f minAge now ns s' else (False, s'))"

(* src/pkg/client/backend/cache/persist/sweep.go:54-131 runOrphanSweep *)
definition runOrphanSweep :: "faults \<Rightarrow> int \<Rightarrow> int \<Rightarrow> Persist \<Rightarrow> bool \<times> Persist" where
  "runOrphanSweep f minAge now s = orphan_walk f minAge now (map fst (ps_files s)) s"

text \<open>
  The second half of the ghost sweep and of the eviction: the entries collected by an earlier read transaction are dropped, unless
  they have gone or been overwritten since (or, for a ghost, its file is back).
\<close>

fun sweep_tx :: "(bytes \<Rightarrow> bool) \<Rightarrow> (string \<times> bytes) list \<Rightarrow> index_tx \<Rightarrow> index_tx option" where
  "sweep_tx P [] t = Some t"
| "sweep_tx P ((k, h) # khs) t =
    (case gm_get (tx_idx t) k of
       None \<Rightarrow> sweep_tx P khs t
     | Some v \<Rightarrow>
         (case decodeChunkRef v of
            None \<Rightarrow> None
          | Some r \<Rightarrow> if rf_Hash r \<noteq> h \<or> \<not> P h then sweep_tx P khs t else sweep_tx P khs (tx_drop k h t)))"

text \<open>The ghosts among the sampled keys.\<close>

definition ghost_collect :: "(string \<Rightarrow> bool) \<Rightarrow> Persist \<Rightarrow> (string \<times> bytes) list option" where
  "ghost_collect sample s =
    map_option (\<lambda>krs. map (\<lambda>(k, r). (k, rf_Hash r)) (filter (\<lambda>(k, r). gm_get (ps_files s) (Chunk (rf_Hash r)) = None) krs))
      (decode_all (sort_key fst (filter (\<lambda>(k, _). sample k) (ps_idx s))))"

text \<open>A failed unlink of a ghost is only logged.\<close>

definition ghost_apply :: "faults \<Rightarrow> (string \<times> bytes) list \<Rightarrow> Persist \<Rightarrow> bool \<times> Persist" where
  "ghost_apply f khs s =
    (case (if pf_update f then None else sweep_tx (\<lambda>h. gm_get (ps_files s) (Chunk h) = None) khs (tx_begin s)) of
       None \<Rightarrow> (False, s)
     | Some t \<Rightarrow> (True, fold (\<lambda>h s. snd (unlinkChunk f h s)) (tx_unlink t) (tx_commit t s)))"

(* src/pkg/client/backend/cache/persist/sweep.go:137-226 runGhostSweep *)
definition runGhostSweep :: "faults \<Rightarrow> (string \<Rightarrow> bool) \<Rightarrow> Persist \<Rightarrow> bool \<times> Persist" where
  "runGhostSweep f sample s =
    (if pf_view f then (False, s)
     else (case ghost_collect sample s of
             None \<Rightarrow> (False, s)
           | Some [] \<Rightarrow> (True, s)
           | Some khs \<Rightarrow> ghost_apply f khs s))"

text \<open>The lexically first entries whose sizes cover the excess.\<close>

fun evict_collect :: "int \<Rightarrow> int \<Rightarrow> (string \<times> bytes) list \<Rightarrow> (string \<times> bytes) list option" where
  "evict_collect overBy collected [] = Some []"
| "evict_collect overBy collected ((k, v) # kvs) =
    (if collected \<ge> overBy then Some []
     else (case decodeChunkRef v of
             None \<Rightarrow> None
           | Some r \<Rightarrow> map_option ((#) (k, rf_Hash r)) (evict_collect overBy (collected + int (unat (rf_Size r))) kvs)))"

definition evict_apply :: "faults \<Rightarrow> (string \<times> bytes) list \<Rightarrow> Persist \<Rightarrow> bool \<times> Persist" where
  "evict_apply f khs s =
    (case (if pf_update f then None else sweep_tx (\<lambda>_. True) khs (tx_begin s)) of
       None \<Rightarrow> (False, s)
     | Some t \<Rightarrow> unlink_all f (tx_unlink t) (tx_commit t s))"

text \<open>The minimum age of the background sweep, 60 seconds, in nanoseconds.\<close>

(* src/pkg/client/backend/cache/persist/sweep.go:23-23 orphanSweepBgAge *)
definition orphanSweepBgAge :: int where
  "orphanSweepBgAge = 60000000000"

(* src/pkg/client/backend/cache/persist/sweep.go:253-347 enforceDiskBudget *)
definition enforceDiskBudget :: "faults \<Rightarrow> int \<Rightarrow> Persist \<Rightarrow> bool \<times> Persist" where
  "enforceDiskBudget f now s =
    (if disk_over s = 0 then (True, s)
     else if pf_view f then (False, s)
     else (case evict_collect (disk_over s) 0 (sort_key fst (ps_idx s)) of
             None \<Rightarrow> (False, s)
           | Some [] \<Rightarrow> runOrphanSweep f orphanSweepBgAge now s
           | Some khs \<Rightarrow> evict_apply f khs s))"

text \<open>The chunk file is renamed into place before its directory is synchronised, hence it stays when that fails.\<close>

(* src/pkg/client/backend/cache/persist/chunks.go:18-57 WriteChunk *)
definition WriteChunk :: "(bytes \<Rightarrow> bytes) \<Rightarrow> faults \<Rightarrow> int \<Rightarrow> bytes \<Rightarrow> Persist \<Rightarrow> (bytes \<times> bool \<times> bool) \<times> Persist" where
  "WriteChunk hash f now data s =
    (let h = hash data in
     if (case gm_get (ps_files s) (Chunk h) of None \<Rightarrow> False | Some (d, _) \<Rightarrow> length d = length data) then ((h, True, True), s)
     else if pf_write f then ((h, False, False), s)
     else let s1 = s\<lparr>ps_files := gm_put (Chunk h) (data, now) (ps_files s)\<rparr> in
          if pf_dirsync f then ((h, False, False), s1)
          else (case enforceDiskBudget f now (s1\<lparr>ps_used := ps_used s1 + int (length data)\<rparr>) of (ok, s2) \<Rightarrow> ((h, False, ok), s2)))"

section \<open>Reference counts are exact\<close>

text \<open>How many index entries name a hash.\<close>

definition named_by :: "(string, bytes) gomap \<Rightarrow> bytes \<Rightarrow> nat" where
  "named_by idx h = length (filter (\<lambda>(k, v). take 16 v = h) idx)"

definition refs_exact :: "(string, bytes) gomap \<Rightarrow> (bytes, bytes) gomap \<Rightarrow> bool" where
  "refs_exact idx refs \<longleftrightarrow> gm_wf idx \<and> gm_wf refs \<and> list_all (\<lambda>(k, v). length v = 28) idx \<and>
     (\<forall>h. gm_get refs h = (if named_by idx h = 0 then None else Some (putUvarint (named_by idx h))))"

abbreviation tx_exact :: "index_tx \<Rightarrow> bool" where
  "tx_exact t \<equiv> refs_exact (tx_idx t) (tx_refs t)"

lemma named_by_del:
  "gm_wf idx \<Longrightarrow> gm_get idx k = Some v \<Longrightarrow> named_by idx h = named_by (gm_del k idx) h + (if take 16 v = h then 1 else 0)"
proof (induction idx)
  case (Cons x idx)
  obtain k' v' where x: "x = (k', v')" by fastforce
  show ?case
  proof (cases "k' = k")
    case True
    then have "gm_del k idx = idx" using Cons.prems(1) x by (intro delete_id) simp
    then show ?thesis using True Cons.prems x by (simp add: named_by_def)
  next
    case False
    then show ?thesis using Cons x by (simp add: named_by_def)
  qed
qed simp

lemma named_by_put:
  "gm_wf idx \<Longrightarrow> named_by (gm_put k v idx) h + (case gm_get idx k of None \<Rightarrow> 0 | Some w \<Rightarrow> if take 16 w = h then 1 else 0) =
     named_by idx h + (if take 16 v = h then 1 else 0)"
proof (induction idx)
  case (Cons x idx)
  obtain k' v' where x: "x = (k', v')" by fastforce
  have "k' = k \<Longrightarrow> gm_get idx k = None" using Cons.prems x by (simp add: map_of_eq_None_iff)
  then show ?case using Cons x by (auto simp: named_by_def)
qed (simp add: named_by_def)

lemma named_by_le: "named_by idx h \<le> length idx"
  by (simp add: named_by_def)

lemma ref_count_exact: "refs_exact idx refs \<Longrightarrow> length idx < 2 ^ 64 \<Longrightarrow> ref_count refs h = named_by idx h"
  using named_by_le[of idx h] by (simp add: refs_exact_def ref_count_def uvarint_put)

lemma decode_hash: "decodeChunkRef v = Some r \<Longrightarrow> rf_Hash r = take 16 v \<and> length v = 28"
  by (auto simp: decodeChunkRef_def split: if_splits)

lemma decode_total: "length v = 28 \<Longrightarrow> \<exists>r. decodeChunkRef v = Some r"
  by (simp add: decodeChunkRef_def)

text \<open>What dropping one reference does to the counts, whatever happens to the entry.\<close>

lemma tx_dec_counts:
  assumes "tx_exact t" and "length (tx_idx t) < 2 ^ 64" and "0 < named_by (tx_idx t) h"
  shows "tx_idx (tx_dec h t) = tx_idx t \<and> tx_underflows (tx_dec h t) = tx_underflows t \<and> gm_wf (tx_refs (tx_dec h t)) \<and>
    gm_get (tx_refs (tx_dec h t)) = (gm_get (tx_refs t))(h := (if named_by (tx_idx t) h = 1 then None else Some (putUvarint (named_by (tx_idx t) h - 1)))) \<and>
    tx_unlink (tx_dec h t) = tx_unlink t @ (if named_by (tx_idx t) h = 1 then [h] else [])"
proof -
  have g: "gm_get (tx_refs t) h = Some (putUvarint (named_by (tx_idx t) h))" and w: "gm_wf (tx_refs t)"
    using assms(1,3) by (auto simp: refs_exact_def)
  have u: "uvarint (putUvarint (named_by (tx_idx t) h)) = named_by (tx_idx t) h"
    using named_by_le[of "tx_idx t" h] assms(2) by (intro uvarint_put) simp
  show ?thesis
  proof (cases "named_by (tx_idx t) h = 1")
    case True
    then have "decRefTx h (tx_refs t) = (0, True, gm_del h (tx_refs t))" using g u by (simp add: decRefTx_def)
    then show ?thesis using True w by (simp add: tx_dec_def gomap_simps)
  next
    case False
    then have "1 < named_by (tx_idx t) h" using assms(3) by linarith
    then have "decRefTx h (tx_refs t) = (named_by (tx_idx t) h - 1, True, gm_put h (putUvarint (named_by (tx_idx t) h - 1)) (tx_refs t))"
      using g u by (simp add: decRefTx_def)
    then show ?thesis using False \<open>1 < named_by (tx_idx t) h\<close> w by (simp add: tx_dec_def gomap_simps)
  qed
qed

lemma list_all_del: "list_all P idx \<Longrightarrow> list_all P (gm_del k idx)"
  using gm_del_sub[of k idx] by (auto simp: list_all_iff)

lemma list_all_put: "list_all P idx \<Longrightarrow> P (k, v) \<Longrightarrow> list_all P (gm_put k v idx)"
  using gm_put_set[of k v idx] by (auto simp: list_all_iff)

lemma tx_drop_exact:
  assumes "tx_exact t" and "length (tx_idx t) < 2 ^ 64" and "gm_get (tx_idx t) k = Some v" and "take 16 v = h"
  shows "tx_exact (tx_drop k h t) \<and> tx_idx (tx_drop k h t) = gm_del k (tx_idx t) \<and> tx_underflows (tx_drop k h t) = tx_underflows t"
proof -
  have wf: "gm_wf (tx_idx t)" using assms(1) by (simp add: refs_exact_def)
  note n = named_by_del[OF wf assms(3)]
  have pos: "0 < named_by (tx_idx t) h" using n[of h] assms(4) by simp
  have sw: "tx_drop k h t = (tx_dec h t)\<lparr>tx_idx := gm_del k (tx_idx t)\<rparr>"
    by (simp add: tx_drop_def tx_dec_def split: prod.splits)
  note d = tx_dec_counts[OF assms(1,2) pos]
  have r: "gm_get (tx_refs t) h' = (if named_by (tx_idx t) h' = 0 then None else Some (putUvarint (named_by (tx_idx t) h')))" for h'
    using assms(1) by (simp add: refs_exact_def)
  have "gm_get (tx_refs (tx_dec h t)) h' =
      (if named_by (gm_del k (tx_idx t)) h' = 0 then None else Some (putUvarint (named_by (gm_del k (tx_idx t)) h')))" for h'
    using d n[of h'] assms(4) r[of h'] by (cases "h' = h") auto
  moreover have "list_all (\<lambda>(k, v). length v = 28) (gm_del k (tx_idx t))"
    using assms(1) by (intro list_all_del) (simp add: refs_exact_def)
  ultimately show ?thesis using d wf unfolding sw by (simp add: refs_exact_def)
qed

text \<open>A transaction that only drops entries: the counts stay exact and no underflow is recorded.\<close>

definition tx_shrinks :: "index_tx \<Rightarrow> index_tx \<Rightarrow> bool" where
  "tx_shrinks t t' \<longleftrightarrow> tx_exact t' \<and> gm_get (tx_idx t') \<subseteq>\<^sub>m gm_get (tx_idx t) \<and> tx_underflows t' = tx_underflows t \<and>
     length (tx_idx t') \<le> length (tx_idx t)"

lemma tx_shrinks_refl: "tx_exact t \<Longrightarrow> tx_shrinks t t"
  by (simp add: tx_shrinks_def)

lemma tx_shrinks_trans: "tx_shrinks a b \<Longrightarrow> tx_shrinks b c \<Longrightarrow> tx_shrinks a c"
  unfolding tx_shrinks_def by (auto intro: map_le_trans)

lemma gm_del_le: "gm_get (gm_del k m) \<subseteq>\<^sub>m gm_get m"
  by (simp add: map_le_def dom_def gm_get_del)

lemma tx_drop_shrinks:
  assumes "tx_exact t" and "length (tx_idx t) < 2 ^ 64" and "gm_get (tx_idx t) k = Some v" and "take 16 v = h"
  shows "tx_shrinks t (tx_drop k h t)"
proof -
  note e = tx_drop_exact[OF assms]
  have i: "tx_idx (tx_drop k h t) = gm_del k (tx_idx t)" using e by blast
  show ?thesis unfolding tx_shrinks_def using e gm_length_del_le[of k "tx_idx t"] gm_del_le[of k "tx_idx t"] unfolding i by blast
qed

lemma tx_value_length: "tx_exact t \<Longrightarrow> gm_get (tx_idx t) k = Some v \<Longrightarrow> length v = 28"
  unfolding refs_exact_def list_all_iff by (drule map_of_SomeD) fastforce

lemma range_tx_shrinks:
  assumes "tx_exact t" and "length (tx_idx t) < 2 ^ 64"
  shows "\<exists>t'. range_tx p is t = Some t' \<and> tx_shrinks t t' \<and> (\<forall>i \<in> set is. gm_get (tx_idx t') (dataIdxKey p i) = None)"
  using assms
proof (induction "is" arbitrary: t)
  case Nil
  then show ?case by (simp add: tx_shrinks_refl)
next
  case (Cons i "is")
  have gone: "gm_get (tx_idx a) k = None \<Longrightarrow> tx_shrinks a b \<Longrightarrow> gm_get (tx_idx b) k = None" for a b k
    unfolding tx_shrinks_def map_le_def by (metis domIff)
  show ?case
  proof (cases "gm_get (tx_idx t) (dataIdxKey p i)")
    case None
    then show ?thesis using Cons.IH[OF Cons.prems] gone[OF None] by auto
  next
    case (Some v)
    obtain r where r: "decodeChunkRef v = Some r" using decode_total tx_value_length[OF Cons.prems(1) Some] by blast
    let ?t = "tx_drop (dataIdxKey p i) (rf_Hash r) t"
    have h: "take 16 v = rf_Hash r" using decode_hash[OF r] by simp
    note d = tx_drop_shrinks[OF Cons.prems Some h] and e = tx_drop_exact[OF Cons.prems Some h]
    then obtain t' where t': "range_tx p is ?t = Some t'" "tx_shrinks ?t t'" "\<forall>i \<in> set is. gm_get (tx_idx t') (dataIdxKey p i) = None"
      using Cons.IH[of ?t] Cons.prems by (auto simp: tx_shrinks_def)
    have "gm_get (tx_idx t') (dataIdxKey p i) = None" using gone[OF _ t'(2)] e by (simp add: gm_get_del)
    then show ?thesis using t' d Some r tx_shrinks_trans by auto
  qed
qed

lemma sweep_tx_shrinks:
  assumes "tx_exact t" and "length (tx_idx t) < 2 ^ 64"
  shows "\<exists>t'. sweep_tx P khs t = Some t' \<and> tx_shrinks t t'"
  using assms
proof (induction P khs t rule: sweep_tx.induct)
  case (1 P t)
  then show ?case by (simp add: tx_shrinks_refl)
next
  case (2 P k h khs t)
  show ?case
  proof (cases "gm_get (tx_idx t) k")
    case None
    then show ?thesis using 2 by simp
  next
    case (Some v)
    obtain r where r: "decodeChunkRef v = Some r" using decode_total tx_value_length[OF 2(4) Some] by blast
    show ?thesis
    proof (cases "rf_Hash r \<noteq> h \<or> \<not> P h")
      case True
      then show ?thesis using 2(2)[OF Some r True 2(4,5)] Some r by simp
    next
      case False
      then have h: "take 16 v = h" using decode_hash[OF r] by simp
      note d = tx_drop_shrinks[OF 2(4,5) Some h]
      then have "\<exists>t'. sweep_tx P khs (tx_drop k h t) = Some t' \<and> tx_shrinks (tx_drop k h t) t'"
        using 2(3)[OF Some r False] 2(5) by (simp add: tx_shrinks_def)
      then show ?thesis using False Some r d tx_shrinks_trans by auto
    qed
  qed
qed

lemma decode_all_spec:
  "list_all (\<lambda>(k, v). length v = 28) kvs \<Longrightarrow>
     \<exists>krs. decode_all kvs = Some krs \<and> map fst krs = map fst kvs \<and> list_all2 (\<lambda>(k, v) (k', r). k' = k \<and> rf_Hash r = take 16 v) kvs krs"
proof (induction kvs)
  case (Cons x kvs)
  obtain k v where x: "x = (k, v)" by fastforce
  obtain r where r: "decodeChunkRef v = Some r" using Cons.prems x decode_total by auto
  then show ?case using Cons x decode_hash[OF r] by auto
qed simp

lemma drop_all_shrinks:
  assumes "tx_exact t" and "length (tx_idx t) < 2 ^ 64" and "list_all2 (\<lambda>(k, v) (k', r). k' = k \<and> rf_Hash r = take 16 v) kvs krs"
    and "distinct (map fst kvs)" and "list_all (\<lambda>(k, v). gm_get (tx_idx t) k = Some v) kvs"
  shows "tx_shrinks t (fold (\<lambda>(k, r). tx_drop k (rf_Hash r)) krs t) \<and>
    (\<forall>k \<in> fst ` set kvs. gm_get (tx_idx (fold (\<lambda>(k, r). tx_drop k (rf_Hash r)) krs t)) k = None)"
  using assms
proof (induction kvs arbitrary: krs t)
  case Nil
  then show ?case by (simp add: tx_shrinks_refl)
next
  case (Cons x kvs)
  obtain k v where x: "x = (k, v)" by fastforce
  obtain r krs' where krs: "krs = (k, r) # krs'" "rf_Hash r = take 16 v" "list_all2 (\<lambda>(k, v) (k', r). k' = k \<and> rf_Hash r = take 16 v) kvs krs'"
    using Cons.prems(3) x by (auto simp: list_all2_Cons1)
  have g: "gm_get (tx_idx t) k = Some v" using Cons.prems(5) x by simp
  let ?t = "tx_drop k (rf_Hash r) t"
  note d = tx_drop_shrinks[OF Cons.prems(1,2) g krs(2)[symmetric]] and e = tx_drop_exact[OF Cons.prems(1,2) g krs(2)[symmetric]]
  have "list_all (\<lambda>(k, v). gm_get (tx_idx ?t) k = Some v) kvs"
    using Cons.prems(4,5) x e by (force simp: list_all_iff gm_get_del)
  then have ih: "tx_shrinks ?t (fold (\<lambda>(k, r). tx_drop k (rf_Hash r)) krs' ?t) \<and>
    (\<forall>k \<in> fst ` set kvs. gm_get (tx_idx (fold (\<lambda>(k, r). tx_drop k (rf_Hash r)) krs' ?t)) k = None)"
    using Cons.IH[of ?t krs'] d Cons.prems(2,4) x krs(3) by (simp add: tx_shrinks_def)
  moreover have "gm_get (tx_idx ?t) k = None" using e by (simp add: gm_get_del)
  ultimately have "gm_get (tx_idx (fold (\<lambda>(k, r). tx_drop k (rf_Hash r)) krs' ?t)) k = None"
    unfolding tx_shrinks_def map_le_def by (metis domIff)
  then show ?case using ih d tx_shrinks_trans krs(1) x by auto
qed

section \<open>Operations that only drop\<close>

definition p_shrinks :: "Persist \<Rightarrow> Persist \<Rightarrow> bool" where
  "p_shrinks s s' \<longleftrightarrow> refs_exact (ps_idx s') (ps_refs s') \<and> gm_get (ps_idx s') \<subseteq>\<^sub>m gm_get (ps_idx s) \<and>
     gm_get (ps_files s') \<subseteq>\<^sub>m gm_get (ps_files s) \<and> ps_underflows s' = ps_underflows s \<and> length (ps_idx s') \<le> length (ps_idx s)"

definition p_inv :: "Persist \<Rightarrow> bool" where
  "p_inv s \<longleftrightarrow> refs_exact (ps_idx s) (ps_refs s) \<and> length (ps_idx s) < 2 ^ 64"

lemma p_shrinks_refl: "p_inv s \<Longrightarrow> p_shrinks s s"
  by (simp add: p_shrinks_def p_inv_def)

lemma p_shrinks_trans: "p_shrinks a b \<Longrightarrow> p_shrinks b c \<Longrightarrow> p_shrinks a c"
  unfolding p_shrinks_def by (auto intro: map_le_trans)

lemma p_shrinks_inv: "p_inv s \<Longrightarrow> p_shrinks s s' \<Longrightarrow> p_inv s'"
  by (simp add: p_shrinks_def p_inv_def)

lemma p_shrinks_gone: "p_shrinks a b \<Longrightarrow> gm_get (ps_idx a) k = None \<Longrightarrow> gm_get (ps_idx b) k = None"
  unfolding p_shrinks_def map_le_def by (metis domIff)

lemma unlinkChunk_shrinks: "p_inv s \<Longrightarrow> unlinkChunk f h s = (ok, s') \<Longrightarrow> p_shrinks s s'"
  using gm_del_le[of "Chunk h" "ps_files s"] by (auto simp: unlinkChunk_def p_inv_def p_shrinks_def split: option.splits if_splits)

lemma unlink_all_shrinks: "p_inv s \<Longrightarrow> unlink_all f hs s = (ok, s') \<Longrightarrow> p_shrinks s s'"
proof (induction hs arbitrary: s)
  case Nil
  then show ?case using p_shrinks_refl by simp
next
  case (Cons h hs)
  obtain b s1 where u: "unlinkChunk f h s = (b, s1)" by fastforce
  note d = unlinkChunk_shrinks[OF Cons.prems(1) u]
  show ?case
  proof (cases b)
    case True
    then have "p_shrinks s1 s'" using Cons.IH[of s1] p_shrinks_inv[OF Cons.prems(1) d] Cons.prems(2) u by simp
    then show ?thesis using d p_shrinks_trans by blast
  qed (use Cons.prems(2) u d in simp)
qed

lemma unlink_each_shrinks: "p_inv s \<Longrightarrow> p_shrinks s (fold (\<lambda>h s. snd (unlinkChunk f h s)) hs s)"
proof (induction hs arbitrary: s)
  case (Cons h hs)
  have d: "p_shrinks s (snd (unlinkChunk f h s))" using unlinkChunk_shrinks[OF Cons.prems] by (metis prod.collapse)
  show ?case using Cons.IH[OF p_shrinks_inv[OF Cons.prems d]] d p_shrinks_trans by fastforce
qed (simp add: p_shrinks_refl)

lemma commit_shrinks: "tx_shrinks (tx_begin s) t \<Longrightarrow> p_shrinks s (tx_commit t s)"
  by (simp add: tx_shrinks_def p_shrinks_def tx_begin_def tx_commit_def)

lemma begin_exact: "p_inv s \<Longrightarrow> tx_exact (tx_begin s) \<and> length (tx_idx (tx_begin s)) < 2 ^ 64"
  by (simp add: p_inv_def tx_begin_def)

lemma commit_unlink:
  assumes "p_inv s" and "tx_shrinks (tx_begin s) t" and "unlink_all f hs (tx_commit t s) = (ok, s')"
  shows "p_shrinks s s' \<and> (\<forall>k. gm_get (tx_idx t) k = None \<longrightarrow> gm_get (ps_idx s') k = None)"
proof -
  note c = commit_shrinks[OF assms(2)]
  have u: "p_shrinks (tx_commit t s) s'" using unlink_all_shrinks[OF p_shrinks_inv[OF assms(1) c] assms(3)] .
  have "ps_idx (tx_commit t s) = tx_idx t" by (simp add: tx_commit_def)
  then show ?thesis using p_shrinks_trans[OF c u] p_shrinks_gone[OF u] by simp
qed

lemma finish_drop_shrinks:
  assumes "p_inv s" and "tx_shrinks (tx_begin s) t" and "finish_drop f t s = (ok, s')"
  shows "p_shrinks s s' \<and> (\<forall>k. gm_get (tx_idx t) k = None \<longrightarrow> gm_get (ps_idx s') k = None)"
proof (cases "pf_sync f")
  case True
  then have "s' = tx_commit t s" using assms(3) by (simp add: finish_drop_def Let_def)
  then show ?thesis using commit_shrinks[OF assms(2)] by (simp add: tx_commit_def)
next
  case False
  then show ?thesis using commit_unlink[OF assms(1,2)] assms(3) by (simp add: finish_drop_def Let_def)
qed

lemma InvalidateChunkRange_shrinks:
  assumes "p_inv s" and "InvalidateChunkRange f p lo hi s = (ok, s')"
  shows "p_shrinks s s' \<and> (ok \<longrightarrow> (\<forall>i. lo \<le> i \<and> i \<le> hi \<longrightarrow> gm_get (ps_idx s') (dataIdxKey p i) = None))"
proof -
  note b = begin_exact[OF assms(1)]
  obtain t where t: "range_tx p [lo..<Suc hi] (tx_begin s) = Some t" "tx_shrinks (tx_begin s) t"
    "\<forall>i \<in> set [lo..<Suc hi]. gm_get (tx_idx t) (dataIdxKey p i) = None"
    using range_tx_shrinks[of "tx_begin s" p "[lo..<Suc hi]"] b by blast
  define none where "none = (\<forall>i \<in> set [lo..<Suc hi]. gm_get (ps_idx s) (dataIdxKey p i) = None)"
  have "InvalidateChunkRange f p lo hi s =
      (if pf_view f then (False, s) else if none then (True, s) else if pf_update f then (False, s) else finish_drop f t s)"
    unfolding InvalidateChunkRange_def none_def[symmetric] t(1) by simp
  then consider "s' = s" "\<not> ok" | "s' = s" "none" | "finish_drop f t s = (ok, s')"
    using assms(2) by (auto split: if_splits)
  then show ?thesis
  proof cases
    case 3
    then show ?thesis using finish_drop_shrinks[OF assms(1) t(2) 3] t(3) by auto
  qed (use p_shrinks_refl[OF assms(1)] in \<open>auto simp: none_def\<close>)
qed

lemma path_keys_spec:
  assumes "p_inv s"
  shows "distinct (map fst (path_keys p s))" "list_all (\<lambda>(k, v). gm_get (ps_idx s) k = Some v) (path_keys p s)"
    "list_all (\<lambda>(k, v). length v = 28) (path_keys p s)"
    "gm_get (ps_idx s) (dataIdxKey p i) = Some v \<Longrightarrow> dataIdxKey p i \<in> fst ` set (path_keys p s)"
proof -
  have w: "gm_wf (ps_idx s)" and l: "list_all (\<lambda>(k, v). length v = 28) (ps_idx s)" using assms by (auto simp: p_inv_def refs_exact_def)
  have "mset (map fst (path_keys p s)) = mset (map fst (filter (\<lambda>(k, _). prefix (dataIdxPathPrefix p) k) (ps_idx s)))"
    by (simp add: path_keys_def)
  then show "distinct (map fst (path_keys p s))" using gm_wf_filter[OF w] mset_eq_imp_distinct_iff by blast
  show "list_all (\<lambda>(k, v). gm_get (ps_idx s) k = Some v) (path_keys p s)" using w by (auto simp: path_keys_def list_all_iff)
  show "list_all (\<lambda>(k, v). length v = 28) (path_keys p s)" using l by (auto simp: path_keys_def list_all_iff)
  assume "gm_get (ps_idx s) (dataIdxKey p i) = Some v"
  moreover have "prefix (dataIdxPathPrefix p) (dataIdxKey p i)" by (auto simp: prefix_def dataIdxPathPrefix_def dataIdxKey_def)
  ultimately show "dataIdxKey p i \<in> fst ` set (path_keys p s)" by (force simp: path_keys_def image_iff dest: map_of_SomeD)
qed

lemma InvalidatePathChunks_shrinks:
  assumes "p_inv s" and "InvalidatePathChunks f p s = (ok, s')"
  shows "p_shrinks s s' \<and> (ok \<longrightarrow> (\<forall>i. gm_get (ps_idx s') (dataIdxKey p i) = None))"
proof -
  note b = begin_exact[OF assms(1)] and k = path_keys_spec[OF assms(1), of p]
  obtain krs where krs: "decode_all (path_keys p s) = Some krs"
    "list_all2 (\<lambda>(k, v) (k', r). k' = k \<and> rf_Hash r = take 16 v) (path_keys p s) krs"
    using decode_all_spec[OF k(3)] by blast
  let ?t = "fold (\<lambda>(k, r). tx_drop k (rf_Hash r)) krs (tx_begin s)"
  have t: "tx_shrinks (tx_begin s) ?t" "\<forall>k \<in> fst ` set (path_keys p s). gm_get (tx_idx ?t) k = None"
    using drop_all_shrinks[OF _ _ krs(2) k(1), of "tx_begin s"] b k(2) by (auto simp: tx_begin_def)
  have idx: "tx_idx (tx_begin s) = ps_idx s" by (simp add: tx_begin_def)
  have gone: "gm_get (tx_idx ?t) (dataIdxKey p i) = None" for i
  proof (cases "gm_get (ps_idx s) (dataIdxKey p i)")
    case None
    then show ?thesis using t(1) idx unfolding tx_shrinks_def map_le_def by (metis domIff)
  qed (use t(2) k(4) in blast)
  have "InvalidatePathChunks f p s =
      (if pf_view f then (False, s) else if path_keys p s = [] then (True, s) else if pf_update f then (False, s) else finish_drop f ?t s)"
    unfolding InvalidatePathChunks_def krs(1) by simp
  then consider "s' = s" "\<not> ok" | "s' = s" "path_keys p s = []" | "finish_drop f ?t s = (ok, s')"
    using assms(2) by (auto split: if_splits)
  then show ?thesis
  proof cases
    case 2
    have "gm_get (ps_idx s) (dataIdxKey p i) = None" for i using k(4)[of i] 2(2) by (cases "gm_get (ps_idx s) (dataIdxKey p i)") auto
    then show ?thesis using p_shrinks_refl[OF assms(1)] 2(1) by simp
  next
    case 3
    then show ?thesis using finish_drop_shrinks[OF assms(1) t(1) 3] gone by auto
  qed (use p_shrinks_refl[OF assms(1)] in auto)
qed

lemma orphan_file_shrinks: "p_inv s \<Longrightarrow> orphan_file f minAge now n s = (ok, s') \<Longrightarrow> p_shrinks s s'"
  using gm_del_le[of n "ps_files s"] p_shrinks_refl[of s] unlinkChunk_shrinks
  by (auto simp: orphan_file_def p_inv_def p_shrinks_def split: option.splits if_splits fname.splits prod.splits)

lemma orphan_walk_shrinks: "p_inv s \<Longrightarrow> orphan_walk f minAge now ns s = (ok, s') \<Longrightarrow> p_shrinks s s'"
proof (induction ns arbitrary: s)
  case Nil
  then show ?case using p_shrinks_refl by simp
next
  case (Cons n ns)
  obtain b s1 where u: "orphan_file f minAge now n s = (b, s1)" by fastforce
  note d = orphan_file_shrinks[OF Cons.prems(1) u]
  show ?case
  proof (cases b)
    case True
    then have "p_shrinks s1 s'" using Cons.IH[of s1] p_shrinks_inv[OF Cons.prems(1) d] Cons.prems(2) u by simp
    then show ?thesis using d p_shrinks_trans by blast
  qed (use Cons.prems(2) u d in simp)
qed

lemma ghost_apply_shrinks:
  assumes "p_inv s" and "ghost_apply f khs s = (ok, s')" shows "p_shrinks s s'"
proof -
  obtain t where t: "sweep_tx (\<lambda>h. gm_get (ps_files s) (Chunk h) = None) khs (tx_begin s) = Some t" "tx_shrinks (tx_begin s) t"
    using sweep_tx_shrinks begin_exact[OF assms(1)] by blast
  note c = commit_shrinks[OF t(2)]
  have "p_shrinks s (fold (\<lambda>h s. snd (unlinkChunk f h s)) (tx_unlink t) (tx_commit t s))"
    using unlink_each_shrinks[OF p_shrinks_inv[OF assms(1) c]] c p_shrinks_trans by blast
  then show ?thesis using assms(2) t(1) p_shrinks_refl[OF assms(1)] by (cases "pf_update f") (auto simp: ghost_apply_def)
qed

lemma evict_apply_shrinks:
  assumes "p_inv s" and "evict_apply f khs s = (ok, s')" shows "p_shrinks s s'"
proof -
  obtain t where t: "sweep_tx (\<lambda>_. True) khs (tx_begin s) = Some t" "tx_shrinks (tx_begin s) t"
    using sweep_tx_shrinks begin_exact[OF assms(1)] by blast
  then show ?thesis using assms(2) commit_unlink[OF assms(1) t(2)] p_shrinks_refl[OF assms(1)]
    by (cases "pf_update f") (auto simp: evict_apply_def)
qed

lemma enforceDiskBudget_shrinks: "p_inv s \<Longrightarrow> enforceDiskBudget f now s = (ok, s') \<Longrightarrow> p_shrinks s s'"
  using p_shrinks_refl[of s] orphan_walk_shrinks evict_apply_shrinks
  by (auto simp: enforceDiskBudget_def runOrphanSweep_def split: if_splits option.splits list.splits)

text \<open>Writing a chunk adds at most its own file.\<close>

lemma WriteChunk_spec:
  assumes "p_inv s" and "WriteChunk hash f now data s = (r, s')"
  shows "\<exists>s1. s1 = s\<lparr>ps_files := ps_files s1, ps_used := ps_used s1\<rparr> \<and>
    (gm_get (ps_files s1) = gm_get (ps_files s) \<or> gm_get (ps_files s1) = (gm_get (ps_files s))(Chunk (hash data) \<mapsto> (data, now))) \<and> p_shrinks s1 s'"
proof -
  let ?s1 = "s\<lparr>ps_files := gm_put (Chunk (hash data)) (data, now) (ps_files s)\<rparr>"
  let ?s2 = "?s1\<lparr>ps_used := ps_used ?s1 + int (length data)\<rparr>"
  have i: "p_inv ?s1" "p_inv ?s2" using assms(1) by (simp_all add: p_inv_def)
  consider "s' = s" | "s' = ?s1" | ok where "enforceDiskBudget f now ?s2 = (ok, s')"
    using assms(2) unfolding WriteChunk_def by (auto simp: Let_def split: if_splits prod.splits)
  then show ?thesis
  proof cases
    case 1
    then show ?thesis using p_shrinks_refl[OF assms(1)] by (intro exI[of _ s]) simp
  next
    case 2
    then show ?thesis using p_shrinks_refl[OF i(1)] by (intro exI[of _ ?s1]) (simp add: update_conv')
  next
    case 3
    then show ?thesis using enforceDiskBudget_shrinks[OF i(2)] by (intro exI[of _ ?s2]) (simp add: update_conv')
  qed
qed

lemma gm_get_incRef: "ref_count m h + 1 < 2 ^ 64 \<Longrightarrow> gm_get (incRefTx h m) = (gm_get m)(h \<mapsto> putUvarint (ref_count m h + 1))"
  by (simp add: incRefTx_def gomap_simps)

text \<open>The references to a hash that survive once the entry at a key is overwritten, and the counts after the new one is stored.\<close>

definition surviving :: "(string, bytes) gomap \<Rightarrow> string \<Rightarrow> bytes \<Rightarrow> nat" where
  "surviving idx k h = named_by idx h - (case gm_get idx k of None \<Rightarrow> 0 | Some w \<Rightarrow> if take 16 w = h then 1 else 0)"

lemma store_exact:
  assumes "gm_wf idx" and "list_all (\<lambda>(k, v). length v = 28) idx" and "gm_wf refs" and "length idx + 1 < 2 ^ 64" and "length (rf_Hash ref) = 16"
    and "\<And>h. gm_get refs h = (if surviving idx k h = 0 then None else Some (putUvarint (surviving idx k h)))"
  shows "refs_exact (gm_put k (encodeChunkRef ref) idx) (incRefTx (rf_Hash ref) refs)"
proof -
  let ?v = "encodeChunkRef ref" and ?h = "rf_Hash ref"
  have v: "take 16 ?v = ?h" "length ?v = 28" using assms(5) by (simp_all add: encodeChunkRef_def)
  have n: "named_by (gm_put k ?v idx) h = surviving idx k h + (if h = ?h then 1 else 0)" for h
    using named_by_put[OF assms(1), of k ?v h] named_by_del[OF assms(1), of k _ h] v(1) by (auto simp: surviving_def split: option.splits)
  have le: "surviving idx k ?h \<le> length idx" using named_by_le[of idx ?h] by (simp add: surviving_def)
  have "ref_count refs ?h = surviving idx k ?h" using le assms(4,6) by (simp add: ref_count_def uvarint_put)
  then have "gm_get (incRefTx ?h refs) = (gm_get refs)(?h \<mapsto> putUvarint (surviving idx k ?h + 1))"
    using gm_get_incRef[of refs ?h] le assms(4) by simp
  moreover have "list_all (\<lambda>(k, v). length v = 28) (gm_put k ?v idx)" using assms(2) v(2) by (intro list_all_put) auto
  ultimately show ?thesis using assms(1,3,6) n by (simp add: refs_exact_def incRefTx_def)
qed

lemma unlink_all_idx: "unlink_all f hs s = (ok, s') \<Longrightarrow> ps_idx s' = ps_idx s"
  by (induction hs arbitrary: s) (auto simp: unlinkChunk_def split: option.splits if_splits prod.splits)

text \<open>Recording a reference: the counts stay exact, the entry is the new one, and no chunk file appears.\<close>

lemma PutChunkRef_spec:
  assumes "p_inv s" and "length (ps_idx s) + 1 < 2 ^ 64" and "length (rf_Hash ref) = 16" and "PutChunkRef f p i ref s = (ok, s')"
  shows "p_inv s' \<and> ps_underflows s' = ps_underflows s \<and> gm_get (ps_files s') \<subseteq>\<^sub>m gm_get (ps_files s) \<and> length (ps_idx s') \<le> Suc (length (ps_idx s)) \<and>
    (s' = s \<and> (pf_update f \<or> (\<exists>v. gm_get (ps_idx s) (dataIdxKey p i) = Some v \<and> take 16 v = rf_Hash ref)) \<or>
     gm_get (ps_idx s') = (gm_get (ps_idx s))(dataIdxKey p i \<mapsto> encodeChunkRef ref))"
proof -
  let ?k = "dataIdxKey p i" and ?h = "rf_Hash ref" and ?v = "encodeChunkRef ref"
  let ?store = "\<lambda>t. t\<lparr>tx_idx := gm_put ?k ?v (tx_idx t), tx_refs := incRefTx ?h (tx_refs t)\<rparr>"
  have ex: "refs_exact (ps_idx s) (ps_refs s)" "length (ps_idx s) < 2 ^ 64" using assms(1) by (auto simp: p_inv_def)
  have parts: "gm_wf (ps_idx s)" "list_all (\<lambda>(k, v). length v = 28) (ps_idx s)" "gm_wf (ps_refs s)"
    "\<And>h. gm_get (ps_refs s) h = (if named_by (ps_idx s) h = 0 then None else Some (putUvarint (named_by (ps_idx s) h)))"
    using ex(1) by (auto simp: refs_exact_def)
  note store = store_exact[OF parts(1,2) _ assms(2,3), of _ ?k]
  have len: "length (gm_put ?k ?v (ps_idx s)) \<le> Suc (length (ps_idx s))" by (simp add: gm_length_put)
  have upd: "gm_get (gm_put ?k ?v (ps_idx s)) = (gm_get (ps_idx s))(?k \<mapsto> ?v)" by (rule update_conv')
  consider "pf_update f" | "\<not> pf_update f" "gm_get (ps_idx s) ?k = None" | w where "\<not> pf_update f" "gm_get (ps_idx s) ?k = Some w" by blast
  then show ?thesis
  proof cases
    case 2
    have s': "s' = tx_commit (?store (tx_begin s)) s" using assms(4) 2 by (simp add: PutChunkRef_def Let_def)
    have "refs_exact (gm_put ?k ?v (ps_idx s)) (incRefTx ?h (ps_refs s))" using parts(3,4) 2 by (intro store) (simp_all add: surviving_def)
    then show ?thesis using len assms(2) upd unfolding s' by (simp add: tx_commit_def tx_begin_def p_inv_def)
  next
    case 3
    obtain old where old: "decodeChunkRef w = Some old" "rf_Hash old = take 16 w"
      using decode_total decode_hash tx_value_length[of "tx_begin s" ?k w] begin_exact[OF assms(1)] 3 by (fastforce simp: tx_begin_def)
    show ?thesis
    proof (cases "rf_Hash old = ?h")
      case True
      then show ?thesis using assms(1,4) 3 old by (simp add: PutChunkRef_def Let_def)
    next
      case False
      let ?d = "tx_dec (rf_Hash old) (tx_begin s)" and ?n = "named_by (ps_idx s) (rf_Hash old)"
      have pos: "0 < ?n" using named_by_del[OF parts(1) 3(2), of "rf_Hash old"] old(2) by simp
      have d: "tx_idx ?d = ps_idx s" "tx_underflows ?d = ps_underflows s" "gm_wf (tx_refs ?d)"
        "gm_get (tx_refs ?d) = (gm_get (ps_refs s))(rf_Hash old := (if ?n = 1 then None else Some (putUvarint (?n - 1))))"
        using tx_dec_counts[of "tx_begin s" "rf_Hash old"] ex pos by (auto simp: tx_begin_def)
      have "refs_exact (gm_put ?k ?v (ps_idx s)) (incRefTx ?h (tx_refs ?d))"
        using d(3,4) parts(4) 3(2) old(2) pos by (intro store) (auto simp: surviving_def)
      then have c: "p_inv (tx_commit (?store ?d) s)" using len assms(2) d(1) by (simp add: p_inv_def tx_commit_def)
      have u: "unlink_all f (tx_unlink (?store ?d)) (tx_commit (?store ?d) s) = (ok, s')"
        using assms(4) 3 old(1) False by (simp add: PutChunkRef_def Let_def)
      show ?thesis using unlink_all_shrinks[OF c u] unlink_all_idx[OF u] p_shrinks_inv[OF c] d(1,2) len upd
        by (simp add: tx_commit_def p_shrinks_def)
    qed
  qed (use assms(1,4) in \<open>simp add: PutChunkRef_def\<close>)
qed

section \<open>Runs of the disk tier\<close>

text \<open>
  The calls on the disk tier, each with its faults and its time.  The write of a chunk and the record of its reference are separate
  calls, and so are the two halves of a sweep, whose collected entries may be stale: any interleaving of
  readers, writers and sweeps of the cache is a sequence of these steps.
\<close>

datatype disk_op =
    DWrite bytes
  | DRef path nat bytes
  | DInvalidateRange path nat nat
  | DInvalidatePath path
  | DGhosts "(string \<times> bytes) list"
  | DEvict "(string \<times> bytes) list"
  | DBudget
  | DOrphans int

definition chunk_ref :: "(bytes \<Rightarrow> bytes) \<Rightarrow> bytes \<Rightarrow> ChunkRef" where
  "chunk_ref hash d = \<lparr>rf_Hash = hash d, rf_Size = of_nat (length d), rf_Version = 0\<rparr>"

fun disk_step :: "(bytes \<Rightarrow> bytes) \<Rightarrow> faults \<times> int \<times> disk_op \<Rightarrow> Persist \<Rightarrow> bool \<times> Persist" where
  "disk_step hash (f, now, DWrite d) s = (case WriteChunk hash f now d s of ((h, dedup, ok), s') \<Rightarrow> (ok, s'))"
| "disk_step hash (f, now, DRef p i d) s = PutChunkRef f p i (chunk_ref hash d) s"
| "disk_step hash (f, now, DInvalidateRange p lo hi) s = InvalidateChunkRange f p lo hi s"
| "disk_step hash (f, now, DInvalidatePath p) s = InvalidatePathChunks f p s"
| "disk_step hash (f, now, DGhosts khs) s = ghost_apply f khs s"
| "disk_step hash (f, now, DEvict khs) s = evict_apply f khs s"
| "disk_step hash (f, now, DBudget) s = enforceDiskBudget f now s"
| "disk_step hash (f, now, DOrphans minAge) s = runOrphanSweep f minAge now s"

text \<open>
  What may be served for each chunk: the bytes of its last recorded reference, unless an invalidation that reported success has
  run since.
\<close>

fun expect_step :: "faults \<times> int \<times> disk_op \<Rightarrow> bool \<Rightarrow> (path \<times> nat \<Rightarrow> bytes option) \<Rightarrow> path \<times> nat \<Rightarrow> bytes option" where
  "expect_step (f, now, DRef p i d) ok e = (if pf_update f then e else e((p, i) \<mapsto> d))"
| "expect_step (f, now, DInvalidateRange p lo hi) ok e = (if ok then (\<lambda>(q, i). if q = p \<and> lo \<le> i \<and> i \<le> hi then None else e (q, i)) else e)"
| "expect_step (f, now, DInvalidatePath p) ok e = (if ok then (\<lambda>(q, i). if q = p then None else e (q, i)) else e)"
| "expect_step (f, now, _) ok e = e"

fun disk_run :: "(bytes \<Rightarrow> bytes) \<Rightarrow> (faults \<times> int \<times> disk_op) list \<Rightarrow> Persist \<times> (path \<times> nat \<Rightarrow> bytes option) \<Rightarrow> Persist \<times> (path \<times> nat \<Rightarrow> bytes option)" where
  "disk_run hash [] se = se"
| "disk_run hash (x # xs) se = (case disk_step hash x (fst se) of (ok, s') \<Rightarrow> disk_run hash xs (s', expect_step x ok (snd se)))"

text \<open>The loader of the data cache: a reference, its file, and a file of the recorded size.\<close>

(* src/pkg/client/backend/cache/data.go:224-239 loader *)
definition disk_load :: "faults \<Rightarrow> path \<Rightarrow> nat \<Rightarrow> Persist \<Rightarrow> bytes option" where
  "disk_load f p i s =
    (case GetChunkRef f p i s of
       (True, Some r) \<Rightarrow> (case ReadChunk (rf_Hash r) s of None \<Rightarrow> None | Some d \<Rightarrow> if length d = unat (rf_Size r) then Some d else None)
     | _ \<Rightarrow> None)"

definition new_persist :: "int \<Rightarrow> Persist" where
  "new_persist budget = \<lparr>ps_attr = [], ps_dir = [], ps_idx = [], ps_refs = [], ps_files = [], ps_used = 0, ps_budget = budget, ps_underflows = 0\<rparr>"

text \<open>The chunks that are ever written: their hashes have 16 bytes and do not collide; paths have no NUL.\<close>

fun op_ok :: "bytes set \<Rightarrow> faults \<times> int \<times> disk_op \<Rightarrow> bool" where
  "op_ok D (f, now, DWrite d) = (d \<in> D)"
| "op_ok D (f, now, DRef p i d) = (d \<in> D \<and> path_ok p)"
| "op_ok D (f, now, DInvalidateRange p lo hi) = path_ok p"
| "op_ok D (f, now, DInvalidatePath p) = path_ok p"
| "op_ok D (f, now, _) = True"

definition collision_free :: "(bytes \<Rightarrow> bytes) \<Rightarrow> bytes set \<Rightarrow> bool" where
  "collision_free hash D \<longleftrightarrow> inj_on hash D \<and> (\<forall>d \<in> D. length (hash d) = 16)"

text \<open>The index names only expected chunks, and a chunk file holds bytes that hash to its name.\<close>

definition idx_ok :: "(bytes \<Rightarrow> bytes) \<Rightarrow> bytes set \<Rightarrow> (string \<Rightarrow> bytes option) \<Rightarrow> (path \<times> nat \<Rightarrow> bytes option) \<Rightarrow> bool" where
  "idx_ok hash D m e \<longleftrightarrow>
    (\<forall>k v. m k = Some v \<longrightarrow> (\<exists>p i d. path_ok p \<and> k = dataIdxKey p i \<and> e (p, i) = Some d \<and> d \<in> D \<and> v = encodeChunkRef (chunk_ref hash d)))"

definition files_ok :: "(bytes \<Rightarrow> bytes) \<Rightarrow> bytes set \<Rightarrow> (fname \<Rightarrow> (bytes \<times> int) option) \<Rightarrow> bool" where
  "files_ok hash D m \<longleftrightarrow> (\<forall>h x. m (Chunk h) = Some x \<longrightarrow> fst x \<in> D \<and> hash (fst x) = h)"

definition served_ok :: "(bytes \<Rightarrow> bytes) \<Rightarrow> bytes set \<Rightarrow> Persist \<Rightarrow> (path \<times> nat \<Rightarrow> bytes option) \<Rightarrow> bool" where
  "served_ok hash D s e \<longleftrightarrow> idx_ok hash D (gm_get (ps_idx s)) e \<and> files_ok hash D (gm_get (ps_files s))"

lemma idx_ok_sub: "idx_ok hash D m e \<Longrightarrow> m' \<subseteq>\<^sub>m m \<Longrightarrow> idx_ok hash D m' e"
  unfolding idx_ok_def map_le_def by (metis domI)

lemma idx_ok_put:
  assumes "idx_ok hash D m e" and "path_ok p" and "d \<in> D"
  shows "idx_ok hash D (m(dataIdxKey p i \<mapsto> encodeChunkRef (chunk_ref hash d))) (e((p, i) \<mapsto> d))"
  unfolding idx_ok_def
proof (intro allI impI)
  fix k v assume m: "(m(dataIdxKey p i \<mapsto> encodeChunkRef (chunk_ref hash d))) k = Some v"
  show "\<exists>q j d'. path_ok q \<and> k = dataIdxKey q j \<and> (e((p, i) \<mapsto> d)) (q, j) = Some d' \<and> d' \<in> D \<and> v = encodeChunkRef (chunk_ref hash d')"
  proof (cases "k = dataIdxKey p i")
    case True
    then show ?thesis using m assms(2,3) by (intro exI[of _ p] exI[of _ i] exI[of _ d]) simp
  next
    case False
    then obtain q j d' where q: "path_ok q" "k = dataIdxKey q j" "e (q, j) = Some d'" "d' \<in> D" "v = encodeChunkRef (chunk_ref hash d')"
      using m assms(1) unfolding idx_ok_def by (metis fun_upd_other)
    then show ?thesis using False by (intro exI[of _ q] exI[of _ j] exI[of _ d']) auto
  qed
qed

lemma files_ok_put: "files_ok hash D m \<Longrightarrow> d \<in> D \<Longrightarrow> files_ok hash D (m(Chunk (hash d) \<mapsto> (d, t)))"
  unfolding files_ok_def by (metis fname.inject(1) fst_conv fun_upd_apply option.inject)

lemma PutChunkRef_faulty: "pf_update f \<Longrightarrow> PutChunkRef f p i ref s = (False, s)"
  by (simp add: PutChunkRef_def)

text \<open>Recording the hash that is already recorded changes nothing, and what is expected stays the same.\<close>

lemma idx_ok_same:
  assumes "idx_ok hash D m e" and "path_ok p" and "m (dataIdxKey p i) = Some v" and "take 16 v = rf_Hash (chunk_ref hash d)"
    and "collision_free hash D" and "d \<in> D"
  shows "idx_ok hash D m (e((p, i) \<mapsto> d))"
proof -
  obtain q j d' where q: "path_ok q" "dataIdxKey p i = dataIdxKey q j" "e (q, j) = Some d'" "d' \<in> D" "v = encodeChunkRef (chunk_ref hash d')"
    using assms(1,3) unfolding idx_ok_def by blast
  then have "hash d' = hash d" "q = p" "j = i"
    using assms(2,4,5) dataIdxKey_inj[OF assms(2) q(1)] by (auto simp: encodeChunkRef_def chunk_ref_def collision_free_def)
  then have "d' = d" using q(4) assms(5,6) by (auto simp: collision_free_def inj_on_def)
  then have "e((p, i) \<mapsto> d) = e" using q(3) \<open>q = p\<close> \<open>j = i\<close> by auto
  then show ?thesis using assms(1) by simp
qed

lemma files_ok_sub: "files_ok hash D m \<Longrightarrow> m' \<subseteq>\<^sub>m m \<Longrightarrow> files_ok hash D m'"
  unfolding files_ok_def map_le_def by (metis domI)

lemma served_ok_shrinks: "served_ok hash D s e \<Longrightarrow> p_shrinks s s' \<Longrightarrow> served_ok hash D s' e"
  unfolding served_ok_def p_shrinks_def using idx_ok_sub files_ok_sub by blast

lemma served_ok_expect:
  assumes "served_ok hash D s e" and "\<And>p i. path_ok p \<Longrightarrow> gm_get (ps_idx s) (dataIdxKey p i) \<noteq> None \<Longrightarrow> e' (p, i) = e (p, i)"
  shows "served_ok hash D s e'"
  using assms unfolding served_ok_def idx_ok_def by (metis option.distinct(1))

lemma disk_step_ok:
  assumes "p_inv s" and "served_ok hash D s e" and "collision_free hash D" and "op_ok D x" and "length (ps_idx s) + 1 < 2 ^ 64"
    and "disk_step hash x s = (ok, s')"
  shows "p_inv s' \<and> ps_underflows s' = ps_underflows s \<and> length (ps_idx s') \<le> Suc (length (ps_idx s)) \<and> served_ok hash D s' (expect_step x ok e)"
proof -
  obtain f now y where x: "x = (f, now, y)" by (metis prod_cases3)
  have fin: ?thesis if "p_shrinks s s'" "\<And>p i. path_ok p \<Longrightarrow> gm_get (ps_idx s') (dataIdxKey p i) \<noteq> None \<Longrightarrow> expect_step x ok e (p, i) = e (p, i)"
    using that p_shrinks_inv[OF assms(1) that(1)] served_ok_expect[OF served_ok_shrinks[OF assms(2) that(1)] that(2)] by (simp add: p_shrinks_def)
  show ?thesis
  proof (cases y)
    case (DWrite d)
    then obtain r where "WriteChunk hash f now d s = (r, s')" using assms(6) x by (auto split: prod.splits)
    from WriteChunk_spec[OF assms(1) this] obtain s1 where s1: "s1 = s\<lparr>ps_files := ps_files s1, ps_used := ps_used s1\<rparr>"
      "gm_get (ps_files s1) = gm_get (ps_files s) \<or> gm_get (ps_files s1) = (gm_get (ps_files s))(Chunk (hash d) \<mapsto> (d, now))" "p_shrinks s1 s'" by blast
    have same: "ps_idx s1 = ps_idx s" "ps_refs s1 = ps_refs s" "ps_underflows s1 = ps_underflows s" by (subst s1(1), simp)+
    have "files_ok hash D (gm_get (ps_files s1))" 
      using assms(2,4) s1(2) x DWrite files_ok_put[of hash D "gm_get (ps_files s)" d now] unfolding served_ok_def by auto
    then have "served_ok hash D s1 e" using assms(2) unfolding served_ok_def same(1) by blast
    then have "served_ok hash D s' e" using served_ok_shrinks s1(3) by blast
    then show ?thesis using s1(3) same assms(1) x DWrite by (simp add: p_shrinks_def p_inv_def)
  next
    case (DRef p i d)
    then have dok: "d \<in> D" "path_ok p" "length (rf_Hash (chunk_ref hash d)) = 16" "PutChunkRef f p i (chunk_ref hash d) s = (ok, s')"
      using assms(3,4,6) x by (auto simp: collision_free_def chunk_ref_def)
    note sp = PutChunkRef_spec[OF assms(1,5) dok(3,4)]
    have "expect_step x ok e = (if pf_update f then e else e((p, i) \<mapsto> d))" using x DRef by simp
    moreover have "idx_ok hash D (gm_get (ps_idx s')) (if pf_update f then e else e((p, i) \<mapsto> d))"
    proof -
      have io: "idx_ok hash D (gm_get (ps_idx s)) e" using assms(2) by (simp add: served_ok_def)
      consider "pf_update f" "s' = s" | v where "\<not> pf_update f" "s' = s" "gm_get (ps_idx s) (dataIdxKey p i) = Some v" "take 16 v = rf_Hash (chunk_ref hash d)"
        | "\<not> pf_update f" "gm_get (ps_idx s') = (gm_get (ps_idx s))(dataIdxKey p i \<mapsto> encodeChunkRef (chunk_ref hash d))"
        using sp PutChunkRef_faulty[of f p i "chunk_ref hash d" s] dok(4) by auto
      then show ?thesis
      proof cases
        case 2
        then show ?thesis using idx_ok_same[OF io dok(2) 2(3,4) assms(3) dok(1)] by simp
      next
        case 3
        then show ?thesis using idx_ok_put[OF io dok(2,1), of i] by simp
      qed (use io in simp)
    qed
    moreover have "files_ok hash D (gm_get (ps_files s'))" using sp assms(2) files_ok_sub unfolding served_ok_def by blast
    ultimately have "served_ok hash D s' (expect_step x ok e)" unfolding served_ok_def by simp
    then show ?thesis using sp by blast
  next
    case (DInvalidateRange p lo hi)
    then have "InvalidateChunkRange f p lo hi s = (ok, s')" using assms(6) x by simp
    note i = InvalidateChunkRange_shrinks[OF assms(1) this]
    show ?thesis using i x DInvalidateRange by (intro fin) auto
  next
    case (DInvalidatePath p)
    then have "InvalidatePathChunks f p s = (ok, s')" using assms(6) x by simp
    note i = InvalidatePathChunks_shrinks[OF assms(1) this]
    show ?thesis using i x DInvalidatePath by (intro fin) auto
  next
    case (DGhosts khs)
    then show ?thesis using ghost_apply_shrinks[OF assms(1)] assms(6) x by (intro fin) auto
  next
    case (DEvict khs)
    then show ?thesis using evict_apply_shrinks[OF assms(1)] assms(6) x by (intro fin) auto
  next
    case DBudget
    then show ?thesis using enforceDiskBudget_shrinks[OF assms(1)] assms(6) x by (intro fin) auto
  next
    case (DOrphans minAge)
    then show ?thesis using orphan_walk_shrinks[OF assms(1)] assms(6) x by (intro fin) (auto simp: runOrphanSweep_def)
  qed
qed

lemma disk_run_ok:
  assumes "p_inv s" and "served_ok hash D s e" and "collision_free hash D" and "list_all (op_ok D) xs" and "length (ps_idx s) + length xs < 2 ^ 64"
  shows "\<exists>s' e'. disk_run hash xs (s, e) = (s', e') \<and> p_inv s' \<and> served_ok hash D s' e' \<and> ps_underflows s' = ps_underflows s"
  using assms
proof (induction xs arbitrary: s e)
  case (Cons x xs)
  obtain ok s1 where st: "disk_step hash x s = (ok, s1)" by fastforce
  have ih: "p_inv s1 \<and> ps_underflows s1 = ps_underflows s \<and> length (ps_idx s1) \<le> Suc (length (ps_idx s)) \<and> served_ok hash D s1 (expect_step x ok e)"
    using Cons.prems by (intro disk_step_ok[OF _ _ _ _ _ st]) simp_all
  then show ?case using Cons.IH[of s1 "expect_step x ok e"] Cons.prems st by auto
qed simp

lemma new_persist_ok: "p_inv (new_persist b) \<and> served_ok hash D (new_persist b) (\<lambda>_. None)"
  by (simp add: new_persist_def p_inv_def refs_exact_def named_by_def served_ok_def idx_ok_def files_ok_def)

lemma served_load:
  assumes "served_ok hash D s e" and "collision_free hash D" and "path_ok p" and "disk_load f p i s = Some d"
  shows "e (p, i) = Some d"
proof -
  obtain v r where v: "gm_get (ps_idx s) (dataIdxKey p i) = Some v" "decodeChunkRef v = Some r" "ReadChunk (rf_Hash r) s = Some d"
    using assms(4) by (auto simp: disk_load_def GetChunkRef_def split: if_splits option.splits prod.splits bool.splits)
  obtain q j c where q: "path_ok q" "dataIdxKey p i = dataIdxKey q j" "e (q, j) = Some c" "c \<in> D" "v = encodeChunkRef (chunk_ref hash c)"
    using assms(1) v(1) unfolding served_ok_def idx_ok_def by blast
  have "length (hash c) = 16" using assms(2) q(4) by (simp add: collision_free_def)
  then have r: "rf_Hash r = hash c" using decode_encode[of "chunk_ref hash c"] v(2) q(5) by (metis ChunkRef.select_convs(1) chunk_ref_def option.inject)
  have "d \<in> D \<and> hash d = rf_Hash r"
    using assms(1) v(3) unfolding served_ok_def files_ok_def ReadChunk_def by force
  then have "d = c" using r q(4) assms(2) by (auto simp: collision_free_def inj_on_def)
  then show ?thesis using q dataIdxKey_inj[OF assms(3) q(1)] by simp
qed

text \<open>C34: Whatever interleaving of writes, references, invalidations, evictions and sweeps runs on the disk tier, with whatever faults, every
  stored reference count is the number of index entries that name its hash, and no underflow is ever recorded.
\<close>

theorem chunk_refcounts_exact:
  assumes "collision_free hash D" and "list_all (op_ok D) xs" and "length xs < 2 ^ 64"
  shows "let s = fst (disk_run hash xs (new_persist budget, \<lambda>_. None)) in
    ref_count (ps_refs s) h = named_by (ps_idx s) h \<and> ps_underflows s = 0"
proof -
  obtain s e where s: "disk_run hash xs (new_persist budget, \<lambda>_. None) = (s, e)" "p_inv s" "ps_underflows s = 0"
    using disk_run_ok[of "new_persist budget" hash D "\<lambda>_. None" xs] new_persist_ok[of budget hash D] assms by (auto simp: new_persist_def)
  then show ?thesis using ref_count_exact[of "ps_idx s" "ps_refs s" h] by (simp add: p_inv_def)
qed

text \<open>C33: The disk tier never serves wrong bytes: along every such interleaving, a load that hits returns the bytes of the last
  reference recorded for that chunk, and nothing once an invalidation that reported success has removed it.  A
  chunk file that a race or a failure lost is a miss.
\<close>

theorem disk_serves_last_write:
  assumes "collision_free hash D" and "list_all (op_ok D) xs" and "length xs < 2 ^ 64" and "path_ok p"
    and "disk_load f p i (fst (disk_run hash xs (new_persist budget, \<lambda>_. None))) = Some d"
  shows "snd (disk_run hash xs (new_persist budget, \<lambda>_. None)) (p, i) = Some d"
proof -
  obtain s e where s: "disk_run hash xs (new_persist budget, \<lambda>_. None) = (s, e)" "served_ok hash D s e"
    using disk_run_ok[of "new_persist budget" hash D "\<lambda>_. None" xs] new_persist_ok[of budget hash D] assms(1-3) by (auto simp: new_persist_def)
  then show ?thesis using served_load[OF s(2) assms(1,4)] assms(5) by simp
qed

definition ex_hash :: "bytes \<Rightarrow> bytes" where
  "ex_hash d = take 16 (d @ replicate 16 0)"

text \<open>Two files share a chunk; dropping the first must not free the chunk of the second.\<close>

definition ex_disk_ops :: "(faults \<times> int \<times> disk_op) list" where
  "ex_disk_ops = [(no_faults, 0, DWrite [7]), (no_faults, 0, DRef ''a'' 0 [7]), (no_faults, 0, DRef ''b'' 0 [7]), (no_faults, 0, DInvalidateRange ''a'' 0 0)]"

lemma ex_disk_ok: "collision_free ex_hash {[7]} \<and> list_all (op_ok {[7]}) ex_disk_ops \<and> length ex_disk_ops < 2 ^ 64"
  by (simp add: collision_free_def ex_hash_def ex_disk_ops_def path_ok_def inj_on_def)

definition ex_ref :: bytes where
  "ex_ref = encodeChunkRef (chunk_ref ex_hash [7])"

definition ex_disk :: Persist where
  "ex_disk = (new_persist 0)\<lparr>ps_idx := [(dataIdxKey ''b'' 0, ex_ref)], ps_refs := [(ex_hash [7], putUvarint 1)], ps_files := [(Chunk (ex_hash [7]), [7], 0)], ps_used := 1\<rparr>"

lemma ex_disk_run: "disk_run ex_hash ex_disk_ops (new_persist 0, \<lambda>_. None) = (ex_disk, (\<lambda>_. None)((''b'', 0) \<mapsto> [7]))"
proof -
  have k: "dataIdxKey ''a'' 0 \<noteq> dataIdxKey ''b'' 0" by (simp add: dataIdxKey_def)
  have d: "decodeChunkRef ex_ref = Some (chunk_ref ex_hash [7])" unfolding ex_ref_def by (rule decode_encode) (simp add: chunk_ref_def ex_hash_def)
  have h: "rf_Hash (chunk_ref ex_hash [7]) = ex_hash [7]" by (simp add: chunk_ref_def)
  have u: "uvarint (putUvarint (Suc 0)) = Suc 0" "uvarint (putUvarint (Suc (Suc 0))) = Suc (Suc 0)" by (rule uvarint_put, simp)+
  show ?thesis
    unfolding ex_disk_ops_def using k d h u
    by (simp add: new_persist_def ex_disk_def WriteChunk_def enforceDiskBudget_def disk_over_def no_faults_def PutChunkRef_def tx_begin_def tx_commit_def
      incRefTx_def ref_count_def InvalidateChunkRange_def finish_drop_def tx_drop_def tx_dec_def decRefTx_def Let_def ex_ref_def[symmetric] fun_eq_iff split: prod.splits)
qed

theorem chunk_refcounts_exact_witness:
  "ref_count (ps_refs (fst (disk_run ex_hash ex_disk_ops (new_persist 0, \<lambda>_. None)))) (ex_hash [7]) = 1"
proof -
  have "named_by (ps_idx ex_disk) (ex_hash [7]) = 1"
    by (simp add: named_by_def ex_disk_def ex_ref_def encodeChunkRef_def chunk_ref_def ex_hash_def)
  then show ?thesis using chunk_refcounts_exact[of ex_hash "{[7]}" ex_disk_ops 0 "ex_hash [7]"] ex_disk_ok ex_disk_run by (simp add: Let_def)
qed

lemma ex_disk_load: "disk_load no_faults ''b'' 0 ex_disk = Some [7]"
proof -
  have "decodeChunkRef ex_ref = Some (chunk_ref ex_hash [7])" unfolding ex_ref_def by (rule decode_encode) (simp add: chunk_ref_def ex_hash_def)
  then show ?thesis by (simp add: disk_load_def GetChunkRef_def ReadChunk_def no_faults_def ex_disk_def chunk_ref_def)
qed

theorem disk_serves_last_write_witness:
  "disk_load no_faults ''b'' 0 (fst (disk_run ex_hash ex_disk_ops (new_persist 0, \<lambda>_. None))) = Some [7] \<and>
   snd (disk_run ex_hash ex_disk_ops (new_persist 0, \<lambda>_. None)) (''b'', 0) = Some [7]"
proof -
  have l: "disk_load no_faults ''b'' 0 (fst (disk_run ex_hash ex_disk_ops (new_persist 0, \<lambda>_. None))) = Some [7]"
    unfolding ex_disk_run by (simp add: ex_disk_load)
  then show ?thesis using disk_serves_last_write[OF _ _ _ _ l, of "{[7]}"] ex_disk_ok by (simp add: path_ok_def)
qed

end
