(* ===== verification/Cache_Data.thy ===== *)
theory Cache_Data
  imports Cache_Persist
begin

text \<open>
  The data cache (\<^verbatim>\<open>pkg/client/backend/cache/data.go\<close>, and the write-back worker of \<^verbatim>\<open>store.go\<close>).  A chunk of a file is cached in
  memory and written through to the disk tier by a background worker.  Every file has an invalidation
  generation; a queued chunk carries the generation of the time its bytes were read, and the worker drops or
  undoes a write whose generation has moved.  A file whose invalidation failed on disk is poisoned: its
  disk chunks are not served.

  The worker, the invalidations and the readers run concurrently: their atomic parts are separate
  operations here, composed to the code's functions, and interleaved by a step relation.
\<close>

section \<open>Keys\<close>

text \<open>\<^verbatim>\<open>strconv.AppendInt\<close> in base 10, for the chunk numbers, which are not negative.\<close>

function itoa :: "nat \<Rightarrow> string" where
  "itoa n = (if n < 10 then [char_of (48 + n)] else itoa (n div 10) @ [char_of (48 + n mod 10)])"
  by pat_completeness auto
termination by (relation "measure id") auto

declare itoa.simps [simp del]

definition is_digit :: "char \<Rightarrow> bool" where
  "is_digit c \<longleftrightarrow> 48 \<le> (of_char c :: nat) \<and> (of_char c :: nat) \<le> 57"

definition dec_val :: "string \<Rightarrow> nat" where
  "dec_val = foldl (\<lambda>v c. 10 * v + (of_char c - 48)) 0"

text \<open>\<^verbatim>\<open>strconv.Atoi\<close>: an optional sign and at least one digit, in the range of a 64-bit integer.\<close>

definition atoi :: "string \<Rightarrow> int option" where
  "atoi s =
    (let neg = (s \<noteq> [] \<and> hd s = CHR ''-''); t = (if s \<noteq> [] \<and> (hd s = CHR ''-'' \<or> hd s = CHR ''+'') then tl s else s);
         v = (if neg then - int (dec_val t) else int (dec_val t))
     in if t = [] \<or> \<not> list_all is_digit t \<or> v < - (2 ^ 63) \<or> 2 ^ 63 \<le> v then None else Some v)"

(* src/pkg/client/backend/cache/data.go:65-71 chunkKey *)
definition chunkKey :: "path \<Rightarrow> nat \<Rightarrow> string" where
  "chunkKey p i = p @ [CHR 0x00] @ itoa i"

(* src/pkg/client/backend/cache/data.go:347-357 parseChunkKey *)
definition parseChunkKey :: "string \<Rightarrow> (path \<times> int) option" where
  "parseChunkKey key =
    (if CHR 0x00 \<notin> set key then None
     else map_option (Pair (takeWhile (\<lambda>c. c \<noteq> CHR 0x00) key)) (atoi (tl (dropWhile (\<lambda>c. c \<noteq> CHR 0x00) key))))"

lemma itoa_digits: "list_all is_digit (itoa n) \<and> itoa n \<noteq> []"
proof (induction n rule: itoa.induct)
  case (1 n)
  have d: "k < 10 \<Longrightarrow> is_digit (char_of (48 + k))" for k :: nat by (simp add: is_digit_def)
  show ?case using 1 d[of n] d[of "n mod 10"] by (subst (1 2) itoa.simps) simp
qed

lemma dec_val_itoa: "dec_val (itoa n) = n"
proof (induction n rule: itoa.induct)
  case (1 n)
  show ?case
  proof (cases "n < 10")
    case True
    then show ?thesis by (simp add: itoa.simps[of n] dec_val_def)
  next
    case False
    then have "dec_val (itoa n) = 10 * dec_val (itoa (n div 10)) + n mod 10" by (subst itoa.simps) (simp add: dec_val_def)
    then show ?thesis using 1[OF False] by simp
  qed
qed

lemma atoi_itoa: "n < 2 ^ 63 \<Longrightarrow> atoi (itoa n) = Some (int n)"
proof -
  assume n: "n < 2 ^ 63"
  have d: "is_digit (hd (itoa n))" "list_all is_digit (itoa n)" "itoa n \<noteq> []"
    using itoa_digits[of n] by (cases "itoa n"; simp)+
  then have "hd (itoa n) \<noteq> CHR ''-''" "hd (itoa n) \<noteq> CHR ''+''" by (auto simp: is_digit_def)
  moreover have "int n < 2 ^ 63" using n by (metis of_nat_less_iff of_nat_numeral of_nat_power)
  ultimately show ?thesis using d by (simp add: atoi_def dec_val_itoa)
qed

lemma parse_chunkKey: "path_ok p \<Longrightarrow> i < 2 ^ 63 \<Longrightarrow> parseChunkKey (chunkKey p i) = Some (p, int i)"
proof -
  assume p: "path_ok p" and i: "i < 2 ^ 63"
  have "takeWhile (\<lambda>c. c \<noteq> CHR 0x00) (chunkKey p i) = p" "dropWhile (\<lambda>c. c \<noteq> CHR 0x00) (chunkKey p i) = CHR 0x00 # itoa i"
    using p unfolding chunkKey_def path_ok_def by (induction p) auto
  then show ?thesis using atoi_itoa[OF i] by (simp add: parseChunkKey_def chunkKey_def)
qed

text \<open>The key of a cached chunk determines its file and its number: parsing a key gives them back, for every path without
  NUL and every number of a 64-bit file.
\<close>

theorem chunk_key_roundtrip:
  assumes "path_ok p" and "i < 2 ^ 63"
  shows "parseChunkKey (chunkKey p i) = Some (p, int i)"
  using assms by (rule parse_chunkKey)

theorem chunk_key_roundtrip_witness: "parseChunkKey (chunkKey ''a/b'' 12) = Some (''a/b'', 12)"
  using chunk_key_roundtrip[of "''a/b''" 12] by (simp add: path_ok_def)

section \<open>Generations\<close>

text \<open>
  The generation counters are 64-bit in the source; they are natural numbers here, since they only grow by one per
  invalidation.  The last field of a job is not in the source and no operation reads it: the instant at which its
  generation was read, just before its bytes were.
\<close>

(* src/pkg/client/backend/cache/store.go:67-72 persistJob *)
record persistJob =
  jb_path :: path
  jb_idx :: nat
  jb_data :: bytes
  jb_gen :: nat
  jb_sampled :: nat

record data_disk =
  dd_gens :: "(path, nat) gomap"
  dd_global :: nat
  dd_poisoned :: "path list"
  dd_disk :: Persist
  dd_queue :: "persistJob list"

text \<open>The two halves of \<^verbatim>\<open>genCounter\<close> on a path without a counter: reading the global generation, and publishing a counter that holds it.\<close>

definition gen_publish :: "path \<Rightarrow> nat \<Rightarrow> data_disk \<Rightarrow> nat \<times> data_disk" where
  "gen_publish p seed st =
    (case gm_get (dd_gens st) p of
       Some g \<Rightarrow> (g, st)
     | None \<Rightarrow> (seed, st\<lparr>dd_gens := gm_put p seed (dd_gens st)\<rparr>))"

(* src/pkg/client/backend/cache/data.go:201-214 genCounter *)
definition curGen :: "path \<Rightarrow> data_disk \<Rightarrow> nat \<times> data_disk" where
  "curGen p st = gen_publish p (dd_global st) st"

(* src/pkg/client/backend/cache/data.go:215-215 bumpGen *)
definition bumpGen :: "path \<Rightarrow> data_disk \<Rightarrow> data_disk" where
  "bumpGen p st =
    (case curGen p st of (_, st1) \<Rightarrow>
      st1\<lparr>dd_global := dd_global st1 + 1, dd_gens := gm_put p (dd_global st1 + 1) (dd_gens st1)\<rparr>)"

section \<open>Invalidation\<close>

text \<open>The parts of the two cleaners: the bump, the deletion on disk, and what its outcome leaves.\<close>

definition clean_outcome :: "bool \<Rightarrow> bool \<Rightarrow> path \<Rightarrow> data_disk \<Rightarrow> data_disk" where
  "clean_outcome prune ok p st =
    (if \<not> ok then st\<lparr>dd_poisoned := List.insert p (dd_poisoned st)\<rparr>
     else st\<lparr>dd_poisoned := removeAll p (dd_poisoned st), dd_gens := (if prune then gm_del p (dd_gens st) else dd_gens st)\<rparr>)"

definition clean_path_disk :: "faults \<Rightarrow> path \<Rightarrow> data_disk \<Rightarrow> bool \<times> data_disk" where
  "clean_path_disk f p st = (case InvalidatePathChunks f p (dd_disk st) of (ok, d) \<Rightarrow> (ok, st\<lparr>dd_disk := d\<rparr>))"

definition clean_range_disk :: "faults \<Rightarrow> path \<Rightarrow> nat \<Rightarrow> nat \<Rightarrow> data_disk \<Rightarrow> bool \<times> data_disk" where
  "clean_range_disk f p lo hi st = (case InvalidateChunkRange f p lo hi (dd_disk st) of (ok, d) \<Rightarrow> (ok, st\<lparr>dd_disk := d\<rparr>))"

(* src/pkg/client/backend/cache/data.go:307-330 persistCleaner *)
definition persistCleaner :: "faults \<Rightarrow> path \<Rightarrow> data_disk \<Rightarrow> data_disk" where
  "persistCleaner f p st = (case clean_path_disk f p (bumpGen p st) of (ok, st') \<Rightarrow> clean_outcome True ok p st')"

(* src/pkg/client/backend/cache/data.go:331-341 persistRangeCleaner *)
definition persistRangeCleaner :: "faults \<Rightarrow> path \<Rightarrow> nat \<Rightarrow> nat \<Rightarrow> data_disk \<Rightarrow> data_disk" where
  "persistRangeCleaner f p lo hi st = (case clean_range_disk f p lo hi (bumpGen p st) of (ok, st') \<Rightarrow> clean_outcome False ok p st')"

section \<open>The write-back worker\<close>

(* src/pkg/client/backend/cache/data.go:22-22 dataPersistQueueDepth *)
definition dataPersistQueueDepth :: nat where
  "dataPersistQueueDepth = 256"

text \<open>A full queue drops the job.\<close>

(* src/pkg/client/backend/cache/store.go:170-181 putGen *)
definition enqueue :: "persistJob \<Rightarrow> data_disk \<Rightarrow> data_disk" where
  "enqueue j st = (if length (dd_queue st) < dataPersistQueueDepth then st\<lparr>dd_queue := dd_queue st @ [j]\<rparr> else st)"

definition gen_moved :: "persistJob \<Rightarrow> data_disk \<Rightarrow> bool \<times> data_disk" where
  "gen_moved j st = (case curGen (jb_path j) st of (g, st') \<Rightarrow> (g \<noteq> jb_gen j, st'))"

definition persist_write :: "(bytes \<Rightarrow> bytes) \<Rightarrow> faults \<Rightarrow> int \<Rightarrow> persistJob \<Rightarrow> data_disk \<Rightarrow> bool \<times> data_disk" where
  "persist_write hash f now j st = (case WriteChunk hash f now (jb_data j) (dd_disk st) of ((h, dedup, ok), d) \<Rightarrow> (ok, st\<lparr>dd_disk := d\<rparr>))"

definition persist_ref :: "(bytes \<Rightarrow> bytes) \<Rightarrow> faults \<Rightarrow> persistJob \<Rightarrow> data_disk \<Rightarrow> bool \<times> data_disk" where
  "persist_ref hash f j st = (case PutChunkRef f (jb_path j) (jb_idx j) (chunk_ref hash (jb_data j)) (dd_disk st) of (ok, d) \<Rightarrow> (ok, st\<lparr>dd_disk := d\<rparr>))"

text \<open>The undo of a write whose generation moved; a failed undo poisons the path.\<close>

definition persist_undo :: "faults \<Rightarrow> persistJob \<Rightarrow> data_disk \<Rightarrow> data_disk" where
  "persist_undo f j st =
    (case clean_range_disk f (jb_path j) (jb_idx j) (jb_idx j) st of
       (ok, st') \<Rightarrow> if ok then st' else st'\<lparr>dd_poisoned := List.insert (jb_path j) (dd_poisoned st')\<rparr>)"

(* src/pkg/client/backend/cache/data.go:245-289 onPersist *)
definition onPersist :: "(bytes \<Rightarrow> bytes) \<Rightarrow> faults \<Rightarrow> int \<Rightarrow> persistJob \<Rightarrow> data_disk \<Rightarrow> data_disk" where
  "onPersist hash f now j st =
    (case gen_moved j st of (moved, st1) \<Rightarrow>
      if moved then st1
      else (case persist_write hash f now j st1 of (wrote, st2) \<Rightarrow>
        if \<not> wrote then st2
        else (case persist_ref hash f j st2 of (put, st3) \<Rightarrow>
          if \<not> put then st3
          else (case gen_moved j st3 of (moved2, st4) \<Rightarrow> if moved2 then persist_undo f j st4 else st4))))"

text \<open>The worker empties the queue in order; on a stop it flushes what is buffered.\<close>

(* src/pkg/client/backend/cache/store.go:232-249 persistWorker *)
fun persistWorker :: "(bytes \<Rightarrow> bytes) \<Rightarrow> faults \<Rightarrow> int \<Rightarrow> persistJob list \<Rightarrow> data_disk \<Rightarrow> data_disk" where
  "persistWorker hash f now [] st = st\<lparr>dd_queue := []\<rparr>"
| "persistWorker hash f now (j # js) st = persistWorker hash f now js (onPersist hash f now j (st\<lparr>dd_queue := js\<rparr>))"

text \<open>The loader: no disk chunk of a poisoned path is served.\<close>

(* src/pkg/client/backend/cache/data.go:216-239 loader *)
definition disk_loader :: "faults \<Rightarrow> string \<Rightarrow> data_disk \<Rightarrow> bytes option" where
  "disk_loader f key st =
    (case parseChunkKey key of
       None \<Rightarrow> None
     | Some (p, i) \<Rightarrow> if p \<in> set (dd_poisoned st) then None else disk_load f p (nat i) (dd_disk st))"

section \<open>Interleavings\<close>

datatype wstate = WIdle | WChecked persistJob | WWrote persistJob | WPut persistJob | WUndo persistJob

text \<open>
  One clock tick per step.  \<open>mc_reads\<close> holds the reads in flight (file, generation and instant of the read);
  \<open>mc_cleaning\<close> the invalidations between their bump and their deletion on disk, \<open>mc_cleaned\<close> those that have still to
  record their outcome; an invalidation covers one range of chunks or all of a file.  \<open>mc_inv\<close> is the instant the last
  invalidation of a chunk began, and \<open>mc_tag\<close> the instant the bytes behind its index entry were read.
\<close>

type_synonym cleaner = "path \<times> (nat \<times> nat) option"

record machine =
  mc_data :: data_disk
  mc_now :: nat
  mc_reads :: "(path \<times> nat \<times> nat) list"
  mc_worker :: wstate
  mc_cleaning :: "cleaner list"
  mc_cleaned :: "cleaner list"
  mc_inv :: "path \<times> nat \<Rightarrow> nat"
  mc_tag :: "path \<times> nat \<Rightarrow> nat"

fun cleans :: "cleaner \<Rightarrow> path \<times> nat \<Rightarrow> bool" where
  "cleans (p, None) (q, i) = (q = p)"
| "cleans (p, Some (lo, hi)) (q, i) = (q = p \<and> lo \<le> i \<and> i \<le> hi)"

fun clean_disk :: "faults \<Rightarrow> cleaner \<Rightarrow> data_disk \<Rightarrow> bool \<times> data_disk" where
  "clean_disk f (p, None) st = clean_path_disk f p st"
| "clean_disk f (p, Some (lo, hi)) st = clean_range_disk f p lo hi st"

definition worker_job :: "wstate \<Rightarrow> persistJob option" where
  "worker_job w = (case w of WIdle \<Rightarrow> None | WChecked j \<Rightarrow> Some j | WWrote j \<Rightarrow> Some j | WPut j \<Rightarrow> Some j | WUndo j \<Rightarrow> Some j)"

definition tick :: "machine \<Rightarrow> machine" where
  "tick m = m\<lparr>mc_now := mc_now m + 1\<rparr>"

text \<open>
  The steps.  Invalidations and undos meet no fault (a fault poisons the file); writes and references may fail.  The
  maintenance of the disk tier may run at any time.
\<close>

inductive mstep :: "(bytes \<Rightarrow> bytes) \<Rightarrow> machine \<Rightarrow> machine \<Rightarrow> bool" for hash where
  read_begin: "path_ok p \<Longrightarrow> curGen p (mc_data m) = (g, st) \<Longrightarrow>
    mstep hash m (tick (m\<lparr>mc_data := st, mc_reads := (p, g, mc_now m) # mc_reads m\<rparr>))"
| read_end: "(p, g, t) \<in> set (mc_reads m) \<Longrightarrow>
    mstep hash m (tick (m\<lparr>mc_data := enqueue \<lparr>jb_path = p, jb_idx = i, jb_data = d, jb_gen = g, jb_sampled = t\<rparr> (mc_data m)\<rparr>))"
| inval_begin: "path_ok (fst c) \<Longrightarrow>
    mstep hash m (tick (m\<lparr>mc_data := bumpGen (fst c) (mc_data m), mc_cleaning := c # mc_cleaning m,
      mc_inv := (\<lambda>x. if cleans c x then mc_now m else mc_inv m x)\<rparr>))"
| inval_clean: "c \<in> set (mc_cleaning m) \<Longrightarrow> clean_disk f c (mc_data m) = (True, st) \<Longrightarrow>
    mstep hash m (tick (m\<lparr>mc_data := st, mc_cleaning := remove1 c (mc_cleaning m), mc_cleaned := c # mc_cleaned m\<rparr>))"
| inval_end: "c \<in> set (mc_cleaned m) \<Longrightarrow>
    mstep hash m (tick (m\<lparr>mc_data := clean_outcome (snd c = None) True (fst c) (mc_data m), mc_cleaned := remove1 c (mc_cleaned m)\<rparr>))"
| work_take: "mc_worker m = WIdle \<Longrightarrow> dd_queue (mc_data m) = j # js \<Longrightarrow> gen_moved j ((mc_data m)\<lparr>dd_queue := js\<rparr>) = (moved, st) \<Longrightarrow>
    mstep hash m (tick (m\<lparr>mc_data := st, mc_worker := (if moved then WIdle else WChecked j)\<rparr>))"
| work_write: "mc_worker m = WChecked j \<Longrightarrow> persist_write hash f now j (mc_data m) = (ok, st) \<Longrightarrow>
    mstep hash m (tick (m\<lparr>mc_data := st, mc_worker := (if ok then WWrote j else WIdle)\<rparr>))"
| work_ref: "mc_worker m = WWrote j \<Longrightarrow> pf_unlink f = [] \<Longrightarrow> persist_ref hash f j (mc_data m) = (ok, st) \<Longrightarrow>
    mstep hash m (tick (m\<lparr>mc_data := st, mc_worker := (if ok then WPut j else WIdle),
      mc_tag := (if ok then (mc_tag m)((jb_path j, jb_idx j) := jb_sampled j) else mc_tag m)\<rparr>))"
| work_check: "mc_worker m = WPut j \<Longrightarrow> gen_moved j (mc_data m) = (moved, st) \<Longrightarrow>
    mstep hash m (tick (m\<lparr>mc_data := st, mc_worker := (if moved then WUndo j else WIdle)\<rparr>))"
| work_undo: "mc_worker m = WUndo j \<Longrightarrow> clean_range_disk f (jb_path j) (jb_idx j) (jb_idx j) (mc_data m) = (True, st) \<Longrightarrow>
    mstep hash m (tick (m\<lparr>mc_data := st, mc_worker := WIdle\<rparr>))"
| maintain: "x = DGhosts khs \<or> x = DEvict khs \<or> x = DBudget \<or> x = DOrphans a \<Longrightarrow> disk_step hash (f, now, x) (dd_disk (mc_data m)) = (ok, d) \<Longrightarrow>
    mstep hash m (tick (m\<lparr>mc_data := (mc_data m)\<lparr>dd_disk := d\<rparr>\<rparr>))"

definition new_machine :: "int \<Rightarrow> machine" where
  "new_machine budget = \<lparr>mc_data = \<lparr>dd_gens = [], dd_global = 0, dd_poisoned = [], dd_disk = new_persist budget, dd_queue = []\<rparr>, mc_now = 1,
     mc_reads = [], mc_worker = WIdle, mc_cleaning = [], mc_cleaned = [], mc_inv = (\<lambda>_. 0), mc_tag = (\<lambda>_. 0)\<rparr>"

section \<open>No resurrection\<close>

text \<open>The generation a path has, whether or not it holds a counter.\<close>

definition gen_of :: "data_disk \<Rightarrow> path \<Rightarrow> nat" where
  "gen_of st p = (case gm_get (dd_gens st) p of Some g \<Rightarrow> g | None \<Rightarrow> dd_global st)"

text \<open>A sample of a path: its generation is not ahead, and while it is the path's generation no invalidation has begun since.\<close>

definition sample_ok :: "machine \<Rightarrow> path \<Rightarrow> nat \<Rightarrow> nat \<Rightarrow> bool" where
  "sample_ok m p g t \<longleftrightarrow> path_ok p \<and> g \<le> gen_of (mc_data m) p \<and> t < mc_now m \<and> (g = gen_of (mc_data m) p \<longrightarrow> (\<forall>i. mc_inv m (p, i) < t))"

abbreviation job_ok :: "machine \<Rightarrow> persistJob \<Rightarrow> bool" where
  "job_ok m j \<equiv> sample_ok m (jb_path j) (jb_gen j) (jb_sampled j)"

text \<open>An entry that may be stale is about to go: its invalidation has not reached the disk yet, or the worker will undo it.\<close>

definition undo_due :: "machine \<Rightarrow> path \<times> nat \<Rightarrow> bool" where
  "undo_due m x \<longleftrightarrow> (\<exists>j. (mc_worker m = WPut j \<or> mc_worker m = WUndo j) \<and> x = (jb_path j, jb_idx j) \<and> jb_gen j < gen_of (mc_data m) (jb_path j))"

definition entry_ok :: "machine \<Rightarrow> path \<times> nat \<Rightarrow> bool" where
  "entry_ok m x \<longleftrightarrow> mc_inv m x < mc_tag m x \<or> (\<exists>c \<in> set (mc_cleaning m). cleans c x) \<or> undo_due m x"

definition gens_ok :: "data_disk \<Rightarrow> bool" where
  "gens_ok st \<longleftrightarrow> (\<forall>p g. gm_get (dd_gens st) p = Some g \<longrightarrow> g \<le> dd_global st)"

definition jobs :: "machine \<Rightarrow> persistJob set" where
  "jobs m = set (dd_queue (mc_data m)) \<union> set_option (worker_job (mc_worker m))"

definition machine_ok :: "machine \<Rightarrow> bool" where
  "machine_ok m \<longleftrightarrow> p_inv (dd_disk (mc_data m)) \<and> length (ps_idx (dd_disk (mc_data m))) < mc_now m \<and> gens_ok (mc_data m) \<and>
     (\<forall>(p, g, t) \<in> set (mc_reads m). sample_ok m p g t) \<and> (\<forall>j \<in> jobs m. job_ok m j) \<and>
     (\<forall>p i. path_ok p \<longrightarrow> gm_get (ps_idx (dd_disk (mc_data m))) (dataIdxKey p i) \<noteq> None \<longrightarrow> entry_ok m (p, i)) \<and>
     (\<forall>x. mc_inv m x < mc_now m) \<and> (\<forall>j. mc_worker m = WUndo j \<longrightarrow> jb_gen j < gen_of (mc_data m) (jb_path j))"

lemma curGen_spec:
  assumes "curGen p st = (g, st')"
  shows "g = gen_of st p \<and> gen_of st' = gen_of st \<and> dd_disk st' = dd_disk st \<and> dd_queue st' = dd_queue st \<and> (gens_ok st \<longrightarrow> gens_ok st')"
  using assms by (auto simp: curGen_def gen_publish_def gen_of_def gens_ok_def gm_get_put fun_eq_iff split: option.splits if_splits)

lemma gen_moved_spec:
  assumes "gen_moved j st = (moved, st')"
  shows "moved = (gen_of st (jb_path j) \<noteq> jb_gen j) \<and> gen_of st' = gen_of st \<and> dd_disk st' = dd_disk st \<and> dd_queue st' = dd_queue st \<and> (gens_ok st \<longrightarrow> gens_ok st')"
  using assms curGen_spec[of "jb_path j" st] by (auto simp: gen_moved_def split: prod.splits)

lemma gen_of_le: "gens_ok st \<Longrightarrow> gen_of st p \<le> dd_global st"
  by (auto simp: gen_of_def gens_ok_def split: option.splits)

lemma bumpGen_spec:
  assumes "gens_ok st"
  shows "gens_ok (bumpGen p st) \<and> gen_of st p < gen_of (bumpGen p st) p \<and> gen_of st q \<le> gen_of (bumpGen p st) q \<and>
    dd_disk (bumpGen p st) = dd_disk st \<and> dd_queue (bumpGen p st) = dd_queue st"
proof -
  obtain g st1 where c: "curGen p st = (g, st1)" by fastforce
  have s: "dd_global st1 = dd_global st" "gm_get (dd_gens st1) q = (if q = p then Some g else gm_get (dd_gens st) q)" for q
    using c by (auto simp: curGen_def gen_publish_def gm_get_put split: option.splits)
  note cs = curGen_spec[OF c]
  have b: "bumpGen p st = st1\<lparr>dd_global := dd_global st + 1, dd_gens := gm_put p (dd_global st + 1) (dd_gens st1)\<rparr>"
    using c s(1) by (simp add: bumpGen_def)
  have "gens_ok (bumpGen p st)" using assms unfolding b gens_ok_def by (auto simp: gm_get_put s(2) le_Suc_eq split: if_splits)
  moreover have "gen_of (bumpGen p st) q = (if q = p then dd_global st + 1 else case gm_get (dd_gens st) q of Some g \<Rightarrow> g | None \<Rightarrow> dd_global st + 1)" for q
    unfolding b gen_of_def by (simp add: gm_get_put s(2) split: option.splits)
  ultimately show ?thesis using cs gen_of_le[OF assms, of p] gen_of_le[OF assms, of q] unfolding b by (auto simp: gen_of_def split: option.splits)
qed

lemma clean_outcome_spec:
  assumes "gens_ok st"
  shows "gens_ok (clean_outcome b True p st) \<and> gen_of st q \<le> gen_of (clean_outcome b True p st) q \<and>
    dd_disk (clean_outcome b True p st) = dd_disk st \<and> dd_queue (clean_outcome b True p st) = dd_queue st"
  using assms gen_of_le[OF assms, of q] by (auto simp: clean_outcome_def gens_ok_def gen_of_def gm_get_del split: option.splits if_splits)

lemma clean_disk_spec:
  assumes "p_inv (dd_disk st)" and "clean_disk f c st = (ok, st')"
  shows "st' = st\<lparr>dd_disk := dd_disk st'\<rparr> \<and> p_shrinks (dd_disk st) (dd_disk st') \<and>
    (ok \<longrightarrow> path_ok p \<longrightarrow> cleans c (p, i) \<longrightarrow> gm_get (ps_idx (dd_disk st')) (dataIdxKey p i) = None)"
proof -
  obtain q r where c: "c = (q, r)" by fastforce
  show ?thesis
  proof (cases r)
    case None
    then obtain d where "InvalidatePathChunks f q (dd_disk st) = (ok, d)" "st' = st\<lparr>dd_disk := d\<rparr>"
      using assms(2) c by (auto simp: clean_path_disk_def split: prod.splits)
    then show ?thesis using InvalidatePathChunks_shrinks[OF assms(1)] c None by auto
  next
    case (Some lh)
    obtain lo hi where lh: "lh = (lo, hi)" by fastforce
    then obtain d where "InvalidateChunkRange f q lo hi (dd_disk st) = (ok, d)" "st' = st\<lparr>dd_disk := d\<rparr>"
      using assms(2) c Some by (auto simp: clean_range_disk_def split: prod.splits)
    then show ?thesis using InvalidateChunkRange_shrinks[OF assms(1)] c Some lh by auto
  qed
qed

lemma gen_of_cong: "dd_gens a = dd_gens b \<Longrightarrow> dd_global a = dd_global b \<Longrightarrow> gen_of a = gen_of b"
  by (simp add: gen_of_def fun_eq_iff split: option.splits)

lemma sample_mono:
  assumes "sample_ok m p g t" and "gen_of (mc_data m) p \<le> gen_of (mc_data m') p" and "mc_inv m' = mc_inv m" and "mc_now m \<le> mc_now m'"
  shows "sample_ok m' p g t"
  using assms unfolding sample_ok_def by auto

text \<open>The common part of the steps: time and generations only move forward, nothing is invalidated anew.\<close>

lemma machine_okI:
  assumes "machine_ok m" and "p_inv (dd_disk (mc_data m'))" and "length (ps_idx (dd_disk (mc_data m'))) < mc_now m'" and "gens_ok (mc_data m')"
    and "mc_inv m' = mc_inv m" and "mc_now m \<le> mc_now m'" and "\<And>p. gen_of (mc_data m) p \<le> gen_of (mc_data m') p"
    and "\<And>p g t. (p, g, t) \<in> set (mc_reads m') \<Longrightarrow> (p, g, t) \<in> set (mc_reads m) \<or> sample_ok m' p g t"
    and "\<And>j. j \<in> jobs m' \<Longrightarrow> j \<in> jobs m \<or> job_ok m' j"
    and "\<And>p i. path_ok p \<Longrightarrow> gm_get (ps_idx (dd_disk (mc_data m'))) (dataIdxKey p i) \<noteq> None \<Longrightarrow> entry_ok m' (p, i)"
    and "\<And>j. mc_worker m' = WUndo j \<Longrightarrow> jb_gen j < gen_of (mc_data m') (jb_path j)"
  shows "machine_ok m'"
proof -
  have s: "sample_ok m p g t \<Longrightarrow> sample_ok m' p g t" for p g t using sample_mono assms(5-7) by blast
  have "(p, g, t) \<in> set (mc_reads m') \<Longrightarrow> sample_ok m' p g t" for p g t using assms(1,8) s unfolding machine_ok_def by blast
  moreover have "j \<in> jobs m' \<Longrightarrow> job_ok m' j" for j using assms(1,9) s unfolding machine_ok_def by blast
  moreover have "mc_inv m' x < mc_now m'" for x using assms(1,5,6) unfolding machine_ok_def by (metis less_le_trans)
  ultimately show ?thesis using assms(2-4,10,11) unfolding machine_ok_def by auto
qed

text \<open>An entry stays in order while the tags, the invalidations in flight and the worker stay.\<close>

lemma entry_mono:
  assumes "entry_ok m x" and "mc_inv m' = mc_inv m" and "mc_tag m' = mc_tag m" and "set (mc_cleaning m) \<subseteq> set (mc_cleaning m')"
    and "mc_worker m' = mc_worker m" and "\<And>p. gen_of (mc_data m) p \<le> gen_of (mc_data m') p"
  shows "entry_ok m' x"
  using assms unfolding entry_ok_def undo_due_def by (metis (no_types, lifting) order_less_le_trans subsetD)

lemma entry_of: "machine_ok m \<Longrightarrow> path_ok p \<Longrightarrow> gm_get (ps_idx (dd_disk (mc_data m))) (dataIdxKey p i) \<noteq> None \<Longrightarrow> entry_ok m (p, i)"
  by (simp add: machine_ok_def)

lemma no_undo_entry: "entry_ok m x \<Longrightarrow> (\<And>j. mc_worker m \<noteq> WPut j \<and> mc_worker m \<noteq> WUndo j) \<Longrightarrow> mc_inv m x < mc_tag m x \<or> (\<exists>c \<in> set (mc_cleaning m). cleans c x)"
  unfolding entry_ok_def undo_due_def by blast

lemma tick_simps [simp]:
  "mc_data (tick m) = mc_data m" "mc_now (tick m) = mc_now m + 1" "mc_reads (tick m) = mc_reads m" "mc_worker (tick m) = mc_worker m"
  "mc_cleaning (tick m) = mc_cleaning m" "mc_cleaned (tick m) = mc_cleaned m" "mc_inv (tick m) = mc_inv m" "mc_tag (tick m) = mc_tag m"
  by (simp_all add: tick_def)

lemma inv_of: "machine_ok m \<Longrightarrow> mc_inv m x < mc_now m"
  unfolding machine_ok_def by blast

lemma p_inv_of: "machine_ok m \<Longrightarrow> p_inv (dd_disk (mc_data m))" and gens_of: "machine_ok m \<Longrightarrow> gens_ok (mc_data m)"
  and len_of: "machine_ok m \<Longrightarrow> length (ps_idx (dd_disk (mc_data m))) < mc_now m"
  and undo_of: "machine_ok m \<Longrightarrow> mc_worker m = WUndo j \<Longrightarrow> jb_gen j < gen_of (mc_data m) (jb_path j)"
  and job_of: "machine_ok m \<Longrightarrow> j \<in> jobs m \<Longrightarrow> job_ok m j"
  and read_of: "machine_ok m \<Longrightarrow> (p, g, t) \<in> set (mc_reads m) \<Longrightarrow> sample_ok m p g t"
  by (auto simp: machine_ok_def)

lemma disk_update_gen [simp]: "gen_of (st\<lparr>dd_disk := d\<rparr>) = gen_of st" "gens_ok (st\<lparr>dd_disk := d\<rparr>) = gens_ok st"
  "gen_of (st\<lparr>dd_queue := q\<rparr>) = gen_of st" "gens_ok (st\<lparr>dd_queue := q\<rparr>) = gens_ok st"
  by (auto simp: gen_of_def gens_ok_def fun_eq_iff split: option.splits)

definition idx_shrinks :: "Persist \<Rightarrow> Persist \<Rightarrow> bool" where
  "idx_shrinks a b \<longleftrightarrow> p_inv b \<and> gm_get (ps_idx b) \<subseteq>\<^sub>m gm_get (ps_idx a) \<and> length (ps_idx b) \<le> length (ps_idx a)"

lemma idx_shrinks_kept: "idx_shrinks a b \<Longrightarrow> gm_get (ps_idx b) k \<noteq> None \<Longrightarrow> gm_get (ps_idx a) k \<noteq> None"
  unfolding idx_shrinks_def map_le_def by (metis domIff)

lemma idx_shrinksI: "p_inv a \<Longrightarrow> p_shrinks a b \<Longrightarrow> idx_shrinks a b"
  using p_shrinks_inv[of a b] by (simp add: idx_shrinks_def p_shrinks_def)

lemma idx_shrinks_refl: "machine_ok m \<Longrightarrow> idx_shrinks (dd_disk (mc_data m)) (dd_disk (mc_data m))"
  using idx_shrinksI p_inv_of p_shrinks_refl by blast

text \<open>A step that only drops index entries and leaves tags, cleaners and worker alone.\<close>

lemma quiet_step:
  assumes "machine_ok m" and "idx_shrinks (dd_disk (mc_data m)) (dd_disk (mc_data m'))" and "gens_ok (mc_data m')"
    and "\<And>p. gen_of (mc_data m) p \<le> gen_of (mc_data m') p" and "mc_inv m' = mc_inv m" and "mc_tag m' = mc_tag m" and "mc_cleaning m' = mc_cleaning m"
    and "mc_worker m' = mc_worker m" and "mc_now m' = mc_now m + 1"
    and "\<And>p g t. (p, g, t) \<in> set (mc_reads m') \<Longrightarrow> (p, g, t) \<in> set (mc_reads m) \<or> sample_ok m' p g t"
    and "\<And>j. j \<in> jobs m' \<Longrightarrow> j \<in> jobs m \<or> job_ok m' j"
  shows "machine_ok m'"
proof (rule machine_okI[OF assms(1)])
  show "p_inv (dd_disk (mc_data m'))" using assms(2) by (simp add: idx_shrinks_def)
  show "length (ps_idx (dd_disk (mc_data m'))) < mc_now m'" using len_of[OF assms(1)] assms(2,9) by (simp add: idx_shrinks_def)
  show "entry_ok m' (p, i)" if "path_ok p" "gm_get (ps_idx (dd_disk (mc_data m'))) (dataIdxKey p i) \<noteq> None" for p i
  proof (rule entry_mono)
    show "entry_ok m (p, i)" by (rule entry_of[OF assms(1) that(1) idx_shrinks_kept[OF assms(2) that(2)]])
  qed (use assms(4-8) in simp_all)
  show "jb_gen j < gen_of (mc_data m') (jb_path j)" if "mc_worker m' = WUndo j" for j
    using undo_of[OF assms(1), of j] assms(4)[of "jb_path j"] assms(8) that by simp
qed (use assms(3-5,9-11) in auto)

text \<open>Letting the worker go on without a new entry: allowed unless an undo is due that it would forget.\<close>

lemma worker_step:
  assumes "machine_ok m" and "idx_shrinks (dd_disk (mc_data m)) (dd_disk (mc_data m'))" and "gens_ok (mc_data m')"
    and "\<And>p. gen_of (mc_data m) p = gen_of (mc_data m') p" and "mc_inv m' = mc_inv m" and "mc_tag m' = mc_tag m" and "mc_cleaning m' = mc_cleaning m"
    and "mc_now m' = mc_now m + 1" and "mc_reads m' = mc_reads m" and "jobs m' \<subseteq> jobs m"
    and "\<And>x. undo_due m x \<Longrightarrow> undo_due m' x \<or> gm_get (ps_idx (dd_disk (mc_data m'))) (dataIdxKey (fst x) (snd x)) = None"
    and "\<And>j. mc_worker m' = WUndo j \<Longrightarrow> jb_gen j < gen_of (mc_data m') (jb_path j)"
  shows "machine_ok m'"
proof (rule machine_okI[OF assms(1)])
  show "p_inv (dd_disk (mc_data m'))" using assms(2) by (simp add: idx_shrinks_def)
  show "length (ps_idx (dd_disk (mc_data m'))) < mc_now m'" using len_of[OF assms(1)] assms(2,8) by (simp add: idx_shrinks_def)
  show "entry_ok m' (p, i)" if "path_ok p" "gm_get (ps_idx (dd_disk (mc_data m'))) (dataIdxKey p i) \<noteq> None" for p i
  proof -
    have "entry_ok m (p, i)" by (rule entry_of[OF assms(1) that(1) idx_shrinks_kept[OF assms(2) that(2)]])
    then show ?thesis using assms(5-7) assms(11)[of "(p, i)"] that(2) unfolding entry_ok_def by auto
  qed
qed (use assms(3-5,8-10,12) in auto)

lemma WriteChunk_idx: "p_inv s \<Longrightarrow> WriteChunk hash f now d s = (r, s') \<Longrightarrow> idx_shrinks s s'"
proof -
  assume i: "p_inv s" and w: "WriteChunk hash f now d s = (r, s')"
  from WriteChunk_spec[OF this] obtain s1 where s1: "s1 = s\<lparr>ps_files := ps_files s1, ps_used := ps_used s1\<rparr>" "p_shrinks s1 s'" by blast
  have "ps_idx s1 = ps_idx s" "ps_refs s1 = ps_refs s" by (subst s1(1), simp)+
  then show ?thesis using i s1(2) by (simp add: idx_shrinks_def p_shrinks_def p_inv_def)
qed

lemma inval_begin_ok:
  assumes "machine_ok m" and "path_ok (fst c)"
  shows "machine_ok (tick (m\<lparr>mc_data := bumpGen (fst c) (mc_data m), mc_cleaning := c # mc_cleaning m,
    mc_inv := (\<lambda>x. if cleans c x then mc_now m else mc_inv m x)\<rparr>))" (is "machine_ok ?m")
proof -
  note b = bumpGen_spec[OF gens_of[OF assms(1)], of "fst c"]
  have lt: "gen_of (mc_data m) (fst c) < gen_of (mc_data ?m) (fst c)" and le: "gen_of (mc_data m) q \<le> gen_of (mc_data ?m) q" for q
    using b by simp_all
  have disk: "dd_disk (mc_data ?m) = dd_disk (mc_data m)" "gens_ok (mc_data ?m)" "jobs ?m = jobs m" using b by (simp_all add: jobs_def)
  have cv: "cleans c (p, i) \<Longrightarrow> p = fst c" for p i by (cases c; cases "snd c") auto
  have s: "sample_ok ?m p g t" if "sample_ok m p g t" for p g t
  proof (cases "p = fst c")
    case True
    have "g < gen_of (mc_data ?m) p" using that lt True unfolding sample_ok_def by (meson le_less_trans)
    then show ?thesis using that unfolding sample_ok_def by simp
  next
    case False
    then have "mc_inv ?m (p, i) = mc_inv m (p, i)" for i using cv by auto
    then show ?thesis using that le[of p] unfolding sample_ok_def by auto
  qed
  have e: "entry_ok ?m x" if "entry_ok m x" for x
  proof (cases "cleans c x")
    case False
    have "undo_due m x \<Longrightarrow> undo_due ?m x" using le unfolding undo_due_def by (auto intro: order_less_le_trans)
    then show ?thesis using that False unfolding entry_ok_def by auto
  qed (simp add: entry_ok_def)
  have u: "jb_gen j < gen_of (mc_data ?m) (jb_path j)" if "mc_worker ?m = WUndo j" for j
    using undo_of[OF assms(1), of j] that le[of "jb_path j"] by simp
  have "mc_inv ?m x < mc_now ?m" for x using inv_of[OF assms(1), of x] by simp
  then show ?thesis unfolding machine_ok_def disk
    using p_inv_of[OF assms(1)] len_of[OF assms(1)] s read_of[OF assms(1)] job_of[OF assms(1)] e entry_of[OF assms(1)] u disk(2) by auto
qed

lemma inval_clean_ok:
  assumes "machine_ok m" and "clean_disk f c (mc_data m) = (True, st)"
  shows "machine_ok (tick (m\<lparr>mc_data := st, mc_cleaning := remove1 c (mc_cleaning m), mc_cleaned := c # mc_cleaned m\<rparr>))" (is "machine_ok ?m")
proof -
  note c = clean_disk_spec[OF p_inv_of[OF assms(1)] assms(2)]
  have g: "gen_of st = gen_of (mc_data m)" "gens_ok st" "dd_queue st = dd_queue (mc_data m)" using c by (metis disk_update_gen(1), metis c disk_update_gen(2) gens_of[OF assms(1)], metis c data_disk.surjective data_disk.update_convs(4) data_disk.select_convs(5))
  have i: "idx_shrinks (dd_disk (mc_data m)) (dd_disk st)" using c idx_shrinksI[OF p_inv_of[OF assms(1)]] by blast
  have e: "entry_ok ?m (p, i)" if p: "path_ok p" and k: "gm_get (ps_idx (dd_disk st)) (dataIdxKey p i) \<noteq> None" for p i
  proof -
    have "entry_ok m (p, i)" by (rule entry_of[OF assms(1) p idx_shrinks_kept[OF i k]])
    moreover have "\<not> cleans c (p, i)" using c[of p i] p k by blast
    then have "x \<in> set (mc_cleaning m) \<Longrightarrow> cleans x (p, i) \<Longrightarrow> x \<in> set (mc_cleaning ?m)" for x by (cases "x = c") auto
    ultimately show ?thesis using g(1) unfolding entry_ok_def undo_due_def by auto
  qed
  show ?thesis by (rule machine_okI[OF assms(1)])
    (use i e g len_of[OF assms(1)] undo_of[OF assms(1)] in \<open>auto simp: idx_shrinks_def jobs_def\<close>)
qed

lemma unlink_all_true: "pf_unlink f = [] \<Longrightarrow> fst (unlink_all f hs s)"
  by (induction hs arbitrary: s) (auto simp: unlinkChunk_def split: option.splits prod.splits)

lemma PutChunkRef_fail: "pf_unlink f = [] \<Longrightarrow> PutChunkRef f p i ref s = (False, s') \<Longrightarrow> s' = s"
  using unlink_all_true[of f] by (auto simp: PutChunkRef_def Let_def split: if_splits option.splits) (metis fst_conv)+

lemma work_ref_ok:
  assumes "machine_ok m" and "\<And>d. length (hash d) = 16" and "mc_now m < 2 ^ 64"
    and "mc_worker m = WWrote j" and "pf_unlink f = []" and "persist_ref hash f j (mc_data m) = (ok, st)"
  shows "machine_ok (tick (m\<lparr>mc_data := st, mc_worker := (if ok then WPut j else WIdle),
      mc_tag := (if ok then (mc_tag m)((jb_path j, jb_idx j) := jb_sampled j) else mc_tag m)\<rparr>))" (is "machine_ok ?m")
proof -
  let ?s = "dd_disk (mc_data m)" and ?x = "(jb_path j, jb_idx j)"
  obtain d where d: "PutChunkRef f (jb_path j) (jb_idx j) (chunk_ref hash (jb_data j)) ?s = (ok, d)" "st = (mc_data m)\<lparr>dd_disk := d\<rparr>"
    using assms(6) by (auto simp: persist_ref_def split: prod.splits)
  have j: "job_ok m j" using job_of[OF assms(1), of j] assms(4) by (simp add: jobs_def worker_job_def)
  have len: "length (ps_idx ?s) + 1 < 2 ^ 64" using len_of[OF assms(1)] assms(3) by linarith
  have "length (rf_Hash (chunk_ref hash (jb_data j))) = 16" using assms(2) by (simp add: chunk_ref_def)
  note sp = PutChunkRef_spec[OF p_inv_of[OF assms(1)] len this d(1)]
  have e: "entry_ok ?m (p, i)" if p: "path_ok p" and k: "gm_get (ps_idx d) (dataIdxKey p i) \<noteq> None" for p i
  proof (cases "ok \<and> (p, i) = ?x")
    case True
    then show ?thesis using j d(2) unfolding entry_ok_def undo_due_def sample_ok_def by auto
  next
    case False
    have "dataIdxKey p i \<noteq> dataIdxKey (jb_path j) (jb_idx j)" if "ok"
      using False that dataIdxKey_inj[OF p, of "jb_path j" i "jb_idx j"] j by (auto simp: sample_ok_def)
    moreover have "d = ?s" if "\<not> ok" using PutChunkRef_fail[OF assms(5), of "jb_path j" "jb_idx j" "chunk_ref hash (jb_data j)" ?s d] d(1) that by simp
    ultimately have "gm_get (ps_idx ?s) (dataIdxKey p i) \<noteq> None" using sp k by (cases ok) auto
    then have "mc_inv m (p, i) < mc_tag m (p, i) \<or> (\<exists>c \<in> set (mc_cleaning m). cleans c (p, i))"
      using no_undo_entry[OF entry_of[OF assms(1) p]] assms(4) by auto
    then show ?thesis using False unfolding entry_ok_def by auto
  qed
  show ?thesis by (rule machine_okI[OF assms(1)])
    (use sp e d(2) gens_of[OF assms(1)] len_of[OF assms(1)] assms(4) in \<open>auto simp: jobs_def worker_job_def split: if_splits\<close>)
qed

lemma mstep_ok:
  assumes "mstep hash m m'" and "machine_ok m" and "\<And>d. length (hash d) = 16" and "mc_now m < 2 ^ 64"
  shows "machine_ok m'"
  using assms(1)
proof cases
  case (read_begin p g st)
  note c = curGen_spec[OF read_begin(3)]
  have s: "sample_ok m' p g (mc_now m)" using read_begin c assms(2) by (auto simp: sample_ok_def machine_ok_def)
  show ?thesis by (rule quiet_step[OF assms(2)]) (use read_begin c s gens_of[OF assms(2)] idx_shrinks_refl[OF assms(2)] in \<open>auto simp: jobs_def\<close>)
next
  case (read_end p g t i d)
  let ?j = "\<lparr>jb_path = p, jb_idx = i, jb_data = d, jb_gen = g, jb_sampled = t\<rparr>"
  have e: "dd_gens (enqueue ?j (mc_data m)) = dd_gens (mc_data m)" "dd_global (enqueue ?j (mc_data m)) = dd_global (mc_data m)"
    "dd_disk (enqueue ?j (mc_data m)) = dd_disk (mc_data m)" "set (dd_queue (enqueue ?j (mc_data m))) \<subseteq> insert ?j (set (dd_queue (mc_data m)))"
    by (auto simp: enqueue_def)
  have "sample_ok m p g t" using read_of[OF assms(2) read_end(2)] .
  then have s: "sample_ok m' p g t" by (rule sample_mono) (use read_end(1) e gen_of_cong[OF e(1,2)] in simp_all)
  show ?thesis by (rule quiet_step[OF assms(2)])
    (use read_end(1) e s gen_of_cong[OF e(1,2)] gens_of[OF assms(2)] idx_shrinks_refl[OF assms(2)] in \<open>auto simp: jobs_def gens_ok_def\<close>)
next
  case (inval_end c)
  note o = clean_outcome_spec[OF gens_of[OF assms(2)], of "snd c = None" "fst c"]
  show ?thesis by (rule quiet_step[OF assms(2)]) (use inval_end(1) o idx_shrinks_refl[OF assms(2)] in \<open>auto simp: jobs_def\<close>)
next
  case (maintain x khs a f now ok d)
  have "p_shrinks (dd_disk (mc_data m)) d"
    using maintain(2,3) ghost_apply_shrinks evict_apply_shrinks enforceDiskBudget_shrinks orphan_walk_shrinks p_inv_of[OF assms(2)]
    by (auto simp: runOrphanSweep_def)
  then have d: "idx_shrinks (dd_disk (mc_data m)) d" by (rule idx_shrinksI[OF p_inv_of[OF assms(2)]])
  show ?thesis by (rule quiet_step[OF assms(2)]) (use maintain(1) d gens_of[OF assms(2)] in \<open>auto simp: jobs_def\<close>)
next
  case (work_take j js moved st)
  note g = gen_moved_spec[OF work_take(4)]
  have e: "gen_of ((mc_data m)\<lparr>dd_queue := js\<rparr>) = gen_of (mc_data m)" by (rule gen_of_cong) simp_all
  show ?thesis by (rule worker_step[OF assms(2)])
    (use work_take g e gens_of[OF assms(2)] idx_shrinks_refl[OF assms(2)] in \<open>auto simp: jobs_def gens_ok_def undo_due_def worker_job_def\<close>)
next
  case (work_check j moved st)
  note g = gen_moved_spec[OF work_check(3)]
  have j: "jb_gen j \<le> gen_of (mc_data m) (jb_path j)" using job_of[OF assms(2), of j] work_check(2) by (auto simp: jobs_def worker_job_def sample_ok_def)
  show ?thesis by (rule worker_step[OF assms(2)])
    (use work_check g j gens_of[OF assms(2)] idx_shrinks_refl[OF assms(2)] in \<open>auto simp: jobs_def gens_ok_def undo_due_def worker_job_def\<close>)
next
  case (work_write j f now ok st)
  then obtain r d where w: "WriteChunk hash f now (jb_data j) (dd_disk (mc_data m)) = (r, d)" "st = (mc_data m)\<lparr>dd_disk := d\<rparr>"
    by (auto simp: persist_write_def split: prod.splits)
  have d: "idx_shrinks (dd_disk (mc_data m)) d" by (rule WriteChunk_idx[OF p_inv_of[OF assms(2)] w(1)])
  show ?thesis by (rule worker_step[OF assms(2)])
    (use work_write w(2) d gens_of[OF assms(2)] in \<open>auto simp: jobs_def undo_due_def worker_job_def split: if_splits\<close>)
next
  case (work_undo j f st)
  note c = clean_disk_spec[OF p_inv_of[OF assms(2)], of f "(jb_path j, Some (jb_idx j, jb_idx j))" True st]
  have j: "path_ok (jb_path j)" using job_of[OF assms(2), of j] work_undo(2) by (auto simp: jobs_def worker_job_def sample_ok_def)
  have d: "st = (mc_data m)\<lparr>dd_disk := dd_disk st\<rparr>" "idx_shrinks (dd_disk (mc_data m)) (dd_disk st)"
    "gm_get (ps_idx (dd_disk st)) (dataIdxKey (jb_path j) (jb_idx j)) = None"
    using c[of "jb_path j" "jb_idx j"] j work_undo(3) idx_shrinksI[OF p_inv_of[OF assms(2)]] by auto
  have g: "gen_of st = gen_of (mc_data m)" "gens_ok st" "dd_queue st = dd_queue (mc_data m)" by (subst d(1), use gens_of[OF assms(2)] in simp)+
  show ?thesis by (rule worker_step[OF assms(2)]) (use work_undo(1,2) d(2,3) g in \<open>auto simp: jobs_def undo_due_def worker_job_def\<close>)
next
  case (work_ref j f ok st)
  then show ?thesis using work_ref_ok[OF assms(2,3,4)] by simp
next
  case (inval_begin c)
  then show ?thesis using inval_begin_ok[OF assms(2)] by simp
next
  case (inval_clean c f st)
  then show ?thesis using inval_clean_ok[OF assms(2)] by simp
qed

lemma new_machine_ok: "machine_ok (new_machine budget)"
  by (simp add: machine_ok_def new_machine_def new_persist_def p_inv_def refs_exact_def named_by_def gens_ok_def jobs_def worker_job_def)

lemma mstep_now: "mstep hash m m' \<Longrightarrow> mc_now m' = mc_now m + 1"
  by (induction rule: mstep.induct) simp_all

lemma reach_ok:
  assumes "(mstep hash)\<^sup>*\<^sup>* (new_machine budget) m" and "\<And>d. length (hash d) = 16" and "mc_now m \<le> 2 ^ 64"
  shows "machine_ok m"
  using assms(1,3)
proof (induction rule: rtranclp_induct)
  case base
  then show ?case by (simp add: new_machine_ok)
next
  case (step m m')
  then show ?case using mstep_ok[OF step(2) _ assms(2)] mstep_now[OF step(2)] by simp
qed


subsection \<open>A run, and two ways to serve stale bytes\<close>

definition ex_disk1 :: Persist where
  "ex_disk1 = (new_persist 0)\<lparr>ps_files := [(Chunk (ex_hash [7]), [7], 0)], ps_used := 1\<rparr>"

lemma ex_persisted:
  "WriteChunk ex_hash no_faults 0 [7] (new_persist 0) = ((ex_hash [7], False, True), ex_disk1)"
  "PutChunkRef no_faults ''b'' 0 (chunk_ref ex_hash [7]) ex_disk1 = (True, ex_disk)"
  by (simp_all add: WriteChunk_def enforceDiskBudget_def disk_over_def no_faults_def new_persist_def ex_disk1_def ex_disk_def ex_ref_def
    PutChunkRef_def tx_begin_def tx_commit_def incRefTx_def ref_count_def chunk_ref_def Let_def)

definition ex_job :: persistJob where
  "ex_job = \<lparr>jb_path = ''b'', jb_idx = 0, jb_data = [7], jb_gen = 0, jb_sampled = 1\<rparr>"

definition ex_data :: "(path, nat) gomap \<Rightarrow> nat \<Rightarrow> path list \<Rightarrow> Persist \<Rightarrow> persistJob list \<Rightarrow> data_disk" where
  "ex_data gens glob poisoned d q = \<lparr>dd_gens = gens, dd_global = glob, dd_poisoned = poisoned, dd_disk = d, dd_queue = q\<rparr>"

definition ex_machine :: "nat \<Rightarrow> Persist \<Rightarrow> persistJob list \<Rightarrow> wstate \<Rightarrow> nat \<Rightarrow> machine" where
  "ex_machine now d q w tag = \<lparr>mc_data = ex_data [(''b'', 0)] 0 [] d q, mc_now = now, mc_reads = [(''b'', 0, 1)], mc_worker = w,
     mc_cleaning = [], mc_cleaned = [], mc_inv = (\<lambda>_. 0), mc_tag = (\<lambda>_. 0)((''b'', 0) := tag)\<rparr>"

lemma ex_reach: "(mstep ex_hash)\<^sup>*\<^sup>* (new_machine 0) (ex_machine 7 ex_disk [] WIdle 1)"
proof -
  have "mstep ex_hash (new_machine 0) (ex_machine 2 (new_persist 0) [] WIdle 0)"
    using read_begin[of "''b''" "new_machine 0" 0 "ex_data [(''b'', 0)] 0 [] (new_persist 0) []" ex_hash]
    by (simp add: new_machine_def ex_machine_def ex_data_def curGen_def gen_publish_def path_ok_def tick_def fun_upd_def numeral_2_eq_2)
  moreover have "mstep ex_hash (ex_machine 2 (new_persist 0) [] WIdle 0) (ex_machine 3 (new_persist 0) [ex_job] WIdle 0)"
    using read_end[of "''b''" 0 1 "ex_machine 2 (new_persist 0) [] WIdle 0" ex_hash 0 "[7]"]
    by (simp add: ex_machine_def ex_data_def enqueue_def dataPersistQueueDepth_def ex_job_def tick_def)
  moreover have "mstep ex_hash (ex_machine 3 (new_persist 0) [ex_job] WIdle 0) (ex_machine 4 (new_persist 0) [] (WChecked ex_job) 0)"
    using work_take[of "ex_machine 3 (new_persist 0) [ex_job] WIdle 0" ex_job "[]" False "ex_data [(''b'', 0)] 0 [] (new_persist 0) []" ex_hash]
    by (simp add: ex_machine_def ex_data_def gen_moved_def curGen_def gen_publish_def ex_job_def tick_def)
  moreover have "mstep ex_hash (ex_machine 4 (new_persist 0) [] (WChecked ex_job) 0) (ex_machine 5 ex_disk1 [] (WWrote ex_job) 0)"
    using work_write[of "ex_machine 4 (new_persist 0) [] (WChecked ex_job) 0" ex_job ex_hash no_faults 0 True "ex_data [(''b'', 0)] 0 [] ex_disk1 []"]
    by (simp add: ex_machine_def ex_data_def persist_write_def ex_job_def ex_persisted tick_def)
  moreover have "mstep ex_hash (ex_machine 5 ex_disk1 [] (WWrote ex_job) 0) (ex_machine 6 ex_disk [] (WPut ex_job) 1)"
    using work_ref[of "ex_machine 5 ex_disk1 [] (WWrote ex_job) 0" ex_job no_faults ex_hash True "ex_data [(''b'', 0)] 0 [] ex_disk []"]
    by (simp add: ex_machine_def ex_data_def persist_ref_def ex_job_def ex_persisted tick_def) (simp add: no_faults_def)
  moreover have "mstep ex_hash (ex_machine 6 ex_disk [] (WPut ex_job) 1) (ex_machine 7 ex_disk [] WIdle 1)"
    using work_check[of "ex_machine 6 ex_disk [] (WPut ex_job) 1" ex_job False "ex_data [(''b'', 0)] 0 [] ex_disk []" ex_hash]
    by (simp add: ex_machine_def ex_data_def gen_moved_def curGen_def gen_publish_def ex_job_def tick_def)
  ultimately show ?thesis by (meson converse_rtranclp_into_rtranclp rtranclp.rtrancl_refl)
qed

lemma ex_hash_len: "length (ex_hash d) = 16"
  by (simp add: ex_hash_def)

lemma ex_loader: "disk_loader no_faults (chunkKey ''b'' 0) (ex_data g n ps ex_disk q) = (if ''b'' \<in> set ps then None else Some [7])"
  by (simp add: disk_loader_def parse_chunkKey path_ok_def ex_data_def ex_disk_load)


text \<open>The counter of a path is not created atomically, and that can resurrect a stale chunk.  A reader finds no counter and reads the
  global generation; another reader reads a chunk and queues it with that generation; the file is invalidated
  and its counter pruned; then the first reader publishes its outdated seed.  The worker finds the generation of
  the queued chunk current and writes it: the old bytes are served from disk after the invalidation.  Had the first reader
  created its counter at once, the chunk would have been dropped.
\<close>

theorem outdated_seed_resurrects_chunk:
  "let st0 = ex_data [] 0 [] (new_persist 0) []; seed = dd_global st0;
       (g, st1) = curGen ''b'' st0; j = ex_job\<lparr>jb_gen := g\<rparr>;
       st2 = persistCleaner no_faults ''b'' st1
   in disk_loader no_faults (chunkKey ''b'' 0) (onPersist ex_hash no_faults 0 j (snd (gen_publish ''b'' seed st2))) = Some [7] \<and>
      disk_loader no_faults (chunkKey ''b'' 0) (onPersist ex_hash no_faults 0 j (snd (curGen ''b'' st2))) = None"
proof -
  have i: "InvalidatePathChunks no_faults ''b'' (new_persist 0) = (True, new_persist 0)"
    by (simp add: InvalidatePathChunks_def path_keys_def new_persist_def no_faults_def)
  have l: "disk_load no_faults ''b'' 0 (new_persist 0) = None" by (simp add: disk_load_def GetChunkRef_def new_persist_def no_faults_def)
  have st2: "persistCleaner no_faults ''b'' (ex_data [(''b'', 0)] 0 [] (new_persist 0) []) = ex_data [] 1 [] (new_persist 0) []"
    by (simp add: persistCleaner_def clean_path_disk_def clean_outcome_def bumpGen_def curGen_def gen_publish_def ex_data_def i)
  have "onPersist ex_hash no_faults 0 (ex_job\<lparr>jb_gen := 0\<rparr>) (ex_data [(''b'', 0)] 1 [] (new_persist 0) []) = ex_data [(''b'', 0)] 1 [] ex_disk []"
    by (simp add: onPersist_def gen_moved_def curGen_def gen_publish_def persist_write_def persist_ref_def ex_job_def ex_data_def ex_persisted)
  moreover have "onPersist ex_hash no_faults 0 (ex_job\<lparr>jb_gen := 0\<rparr>) (ex_data [(''b'', 1)] 1 [] (new_persist 0) []) = ex_data [(''b'', 1)] 1 [] (new_persist 0) []"
    by (simp add: onPersist_def gen_moved_def curGen_def gen_publish_def ex_job_def ex_data_def)
  moreover have "disk_loader no_faults (chunkKey ''b'' 0) (ex_data [(''b'', 1)] 1 [] (new_persist 0) []) = None"
    by (simp add: disk_loader_def parse_chunkKey path_ok_def ex_data_def l)
  ultimately show ?thesis using st2 ex_loader[of "[(''b'', 0)]" 1 "[]" "[]"]
    by (simp add: curGen_def gen_publish_def Let_def ex_data_def)
qed

text \<open>A poisoned file is served again too early: the invalidation of a whole file fails, so that the file is poisoned and its
  chunks are not served; the successful invalidation of one other chunk of the file then clears the
  poison, and the stale chunk is served from disk.
\<close>

theorem range_invalidation_clears_poison:
  "let st0 = ex_data [] 0 [] ex_disk []; st1 = persistCleaner (no_faults\<lparr>pf_update := True\<rparr>) ''b'' st0; st2 = persistRangeCleaner no_faults ''b'' 5 5 st1
   in disk_loader no_faults (chunkKey ''b'' 0) st0 = Some [7] \<and> disk_loader no_faults (chunkKey ''b'' 0) st1 = None \<and>
      disk_loader no_faults (chunkKey ''b'' 0) st2 = Some [7]"
proof -
  have b: "path_ok ''b''" by (simp add: path_ok_def)
  have k: "dataIdxKey ''b'' 0 \<noteq> dataIdxKey ''b'' 5" using dataIdxKey_inj[OF b b] by simp
  have "path_keys ''b'' ex_disk = [(dataIdxKey ''b'' 0, ex_ref)]" using prefix_of_key[OF b b] by (simp add: path_keys_def ex_disk_def)
  then have i: "InvalidatePathChunks (no_faults\<lparr>pf_update := True\<rparr>) ''b'' ex_disk = (False, ex_disk)" by (simp add: InvalidatePathChunks_def no_faults_def)
  have r: "InvalidateChunkRange no_faults ''b'' 5 5 ex_disk = (True, ex_disk)" using k by (simp add: InvalidateChunkRange_def no_faults_def ex_disk_def)
  have st1: "persistCleaner (no_faults\<lparr>pf_update := True\<rparr>) ''b'' (ex_data [] 0 [] ex_disk []) = ex_data [(''b'', 1)] 1 [''b''] ex_disk []"
    by (simp add: persistCleaner_def clean_path_disk_def clean_outcome_def bumpGen_def curGen_def gen_publish_def ex_data_def i)
  have st2: "persistRangeCleaner no_faults ''b'' 5 5 (ex_data [(''b'', 1)] 1 [''b''] ex_disk []) = ex_data [(''b'', 2)] 2 [] ex_disk []"
    by (simp add: persistRangeCleaner_def clean_range_disk_def clean_outcome_def bumpGen_def curGen_def gen_publish_def ex_data_def r)
  show ?thesis unfolding Let_def st1 st2 by (simp add: ex_loader)
qed

end
