(* ===== verification/Cache_Backend.thy ===== *)
theory Cache_Backend
  imports Cache_Data Wal_Layer
begin

text \<open>
  The caching layer of the client's backend stack (\<^verbatim>\<open>pkg/client/backend/cache\<close>: \<^verbatim>\<open>backend.go\<close>, \<^verbatim>\<open>attr.go\<close>, \<^verbatim>\<open>dir.go\<close>, \<^verbatim>\<open>xattr.go\<close>,
  \<^verbatim>\<open>getxattr.go\<close>, \<^verbatim>\<open>access.go\<close>, \<^verbatim>\<open>statfs.go\<close>, \<^verbatim>\<open>validity.go\<close>, \<^verbatim>\<open>prefix_invalidate.go\<close>, \<^verbatim>\<open>handle.go\<close>, \<^verbatim>\<open>subscriber.go\<close>).  Reads are answered
  from the caches and fill them, mutations are forwarded and invalidate them.

  The attribute, listing, chunk and attribute-name caches share the memory tier; the first two write
  through to a disk tier when there is one, the chunks through the write-back queue.  The clock is a field of the
  state, read by every operation; the delegation oracle is an argument; the inner backend is a record of
  operations.  The calls of one operation run without interference here; the races with the write-back worker
  are the matter of the theory of the data cache.
\<close>

section \<open>State\<close>

(* src/pkg/client/backend/cache/config.go:11-26 Config *)
record Config =
  cf_SubscribeEnabled :: bool
  cf_MemoryMaxBytes :: int
  cf_ChunkSizeBytes :: nat
  cf_AttrTTL :: int
  cf_DirTTL :: int
  cf_NegativeTTL :: int
  cf_XAttrTTL :: int
  cf_StatFsTTL :: int

(* src/pkg/client/backend/backend.go:88-92 DirEntry *)
record DirEntry =
  de_Ino :: u64
  de_Mode :: u32
  de_Name :: string

text \<open>The values of the stores; a negative attribute entry holds no attributes.\<close>

(* src/pkg/client/backend/cache/attr.go:16-20 attrEntry *)
datatype cvalue =
    AttrE "Attr option" int
  | DirE "DirEntry list" int
  | DataE bytes
  | XAttrE "string list" int

(* src/pkg/client/backend/cache/validity.go:31-35 validityTracker *)
record validityTracker =
  va_verified :: bool
  va_epoch :: nat
  va_paths :: "(path, nat) gomap"

(* src/pkg/client/backend/cache/backend.go:44-71 cachedBackend *)
record 'i Cache =
  cb_cfg :: Config
  cb_now :: int
  cb_tier :: "cvalue tier"
  cb_disk :: "cvalue disk"
  cb_data :: data_disk
  cb_faults :: faults
  cb_getxattr :: "(path, (string, (bytes \<times> FsError) \<times> int) gomap) gomap"
  cb_statfs :: "(path, StatFs \<times> int) gomap"
  cb_access :: "(path, (u32, FsError \<times> int) gomap) gomap"
  cb_validity :: validityTracker
  cb_handles :: "(nat, int \<times> int) gomap"
  cb_inner :: 'i

abbreviation cb_persistent :: "'i Cache \<Rightarrow> bool" where
  "cb_persistent c \<equiv> dk_on (cb_disk c)"

text \<open>A handle of the cache wraps one of the inner backend; its sequence counters are in the state, under its number.\<close>

(* src/pkg/client/backend/cache/handle.go:17-37 cachedHandle *)
datatype 'h cacheHandle = CachedHandle nat path "'h FileHandle" | PlainHandle "'h FileHandle"

(* src/pkg/client/backend/cache/backend.go:944-949 unwrapHandle *)
fun unwrapHandle :: "'h cacheHandle \<Rightarrow> 'h FileHandle" where
  "unwrapHandle (CachedHandle n p h) = h"
| "unwrapHandle (PlainHandle h) = h"

definition inner_call :: "('i \<Rightarrow> 'r \<times> 'i) \<Rightarrow> 'i Cache \<Rightarrow> 'r \<times> 'i Cache" where
  "inner_call f c = (case f (cb_inner c) of (r, i) \<Rightarrow> (r, c\<lparr>cb_inner := i\<rparr>))"

section \<open>Paths and sizes\<close>

(* src/pkg/client/backend/cache/backend.go:967-976 pathParent *)
definition pathParent :: "path \<Rightarrow> path" where
  "pathParent p =
    (if p = '''' \<or> p = ''/'' then ''''
     else if CHR ''/'' \<notin> set p then ''''
     else rev (tl (dropWhile (\<lambda>x. x \<noteq> CHR ''/'') (rev p))))"

(* src/pkg/client/backend/cache/prefix_invalidate.go:9-14 subtreePred *)
definition subtreePred :: "path \<Rightarrow> string \<Rightarrow> bool" where
  "subtreePred p k \<longleftrightarrow> k = p \<or> prefix (p @ ''/'') k"

(* src/pkg/client/backend/cache/attr.go:184-186 attrEntrySize *)
definition attrEntrySize :: "path \<Rightarrow> nat" where
  "attrEntrySize p = 2 * length p + 300"

(* src/pkg/client/backend/cache/dir.go:81-87 dirEntrySize *)
definition dirEntrySize :: "path \<Rightarrow> DirEntry list \<Rightarrow> nat" where
  "dirEntrySize p es = 2 * length p + 64 + (\<Sum>e \<leftarrow> es. length (de_Name e) + 64)"

(* src/pkg/client/backend/cache/xattr.go:64-70 xattrEntrySize *)
definition xattrEntrySize :: "path \<Rightarrow> string list \<Rightarrow> nat" where
  "xattrEntrySize p names = 2 * length p + 64 + (\<Sum>n \<leftarrow> names. length n + 16)"

fun entry_size :: "ckey \<Rightarrow> cvalue \<Rightarrow> nat" where
  "entry_size k (AttrE a t) = attrEntrySize (snd k)"
| "entry_size k (DirE es t) = dirEntrySize (snd k) es"
| "entry_size k (DataE d) = length d"
| "entry_size k (XAttrE ns t) = xattrEntrySize (snd k) ns"

text \<open>The operations of the stores on the tiers of the cache; the stores of chunks and of attribute names have no plain disk tier.\<close>

definition has_disk :: "ckey \<Rightarrow> bool" where
  "has_disk k \<longleftrightarrow> fst k = ''attr'' \<or> fst k = ''dir''"

definition st_get :: "ckey \<Rightarrow> 'i Cache \<Rightarrow> cvalue option \<times> 'i Cache" where
  "st_get k c =
    (if has_disk k
     then (case store_get (\<lambda>k v. int (entry_size k v)) k (cb_tier c, cb_disk c) of (v, t, d) \<Rightarrow> (v, c\<lparr>cb_tier := t, cb_disk := d\<rparr>))
     else (case mem_get k (cb_tier c) of (v, t) \<Rightarrow> (v, c\<lparr>cb_tier := t\<rparr>)))"

definition st_put :: "ckey \<Rightarrow> cvalue \<Rightarrow> 'i Cache \<Rightarrow> 'i Cache" where
  "st_put k v c =
    (if has_disk k
     then (case store_put k v (int (entry_size k v)) (cb_tier c, cb_disk c) of (t, d) \<Rightarrow> c\<lparr>cb_tier := t, cb_disk := d\<rparr>)
     else c\<lparr>cb_tier := insertMem k v (int (entry_size k v)) (cb_tier c)\<rparr>)"

definition st_remove :: "ckey \<Rightarrow> 'i Cache \<Rightarrow> 'i Cache" where
  "st_remove k c =
    (if has_disk k
     then (case store_remove k (cb_tier c, cb_disk c) of (t, d) \<Rightarrow> c\<lparr>cb_tier := t, cb_disk := d\<rparr>)
     else c\<lparr>cb_tier := mem_remove k (cb_tier c)\<rparr>)"

text \<open>Removing the memory entries of a store that satisfy a predicate.\<close>

definition st_removeMatching :: "string \<Rightarrow> (string \<Rightarrow> bool) \<Rightarrow> 'i Cache \<Rightarrow> 'i Cache" where
  "st_removeMatching sid P c =
    fold st_remove (filter (\<lambda>(s, k). s = sid \<and> P k) (map fst (tr_entries (cb_tier c)))) c"

section \<open>Attributes\<close>

text \<open>\<open>None\<close> is a miss, \<open>Some None\<close> a negative hit.\<close>

(* src/pkg/client/backend/cache/attr.go:60-81 get *)
definition attr_get :: "path \<Rightarrow> 'i Cache \<Rightarrow> Attr option option \<times> 'i Cache" where
  "attr_get p c =
    (case st_get (''attr'', p) c of
       (Some (AttrE a exp), c1) \<Rightarrow>
         (let ttl = (if a = None then cf_NegativeTTL (cb_cfg c) else cf_AttrTTL (cb_cfg c))
          in if ttl > 0 \<and> cb_now c > exp then (None, st_remove (''attr'', p) c1) else (Some a, c1))
     | (_, c1) \<Rightarrow> (None, c1))"

(* src/pkg/client/backend/cache/attr.go:84-90 putPositive *)
definition attr_putPositive :: "path \<Rightarrow> Attr \<Rightarrow> 'i Cache \<Rightarrow> 'i Cache" where
  "attr_putPositive p a c = st_put (''attr'', p) (AttrE (Some a) (cb_now c + cf_AttrTTL (cb_cfg c))) c"

(* src/pkg/client/backend/cache/attr.go:93-96 putNegative *)
definition attr_putNegative :: "path \<Rightarrow> 'i Cache \<Rightarrow> 'i Cache" where
  "attr_putNegative p c = st_put (''attr'', p) (AttrE None (cb_now c + cf_NegativeTTL (cb_cfg c))) c"

(* src/pkg/client/backend/cache/attr.go:99-101 invalidate *)
definition attr_invalidate :: "path \<Rightarrow> 'i Cache \<Rightarrow> 'i Cache" where
  "attr_invalidate p = st_remove (''attr'', p)"

text \<open>The disk half of a subtree invalidation of the attribute and listing stores.\<close>

definition disk_removePrefix :: "string \<Rightarrow> path \<Rightarrow> 'i Cache \<Rightarrow> 'i Cache" where
  "disk_removePrefix sid p c =
    (if cb_persistent c
     then c\<lparr>cb_disk := (cb_disk c)\<lparr>dk_data := filter (\<lambda>((s, k), _). \<not> (s = sid \<and> subtreePred p k)) (dk_data (cb_disk c))\<rparr>\<rparr>
     else c)"

(* src/pkg/client/backend/cache/attr.go:108-113 invalidatePrefix *)
definition attr_invalidatePrefix :: "path \<Rightarrow> 'i Cache \<Rightarrow> 'i Cache" where
  "attr_invalidatePrefix p c = disk_removePrefix ''attr'' p (st_removeMatching ''attr'' (subtreePred p) c)"

definition unix_now :: "'i Cache \<Rightarrow> u64 \<times> u32" where
  "unix_now c = (of_int (cb_now c div 1000000000), of_int (cb_now c mod 1000000000))"

text \<open>An update of a cached positive entry, whose deadline starts anew; the expiry of the old one is not looked at.\<close>

definition attr_update :: "(Attr \<Rightarrow> Attr) \<Rightarrow> path \<Rightarrow> 'i Cache \<Rightarrow> bool \<times> 'i Cache" where
  "attr_update f p c =
    (case st_get (''attr'', p) c of
       (Some (AttrE (Some a) exp), c1) \<Rightarrow> (True, st_put (''attr'', p) (AttrE (Some (f a)) (cb_now c1 + cf_AttrTTL (cb_cfg c1))) c1)
     | (_, c1) \<Rightarrow> (False, c1))"

(* src/pkg/client/backend/cache/attr.go:124-141 bumpParentEntryAdded *)
definition bumpParentEntryAdded :: "path \<Rightarrow> 'i Cache \<Rightarrow> 'i Cache" where
  "bumpParentEntryAdded p c =
    (case unix_now c of (s, ns) \<Rightarrow>
      snd (attr_update (\<lambda>a. a\<lparr>at_Mtime := s, at_Mtimensec := ns, at_Ctime := s, at_Ctimensec := ns\<rparr>) p c))"

(* src/pkg/client/backend/cache/attr.go:152-171 bumpSize *)
definition bumpSize :: "path \<Rightarrow> nat \<Rightarrow> 'i Cache \<Rightarrow> bool \<times> 'i Cache" where
  "bumpSize p writtenEnd c =
    (case unix_now c of (s, ns) \<Rightarrow>
      attr_update (\<lambda>a. (if of_nat writtenEnd > at_Size a then a\<lparr>at_Size := of_nat writtenEnd\<rparr> else a)\<lparr>at_Mtime := s, at_Mtimensec := ns\<rparr>) p c)"

section \<open>Listings and attribute names\<close>

(* src/pkg/client/backend/cache/dir.go:37-52 get *)
definition dir_get :: "path \<Rightarrow> 'i Cache \<Rightarrow> DirEntry list option \<times> 'i Cache" where
  "dir_get p c =
    (case st_get (''dir'', p) c of
       (Some (DirE es exp), c1) \<Rightarrow>
         if cf_DirTTL (cb_cfg c) > 0 \<and> cb_now c > exp then (None, st_remove (''dir'', p) c1) else (Some es, c1)
     | (_, c1) \<Rightarrow> (None, c1))"

(* src/pkg/client/backend/cache/dir.go:54-59 put *)
definition dir_put :: "path \<Rightarrow> DirEntry list \<Rightarrow> 'i Cache \<Rightarrow> 'i Cache" where
  "dir_put p es c = st_put (''dir'', p) (DirE es (cb_now c + cf_DirTTL (cb_cfg c))) c"

(* src/pkg/client/backend/cache/dir.go:61-61 invalidate *)
definition dir_invalidate :: "path \<Rightarrow> 'i Cache \<Rightarrow> 'i Cache" where
  "dir_invalidate p = st_remove (''dir'', p)"

(* src/pkg/client/backend/cache/dir.go:66-71 invalidatePrefix *)
definition dir_invalidatePrefix :: "path \<Rightarrow> 'i Cache \<Rightarrow> 'i Cache" where
  "dir_invalidatePrefix p c = disk_removePrefix ''dir'' p (st_removeMatching ''dir'' (subtreePred p) c)"

(* src/pkg/client/backend/cache/xattr.go:35-49 get *)
definition xattr_get :: "path \<Rightarrow> 'i Cache \<Rightarrow> string list option \<times> 'i Cache" where
  "xattr_get p c =
    (case st_get (''xattr'', p) c of
       (Some (XAttrE ns exp), c1) \<Rightarrow>
         if cf_XAttrTTL (cb_cfg c) > 0 \<and> cb_now c > exp then (None, st_remove (''xattr'', p) c1) else (Some ns, c1)
     | (_, c1) \<Rightarrow> (None, c1))"

(* src/pkg/client/backend/cache/xattr.go:53-58 put *)
definition xattr_put :: "path \<Rightarrow> string list \<Rightarrow> 'i Cache \<Rightarrow> 'i Cache" where
  "xattr_put p ns c = st_put (''xattr'', p) (XAttrE ns (cb_now c + cf_XAttrTTL (cb_cfg c))) c"

(* src/pkg/client/backend/cache/xattr.go:60-60 invalidate *)
definition xattr_invalidate :: "path \<Rightarrow> 'i Cache \<Rightarrow> 'i Cache" where
  "xattr_invalidate p = st_remove (''xattr'', p)"

(* src/pkg/client/backend/cache/prefix_invalidate.go:33-35 xattrCache.invalidatePrefix *)
definition xattr_invalidatePrefix :: "path \<Rightarrow> 'i Cache \<Rightarrow> 'i Cache" where
  "xattr_invalidatePrefix p = st_removeMatching ''xattr'' (subtreePred p)"

section \<open>Chunks\<close>

text \<open>
  A memory miss asks the disk tier, and a hit there is promoted into memory.  The generation is read before and
  after the load; nothing moves it in between here, but the first read creates a counter.
\<close>

(* src/pkg/client/backend/cache/data.go:77-84 get *)
definition data_get :: "path \<Rightarrow> nat \<Rightarrow> 'i Cache \<Rightarrow> bytes option \<times> 'i Cache" where
  "data_get p i c =
    (case st_get (''data'', chunkKey p i) c of
       (Some (DataE d), c1) \<Rightarrow> (Some d, c1)
     | (Some _, c1) \<Rightarrow> (None, c1)
     | (None, c1) \<Rightarrow>
         if \<not> cb_persistent c1 then (None, c1)
         else (let c2 = c1\<lparr>cb_data := snd (curGen p (cb_data c1))\<rparr>
               in case disk_loader (cb_faults c2) (chunkKey p i) (cb_data c2) of
                    None \<Rightarrow> (None, c2)
                  | Some d \<Rightarrow>
                      (let c3 = st_put (''data'', chunkKey p i) (DataE d) c2
                       in (case tier_view (cb_tier c3) (''data'', chunkKey p i) of Some (DataE d') \<Rightarrow> Some d' | _ \<Rightarrow> None, c3))))"

(* src/pkg/client/backend/cache/data.go:103-108 currentGen *)
definition data_currentGen :: "path \<Rightarrow> 'i Cache \<Rightarrow> nat \<times> 'i Cache" where
  "data_currentGen p c =
    (if cb_persistent c then (case curGen p (cb_data c) of (g, d) \<Rightarrow> (g, c\<lparr>cb_data := d\<rparr>)) else (0, c))"

(* src/pkg/client/backend/cache/data.go:97-99 putGen *)
definition data_putGen :: "path \<Rightarrow> nat \<Rightarrow> bytes \<Rightarrow> nat \<Rightarrow> 'i Cache \<Rightarrow> 'i Cache" where
  "data_putGen p i d gen c =
    (let c1 = st_put (''data'', chunkKey p i) (DataE d) c
     in if cb_persistent c1
        then c1\<lparr>cb_data := enqueue \<lparr>jb_path = p, jb_idx = i, jb_data = d, jb_gen = gen, jb_sampled = 0\<rparr> (cb_data c1)\<rparr>
        else c1)"

(* src/pkg/client/backend/cache/data.go:112-120 invalidatePath *)
definition data_invalidatePath :: "path \<Rightarrow> 'i Cache \<Rightarrow> 'i Cache" where
  "data_invalidatePath p c =
    (let c1 = st_removeMatching ''data'' (prefix (p @ [CHR 0x00])) c
     in if cb_persistent c1 then c1\<lparr>cb_data := persistCleaner (cb_faults c1) p (cb_data c1)\<rparr> else c1)"

(* src/pkg/client/backend/cache/data.go:125-137 invalidateRange *)
definition data_invalidateRange :: "path \<Rightarrow> nat \<Rightarrow> nat \<Rightarrow> 'i Cache \<Rightarrow> 'i Cache" where
  "data_invalidateRange p off sz c =
    (if sz = 0 then c
     else let cs = cf_ChunkSizeBytes (cb_cfg c); lo = off div cs; hi = (off + sz - 1) div cs;
              c1 = fold (\<lambda>i. st_remove (''data'', chunkKey p i)) [lo..<Suc hi] c
          in if cb_persistent c1 then c1\<lparr>cb_data := persistRangeCleaner (cb_faults c1) p lo hi (cb_data c1)\<rparr> else c1)"

text \<open>The subtree invalidation of the chunks reaches the memory tier only: the remover of the chunk store does nothing.\<close>

(* src/pkg/client/backend/cache/prefix_invalidate.go:23-29 dataCache.invalidatePrefix *)
definition data_invalidatePrefix :: "path \<Rightarrow> 'i Cache \<Rightarrow> 'i Cache" where
  "data_invalidatePrefix p = st_removeMatching ''data'' (\<lambda>k. prefix (p @ [CHR 0x00]) k \<or> prefix (p @ ''/'') k)"

section \<open>The small caches\<close>

(* src/pkg/client/backend/cache/getxattr.go:22-22 maxCachedXAttrValueBytes *)
definition maxCachedXAttrValueBytes :: nat where
  "maxCachedXAttrValueBytes = 4096"

text \<open>A two-level map with deadlines, the shape of the value and access caches.\<close>

definition sub_get :: "int \<Rightarrow> int \<Rightarrow> path \<Rightarrow> 'k \<Rightarrow> (path, ('k, 'v \<times> int) gomap) gomap \<Rightarrow> 'v option \<times> (path, ('k, 'v \<times> int) gomap) gomap" where
  "sub_get ttl now p k m =
    (if ttl \<le> 0 then (None, m)
     else (case gm_get m p of
             None \<Rightarrow> (None, m)
           | Some s \<Rightarrow>
               (case gm_get s k of
                  None \<Rightarrow> (None, m)
                | Some (v, exp) \<Rightarrow>
                    if now > exp then (None, let s' = gm_del k s in if s' = [] then gm_del p m else gm_put p s' m)
                    else (Some v, m))))"

definition sub_put :: "int \<Rightarrow> int \<Rightarrow> path \<Rightarrow> 'k \<Rightarrow> 'v \<Rightarrow> (path, ('k, 'v \<times> int) gomap) gomap \<Rightarrow> (path, ('k, 'v \<times> int) gomap) gomap" where
  "sub_put ttl now p k v m =
    (if ttl \<le> 0 then m else gm_put p (gm_put k (v, now + ttl) (case gm_get m p of None \<Rightarrow> [] | Some s \<Rightarrow> s)) m)"

(* src/pkg/client/backend/cache/getxattr.go:59-83 get *)
definition getxattr_get :: "path \<Rightarrow> string \<Rightarrow> 'i Cache \<Rightarrow> (bytes \<times> FsError) option \<times> 'i Cache" where
  "getxattr_get p a c = (case sub_get (cf_XAttrTTL (cb_cfg c)) (cb_now c) p a (cb_getxattr c) of (r, m) \<Rightarrow> (r, c\<lparr>cb_getxattr := m\<rparr>))"

(* src/pkg/client/backend/cache/getxattr.go:88-105 put *)
definition getxattr_put :: "path \<Rightarrow> string \<Rightarrow> bytes \<Rightarrow> FsError \<Rightarrow> 'i Cache \<Rightarrow> 'i Cache" where
  "getxattr_put p a d st c =
    (if st = FS_OK \<and> length d > maxCachedXAttrValueBytes then c
     else c\<lparr>cb_getxattr := sub_put (cf_XAttrTTL (cb_cfg c)) (cb_now c) p a (d, st) (cb_getxattr c)\<rparr>)"

(* src/pkg/client/backend/cache/getxattr.go:109-113 invalidate *)
definition getxattr_invalidate :: "path \<Rightarrow> 'i Cache \<Rightarrow> 'i Cache" where
  "getxattr_invalidate p c = c\<lparr>cb_getxattr := gm_del p (cb_getxattr c)\<rparr>"

(* src/pkg/client/backend/cache/prefix_invalidate.go:38-47 getXAttrCache.invalidatePrefix *)
definition getxattr_invalidatePrefix :: "path \<Rightarrow> 'i Cache \<Rightarrow> 'i Cache" where
  "getxattr_invalidatePrefix p c = c\<lparr>cb_getxattr := filter (\<lambda>(k, _). \<not> subtreePred p k) (cb_getxattr c)\<rparr>"

(* src/pkg/client/backend/cache/access.go:45-67 get *)
definition access_get :: "path \<Rightarrow> u32 \<Rightarrow> 'i Cache \<Rightarrow> FsError option \<times> 'i Cache" where
  "access_get p msk c = (case sub_get (cf_AttrTTL (cb_cfg c)) (cb_now c) p msk (cb_access c) of (r, m) \<Rightarrow> (r, c\<lparr>cb_access := m\<rparr>))"

(* src/pkg/client/backend/cache/access.go:71-83 put *)
definition access_put :: "path \<Rightarrow> u32 \<Rightarrow> FsError \<Rightarrow> 'i Cache \<Rightarrow> 'i Cache" where
  "access_put p msk r c = c\<lparr>cb_access := sub_put (cf_AttrTTL (cb_cfg c)) (cb_now c) p msk r (cb_access c)\<rparr>"

(* src/pkg/client/backend/cache/access.go:87-91 invalidate *)
definition access_invalidate :: "path \<Rightarrow> 'i Cache \<Rightarrow> 'i Cache" where
  "access_invalidate p c = c\<lparr>cb_access := gm_del p (cb_access c)\<rparr>"

(* src/pkg/client/backend/cache/prefix_invalidate.go:50-59 accessCache.invalidatePrefix *)
definition access_invalidatePrefix :: "path \<Rightarrow> 'i Cache \<Rightarrow> 'i Cache" where
  "access_invalidatePrefix p c = c\<lparr>cb_access := filter (\<lambda>(k, _). \<not> subtreePred p k) (cb_access c)\<rparr>"

text \<open>An expired entry is a miss and stays.\<close>

(* src/pkg/client/backend/cache/statfs.go:40-51 get *)
definition statfs_get :: "path \<Rightarrow> 'i Cache \<Rightarrow> StatFs option" where
  "statfs_get p c =
    (if cf_StatFsTTL (cb_cfg c) \<le> 0 then None
     else (case gm_get (cb_statfs c) p of None \<Rightarrow> None | Some (v, exp) \<Rightarrow> if cb_now c > exp then None else Some v))"

(* src/pkg/client/backend/cache/statfs.go:54-61 put *)
definition statfs_put :: "path \<Rightarrow> StatFs \<Rightarrow> 'i Cache \<Rightarrow> 'i Cache" where
  "statfs_put p v c =
    (if cf_StatFsTTL (cb_cfg c) \<le> 0 then c else c\<lparr>cb_statfs := gm_put p (v, cb_now c + cf_StatFsTTL (cb_cfg c)) (cb_statfs c)\<rparr>)"

section \<open>Validity\<close>

(* src/pkg/client/backend/cache/validity.go:51-59 markGlobalVerified *)
definition markGlobalVerified :: "validityTracker \<Rightarrow> validityTracker" where
  "markGlobalVerified v = v\<lparr>va_verified := True, va_paths := []\<rparr>"

(* src/pkg/client/backend/cache/validity.go:61-69 markGlobalUnverified *)
definition markGlobalUnverified :: "validityTracker \<Rightarrow> validityTracker" where
  "markGlobalUnverified v = v\<lparr>va_verified := False, va_epoch := va_epoch v + 1\<rparr>"

(* src/pkg/client/backend/cache/validity.go:75-77 markPathVerified *)
definition markPathVerified :: "path \<Rightarrow> nat \<Rightarrow> validityTracker \<Rightarrow> validityTracker" where
  "markPathVerified p epoch v = v\<lparr>va_paths := gm_put p epoch (va_paths v)\<rparr>"

(* src/pkg/client/backend/cache/validity.go:82-92 isPathVerified *)
definition isPathVerified :: "path \<Rightarrow> validityTracker \<Rightarrow> bool" where
  "isPathVerified p v \<longleftrightarrow> gm_get (va_paths v) p = Some (va_epoch v)"

text \<open>The gate of the read paths.\<close>

definition trusted :: "(path \<Rightarrow> bool) \<Rightarrow> path \<Rightarrow> 'i Cache \<Rightarrow> bool" where
  "trusted delegated p c \<longleftrightarrow> va_verified (cb_validity c) \<or> isPathVerified p (cb_validity c) \<or> delegated p"

(* src/pkg/client/backend/cache/backend.go:89-128 NewCachedBackend *)
definition NewCachedBackend :: "Config \<Rightarrow> bool \<Rightarrow> int \<Rightarrow> 'i \<Rightarrow> 'i Cache" where
  "NewCachedBackend cfg persistent diskMax inner =
    \<lparr>cb_cfg = cfg, cb_now = 0, cb_tier = newAccountant (cf_MemoryMaxBytes cfg) (deriveMaxEntries (cf_MemoryMaxBytes cfg)),
     cb_disk = \<lparr>dk_on = persistent, dk_data = []\<rparr>,
     cb_data = \<lparr>dd_gens = [], dd_global = 0, dd_poisoned = [], dd_disk = new_persist diskMax, dd_queue = []\<rparr>, cb_faults = no_faults,
     cb_getxattr = [], cb_statfs = [], cb_access = [],
     cb_validity = \<lparr>va_verified = \<not> cf_SubscribeEnabled cfg, va_epoch = 0, va_paths = []\<rparr>, cb_handles = [], cb_inner = inner\<rparr>"

section \<open>Invalidation\<close>

(* src/pkg/client/backend/cache/backend.go:190-197 invalidateSubtree *)
definition invalidateSubtree :: "path \<Rightarrow> 'i Cache \<Rightarrow> 'i Cache" where
  "invalidateSubtree p =
    access_invalidatePrefix p \<circ> getxattr_invalidatePrefix p \<circ> xattr_invalidatePrefix p \<circ> data_invalidatePrefix p \<circ> dir_invalidatePrefix p \<circ> attr_invalidatePrefix p"

(* src/pkg/client/backend/cache/backend.go:210-220 InvalidatePath *)
definition InvalidatePath :: "path \<Rightarrow> 'i Cache \<Rightarrow> 'i Cache" where
  "InvalidatePath p =
    attr_invalidate (pathParent p) \<circ> dir_invalidate (pathParent p) \<circ> dir_invalidate p \<circ> access_invalidate p \<circ> getxattr_invalidate p \<circ>
    xattr_invalidate p \<circ> data_invalidatePath p \<circ> attr_invalidate p"

(* src/pkg/client/backend/cache/backend.go:224-229 revalidateResult *)
datatype revalidateResult = RNotModified | REnoent | RFresh Attr | RFallback

(* src/pkg/client/backend/cache/backend.go:233-261 revalidate *)
definition revalidate :: "('h, 'i) Backend \<Rightarrow> path \<Rightarrow> u64 \<Rightarrow> 'i Cache \<Rightarrow> revalidateResult \<times> 'i Cache" where
  "revalidate be p ver c =
    (let epoch = va_epoch (cb_validity c); flush = dir_invalidate (pathParent p) \<circ> data_invalidatePath p \<circ> attr_invalidate p in
     case inner_call (be_GetAttrIfChanged be p ver) c of
       (Inl e, c1) \<Rightarrow> if e = FS_ENOENT then (REnoent, attr_putNegative p (flush c1)) else (RFallback, c1)
     | (Inr None, c1) \<Rightarrow> (RNotModified, c1\<lparr>cb_validity := markPathVerified p epoch (cb_validity c1)\<rparr>)
     | (Inr (Some a), c1) \<Rightarrow> (RFresh a, flush c1))"

section \<open>Reads\<close>

text \<open>A full fetch of attributes, which fills the cache.\<close>

definition prime_attr :: "path \<Rightarrow> (FsError + Attr) \<times> 'i Cache \<Rightarrow> (FsError + Attr) \<times> 'i Cache" where
  "prime_attr p r =
    (case r of
       (Inr a, c) \<Rightarrow> (Inr a, attr_putPositive p a c)
     | (Inl e, c) \<Rightarrow> (Inl e, if e = FS_ENOENT then attr_putNegative p c else c))"

(* src/pkg/client/backend/cache/backend.go:326-335 statFromInner *)
definition statFromInner :: "('h, 'i) Backend \<Rightarrow> path \<Rightarrow> 'i Cache \<Rightarrow> (FsError + Attr) \<times> 'i Cache" where
  "statFromInner be p c = prime_attr p (inner_call (be_Stat be p) c)"

(* src/pkg/client/backend/cache/backend.go:345-354 lookupFromInner *)
definition lookupFromInner :: "('h, 'i) Backend \<Rightarrow> path \<Rightarrow> string \<Rightarrow> 'i Cache \<Rightarrow> (FsError + Attr) \<times> 'i Cache" where
  "lookupFromInner be parent name c = prime_attr (joinPath parent name) (inner_call (be_Lookup be parent name) c)"

definition known_version :: "Attr option option \<Rightarrow> u64" where
  "known_version r = (case r of Some (Some a) \<Rightarrow> at_Version a | _ \<Rightarrow> 0)"

definition from_cached :: "Attr option \<Rightarrow> FsError + Attr" where
  "from_cached a = (case a of None \<Rightarrow> Inl FS_ENOENT | Some x \<Rightarrow> Inr x)"

(* src/pkg/client/backend/cache/backend.go:277-317 cachedAttrLookup *)
definition cachedAttrLookup ::
  "('h, 'i) Backend \<Rightarrow> (path \<Rightarrow> bool) \<Rightarrow> path \<Rightarrow> ('i Cache \<Rightarrow> (FsError + Attr) \<times> 'i Cache) \<Rightarrow> 'i Cache \<Rightarrow> (FsError + Attr) \<times> 'i Cache" where
  "cachedAttrLookup be delegated key fromInner c =
    (case attr_get key c of
       (None, c1) \<Rightarrow> fromInner c1
     | (Some a, c1) \<Rightarrow>
         if trusted delegated key c1 then (from_cached a, c1)
         else (case revalidate be key (known_version (Some a)) c1 of
                 (RNotModified, c2) \<Rightarrow> (from_cached a, c2)
               | (REnoent, c2) \<Rightarrow> (Inl FS_ENOENT, c2)
               | (RFresh x, c2) \<Rightarrow> (Inr x, attr_putPositive key x c2)
               | (RFallback, c2) \<Rightarrow> fromInner c2))"

(* src/pkg/client/backend/cache/backend.go:319-323 Stat *)
definition cb_Stat :: "('h, 'i) Backend \<Rightarrow> (path \<Rightarrow> bool) \<Rightarrow> path \<Rightarrow> 'i Cache \<Rightarrow> (FsError + Attr) \<times> 'i Cache" where
  "cb_Stat be delegated p = cachedAttrLookup be delegated p (statFromInner be p)"

(* src/pkg/client/backend/cache/backend.go:337-342 Lookup *)
definition cb_Lookup :: "('h, 'i) Backend \<Rightarrow> (path \<Rightarrow> bool) \<Rightarrow> path \<Rightarrow> string \<Rightarrow> 'i Cache \<Rightarrow> (FsError + Attr) \<times> 'i Cache" where
  "cb_Lookup be delegated parent name = cachedAttrLookup be delegated (joinPath parent name) (lookupFromInner be parent name)"

definition strip_entry :: "DirEntryPlus \<Rightarrow> DirEntry" where
  "strip_entry e = \<lparr>de_Ino = dp_Ino e, de_Mode = dp_Mode e, de_Name = dp_Name e\<rparr>"

(* src/pkg/client/backend/cache/backend.go:433-439 plusFromEntries *)
definition plusFromEntries :: "DirEntry list \<Rightarrow> DirEntryPlus list" where
  "plusFromEntries = map (\<lambda>e. \<lparr>dp_Ino = de_Ino e, dp_Mode = de_Mode e, dp_Name = de_Name e, dp_Attr = None, dp_Xattrs = None\<rparr>)"

definition prime_entry :: "path \<Rightarrow> DirEntryPlus \<Rightarrow> 'i Cache \<Rightarrow> 'i Cache" where
  "prime_entry p e c =
    (let c1 = (case dp_Attr e of None \<Rightarrow> c | Some a \<Rightarrow> attr_putPositive (joinPath p (dp_Name e)) a c)
     in case dp_Xattrs e of None \<Rightarrow> c1 | Some ns \<Rightarrow> xattr_put (joinPath p (dp_Name e)) ns c1)"

(* src/pkg/client/backend/cache/backend.go:399-427 listDirFromInner *)
definition listDirFromInner :: "('h, 'i) Backend \<Rightarrow> path \<Rightarrow> 'i Cache \<Rightarrow> (FsError + DirEntryPlus list) \<times> 'i Cache" where
  "listDirFromInner be p c =
    (case inner_call (be_ListDir be p) c of
       (Inl e, c1) \<Rightarrow> (Inl e, c1)
     | (Inr es, c1) \<Rightarrow> (Inr es, dir_put p (map strip_entry es) (fold (prime_entry p) es c1)))"

(* src/pkg/client/backend/cache/backend.go:356-395 ListDir *)
definition cb_ListDir :: "('h, 'i) Backend \<Rightarrow> (path \<Rightarrow> bool) \<Rightarrow> path \<Rightarrow> 'i Cache \<Rightarrow> (FsError + DirEntryPlus list) \<times> 'i Cache" where
  "cb_ListDir be delegated p c =
    (case dir_get p c of
       (None, c1) \<Rightarrow> listDirFromInner be p c1
     | (Some es, c1) \<Rightarrow>
         if trusted delegated p c1 then (Inr (plusFromEntries es), c1)
         else (case attr_get p c1 of
                 (Some (Some a), c2) \<Rightarrow>
                   (case revalidate be p (at_Version a) c2 of
                      (RNotModified, c3) \<Rightarrow>
                        (case dir_get p c3 of
                           (Some es2, c4) \<Rightarrow> (Inr (plusFromEntries es2), c4)
                         | (None, c4) \<Rightarrow> listDirFromInner be p c4)
                    | (REnoent, c3) \<Rightarrow> (Inl FS_ENOENT, c3)
                    | (RFresh x, c3) \<Rightarrow> listDirFromInner be p c3
                    | (RFallback, c3) \<Rightarrow> (Inr (plusFromEntries es), c3))
               | (_, c2) \<Rightarrow> listDirFromInner be p c2))"

(* src/pkg/client/backend/cache/backend.go:448-448 prefetchSpanChunks *)
definition prefetchSpanChunks :: nat where
  "prefetchSpanChunks = 16"

(* src/pkg/client/backend/cache/backend.go:452-452 prefetchSeqThreshold *)
definition prefetchSeqThreshold :: int where
  "prefetchSeqThreshold = 3"

(* src/pkg/client/backend/cache/handle.go:48-61 recordRead *)
definition recordRead :: "nat \<Rightarrow> nat \<Rightarrow> 'i Cache \<Rightarrow> bool \<times> 'i Cache" where
  "recordRead h chunkIndex c =
    (let (seqLast, seqRun) = (case gm_get (cb_handles c) h of None \<Rightarrow> (-1, 0) | Some s \<Rightarrow> s); i = int chunkIndex;
         run = (if i = seqLast + 1 then seqRun + 1 else if i = seqLast then seqRun else 1)
     in (run \<ge> prefetchSeqThreshold, c\<lparr>cb_handles := gm_put h (i, run) (cb_handles c)\<rparr>))"

text \<open>Caching the chunks of a fetched span: full ones and a last short one.\<close>

definition cache_span :: "nat \<Rightarrow> path \<Rightarrow> nat \<Rightarrow> nat \<Rightarrow> bytes \<Rightarrow> 'i Cache \<Rightarrow> 'i Cache" where
  "cache_span cs p idx gen buf =
    fold (\<lambda>j. data_putGen p (idx + j) (take cs (drop (j * cs) buf)) gen) [0..<(length buf + cs - 1) div cs]"

lemma read_progress: "a < n \<Longrightarrow> 0 < cs \<Longrightarrow> n - (a + min (n - a) (cs - x mod cs)) < n - (a::nat)"
proof -
  assume "a < n" "0 < cs"
  moreover from this have "0 < min (n - a) (cs - x mod cs)" by simp
  ultimately show ?thesis by linarith
qed

text \<open>
  The chunk loop: \<open>acc\<close> is the filled part of the destination, \<open>n\<close> its length.  The span another reader of the handle may have in flight is not
  modelled: a reader that waits for it takes the loop again.
\<close>

(* src/pkg/client/backend/cache/backend.go:455-602 Read *)
function read_loop ::
  "('h, 'i) Backend \<Rightarrow> nat \<Rightarrow> bool \<Rightarrow> path \<Rightarrow> 'h FileHandle \<Rightarrow> nat \<Rightarrow> nat \<Rightarrow> bytes \<Rightarrow> 'i Cache \<Rightarrow> (bytes \<times> FsError) \<times> 'i Cache" where
  "read_loop be cs prefetch p h off n acc c =
    (if n \<le> length acc \<or> cs = 0 then ((acc, FS_OK), c)
     else let fileOff = off + length acc; idx = fileOff div cs; insideOff = fileOff mod cs; want = min (n - length acc) (cs - insideOff)
          in (case data_get p idx c of
                (Some d, c1) \<Rightarrow>
                  if length d \<le> insideOff then ((acc, FS_OK), c1)
                  else let acc1 = acc @ take want (drop insideOff d)
                       in if length d < cs then ((acc1, FS_OK), c1) else read_loop be cs prefetch p h off n acc1 c1
              | (None, c1) \<Rightarrow>
                  (case data_currentGen p c1 of (gen, c2) \<Rightarrow>
                    (case inner_call (be_Read be h (idx * cs) ((if prefetch then prefetchSpanChunks else 1) * cs)) c2 of
                       ((buf, st), c3) \<Rightarrow>
                         if st \<noteq> FS_OK then ((acc, st), c3)
                         else if buf = [] then ((acc, FS_OK), c3)
                         else let c4 = cache_span cs p idx gen buf c3; served = take cs buf
                              in if length served \<le> insideOff then ((acc, FS_OK), c4)
                                 else let acc1 = acc @ take want (drop insideOff served)
                                      in if length served < cs then ((acc1, FS_OK), c4) else read_loop be cs prefetch p h off n acc1 c4))))"
  by pat_completeness auto
termination
  by (relation "measure (\<lambda>(be, cs, prefetch, p, h, off, n, acc, c). n - length acc)") (auto simp: read_progress not_le)

declare read_loop.simps [simp del]

text \<open>A chunk size of zero makes the division of the source panic: \<open>None\<close>.\<close>

(* src/pkg/client/backend/cache/backend.go:455-602 Read *)
definition cb_Read :: "('h, 'i) Backend \<Rightarrow> (path \<Rightarrow> bool) \<Rightarrow> 'h cacheHandle \<Rightarrow> nat \<Rightarrow> nat \<Rightarrow> 'i Cache \<Rightarrow> ((bytes \<times> FsError) \<times> 'i Cache) option" where
  "cb_Read be delegated fh off n c =
    (case fh of
       PlainHandle h \<Rightarrow> Some (inner_call (be_Read be h off n) c)
     | CachedHandle k p h \<Rightarrow>
         (let go = (\<lambda>c. if cf_ChunkSizeBytes (cb_cfg c) = 0 then None
                        else case recordRead k (off div cf_ChunkSizeBytes (cb_cfg c)) c of
                               (prefetch, c1) \<Rightarrow> Some (read_loop be (cf_ChunkSizeBytes (cb_cfg c)) prefetch p h off n [] c1))
          in if trusted delegated p c then go c
             else (case attr_get p c of
                     (r, c1) \<Rightarrow>
                       (case revalidate be p (known_version r) c1 of
                          (REnoent, c2) \<Rightarrow> Some (([], FS_ENOENT), c2)
                        | (_, c2) \<Rightarrow> go c2))))"

(* src/pkg/client/backend/cache/backend.go:604-616 Access *)
definition cb_Access :: "('h, 'i) Backend \<Rightarrow> path \<Rightarrow> u32 \<Rightarrow> 'i Cache \<Rightarrow> FsError \<times> 'i Cache" where
  "cb_Access be p mode c =
    (case access_get p mode c of
       (Some st, c1) \<Rightarrow> (st, c1)
     | (None, c1) \<Rightarrow>
         (case inner_call (be_Access be p mode) c1 of
            (st, c2) \<Rightarrow> (st, if st \<in> {FS_OK, FS_EACCES, FS_EPERM, FS_ENOENT} then access_put p mode st c2 else c2)))"

(* src/pkg/client/backend/cache/backend.go:644-653 StatFs *)
definition cb_StatFs :: "('h, 'i) Backend \<Rightarrow> path \<Rightarrow> 'i Cache \<Rightarrow> (FsError + StatFs) \<times> 'i Cache" where
  "cb_StatFs be p c =
    (case statfs_get p c of
       Some v \<Rightarrow> (Inr v, c)
     | None \<Rightarrow> (case inner_call (be_StatFs be p) c of (Inr v, c1) \<Rightarrow> (Inr v, statfs_put p v c1) | (Inl e, c1) \<Rightarrow> (Inl e, c1)))"

(* src/pkg/client/backend/cache/backend.go:662-672 GetXAttr *)
definition cb_GetXAttr :: "('h, 'i) Backend \<Rightarrow> path \<Rightarrow> string \<Rightarrow> 'i Cache \<Rightarrow> (FsError + bytes) \<times> 'i Cache" where
  "cb_GetXAttr be p a c =
    (case getxattr_get p a c of
       (Some (d, st), c1) \<Rightarrow> (if st = FS_OK then Inr d else Inl st, c1)
     | (None, c1) \<Rightarrow>
         (case inner_call (be_GetXAttr be p a) c1 of
            (Inr d, c2) \<Rightarrow> (Inr d, getxattr_put p a d FS_OK c2)
          | (Inl e, c2) \<Rightarrow> (Inl e, if e \<in> {FS_ENO_XATTR, FS_ENOTSUP, FS_ENOSYS} then getxattr_put p a [] e c2 else c2)))"

(* src/pkg/client/backend/cache/backend.go:701-710 ListXAttr *)
definition cb_ListXAttr :: "('h, 'i) Backend \<Rightarrow> path \<Rightarrow> 'i Cache \<Rightarrow> (FsError + string list) \<times> 'i Cache" where
  "cb_ListXAttr be p c =
    (case xattr_get p c of
       (Some ns, c1) \<Rightarrow> (Inr ns, c1)
     | (None, c1) \<Rightarrow> (case inner_call (be_ListXAttr be p) c1 of (Inr ns, c2) \<Rightarrow> (Inr ns, xattr_put p ns c2) | (Inl e, c2) \<Rightarrow> (Inl e, c2)))"

section \<open>Mutations\<close>

definition xattr_mutated :: "path \<Rightarrow> FsError \<times> 'i Cache \<Rightarrow> FsError \<times> 'i Cache" where
  "xattr_mutated p r = (case r of (st, c) \<Rightarrow> (st, if st = FS_OK then attr_invalidate p (getxattr_invalidate p (xattr_invalidate p c)) else c))"

(* src/pkg/client/backend/cache/backend.go:677-685 SetXAttr *)
definition cb_SetXAttr :: "('h, 'i) Backend \<Rightarrow> path \<Rightarrow> string \<Rightarrow> bytes \<Rightarrow> u32 \<Rightarrow> 'i Cache \<Rightarrow> FsError \<times> 'i Cache" where
  "cb_SetXAttr be p a d f c = xattr_mutated p (inner_call (be_SetXAttr be p a d f) c)"

(* src/pkg/client/backend/cache/backend.go:688-696 RemoveXAttr *)
definition cb_RemoveXAttr :: "('h, 'i) Backend \<Rightarrow> path \<Rightarrow> string \<Rightarrow> 'i Cache \<Rightarrow> FsError \<times> 'i Cache" where
  "cb_RemoveXAttr be p a c = xattr_mutated p (inner_call (be_RemoveXAttr be p a) c)"

text \<open>A new handle gets a number no live handle has; its sequence counters are absent, as \<^verbatim>\<open>newCachedHandle\<close> sets them.\<close>

(* src/pkg/client/backend/cache/backend.go:719-725 Open *)
definition cb_Open :: "('h, 'i) Backend \<Rightarrow> nat \<Rightarrow> path \<Rightarrow> u32 \<Rightarrow> 'i Cache \<Rightarrow> (FsError + 'h cacheHandle) \<times> 'i Cache" where
  "cb_Open be k p flags c =
    (case inner_call (be_Open be p flags) c of (Inl e, c1) \<Rightarrow> (Inl e, c1) | (Inr h, c1) \<Rightarrow> (Inr (CachedHandle k p h), c1))"

definition prime_opt :: "path \<Rightarrow> Attr option \<Rightarrow> 'i Cache \<Rightarrow> 'i Cache" where
  "prime_opt p a c = (case a of None \<Rightarrow> c | Some x \<Rightarrow> attr_putPositive p x c)"

(* src/pkg/client/backend/cache/backend.go:727-751 Create *)
definition cb_Create :: "('h, 'i) Backend \<Rightarrow> nat \<Rightarrow> path \<Rightarrow> string \<Rightarrow> u32 \<Rightarrow> u32 \<Rightarrow> 'i Cache \<Rightarrow> (FsError + 'h cacheHandle \<times> Attr option) \<times> 'i Cache" where
  "cb_Create be k parent name flags mode c =
    (let full = joinPath parent name in
     case inner_call (be_Create be parent name flags mode) c of
       (Inl e, c1) \<Rightarrow> (Inl e, c1)
     | (Inr (h, a), c1) \<Rightarrow>
         (Inr (CachedHandle k full h, a),
          prime_opt full a (getxattr_put full ''security.capability'' [] FS_ENO_XATTR (access_invalidate full (attr_invalidate full
            (bumpParentEntryAdded parent (dir_invalidate parent c1)))))))"

text \<open>After a write or an allocation: the chunks it touched go, the cached size grows, and the path counts as verified.\<close>

definition grown :: "path \<Rightarrow> nat \<Rightarrow> nat \<Rightarrow> nat \<Rightarrow> 'i Cache \<Rightarrow> 'i Cache" where
  "grown p off sz writtenEnd c =
    (case bumpSize p writtenEnd (data_invalidateRange p off sz c) of
       (bumped, c1) \<Rightarrow> if bumped then c1\<lparr>cb_validity := markPathVerified p (va_epoch (cb_validity c1)) (cb_validity c1)\<rparr> else c1)"

(* src/pkg/client/backend/cache/backend.go:753-772 Write *)
definition cb_Write :: "('h, 'i) Backend \<Rightarrow> 'h cacheHandle \<Rightarrow> nat \<Rightarrow> bytes \<Rightarrow> 'i Cache \<Rightarrow> (FsError + nat) \<times> 'i Cache" where
  "cb_Write be fh off d c =
    (case inner_call (be_Write be (unwrapHandle fh) off d) c of
       (Inl e, c1) \<Rightarrow> (Inl e, c1)
     | (Inr n, c1) \<Rightarrow> (Inr n, case fh of PlainHandle h \<Rightarrow> c1 | CachedHandle k p h \<Rightarrow> grown p off (length d) (off + n) c1))"

(* src/pkg/client/backend/cache/backend.go:774-784 Release *)
definition cb_Release :: "('h, 'i) Backend \<Rightarrow> 'h cacheHandle \<Rightarrow> 'i Cache \<Rightarrow> FsError \<times> 'i Cache" where
  "cb_Release be fh c = inner_call (be_Release be (unwrapHandle fh)) c"

(* src/pkg/client/backend/cache/backend.go:791-806 Allocate *)
definition cb_Allocate :: "('h, 'i) Backend \<Rightarrow> 'h cacheHandle \<Rightarrow> nat \<Rightarrow> nat \<Rightarrow> u32 \<Rightarrow> 'i Cache \<Rightarrow> FsError \<times> 'i Cache" where
  "cb_Allocate be fh off sz mode c =
    (case inner_call (be_Allocate be (unwrapHandle fh) off sz mode) c of
       (st, c1) \<Rightarrow>
         if st \<noteq> FS_OK then (st, c1)
         else (FS_OK, case fh of PlainHandle h \<Rightarrow> c1 | CachedHandle k p h \<Rightarrow> grown p off sz (off + sz) c1))"

(* src/pkg/client/backend/cache/backend.go:813-823 CopyFileRange *)
definition cb_CopyFileRange ::
  "('h, 'i) Backend \<Rightarrow> 'h cacheHandle \<Rightarrow> nat \<Rightarrow> 'h cacheHandle \<Rightarrow> nat \<Rightarrow> nat \<Rightarrow> u64 \<Rightarrow> 'i Cache \<Rightarrow> (FsError + nat) \<times> 'i Cache" where
  "cb_CopyFileRange be fhIn offIn fhOut offOut len flags c =
    (case inner_call (be_CopyFileRange be (unwrapHandle fhIn) offIn (unwrapHandle fhOut) offOut len flags) c of
       (Inl e, c1) \<Rightarrow> (Inl e, c1)
     | (Inr n, c1) \<Rightarrow>
         (Inr n, case fhOut of
                   PlainHandle h \<Rightarrow> c1
                 | CachedHandle k p h \<Rightarrow> if n > 0 then attr_invalidate p (data_invalidateRange p offOut n c1) else c1))"

(* src/pkg/client/backend/cache/backend.go:834-848 Mkdir *)
definition cb_Mkdir :: "('h, 'i) Backend \<Rightarrow> path \<Rightarrow> u32 \<Rightarrow> 'i Cache \<Rightarrow> (FsError + Attr option) \<times> 'i Cache" where
  "cb_Mkdir be p mode c =
    (case inner_call (be_Mkdir be p mode) c of
       (Inl e, c1) \<Rightarrow> (Inl e, c1)
     | (Inr a, c1) \<Rightarrow>
         (Inr a, prime_opt p a (access_invalidate p (attr_invalidate p (attr_invalidate (pathParent p) (dir_invalidate (pathParent p) c1))))))"

(* src/pkg/client/backend/cache/backend.go:628-642 Symlink *)
definition cb_Symlink :: "('h, 'i) Backend \<Rightarrow> string \<Rightarrow> path \<Rightarrow> 'i Cache \<Rightarrow> (FsError + Attr option) \<times> 'i Cache" where
  "cb_Symlink be target p c =
    (case inner_call (be_Symlink be target p) c of
       (Inl e, c1) \<Rightarrow> (Inl e, c1)
     | (Inr a, c1) \<Rightarrow>
         (Inr a, prime_opt p a (access_invalidate p (attr_invalidate p (bumpParentEntryAdded (pathParent p) (dir_invalidate (pathParent p) c1))))))"

(* src/pkg/client/backend/cache/backend.go:850-864 Rmdir *)
definition cb_Rmdir :: "('h, 'i) Backend \<Rightarrow> path \<Rightarrow> 'i Cache \<Rightarrow> FsError \<times> 'i Cache" where
  "cb_Rmdir be p c =
    (case inner_call (be_Rmdir be p) c of
       (st, c1) \<Rightarrow>
         if st \<noteq> FS_OK then (st, c1)
         else (FS_OK, attr_putNegative p (attr_invalidate (pathParent p) (dir_invalidate (pathParent p) (dir_invalidate p
                (getxattr_invalidate p (access_invalidate p (attr_invalidate p c1))))))))"

(* src/pkg/client/backend/cache/backend.go:866-880 Unlink *)
definition cb_Unlink :: "('h, 'i) Backend \<Rightarrow> path \<Rightarrow> 'i Cache \<Rightarrow> FsError \<times> 'i Cache" where
  "cb_Unlink be p c =
    (case inner_call (be_Unlink be p) c of
       (st, c1) \<Rightarrow>
         if st \<noteq> FS_OK then (st, c1)
         else (FS_OK, attr_putNegative p (attr_invalidate (pathParent p) (dir_invalidate (pathParent p) (data_invalidatePath p
                (getxattr_invalidate p (access_invalidate p (attr_invalidate p c1))))))))"

(* src/pkg/client/backend/cache/backend.go:882-903 Rename *)
definition cb_Rename :: "('h, 'i) Backend \<Rightarrow> path \<Rightarrow> path \<Rightarrow> 'i Cache \<Rightarrow> FsError \<times> 'i Cache" where
  "cb_Rename be old new c =
    (case inner_call (be_Rename be old new) c of
       (st, c1) \<Rightarrow>
         if st \<noteq> FS_OK then (st, c1)
         else (FS_OK, attr_putNegative old (attr_invalidate (pathParent new) (attr_invalidate (pathParent old)
                (dir_invalidate (pathParent new) (dir_invalidate (pathParent old) (invalidateSubtree new (invalidateSubtree old c1))))))))"

(* src/pkg/client/backend/cache/backend.go:913-936 SetAttr *)
definition cb_SetAttr :: "('h, 'i) Backend \<Rightarrow> path \<Rightarrow> SetAttrIn \<Rightarrow> 'i Cache \<Rightarrow> (FsError + Attr option) \<times> 'i Cache" where
  "cb_SetAttr be p sin c =
    (case inner_call (be_SetAttr be p sin) c of
       (r, c1) \<Rightarrow>
         (let c2 = access_invalidate p c1; c3 = (if has_bit (si_Valid sin) FATTR_SIZE then data_invalidatePath p c2 else c2)
          in case r of
               Inl e \<Rightarrow> (Inl e, attr_invalidate p c3)
             | Inr (Some a) \<Rightarrow> (Inr (Some a), attr_putPositive p a c3)
             | Inr None \<Rightarrow> (Inr None, attr_invalidate p c3)))"

end
