(* ===== verification/Cache_Invalidate.thy ===== *)
theory Cache_Invalidate
  imports Cache_Backend Event_Bus
begin

text \<open>
  Invalidation of the client cache: the consumer of the server's change events (\<^verbatim>\<open>pkg/client/backend/cache/subscriber.go\<close>)
  on top of the caching layer, and what an invalidation guarantees.  A stream is the list of the events it delivers until
  it fails; a run of the consumer is the list of its streams.  The metrics of the consumer are left out.
\<close>

section \<open>The consumer of change events\<close>

(* src/pkg/client/backend/cache/subscriber.go:132-138 subscribePathParent *)
definition subscribePathParent :: "path \<Rightarrow> path" where
  "subscribePathParent p = (let d = path_Dir p in if d = ''.'' then '''' else d)"

(* src/pkg/client/backend/cache/backend.go:164-167 invalidateAttr *)
definition sub_invalidateAttr :: "path \<Rightarrow> 'i Cache \<Rightarrow> 'i Cache" where
  "sub_invalidateAttr p = access_invalidate p \<circ> attr_invalidate p"

(* src/pkg/client/backend/cache/backend.go:170-173 invalidateXAttr *)
definition sub_invalidateXAttr :: "path \<Rightarrow> 'i Cache \<Rightarrow> 'i Cache" where
  "sub_invalidateXAttr p = getxattr_invalidate p \<circ> xattr_invalidate p"

(* src/pkg/client/backend/cache/subscriber.go:145-152 invalidatePathAndParent *)
definition invalidatePathAndParent :: "path \<Rightarrow> 'i Cache \<Rightarrow> 'i Cache" where
  "invalidatePathAndParent p =
    (let parent = subscribePathParent p
     in sub_invalidateAttr parent \<circ> dir_invalidate parent \<circ> sub_invalidateXAttr p \<circ> data_invalidatePath p \<circ> sub_invalidateAttr p)"

(* src/pkg/client/backend/cache/subscriber.go:154-178 handle *)
definition handle_event :: "Event \<Rightarrow> 'i Cache \<Rightarrow> 'i Cache" where
  "handle_event ev c =
    (case ev_Kind ev of
       KindMutated \<Rightarrow> invalidatePathAndParent (ev_Path ev) c
     | KindDeleted \<Rightarrow> attr_putNegative (ev_Path ev) (invalidateSubtree (ev_Path ev) (invalidatePathAndParent (ev_Path ev) c))
     | KindRenamed \<Rightarrow>
         attr_putNegative (ev_Path ev)
           (fold (\<lambda>p c. invalidateSubtree p (invalidatePathAndParent p c)) [ev_Path ev, ev_NewPath ev] c)
     | KindHeartbeat \<Rightarrow> c)"

text \<open>One event of a stream; the flag says whether a heartbeat has been seen.\<close>

definition stream_event :: "Event \<Rightarrow> bool \<times> 'i Cache \<Rightarrow> bool \<times> 'i Cache" where
  "stream_event ev sc =
    (case sc of (saw, c) \<Rightarrow>
      let c1 = handle_event ev c
      in if \<not> saw \<and> ev_Kind ev = KindHeartbeat then (True, c1\<lparr>cb_validity := markGlobalVerified (cb_validity c1)\<rparr>) else (saw, c1))"

text \<open>\<open>None\<close> is a stream that could not be opened.\<close>

(* src/pkg/client/backend/cache/subscriber.go:101-127 runOnce *)
definition runOnce :: "Event list option \<Rightarrow> 'i Cache \<Rightarrow> 'i Cache" where
  "runOnce strm c = (case strm of None \<Rightarrow> c | Some evs \<Rightarrow> snd (fold stream_event evs (False, c)))"

definition sub_backoff :: "int \<Rightarrow> int" where
  "sub_backoff b = (if b < 30 * 1000000000 then (if b * 2 > 30 * 1000000000 then 30 * 1000000000 else b * 2) else b)"

text \<open>The loop of the consumer over its streams: the waits between them and the cache at the end.\<close>

(* src/pkg/client/backend/cache/subscriber.go:67-99 subscribeConsumer.run *)
fun sub_run :: "int \<Rightarrow> Event list option list \<Rightarrow> 'i Cache \<Rightarrow> int list \<times> 'i Cache" where
  "sub_run b [] c = ([], c)"
| "sub_run b (s # ss) c =
    (let c1 = runOnce s c; c2 = c1\<lparr>cb_validity := markGlobalUnverified (cb_validity c1)\<rparr>
     in case sub_run (sub_backoff b) ss c2 of (ws, c3) \<Rightarrow> (b # ws, c3))"

section \<open>What the stores may still answer\<close>

definition present :: "ckey \<Rightarrow> 'i Cache \<Rightarrow> bool" where
  "present k c \<longleftrightarrow> tier_view (cb_tier c) k \<noteq> None \<or> (has_disk k \<and> cb_persistent c \<and> gm_get (dk_data (cb_disk c)) k \<noteq> None)"

lemma mem_remove_view: "tier_view (mem_remove k t) k' = (if k' = k then None else tier_view t k')"
  by (auto simp: mem_remove_def acct_remove_def tier_view_def gm_get_del split: option.splits)

lemma present_remove: "present k (st_remove k' c) \<longleftrightarrow> k \<noteq> k' \<and> present k c"
  by (auto simp: present_def st_remove_def store_remove_def mem_remove_view gm_get_del split: if_splits)

lemma absent_get: "\<not> present k c \<Longrightarrow> st_get k c = (None, c)"
  by (auto simp: present_def st_get_def store_get_def mem_get_def tier_view_def split: option.splits)

lemma present_fold_remove: "present k (fold st_remove ks c) \<longleftrightarrow> k \<notin> set ks \<and> present k c"
  by (induction ks arbitrary: c) (auto simp: present_remove)

lemma insert_view: "tier_inv t \<Longrightarrow> tier_view (insertMem k v (int n) t) \<subseteq>\<^sub>m (tier_view t)(k \<mapsto> v)"
  using ms.put_sub[where f = "\<lambda>_ _. n" and k = k and v = v and s = t] by simp

lemma map_le_upd_same: "m \<subseteq>\<^sub>m f(k \<mapsto> v) \<Longrightarrow> m k = None \<or> m k = Some v"
  by (cases "m k") (auto simp: map_le_def dom_def)

lemma present_put: "tier_inv (cb_tier c) \<Longrightarrow> present k (st_put k' v c) \<Longrightarrow> k = k' \<or> present k c"
proof -
  assume i: "tier_inv (cb_tier c)" and p: "present k (st_put k' v c)"
  show ?thesis
  proof (rule disjCI)
    assume "\<not> present k c"
    then have n: "tier_view (cb_tier c) k = None" "\<not> (has_disk k \<and> cb_persistent c \<and> gm_get (dk_data (cb_disk c)) k \<noteq> None)"
      by (auto simp: present_def)
    show "k = k'"
    proof (rule ccontr)
      assume "k \<noteq> k'"
      then have "((tier_view (cb_tier c))(k' \<mapsto> v)) k = None" using n(1) by simp
      then have "tier_view (insertMem k' v (int (entry_size k' v)) (cb_tier c)) k = None"
        using insert_view[OF i, of k' v "entry_size k' v"] unfolding map_le_def by (metis domIff)
      then show False using p n(2) \<open>k \<noteq> k'\<close> by (auto simp: present_def st_put_def store_put_def gm_get_put split: if_splits)
    qed
  qed
qed

text \<open>The subtree removal of a store leaves nothing the predicate names, in memory; with a disk tier the walk over the disk
  keys takes the entries memory does not hold.\<close>

lemma removeMatching_gone: "P k \<Longrightarrow> tier_view (cb_tier (st_removeMatching sid P c)) (sid, k) = None"
proof -
  assume P: "P k"
  let ?ks = "filter (\<lambda>(s, k). s = sid \<and> P k) (map fst (tr_entries (cb_tier c)))"
  have v: "tier_view (cb_tier (fold st_remove ks c)) k = (if k \<in> set ks then None else tier_view (cb_tier c) k)" for ks k and c :: "'a Cache"
    by (induction ks arbitrary: c) (auto simp: st_remove_def store_remove_def mem_remove_view)
  have "tier_view (cb_tier c) (sid, k) \<noteq> None \<Longrightarrow> (sid, k) \<in> set ?ks"
    using P by (auto simp: tier_view_def image_iff dest!: map_of_SomeD) (metis fst_conv)
  then show ?thesis unfolding st_removeMatching_def v by (cases "tier_view (cb_tier c) (sid, k)") simp_all
qed

lemma present_removeMatching: "present k (st_removeMatching sid P c) \<Longrightarrow> present k c"
  by (simp add: st_removeMatching_def present_fold_remove)

lemma filter_gone: "\<not> Q k \<Longrightarrow> gm_get (filter (\<lambda>(k, _). Q k) m) k = None"
  by (induction m) auto

lemma present_prefix:
  assumes "sid = ''attr'' \<or> sid = ''dir''" and "present (s, k) (disk_removePrefix sid p (st_removeMatching sid (subtreePred p) c))"
  shows "present (s, k) c \<and> \<not> (s = sid \<and> subtreePred p k)"
proof -
  let ?c = "st_removeMatching sid (subtreePred p) c"
  have d: "cb_tier (disk_removePrefix sid p ?c) = cb_tier ?c" "cb_persistent (disk_removePrefix sid p ?c) = cb_persistent ?c"
    by (auto simp: disk_removePrefix_def)
  have g: "gm_get (filter (\<lambda>((s, k), _). \<not> (s = sid \<and> subtreePred p k)) m) (s, k) = (if s = sid \<and> subtreePred p k then None else gm_get m (s, k))"
    for m :: "(ckey, cvalue) gomap" by (induction m) auto
  have "present (s, k) ?c"
    using assms(2) d g by (auto simp: present_def disk_removePrefix_def split: if_splits)
  moreover have "\<not> (s = sid \<and> subtreePred p k)"
    using assms(2) d g removeMatching_gone[of "subtreePred p" k sid c] by (auto simp: present_def disk_removePrefix_def split: if_splits)
  ultimately show ?thesis using present_removeMatching by blast
qed

text \<open>Each part of a subtree invalidation, on its own store and on the others.\<close>

lemma removeMatching_frame:
  "cb_getxattr (st_removeMatching sid P c) = cb_getxattr c" "cb_access (st_removeMatching sid P c) = cb_access c" "cb_validity (st_removeMatching sid P c) = cb_validity c"
  "tier_inv (cb_tier c) \<Longrightarrow> tier_inv (cb_tier (st_removeMatching sid P c))"
proof -
  have f: "cb_getxattr (fold st_remove ks c) = cb_getxattr c \<and> cb_access (fold st_remove ks c) = cb_access c \<and> cb_validity (fold st_remove ks c) = cb_validity c \<and>
      (tier_inv (cb_tier c) \<longrightarrow> tier_inv (cb_tier (fold st_remove ks c)))" for ks and c :: "'a Cache"
  proof (induction ks arbitrary: c)
    case (Cons k ks)
    have "tier_inv (cb_tier c) \<Longrightarrow> tier_inv (mem_remove k (cb_tier c))" using ms.del_inv[where s = "cb_tier c" and k = k] by simp
    then show ?case using Cons[of "st_remove k c"] by (auto simp: st_remove_def store_remove_def)
  qed simp
  then show "cb_getxattr (st_removeMatching sid P c) = cb_getxattr c" "cb_access (st_removeMatching sid P c) = cb_access c"
    "cb_validity (st_removeMatching sid P c) = cb_validity c" "tier_inv (cb_tier c) \<Longrightarrow> tier_inv (cb_tier (st_removeMatching sid P c))"
    by (simp_all add: st_removeMatching_def)
qed

lemma present_cong: "cb_tier c' = cb_tier c \<Longrightarrow> cb_disk c' = cb_disk c \<Longrightarrow> present k c' = present k c"
  by (simp add: present_def)

definition forgotten :: "path \<Rightarrow> 'i Cache \<Rightarrow> bool" where
  "forgotten k c \<longleftrightarrow> \<not> present (''attr'', k) c \<and> \<not> present (''dir'', k) c \<and> \<not> present (''xattr'', k) c \<and>
     (\<forall>i. tier_view (cb_tier c) (''data'', chunkKey k i) = None) \<and> gm_get (cb_getxattr c) k = None \<and> gm_get (cb_access c) k = None"

lemma chunk_below: "subtreePred p k \<Longrightarrow> prefix (p @ [CHR 0x00]) (chunkKey k i) \<or> prefix (p @ ''/'') (chunkKey k i)"
  by (auto simp: subtreePred_def chunkKey_def prefix_def)

lemma filter_subtree: "subtreePred p k \<Longrightarrow> gm_get (filter (\<lambda>(k, _). \<not> subtreePred p k) m) k = None"
  using filter_gone[of "\<lambda>k. \<not> subtreePred p k" k m] by simp

lemma invalidateSubtree_spec:
  shows "subtreePred p k \<Longrightarrow> forgotten k (invalidateSubtree p c)"
    and "present x (invalidateSubtree p c) \<Longrightarrow> present x c"
    and "tier_view (cb_tier c) x = None \<Longrightarrow> tier_view (cb_tier (invalidateSubtree p c)) x = None"
    and "gm_get (cb_getxattr c) k = None \<Longrightarrow> gm_get (cb_getxattr (invalidateSubtree p c)) k = None"
    and "gm_get (cb_access c) k = None \<Longrightarrow> gm_get (cb_access (invalidateSubtree p c)) k = None"
    and "tier_inv (cb_tier c) \<Longrightarrow> tier_inv (cb_tier (invalidateSubtree p c))"
    and "cb_validity (invalidateSubtree p c) = cb_validity c"
proof -
  define c1 c2 c3 c4 where c: "c1 = attr_invalidatePrefix p c" "c2 = dir_invalidatePrefix p c1" "c3 = data_invalidatePrefix p c2" "c4 = xattr_invalidatePrefix p c3"
  have s: "invalidateSubtree p c = access_invalidatePrefix p (getxattr_invalidatePrefix p c4)" by (simp add: invalidateSubtree_def c)
  have t: "cb_tier (invalidateSubtree p c) = cb_tier c4" "cb_disk (invalidateSubtree p c) = cb_disk c4"
    by (simp_all add: s access_invalidatePrefix_def getxattr_invalidatePrefix_def)
  have x: "cb_getxattr (invalidateSubtree p c) = filter (\<lambda>(k, _). \<not> subtreePred p k) (cb_getxattr c)"
    "cb_access (invalidateSubtree p c) = filter (\<lambda>(k, _). \<not> subtreePred p k) (cb_access c)"
    by (simp_all add: s c access_invalidatePrefix_def getxattr_invalidatePrefix_def xattr_invalidatePrefix_def data_invalidatePrefix_def
      dir_invalidatePrefix_def attr_invalidatePrefix_def disk_removePrefix_def removeMatching_frame)
  show "cb_validity (invalidateSubtree p c) = cb_validity c"
    by (simp add: s c access_invalidatePrefix_def getxattr_invalidatePrefix_def xattr_invalidatePrefix_def data_invalidatePrefix_def
      dir_invalidatePrefix_def attr_invalidatePrefix_def disk_removePrefix_def removeMatching_frame)
  have p1: "present (s, k) c1 \<Longrightarrow> present (s, k) c \<and> \<not> (s = ''attr'' \<and> subtreePred p k)" for s k
    unfolding c attr_invalidatePrefix_def by (rule present_prefix) simp_all
  have p2: "present (s, k) c2 \<Longrightarrow> present (s, k) c1 \<and> \<not> (s = ''dir'' \<and> subtreePred p k)" for s k
    unfolding c(2) dir_invalidatePrefix_def by (rule present_prefix) simp_all
  have p3: "present x c3 \<Longrightarrow> present x c2" for x unfolding c(3) data_invalidatePrefix_def by (rule present_removeMatching)
  have p4: "present x c4 \<Longrightarrow> present x c3" for x unfolding c(4) xattr_invalidatePrefix_def by (rule present_removeMatching)
  have sub: "tier_view (cb_tier c) x = None \<Longrightarrow> tier_view (cb_tier (st_removeMatching sid P c)) x = None" for x sid P and c :: "'a Cache"
  proof -
    have "tier_view (cb_tier c) x = None \<Longrightarrow> tier_view (cb_tier (fold st_remove ks c)) x = None" for ks and c :: "'a Cache"
      by (induction ks arbitrary: c) (auto simp: st_remove_def store_remove_def mem_remove_view)
    then show "tier_view (cb_tier c) x = None \<Longrightarrow> ?thesis" by (simp add: st_removeMatching_def)
  qed
  have d: "cb_tier (disk_removePrefix sid p c) = cb_tier c" for sid and c :: "'a Cache" by (simp add: disk_removePrefix_def)
  show "present x (invalidateSubtree p c) \<Longrightarrow> present x c" using present_cong[OF t] p1[of "fst x" "snd x"] p2[of "fst x" "snd x"] p3 p4 by auto
  show "tier_view (cb_tier c) x = None \<Longrightarrow> tier_view (cb_tier (invalidateSubtree p c)) x = None"
    unfolding t c attr_invalidatePrefix_def dir_invalidatePrefix_def data_invalidatePrefix_def xattr_invalidatePrefix_def by (intro sub) (simp add: d sub)
  show "tier_inv (cb_tier c) \<Longrightarrow> tier_inv (cb_tier (invalidateSubtree p c))"
    unfolding t c attr_invalidatePrefix_def dir_invalidatePrefix_def data_invalidatePrefix_def xattr_invalidatePrefix_def
    by (simp add: d removeMatching_frame)
  have fsub: "gm_get m k = None \<Longrightarrow> gm_get (filter (\<lambda>(k, _). \<not> subtreePred p k) m) k = None" for m :: "(path, 'b) gomap" by (induction m) (auto split: if_splits)
  show "gm_get (cb_getxattr c) k = None \<Longrightarrow> gm_get (cb_getxattr (invalidateSubtree p c)) k = None"
    "gm_get (cb_access c) k = None \<Longrightarrow> gm_get (cb_access (invalidateSubtree p c)) k = None" unfolding x by (rule fsub, assumption)+
  assume k: "subtreePred p k"
  have "tier_view (cb_tier c3) (''data'', chunkKey k i) = None" for i
    unfolding c(3) data_invalidatePrefix_def using chunk_below[OF k, of i] by (rule removeMatching_gone)
  then have "tier_view (cb_tier c4) (''data'', chunkKey k i) = None" for i unfolding c(4) xattr_invalidatePrefix_def by (intro sub)
  moreover have "\<not> present (''xattr'', k) c4"
    using removeMatching_gone[of "subtreePred p" k "''xattr''" c3] k by (simp add: c(4) xattr_invalidatePrefix_def present_def has_disk_def)
  ultimately show "forgotten k (invalidateSubtree p c)"
    unfolding forgotten_def present_cong[OF t] t x using filter_subtree[OF k, of "cb_access c"] filter_subtree[OF k, of "cb_getxattr c"] p1[of "''attr''" k] p2[of "''attr''" k] p2[of "''dir''" k] p3 p4 k by auto
qed

section \<open>A renamed or deleted tree is forgotten\<close>

lemma remove_frame:
  "tier_view (cb_tier (st_remove x c)) k = (if k = x then None else tier_view (cb_tier c) k)"
  "cb_getxattr (st_remove x c) = cb_getxattr c" "cb_access (st_remove x c) = cb_access c" "cb_validity (st_remove x c) = cb_validity c"
  by (simp_all add: st_remove_def store_remove_def mem_remove_view)

text \<open>What an invalidation may do: it only takes entries away.\<close>

definition drops :: "'i Cache \<Rightarrow> 'i Cache \<Rightarrow> bool" where
  "drops c c' \<longleftrightarrow> (\<forall>k. present k c' \<longrightarrow> present k c) \<and> (\<forall>k. tier_view (cb_tier c) k = None \<longrightarrow> tier_view (cb_tier c') k = None) \<and>
     (\<forall>k. gm_get (cb_getxattr c) k = None \<longrightarrow> gm_get (cb_getxattr c') k = None) \<and> (\<forall>k. gm_get (cb_access c) k = None \<longrightarrow> gm_get (cb_access c') k = None) \<and>
     (tier_inv (cb_tier c) \<longrightarrow> tier_inv (cb_tier c')) \<and> cb_validity c' = cb_validity c"

lemma drops_refl: "drops c c"
  by (simp add: drops_def)

lemma drops_trans [trans]: "drops a b \<Longrightarrow> drops b c \<Longrightarrow> drops a c"
  by (simp add: drops_def)

lemma drops_forgotten: "drops c c' \<Longrightarrow> forgotten k c \<Longrightarrow> forgotten k c'"
  unfolding drops_def forgotten_def by blast

lemma drops_remove: "drops c (st_remove k c)"
  using ms.del_inv[where s = "cb_tier c" and k = k] by (simp add: drops_def present_remove remove_frame) (simp add: st_remove_def store_remove_def)

lemma drops_fold_remove: "drops c (fold st_remove ks c)"
  by (induction ks arbitrary: c) (auto simp: drops_refl intro: drops_trans drops_remove)

lemma drops_data: "drops c (c\<lparr>cb_data := d\<rparr>)"
  by (simp add: drops_def present_def)

lemma drops_subtree: "drops c (invalidateSubtree p c)"
  unfolding drops_def using invalidateSubtree_spec(2-7)[where p = p and c = c] by blast

lemma drops_small: "drops c (getxattr_invalidate p c)" "drops c (access_invalidate p c)"
  by (simp_all add: drops_def present_def getxattr_invalidate_def access_invalidate_def gm_get_del)

lemma drops_attr: "drops c (attr_invalidate p c)" and drops_dir: "drops c (dir_invalidate p c)" and drops_xattr: "drops c (xattr_invalidate p c)"
  by (simp_all add: attr_invalidate_def dir_invalidate_def xattr_invalidate_def drops_remove)

lemma drops_data_path: "drops c (data_invalidatePath p c)"
  unfolding data_invalidatePath_def st_removeMatching_def Let_def by (auto intro: drops_fold_remove drops_trans[OF drops_fold_remove drops_data])

lemmas drops_steps = drops_trans[OF _ drops_attr] drops_trans[OF _ drops_dir] drops_trans[OF _ drops_xattr] drops_trans[OF _ drops_small(1)]
  drops_trans[OF _ drops_small(2)] drops_trans[OF _ drops_data_path] drops_trans[OF _ drops_subtree]

lemma drops_event_path: "drops c (invalidatePathAndParent p c)"
  unfolding invalidatePathAndParent_def sub_invalidateAttr_def sub_invalidateXAttr_def Let_def comp_def
  by (intro drops_steps drops_refl)

lemma forgotten_negative:
  assumes "tier_inv (cb_tier c)" and "forgotten k c" and "k \<noteq> p" shows "forgotten k (attr_putNegative p c)"
proof -
  let ?v = "AttrE None (cb_now c + cf_NegativeTTL (cb_cfg c))"
  have e: "attr_putNegative p c = st_put (''attr'', p) ?v c" by (simp add: attr_putNegative_def)
  have pr: "\<not> present (s, k) c \<Longrightarrow> \<not> present (s, k) (st_put (''attr'', p) ?v c)" for s using present_put[OF assms(1), of "(s, k)"] assms(3) by blast
  have "tier_view (insertMem (''attr'', p) ?v (int (entry_size (''attr'', p) ?v)) (cb_tier c)) (''data'', chunkKey k i) = None" for i
  proof -
    have "((tier_view (cb_tier c))((''attr'', p) \<mapsto> ?v)) (''data'', chunkKey k i) = None" using assms(2) by (simp add: forgotten_def)
    then show ?thesis using insert_view[OF assms(1), of "(''attr'', p)" ?v] unfolding map_le_def by (metis domIff)
  qed
  then show ?thesis using assms(2) pr unfolding forgotten_def e by (simp add: st_put_def store_put_def has_disk_def)
qed

text \<open>What the read paths get for a path the cache has forgotten: nothing, so they ask the inner backend.\<close>

lemma forgotten_misses:
  assumes "forgotten k c"
  shows "attr_get k c = (None, c)" "dir_get k c = (None, c)" "xattr_get k c = (None, c)"
    "fst (getxattr_get k a c) = None" "fst (access_get k m c) = None" "mem_get (''data'', chunkKey k i) (cb_tier c) = (None, cb_tier c)"
proof -
  have p: "\<not> present (''attr'', k) c" "\<not> present (''dir'', k) c" "\<not> present (''xattr'', k) c" using assms by (simp_all add: forgotten_def)
  show "attr_get k c = (None, c)" "dir_get k c = (None, c)" "xattr_get k c = (None, c)"
    by (simp_all add: attr_get_def dir_get_def xattr_get_def absent_get[OF p(1)] absent_get[OF p(2)] absent_get[OF p(3)])
  show "fst (getxattr_get k a c) = None" "fst (access_get k m c) = None" "mem_get (''data'', chunkKey k i) (cb_tier c) = (None, cb_tier c)"
    using assms by (auto simp: forgotten_def getxattr_get_def access_get_def sub_get_def mem_get_def tier_view_def split: prod.splits option.splits)
qed

text \<open>The path that got the negative entry answers at most with that entry.\<close>

lemma negative_only:
  assumes "tier_inv (cb_tier c)" shows "fst (attr_get p (attr_putNegative p c)) = None \<or> fst (attr_get p (attr_putNegative p c)) = Some None"
proof -
  let ?v = "AttrE None (cb_now c + cf_NegativeTTL (cb_cfg c))" and ?k = "(''attr'', p)"
  let ?c = "st_put ?k ?v c"
  have e: "attr_putNegative p c = ?c" by (simp add: attr_putNegative_def)
  have tc: "cb_tier ?c = insertMem ?k ?v (int (entry_size ?k ?v)) (cb_tier c)" by (simp add: st_put_def store_put_def has_disk_def)
  have i: "tier_inv t \<Longrightarrow> tier_view (insertMem ?k ?v (int n) t) ?k = None \<or> tier_view (insertMem ?k ?v (int n) t) ?k = Some ?v" for n and t :: "cvalue tier"
    by (rule map_le_upd_same[OF insert_view])
  have t: "tier_inv (cb_tier ?c)" "tier_view (cb_tier ?c) ?k = None \<or> tier_view (cb_tier ?c) ?k = Some ?v"
    unfolding tc using ms.put_inv[where f = entry_size and k = ?k and v = ?v and s = "cb_tier c"] assms i[OF assms] by auto
  have d: "cb_persistent ?c \<longrightarrow> gm_get (dk_data (cb_disk ?c)) ?k = Some ?v" by (simp add: st_put_def store_put_def has_disk_def gm_get_put)
  have "fst (st_get ?k ?c) = None \<or> fst (st_get ?k ?c) = Some ?v"
  proof (cases "tier_view (cb_tier ?c) ?k")
    case (Some w)
    then have "w = ?v" using t(2) by simp
    then show ?thesis using Some by (auto simp: st_get_def store_get_def mem_get_def tier_view_def has_disk_def)
  next
    case None
    then have m: "mem_get ?k (cb_tier ?c) = (None, cb_tier ?c)" by (simp add: mem_get_def tier_view_def)
    show ?thesis using d i[OF t(1), of "entry_size ?k ?v"] unfolding tier_view_def
      by (auto simp: st_get_def store_get_def m has_disk_def Let_def simp del: entry_size.simps split: option.splits)
  qed
  then show ?thesis unfolding e attr_get_def by (cases "st_get ?k ?c") (auto simp: Let_def split: if_splits)
qed

lemma moved_tree_lemma:
  assumes "tier_inv (cb_tier c)" and "cb_Rename be old new c = (FS_OK, c') \<or> (c' = handle_event ev c \<and> ev_Kind ev = KindRenamed \<and> ev_Path ev = old \<and> ev_NewPath ev = new)"
  shows "\<exists>c2. c' = attr_putNegative old c2 \<and> tier_inv (cb_tier c2) \<and> (\<forall>q. subtreePred old q \<or> subtreePred new q \<longrightarrow> forgotten q c2)"
  using assms(2)
proof
  assume "cb_Rename be old new c = (FS_OK, c')"
  then obtain i where i: "c' = attr_putNegative old (attr_invalidate (pathParent new) (attr_invalidate (pathParent old)
      (dir_invalidate (pathParent new) (dir_invalidate (pathParent old) (invalidateSubtree new (invalidateSubtree old (c\<lparr>cb_inner := i\<rparr>)))))))"
    by (auto simp: cb_Rename_def inner_call_def split: prod.splits if_splits)
  define c1 where "c1 = c\<lparr>cb_inner := i\<rparr>"
  have c1: "cb_tier c1 = cb_tier c" "c' = attr_putNegative old (attr_invalidate (pathParent new) (attr_invalidate (pathParent old)
      (dir_invalidate (pathParent new) (dir_invalidate (pathParent old) (invalidateSubtree new (invalidateSubtree old c1))))))"
    using i by (simp_all add: c1_def)
  let ?s = "invalidateSubtree new (invalidateSubtree old c1)"
  let ?c2 = "attr_invalidate (pathParent new) (attr_invalidate (pathParent old) (dir_invalidate (pathParent new) (dir_invalidate (pathParent old) ?s)))"
  have d: "drops ?s ?c2" by (intro drops_steps drops_refl)
  have "drops c1 ?c2" using drops_trans[OF drops_trans[OF drops_subtree drops_subtree] d] .
  then have "tier_inv (cb_tier ?c2)" using assms(1) c1(1) by (simp add: drops_def)
  moreover have "subtreePred old q \<or> subtreePred new q \<Longrightarrow> forgotten q ?s" for q
    using invalidateSubtree_spec(1)[of old q c1] invalidateSubtree_spec(1)[of new q "invalidateSubtree old c1"] drops_forgotten[OF drops_subtree] by blast
  ultimately show ?thesis using drops_forgotten[OF d] c1(2) by blast
next
  assume e: "c' = handle_event ev c \<and> ev_Kind ev = KindRenamed \<and> ev_Path ev = old \<and> ev_NewPath ev = new"
  let ?a = "invalidatePathAndParent old c"
  let ?b = "invalidatePathAndParent new (invalidateSubtree old ?a)"
  let ?c2 = "invalidateSubtree new ?b"
  have c': "c' = attr_putNegative old ?c2" using e by (simp add: handle_event_def)
  have d: "drops (invalidateSubtree old ?a) ?c2" using drops_trans[OF drops_event_path drops_subtree] .
  have "drops c ?c2" using drops_trans[OF drops_trans[OF drops_event_path drops_subtree] d] .
  then have "tier_inv (cb_tier ?c2)" using assms(1) by (simp add: drops_def)
  moreover have "subtreePred old q \<or> subtreePred new q \<Longrightarrow> forgotten q ?c2" for q
    using invalidateSubtree_spec(1)[of old q ?a] invalidateSubtree_spec(1)[of new q ?b] drops_forgotten[OF d] by blast
  ultimately show ?thesis using c' by blast
qed

text \<open>C31: After a rename, by this client or reported by the server, the cache knows nothing about either tree any more: for every
  path at or below the old or the new name other than the old name itself, attributes, listing and extended attributes are asked of the
  inner backend, no permission decision and no chunk in memory is left, and the old name answers at most that it does not exist.\<close>

theorem renamed_tree_is_forgotten:
  assumes "tier_inv (cb_tier c)"
    and "cb_Rename be old new c = (FS_OK, c') \<or> (c' = handle_event ev c \<and> ev_Kind ev = KindRenamed \<and> ev_Path ev = old \<and> ev_NewPath ev = new)"
    and "subtreePred old q \<or> subtreePred new q" and "q \<noteq> old"
  shows "cb_Stat be dg q c' = statFromInner be q c' \<and> cb_ListDir be dg q c' = listDirFromInner be q c' \<and>
    fst (xattr_get q c') = None \<and> fst (getxattr_get q a c') = None \<and> fst (access_get q msk c') = None \<and>
    tier_view (cb_tier c') (''data'', chunkKey q i) = None \<and> fst (attr_get old c') \<in> {None, Some None}"
proof -
  obtain c2 where c2: "c' = attr_putNegative old c2" "tier_inv (cb_tier c2)" "\<forall>q. subtreePred old q \<or> subtreePred new q \<longrightarrow> forgotten q c2"
    using moved_tree_lemma[OF assms(1,2)] by blast
  have f: "forgotten q c'" using c2 assms(3,4) forgotten_negative by blast
  have "fst (attr_get old c') \<in> {None, Some None}" using negative_only[OF c2(2), of old] c2(1) by simp
  moreover have "tier_view (cb_tier c') (''data'', chunkKey q i) = None" using f by (simp add: forgotten_def)
  ultimately show ?thesis by (simp add: cb_Stat_def cachedAttrLookup_def cb_ListDir_def forgotten_misses[OF f])
qed

definition ex_ccfg :: Config where
  "ex_ccfg = \<lparr>cf_SubscribeEnabled = True, cf_MemoryMaxBytes = 1000000, cf_ChunkSizeBytes = 4, cf_AttrTTL = 60, cf_DirTTL = 60, cf_NegativeTTL = 60,
     cf_XAttrTTL = 60, cf_StatFsTTL = 60\<rparr>"

definition ex_cache :: "bool \<Rightarrow> 'i \<Rightarrow> 'i Cache" where
  "ex_cache persistent = NewCachedBackend ex_ccfg persistent 0"

lemma ex_cache_tier: "tier_inv (cb_tier (ex_cache b i))"
  by (simp add: ex_cache_def NewCachedBackend_def tier_inv_def tier_core_def newAccountant_def overLimit_def total_size_def)

theorem renamed_tree_is_forgotten_witness:
  "\<exists>c'. cb_Rename ex_be ''d'' ''e'' (attr_putPositive ''e/x'' ex_attr (ex_cache True 0)) = (FS_OK, c') \<and>
     cb_Stat ex_be (\<lambda>_. True) ''e/x'' c' = statFromInner ex_be ''e/x'' c'"
proof -
  let ?c = "attr_putPositive ''e/x'' ex_attr (ex_cache True (0::nat))"
  have t: "tier_inv (cb_tier ?c)"
    using ms.put_inv[where f = entry_size and s = "cb_tier (ex_cache True (0::nat))" and k = "(''attr'', ''e/x'')" and v = "AttrE (Some ex_attr) e" for e] ex_cache_tier[of True "0::nat"]
    by (simp add: attr_putPositive_def st_put_def store_put_def has_disk_def)
  obtain c' where r: "cb_Rename ex_be ''d'' ''e'' ?c = (FS_OK, c')" by (simp add: cb_Rename_def inner_call_def ex_be_def)
  have "subtreePred ''e'' ''e/x''" by (simp add: subtreePred_def)
  then show ?thesis using r renamed_tree_is_forgotten[OF t, of ex_be "''d''" "''e''" c' undefined "''e/x''" "\<lambda>_. True"] by simp
qed

section \<open>Trust\<close>

text \<open>The events of a stream leave the validity of the cache alone; only heartbeats and the loss of the stream move it.\<close>

lemma putNegative_validity: "cb_validity (attr_putNegative p c) = cb_validity c"
  by (simp add: attr_putNegative_def st_put_def store_put_def)

lemma handle_validity: "cb_validity (handle_event ev c) = cb_validity c"
proof -
  have "cb_validity (invalidatePathAndParent p d) = cb_validity d" for p and d :: "'a Cache" using drops_event_path[of d p] by (simp add: drops_def)
  moreover have "cb_validity (invalidateSubtree p d) = cb_validity d" for p and d :: "'a Cache" using drops_subtree[of d p] by (simp add: drops_def)
  ultimately show ?thesis by (simp add: handle_event_def putNegative_validity split: EventKind.splits)
qed

lemma stream_event_pair:
  "stream_event ev (saw, c) = (if \<not> saw \<and> ev_Kind ev = KindHeartbeat
     then (True, (handle_event ev c)\<lparr>cb_validity := markGlobalVerified (cb_validity c)\<rparr>) else (saw, handle_event ev c))"
  by (simp add: stream_event_def Let_def handle_validity)

lemma stream_verified: "va_verified (cb_validity c) \<Longrightarrow> va_verified (cb_validity (snd (fold stream_event evs (saw, c))))"
proof (induction evs arbitrary: saw c)
  case (Cons ev evs)
  then show ?case by (simp add: stream_event_pair handle_validity markGlobalVerified_def)
qed simp

lemma stream_heartbeat:
  "\<exists>ev \<in> set evs. ev_Kind ev = KindHeartbeat \<Longrightarrow> va_verified (cb_validity (snd (fold stream_event evs (False, c))))"
proof (induction evs arbitrary: c)
  case (Cons ev evs)
  show ?case
  proof (cases "ev_Kind ev = KindHeartbeat")
    case True
    then show ?thesis by (auto intro!: stream_verified simp: stream_event_pair markGlobalVerified_def)
  next
    case False
    then show ?thesis using Cons by (simp add: stream_event_pair)
  qed
qed simp

text \<open>Stamps never come from a later disconnection than the current one.\<close>

definition stamps_ok :: "validityTracker \<Rightarrow> bool" where
  "stamps_ok v \<longleftrightarrow> (\<forall>p e. gm_get (va_paths v) p = Some e \<longrightarrow> e \<le> va_epoch v)"

lemma loss_distrusts: "stamps_ok v \<Longrightarrow> \<not> va_verified (markGlobalUnverified v) \<and> \<not> isPathVerified p (markGlobalUnverified v) \<and> stamps_ok (markGlobalUnverified v)"
  by (auto simp: stamps_ok_def markGlobalUnverified_def isPathVerified_def) (metis Suc_n_not_le_n, metis le_SucI)

lemma stream_stamps: "stamps_ok (cb_validity c) \<Longrightarrow> stamps_ok (cb_validity (snd (fold stream_event evs (saw, c))))"
proof (induction evs arbitrary: saw c)
  case (Cons ev evs)
  then show ?case by (simp add: stream_event_pair handle_validity markGlobalVerified_def stamps_ok_def)
qed simp

lemma run_distrusts:
  "stamps_ok (cb_validity c) \<Longrightarrow> ss \<noteq> [] \<Longrightarrow> \<not> trusted (\<lambda>_. False) p (snd (sub_run b ss c))"
proof (induction ss arbitrary: b c)
  case (Cons s ss)
  let ?c = "runOnce s c"
  let ?d = "?c\<lparr>cb_validity := markGlobalUnverified (cb_validity ?c)\<rparr>"
  have "stamps_ok (cb_validity ?c)" using Cons.prems(1) stream_stamps[of c _ False] by (simp add: runOnce_def split: option.splits)
  then have d: "stamps_ok (cb_validity ?d)" "\<not> trusted (\<lambda>_. False) p ?d" using loss_distrusts[of "cb_validity ?c" p] by (simp_all add: trusted_def)
  have e: "snd (sub_run b (s # ss) c) = snd (sub_run (sub_backoff b) ss ?d)" by (simp add: Let_def split: prod.splits)
  show ?case
  proof (cases ss)
    case Nil
    then show ?thesis unfolding e using d by simp
  next
    case (Cons x xs)
    then show ?thesis unfolding e using Cons.IH[OF d(1), of "sub_backoff b"] by simp
  qed
qed simp

lemma sub_backoff_step: "sub_backoff (min (2 ^ k * 1000000000) 30000000000) = min (2 ^ Suc k * 1000000000) 30000000000"
  by (simp add: sub_backoff_def min_def)

lemma sub_run_waits:
  "fst (sub_run (min (2 ^ k * 1000000000) 30000000000) ss c) = map (\<lambda>j. min (2 ^ j * 1000000000) 30000000000) [k..<k + length ss]"
proof (induction ss arbitrary: k c)
  case (Cons s ss)
  have u: "[k..<k + length (s # ss)] = k # [Suc k..<Suc k + length ss]" by (subst upt_conv_Cons) simp_all
  let ?c = "runOnce s c"
  let ?d = "?c\<lparr>cb_validity := markGlobalUnverified (cb_validity ?c)\<rparr>"
  have "fst (sub_run b (s # ss) c) = b # fst (sub_run (sub_backoff b) ss ?d)" for b by (simp add: Let_def split: prod.splits)
  then show ?case unfolding u sub_backoff_step Cons.IH[of "Suc k" ?d] by (simp del: sub_run.simps upt_Suc power_Suc add: sub_backoff_step Cons.IH)
qed simp

text \<open>C32: The push channel recovers.  As soon as a stream has delivered one heartbeat the cache is trusted, and stays so whatever else the
  stream delivers; when the stream is lost no entry is trusted any more, whatever had been verified before; and the consumer
  always tries again: after its k-th stream it waits 2^k seconds, at most 30.\<close>

theorem subscription_recovers:
  assumes "stamps_ok (cb_validity c)" and "ss \<noteq> []"
  shows "((\<exists>ev \<in> set evs. ev_Kind ev = KindHeartbeat) \<longrightarrow> trusted (\<lambda>_. False) p (runOnce (Some evs) c)) \<and>
    \<not> trusted (\<lambda>_. False) p (snd (sub_run 1000000000 ss c)) \<and>
    fst (sub_run 1000000000 ss c) = map (\<lambda>k. min (2 ^ k * 1000000000) 30000000000) [0..<length ss]"
  using stream_heartbeat[of evs c] run_distrusts[OF assms, of p 1000000000] sub_run_waits[of 0 ss c] by (simp add: trusted_def runOnce_def)

definition ex_event :: "EventKind \<Rightarrow> path \<Rightarrow> Event" where
  "ex_event k p = \<lparr>ev_Path = p, ev_NewPath = '''', ev_NewVersion = 0, ev_Kind = k, ev_OriginSession = ''''\<rparr>"

theorem subscription_recovers_witness:
  "trusted (\<lambda>_. False) ''a'' (runOnce (Some [ex_event KindHeartbeat '''', ex_event KindMutated ''b'']) (ex_cache True ())) \<and>
   \<not> trusted (\<lambda>_. False) ''a'' (snd (sub_run 1000000000 [Some [ex_event KindHeartbeat ''''], None] (ex_cache True ()))) \<and>
   fst (sub_run 1000000000 [Some [ex_event KindHeartbeat ''''], None] (ex_cache True ())) = [1000000000, 2000000000]"
proof -
  have s: "stamps_ok (cb_validity (ex_cache True ()))" by (simp add: stamps_ok_def ex_cache_def NewCachedBackend_def)
  have h: "\<exists>ev \<in> set [ex_event KindHeartbeat '''', ex_event KindMutated ''b'']. ev_Kind ev = KindHeartbeat" by (simp add: ex_event_def)
  let ?ss = "[Some [ex_event KindHeartbeat ''''], None]"
  have n: "?ss \<noteq> []" and w: "map (\<lambda>k. min (2 ^ k * 1000000000) 30000000000) [0..<length ?ss] = [1000000000, 2000000000 :: int]" by (simp_all add: upt_rec)
  show ?thesis using subscription_recovers[OF s n, of "[ex_event KindHeartbeat '''', ex_event KindMutated ''b'']" "''a''"] h unfolding w by blast
qed

subsection \<open>Stamps and losses of the stream\<close>

text \<open>
  A revalidation reads the epoch, asks the server and stamps the path with the epoch it read; a write stamps its path with the
  epoch of the moment.  Both run in goroutines of their own beside the consumer.  Ghost state: a clock, the revalidations in flight with the instant
  they began, the instant of the last loss of the stream, and for each path the instant its last stamp goes back to.
\<close>

record vmachine =
  vm_v :: validityTracker
  vm_now :: nat
  vm_flight :: "(path \<times> nat \<times> nat) list"
  vm_lost :: nat
  vm_stamp :: "path \<Rightarrow> nat"

inductive vstep :: "vmachine \<Rightarrow> vmachine \<Rightarrow> bool" where
  reval_begin: "vstep m (m\<lparr>vm_now := vm_now m + 1, vm_flight := (p, va_epoch (vm_v m), vm_now m) # vm_flight m\<rparr>)"
| reval_stamp: "(p, e, t) \<in> set (vm_flight m) \<Longrightarrow>
    vstep m (m\<lparr>vm_now := vm_now m + 1, vm_v := markPathVerified p e (vm_v m), vm_stamp := (vm_stamp m)(p := t), vm_flight := remove1 (p, e, t) (vm_flight m)\<rparr>)"
| write_stamp: "vstep m (m\<lparr>vm_now := vm_now m + 1, vm_v := markPathVerified p (va_epoch (vm_v m)) (vm_v m), vm_stamp := (vm_stamp m)(p := vm_now m)\<rparr>)"
| heartbeat: "vstep m (m\<lparr>vm_now := vm_now m + 1, vm_v := markGlobalVerified (vm_v m)\<rparr>)"
| stream_lost: "vstep m (m\<lparr>vm_now := vm_now m + 1, vm_v := markGlobalUnverified (vm_v m), vm_lost := vm_now m\<rparr>)"

definition vm_new :: "validityTracker \<Rightarrow> vmachine" where
  "vm_new v = \<lparr>vm_v = v, vm_now = 1, vm_flight = [], vm_lost = 0, vm_stamp = \<lambda>_. 0\<rparr>"

definition vm_ok :: "vmachine \<Rightarrow> bool" where
  "vm_ok m \<longleftrightarrow> vm_lost m < vm_now m \<and>
     (\<forall>(p, e, t) \<in> set (vm_flight m). e \<le> va_epoch (vm_v m) \<and> (e = va_epoch (vm_v m) \<longrightarrow> vm_lost m < t)) \<and>
     (\<forall>p e. gm_get (va_paths (vm_v m)) p = Some e \<longrightarrow> e \<le> va_epoch (vm_v m) \<and> (e = va_epoch (vm_v m) \<longrightarrow> vm_lost m < vm_stamp m p))"

lemma vstep_ok: "vstep m m' \<Longrightarrow> vm_ok m \<Longrightarrow> vm_ok m'"
proof (induction rule: vstep.induct)
  case (reval_stamp p e t m)
  then have "e \<le> va_epoch (vm_v m) \<and> (e = va_epoch (vm_v m) \<longrightarrow> vm_lost m < t)" by (auto simp: vm_ok_def)
  then show ?case using reval_stamp set_remove1_subset[of "(p, e, t)" "vm_flight m"]
    by (auto simp: vm_ok_def markPathVerified_def gm_get_put split: if_splits)
next
  case (stream_lost m)
  then have "gm_get (va_paths (vm_v m)) p = Some e \<Longrightarrow> e \<le> va_epoch (vm_v m)" for p e unfolding vm_ok_def by blast
  then have "gm_get (va_paths (vm_v m)) p = Some e \<Longrightarrow> e \<noteq> Suc (va_epoch (vm_v m)) \<and> e \<le> Suc (va_epoch (vm_v m))" for p e
    by (metis Suc_n_not_le_n le_SucI)
  then show ?case using stream_lost by (auto simp: vm_ok_def markGlobalUnverified_def)
qed (auto simp: vm_ok_def markPathVerified_def markGlobalVerified_def gm_get_put split: if_splits)

text \<open>No stale stamp is believed: however revalidations, writes, heartbeats and losses of the stream interleave, a path counts as
  verified only if the revalidation or write behind its stamp began after the last loss of the stream.\<close>

theorem stamp_is_newer_than_loss:
  assumes "vstep\<^sup>*\<^sup>* (vm_new \<lparr>va_verified = b, va_epoch = e, va_paths = []\<rparr>) m" and "isPathVerified p (vm_v m)"
  shows "vm_lost m < vm_stamp m p"
proof -
  have "vm_ok m" using assms(1)
  proof (induction rule: rtranclp_induct)
    case base
    then show ?case by (simp add: vm_ok_def vm_new_def)
  qed (rule vstep_ok)
  then show ?thesis using assms(2) by (auto simp: vm_ok_def isPathVerified_def)
qed

theorem stamp_is_newer_than_loss_witness:
  "\<exists>m. vstep\<^sup>*\<^sup>* (vm_new \<lparr>va_verified = False, va_epoch = 0, va_paths = []\<rparr>) m \<and> isPathVerified ''a'' (vm_v m) \<and> vm_lost m = 1 \<and> vm_lost m < vm_stamp m ''a''"
proof -
  let ?m0 = "vm_new \<lparr>va_verified = False, va_epoch = 0, va_paths = []\<rparr>"
  let ?m1 = "?m0\<lparr>vm_now := 2, vm_v := \<lparr>va_verified = False, va_epoch = 1, va_paths = []\<rparr>, vm_lost := 1\<rparr>"
  let ?m2 = "?m1\<lparr>vm_now := 3, vm_flight := [(''a'', 1, 2)]\<rparr>"
  let ?m3 = "?m2\<lparr>vm_now := 4, vm_v := \<lparr>va_verified = False, va_epoch = 1, va_paths = [(''a'', 1)]\<rparr>, vm_stamp := (\<lambda>_. 0)(''a'' := 2), vm_flight := []\<rparr>"
  have "vstep ?m0 ?m1" using stream_lost[of ?m0] by (simp add: vm_new_def markGlobalUnverified_def numeral_2_eq_2)
  moreover have "vstep ?m1 ?m2" using reval_begin[of ?m1 "''a''"] by (simp add: vm_new_def)
  moreover have "vstep ?m2 ?m3" using reval_stamp[of "''a''" 1 2 ?m2] by (simp add: vm_new_def markPathVerified_def)
  ultimately have r: "vstep\<^sup>*\<^sup>* ?m0 ?m3" by (meson converse_rtranclp_into_rtranclp rtranclp.rtrancl_refl)
  have v: "isPathVerified ''a'' (vm_v ?m3)" "vm_lost ?m3 = 1" by (simp_all add: isPathVerified_def)
  show ?thesis using stamp_is_newer_than_loss[OF r v(1)] r v by blast
qed

end
