(* ===== verification/Cache_Coherence.thy ===== *)
theory Cache_Coherence
  imports Cache_Invalidate
begin

text \<open>
  What the caching layer promises.  The cached chunks of a file are slices of its content (\<open>coherent\<close>); a read
  through the cache then returns what the inner backend would, and fills the cache with slices; a write
  that starts within the file keeps the rest coherent, and so does every invalidation.
\<close>

section \<open>Slices\<close>

definition chunk_of :: "nat \<Rightarrow> bytes \<Rightarrow> nat \<Rightarrow> bytes" where
  "chunk_of cs f i = take cs (drop (i * cs) f)"

text \<open>What a write does to a file: bytes between the end and the offset are zero, and an empty write changes nothing.\<close>

definition write_at :: "nat \<Rightarrow> bytes \<Rightarrow> bytes \<Rightarrow> bytes" where
  "write_at off d f = (if d = [] then f else take off (f @ replicate (off - length f) 0) @ d @ drop (off + length d) f)"

lemma chunk_of_of_buf: "Suc j * cs \<le> m * cs \<Longrightarrow> take cs (drop (j * cs) (take (m * cs) (drop (i * cs) f))) = chunk_of cs f (i + j)"
proof -
  assume "Suc j * cs \<le> m * cs"
  then have "min cs (m * cs - j * cs) = cs" by (simp add: min_def)
  then show ?thesis by (simp add: chunk_of_def drop_take add_mult_distrib add.commute)
qed

lemma slice_ne: "chunk_of cs f i \<noteq> [] \<longleftrightarrow> 0 < cs \<and> i * cs < length f"
  by (auto simp: chunk_of_def)

lemma drop_chunk_of: "drop (x mod cs) (chunk_of cs f (x div cs)) = take (cs - x mod cs) (drop x f)"
  by (simp add: chunk_of_def drop_take)

text \<open>The four ways a turn of the read loop goes on.\<close>

lemma slice_eof: "0 < cs \<Longrightarrow> length (chunk_of cs f (x div cs)) \<le> x mod cs \<Longrightarrow> drop x f = []"
proof -
  assume cs: "0 < cs" and l: "length (chunk_of cs f (x div cs)) \<le> x mod cs"
  have "x mod cs < cs" using cs by simp
  then have "length f - x div cs * cs \<le> x mod cs" using l by (simp add: chunk_of_def min_def split: if_splits)
  then show ?thesis by (simp add: add.commute le_diff_conv)
qed

lemma slice_part: "w \<le> cs - x mod cs \<Longrightarrow> take w (drop (x mod cs) (chunk_of cs f (x div cs))) = take w (drop x f)"
  by (simp add: drop_chunk_of min_def)

lemma slice_short:
  assumes "0 < cs" and "length (chunk_of cs f (x div cs)) < cs"
  shows "take (min m (cs - x mod cs)) (drop x f) = take m (drop x f)"
proof -
  have "length f - x div cs * cs < cs" using assms(2) by (simp add: chunk_of_def min_def split: if_splits)
  then have "length f - x \<le> cs - x mod cs" by (metis div_mult_mod_eq diff_diff_left diff_le_mono less_imp_le_nat)
  then show ?thesis by (simp add: min_def)
qed

section \<open>Coherence\<close>

text \<open>The chunks of a content; there is no chunk past its end.\<close>

definition content :: "nat \<Rightarrow> (path \<Rightarrow> bytes) \<Rightarrow> path \<times> nat \<Rightarrow> bytes option" where
  "content cs F x = (let d = chunk_of cs (F (fst x)) (snd x) in if d = [] then None else Some d)"

definition mem_ok :: "nat \<Rightarrow> (path \<Rightarrow> bytes) \<Rightarrow> cvalue tier \<Rightarrow> bool" where
  "mem_ok cs F t \<longleftrightarrow> (\<forall>p i v. path_ok p \<longrightarrow> tier_view t (''data'', chunkKey p i) = Some v \<longrightarrow> (\<exists>d. v = DataE d \<and> content cs F (p, i) = Some d))"

text \<open>
  The parameter \<open>H\<close> holds the hash of the disk tier, the chunks that are ever written, and how many index entries may still be added.
  A queued chunk whose generation is still current is a chunk of the content; the others will be dropped.  The hash of the disk
  tier has no collision on the chunks that are ever written.
\<close>

definition job_fits :: "nat \<Rightarrow> (path \<Rightarrow> bytes) \<Rightarrow> data_disk \<Rightarrow> persistJob \<Rightarrow> bool" where
  "job_fits cs F st j \<longleftrightarrow> path_ok (jb_path j) \<and> jb_gen j \<le> gen_of st (jb_path j) \<and>
     (jb_gen j = gen_of st (jb_path j) \<longrightarrow> content cs F (jb_path j, jb_idx j) = Some (jb_data j))"

definition disk_chunks_ok :: "(bytes \<Rightarrow> bytes) \<times> bytes set \<times> nat \<Rightarrow> nat \<Rightarrow> (path \<Rightarrow> bytes) \<Rightarrow> data_disk \<Rightarrow> bool" where
  "disk_chunks_ok H cs F st \<longleftrightarrow> p_inv (dd_disk st) \<and> length (ps_idx (dd_disk st)) + snd (snd H) < 2 ^ 64 \<and> served_ok (fst H) (fst (snd H)) (dd_disk st) (content cs F) \<and> gens_ok st \<and>
     length (dd_queue st) \<le> dataPersistQueueDepth \<and> (\<forall>j \<in> set (dd_queue st). job_fits cs F st j) \<and>
     collision_free (fst H) (fst (snd H)) \<and> (\<forall>p i. chunk_of cs (F p) i \<in> fst (snd H))"

definition coherent :: "(bytes \<Rightarrow> bytes) \<times> bytes set \<times> nat \<Rightarrow> nat \<Rightarrow> (path \<Rightarrow> bytes) \<Rightarrow> 'i Cache \<Rightarrow> bool" where
  "coherent H cs F c \<longleftrightarrow> tier_inv (cb_tier c) \<and> mem_ok cs F (cb_tier c) \<and> (cb_persistent c \<longrightarrow> disk_chunks_ok H cs F (cb_data c))"

lemma chunkKey_inj: "path_ok p \<Longrightarrow> path_ok q \<Longrightarrow> chunkKey p i = chunkKey q j \<longleftrightarrow> p = q \<and> i = j"
  using nul_split[of p q "itoa i" "itoa j"] dec_val_itoa by (auto simp: chunkKey_def) (metis dec_val_itoa)

lemma mem_ok_sub: "mem_ok cs F t \<Longrightarrow> tier_view t' \<subseteq>\<^sub>m tier_view t \<Longrightarrow> mem_ok cs F t'"
  unfolding mem_ok_def map_le_def by (metis domI)

lemma mem_ok_put:
  assumes "mem_ok cs F t" and "tier_view t' \<subseteq>\<^sub>m (tier_view t)((''data'', chunkKey p i) \<mapsto> DataE d)" and "path_ok p" and "content cs F (p, i) = Some d"
  shows "mem_ok cs F t'"
  unfolding mem_ok_def
proof (intro allI impI)
  fix q j v assume q: "path_ok q" and v: "tier_view t' (''data'', chunkKey q j) = Some v"
  have "((tier_view t)((''data'', chunkKey p i) \<mapsto> DataE d)) (''data'', chunkKey q j) = Some v"
    using assms(2) v unfolding map_le_def by (metis domI)
  then show "\<exists>d. v = DataE d \<and> content cs F (q, j) = Some d"
    using assms(1,4) q chunkKey_inj[OF q assms(3), of j i] unfolding mem_ok_def by (auto split: if_splits)
qed

lemma mem_ok_other:
  assumes "mem_ok cs F t" and "tier_view t' \<subseteq>\<^sub>m (tier_view t)((s, k) \<mapsto> v)" and "s \<noteq> ''data''"
  shows "mem_ok cs F t'"
  using assms unfolding mem_ok_def map_le_def by (metis (no_types, lifting) Pair_inject domI fun_upd_other)

text \<open>The operations of the stores, as far as the chunks are concerned.\<close>

lemma insert_laws:
  "tier_inv t \<Longrightarrow> tier_inv (insertMem k v (int (entry_size k v)) t) \<and> tier_view (insertMem k v (int (entry_size k v)) t) \<subseteq>\<^sub>m (tier_view t)(k \<mapsto> v)"
  using ms.put_inv[where f = entry_size and k = k and v = v and s = t] ms.put_sub[where f = entry_size and k = k and v = v and s = t] by simp

lemma st_put_coherent:
  assumes "coherent H cs F c" and "fst k \<noteq> ''data'' \<or> (\<exists>p i d. k = (''data'', chunkKey p i) \<and> path_ok p \<and> v = DataE d \<and> content cs F (p, i) = Some d)"
  shows "coherent H cs F (st_put k v c)"
proof -
  let ?t = "insertMem k v (int (entry_size k v)) (cb_tier c)"
  have i: "tier_inv ?t" "tier_view ?t \<subseteq>\<^sub>m (tier_view (cb_tier c))(k \<mapsto> v)" using insert_laws[of "cb_tier c" k v] assms(1) by (auto simp: coherent_def)
  have m: "mem_ok cs F (cb_tier c)" using assms(1) by (simp add: coherent_def)
  have "mem_ok cs F ?t"
    using assms(2)
  proof
    assume "fst k \<noteq> ''data''"
    then show ?thesis using mem_ok_other[OF m, of ?t "fst k" "snd k" v] i(2) by simp
  next
    assume "\<exists>p i d. k = (''data'', chunkKey p i) \<and> path_ok p \<and> v = DataE d \<and> content cs F (p, i) = Some d"
    then show ?thesis using mem_ok_put[OF m, of ?t] i(2) by blast
  qed
  then show ?thesis using assms(1) i(1) by (auto simp: coherent_def st_put_def store_put_def)
qed

lemma mem_remove_laws: "tier_inv t \<Longrightarrow> tier_inv (mem_remove k t) \<and> tier_view (mem_remove k t) \<subseteq>\<^sub>m (tier_view t)(k := None)"
  using ms.del_inv[where s = t and k = k] ms.del_sub[where k = k and s = t] by simp

lemma st_remove_coherent: "coherent H cs F c \<Longrightarrow> coherent H cs F (st_remove k c)"
proof -
  assume c: "coherent H cs F c"
  have i: "tier_inv (mem_remove k (cb_tier c))" "tier_view (mem_remove k (cb_tier c)) \<subseteq>\<^sub>m (tier_view (cb_tier c))(k := None)"
    using mem_remove_laws[of "cb_tier c" k] c by (auto simp: coherent_def)
  have "tier_view (mem_remove k (cb_tier c)) \<subseteq>\<^sub>m tier_view (cb_tier c)" using i(2) unfolding map_le_def by (metis domIff fun_upd_apply)
  then have "mem_ok cs F (mem_remove k (cb_tier c))" using c mem_ok_sub by (auto simp: coherent_def)
  then show ?thesis using c i(1) by (auto simp: coherent_def st_remove_def store_remove_def)
qed

lemma fold_remove_coherent: "coherent H cs F c \<Longrightarrow> coherent H cs F (fold st_remove ks c)"
  by (induction ks arbitrary: c) (simp_all add: st_remove_coherent)

lemma st_get_coherent:
  assumes "coherent H cs F c" and "st_get k c = (r, c')"
  shows "coherent H cs F c' \<and> cb_data c' = cb_data c \<and> cb_inner c' = cb_inner c \<and> cb_cfg c' = cb_cfg c \<and> dk_on (cb_disk c') = dk_on (cb_disk c) \<and>
    cb_faults c' = cb_faults c \<and> cb_now c' = cb_now c \<and> cb_validity c' = cb_validity c"
proof -
  obtain v t where g: "mem_get k (cb_tier c) = (v, t)" by fastforce
  have i: "tier_inv t" "tier_view t \<subseteq>\<^sub>m tier_view (cb_tier c)"
    using ms.get_inv[where s = "cb_tier c" and k = k] ms.get_sub[where k = k and s = "cb_tier c"] g assms(1) by (auto simp: coherent_def)
  have t: "coherent H cs F (c\<lparr>cb_tier := t\<rparr>)" using assms(1) i mem_ok_sub by (auto simp: coherent_def)
  show ?thesis
  proof (cases "has_disk k")
    case False
    then show ?thesis using assms(2) g t by (auto simp: st_get_def)
  next
    case True
    then have "fst k \<noteq> ''data''" by (auto simp: has_disk_def)
    then have p: "coherent H cs F (c\<lparr>cb_tier := insertMem k w (int (entry_size k w)) t\<rparr>)" for w
      using insert_laws[OF i(1), of k w] mem_ok_other[of cs F t _ "fst k" "snd k" w] t by (auto simp: coherent_def)
    show ?thesis using assms(2) g t p True by (auto simp: st_get_def store_get_def Let_def split: option.splits if_splits)
  qed
qed
lemma parse_key_back: "path_ok p \<Longrightarrow> parseChunkKey (chunkKey p i) = Some (q, j) \<Longrightarrow> q = p \<and> nat j = i"
proof -
  assume p: "path_ok p" and e: "parseChunkKey (chunkKey p i) = Some (q, j)"
  have t: "takeWhile (\<lambda>c. c \<noteq> CHR 0x00) (chunkKey p i) = p" "dropWhile (\<lambda>c. c \<noteq> CHR 0x00) (chunkKey p i) = CHR 0x00 # itoa i"
    using p unfolding chunkKey_def path_ok_def by (induction p) auto
  then have a: "q = p" "atoi (itoa i) = Some j" using e by (auto simp: parseChunkKey_def split: if_splits)
  have "is_digit (hd (itoa i))" using itoa_digits[of i] by (cases "itoa i") auto
  then have "hd (itoa i) \<noteq> CHR ''-''" "hd (itoa i) \<noteq> CHR ''+''" by (auto simp: is_digit_def)
  then have "j = int i" using a(2) by (auto simp: atoi_def dec_val_itoa Let_def split: if_splits)
  then show ?thesis using a(1) by simp
qed

text \<open>What the steps of a read leave alone.\<close>

definition same_world :: "'i Cache \<Rightarrow> 'i Cache \<Rightarrow> bool" where
  "same_world c c' \<longleftrightarrow> cb_inner c' = cb_inner c \<and> cb_cfg c' = cb_cfg c \<and> dk_on (cb_disk c') = dk_on (cb_disk c) \<and> cb_faults c' = cb_faults c"

lemma same_world_refl: "same_world c c"
  by (simp add: same_world_def)

lemma same_world_trans: "same_world a b \<Longrightarrow> same_world b c \<Longrightarrow> same_world a c"
  by (simp add: same_world_def)

lemma st_put_world: "same_world c (st_put k v c)" and st_put_data: "cb_data (st_put k v c) = cb_data c"
  by (auto simp: same_world_def st_put_def store_put_def)

text \<open>A step of the disk side that keeps the queue, drops at most index entries and only raises generations.\<close>

definition disk_drops :: "data_disk \<Rightarrow> data_disk \<Rightarrow> bool" where
  "disk_drops st st' \<longleftrightarrow> (p_inv (dd_disk st) \<longrightarrow> p_shrinks (dd_disk st) (dd_disk st')) \<and> dd_queue st' = dd_queue st \<and>
     (gens_ok st \<longrightarrow> gens_ok st' \<and> (\<forall>p. gen_of st p \<le> gen_of st' p))"

lemma job_fits_mono: "job_fits cs F st j \<Longrightarrow> gen_of st (jb_path j) \<le> gen_of st' (jb_path j) \<Longrightarrow> job_fits cs F st' j"
  by (auto simp: job_fits_def)

lemma disk_drops_ok:
  assumes "disk_chunks_ok H cs F st" and "disk_drops st st'" shows "disk_chunks_ok H cs F st'"
proof -
  have s: "p_shrinks (dd_disk st) (dd_disk st')" "dd_queue st' = dd_queue st" "gens_ok st'" "\<And>p. gen_of st p \<le> gen_of st' p"
    using assms by (auto simp: disk_chunks_ok_def disk_drops_def)
  have "Ball (set (dd_queue st)) (job_fits cs F st) \<Longrightarrow> Ball (set (dd_queue st)) (job_fits cs F st')" using job_fits_mono[OF _ s(4)] by blast
  moreover have "length (ps_idx (dd_disk st')) + snd (snd H) < 2 ^ 64" using assms(1) s(1) by (simp add: disk_chunks_ok_def p_shrinks_def)
  ultimately show ?thesis using assms(1) p_shrinks_inv[OF _ s(1)] served_ok_shrinks[OF _ s(1)] s(3) unfolding disk_chunks_ok_def s(2) by blast
qed

lemma curGen_drops: "disk_drops st (snd (curGen p st))"
  using curGen_spec[of p st "fst (curGen p st)" "snd (curGen p st)"] p_shrinks_refl[of "dd_disk st"] by (simp add: disk_drops_def)

lemma with_data_coherent: "coherent H cs F c \<Longrightarrow> disk_drops (cb_data c) d \<Longrightarrow> coherent H cs F (c\<lparr>cb_data := d\<rparr>)"
  using disk_drops_ok[of H cs F "cb_data c" d] by (auto simp: coherent_def)

lemma data_get_ok:
  assumes "coherent H cs F c" and "path_ok p" and "data_get p i c = (r, c')"
  shows "coherent H cs F c' \<and> same_world c c' \<and> (\<forall>d. r = Some d \<longrightarrow> content cs F (p, i) = Some d)"
proof -
  let ?k = "(''data'', chunkKey p i)"
  obtain v c1 where g: "st_get ?k c = (v, c1)" by fastforce
  note s = st_get_coherent[OF assms(1) g]
  have w: "same_world c c1" using s by (simp add: same_world_def)
  have m: "coherent H cs F c2 \<Longrightarrow> tier_view (cb_tier c2) ?k = Some x \<Longrightarrow> \<exists>d. x = DataE d \<and> content cs F (p, i) = Some d" for c2 :: "'a Cache" and x
    using assms(2) unfolding coherent_def mem_ok_def by blast
  have "v = Some x \<Longrightarrow> tier_view (cb_tier c) ?k = Some x" for x
    using g by (auto simp: st_get_def has_disk_def mem_get_def tier_view_def split: option.splits)
  then have hit: "v = Some x \<Longrightarrow> \<exists>d. x = DataE d \<and> content cs F (p, i) = Some d" for x using m[OF assms(1)] by blast
  show ?thesis
  proof (cases "v = None \<and> cb_persistent c1")
    case False
    then show ?thesis using assms(3) g s w hit by (auto simp: data_get_def split: option.splits cvalue.splits)
  next
    case True
    let ?c2 = "c1\<lparr>cb_data := snd (curGen p (cb_data c1))\<rparr>"
    have c2: "coherent H cs F ?c2" using s curGen_drops by (intro with_data_coherent) auto
    show ?thesis
    proof (cases "disk_loader (cb_faults ?c2) (chunkKey p i) (cb_data ?c2)")
      case None
      then show ?thesis using assms(3) g True c2 w by (auto simp: data_get_def Let_def same_world_def)
    next
      case (Some d)
      then obtain q j where q: "parseChunkKey (chunkKey p i) = Some (q, j)" "disk_load (cb_faults ?c2) q (nat j) (dd_disk (cb_data ?c2)) = Some d"
        by (auto simp: disk_loader_def split: option.splits if_splits)
      have "q = p" "nat j = i" using q(1) parse_key_back[OF assms(2)] by auto
      moreover have "disk_chunks_ok H cs F (cb_data ?c2)" using c2 True by (simp add: coherent_def)
      ultimately have d: "content cs F (p, i) = Some d" using q(2) served_load[OF _ _ assms(2)] unfolding disk_chunks_ok_def by blast
      let ?c3 = "st_put ?k (DataE d) ?c2"
      have c3: "coherent H cs F ?c3" using st_put_coherent[OF c2, of ?k "DataE d"] d assms(2) by auto
      have "same_world c ?c3" using st_put_world[of ?c2 ?k "DataE d"] w by (simp add: same_world_def)
      then show ?thesis using assms(3) g True Some c3 m[OF c3] by (auto simp: data_get_def Let_def split: option.splits cvalue.splits)
    qed
  qed
qed

lemma enqueue_ok:
  assumes "disk_chunks_ok H cs F st" and "job_fits cs F st j" shows "disk_chunks_ok H cs F (enqueue j st)"
proof -
  have g: "gen_of (enqueue j st) = gen_of st" by (auto simp: enqueue_def gen_of_def)
  then have f: "job_fits cs F (enqueue j st) = job_fits cs F st" by (simp add: job_fits_def fun_eq_iff)
  show ?thesis using assms unfolding disk_chunks_ok_def f by (auto simp: enqueue_def gens_ok_def)
qed

lemma data_putGen_ok:
  assumes "coherent H cs F c" and "path_ok p" and "content cs F (p, i) = Some d" and "cb_persistent c \<longrightarrow> gen \<le> gen_of (cb_data c) p"
  shows "coherent H cs F (data_putGen p i d gen c) \<and> same_world c (data_putGen p i d gen c) \<and> gen_of (cb_data (data_putGen p i d gen c)) = gen_of (cb_data c)"
proof -
  let ?c1 = "st_put (''data'', chunkKey p i) (DataE d) c" and ?j = "\<lparr>jb_path = p, jb_idx = i, jb_data = d, jb_gen = gen, jb_sampled = 0\<rparr>"
  have c1: "coherent H cs F ?c1" using st_put_coherent[OF assms(1), of "(''data'', chunkKey p i)" "DataE d"] assms(2,3) by auto
  have w: "same_world c ?c1" by (rule st_put_world)
  have d1: "cb_data ?c1 = cb_data c" by (rule st_put_data)
  have "cb_persistent ?c1 \<Longrightarrow> disk_chunks_ok H cs F (enqueue ?j (cb_data ?c1))"
    using c1 w assms(2-4) d1 by (intro enqueue_ok) (auto simp: coherent_def job_fits_def same_world_def)
  then have "coherent H cs F (?c1\<lparr>cb_data := enqueue ?j (cb_data ?c1)\<rparr>)" using c1 by (simp add: coherent_def)
  moreover have "gen_of (enqueue ?j st) = gen_of st" for st by (auto simp: enqueue_def gen_of_def)
  ultimately show ?thesis using c1 w d1 by (auto simp: data_putGen_def Let_def same_world_def)
qed

lemma data_currentGen_ok:
  assumes "coherent H cs F c" and "data_currentGen p c = (g, c')"
  shows "coherent H cs F c' \<and> same_world c c' \<and> (cb_persistent c' \<longrightarrow> g \<le> gen_of (cb_data c') p)"
proof -
  have "coherent H cs F (c\<lparr>cb_data := snd (curGen p (cb_data c))\<rparr>)" using assms(1) curGen_drops by (rule with_data_coherent)
  moreover have "fst (curGen p st) = gen_of (snd (curGen p st)) p" for st using curGen_spec[of p st "fst (curGen p st)" "snd (curGen p st)"] by simp
  ultimately show ?thesis using assms by (auto simp: data_currentGen_def same_world_def split: if_splits prod.splits) (metis fst_conv snd_conv order_refl)
qed

lemma span_chunk:
  assumes "0 < cs" and "buf = take (m * cs) (drop (idx * cs) f)" and "j < (length buf + cs - 1) div cs"
  shows "take cs (drop (j * cs) buf) = chunk_of cs f (idx + j) \<and> chunk_of cs f (idx + j) \<noteq> []"
proof -
  have "Suc j * cs \<le> length buf + cs - 1" using assms(1,3) by (metis Suc_leI div_times_less_eq_dividend le_trans mult_le_mono1)
  then have j: "j * cs < length buf" using assms(1) by simp
  moreover have "length buf \<le> m * cs" "length buf \<le> length f - idx * cs" using assms(2) by simp_all
  ultimately have "j * cs < m * cs" "idx * cs + j * cs < length f" by linarith+
  then have "(idx + j) * cs < length f" by (simp add: add_mult_distrib)
  have "Suc j * cs \<le> m * cs" using assms(1) \<open>j * cs < m * cs\<close> by (metis Suc_leI mult_le_mono1 mult_less_cancel2)
  then show ?thesis using chunk_of_of_buf[of j cs m idx f] slice_ne[of cs f "idx + j"] assms(1,2) \<open>(idx + j) * cs < length f\<close> by simp
qed

lemma cache_span_ok:
  assumes "coherent H cs F c" and "path_ok p" and "0 < cs" and "buf = take (m * cs) (drop (idx * cs) (F p))" and "cb_persistent c \<longrightarrow> gen \<le> gen_of (cb_data c) p"
  shows "coherent H cs F (cache_span cs p idx gen buf c) \<and> same_world c (cache_span cs p idx gen buf c)"
proof -
  let ?put = "\<lambda>j. data_putGen p (idx + j) (take cs (drop (j * cs) buf)) gen"
  have "list_all (\<lambda>j. j < (length buf + cs - 1) div cs) js \<Longrightarrow> coherent H cs F c \<Longrightarrow> cb_persistent c \<longrightarrow> gen \<le> gen_of (cb_data c) p \<Longrightarrow>
      coherent H cs F (fold ?put js c) \<and> same_world c (fold ?put js c)" for js and c :: "'a Cache"
  proof (induction js arbitrary: c)
    case (Cons j js)
    have "content cs F (p, idx + j) = Some (take cs (drop (j * cs) buf))"
      using span_chunk[OF assms(3,4), of j] Cons.prems(1) by (simp add: content_def)
    then have "coherent H cs F (?put j c) \<and> same_world c (?put j c) \<and> gen_of (cb_data (?put j c)) = gen_of (cb_data c)"
      using Cons.prems assms(2) by (intro data_putGen_ok)
    then show ?case using Cons.IH[of "?put j c"] Cons.prems same_world_trans[of c "?put j c"] by (auto simp: same_world_def)
  qed (simp add: same_world_refl)
  from this[of "[0..<(length buf + cs - 1) div cs]" c] show ?thesis using assms(1,5) by (simp add: cache_span_def list_all_iff)
qed

text \<open>An inner backend whose reads return the content of the file and change nothing: what \<^verbatim>\<open>Read\<close> of the interface promises, short only at the end of the file.\<close>

definition reads_content :: "('h, 'i) Backend \<Rightarrow> ('i \<Rightarrow> path \<Rightarrow> bytes) \<Rightarrow> 'h FileHandle \<Rightarrow> path \<Rightarrow> bool" where
  "reads_content be files h p \<longleftrightarrow> (\<forall>off n i. be_Read be h off n i = ((take n (drop off (files i p)), FS_OK), i))"

lemma read_step_eq:
  fixes acc f :: bytes
  assumes "w \<le> n - length acc" and "length (take w (drop (off + length acc) f)) = w"
  shows "(acc @ take w (drop (off + length acc) f)) @ take (n - length (acc @ take w (drop (off + length acc) f))) (drop (off + length (acc @ take w (drop (off + length acc) f))) f) =
    acc @ take (n - length acc) (drop (off + length acc) f)"
proof -
  have l: "length (acc @ take w (drop (off + length acc) f)) = length acc + w" using assms(2) by simp
  have "take (n - length acc) (drop (off + length acc) f) = take w (drop (off + length acc) f) @ take (n - length acc - w) (drop w (drop (off + length acc) f))"
    using assms(1) by (metis le_add_diff_inverse take_add)
  then show ?thesis unfolding l by (simp add: add.commute add.left_commute)
qed

lemma read_loop_hit:
  assumes "length acc < n" and "0 < cs" and "data_get p ((off + length acc) div cs) c = (Some d, c1)"
    and "w = min (n - length acc) (cs - (off + length acc) mod cs)"
  shows "read_loop be cs prefetch p h off n acc c =
    (if length d \<le> (off + length acc) mod cs then ((acc, FS_OK), c1)
     else if length d < cs then ((acc @ take w (drop ((off + length acc) mod cs) d), FS_OK), c1)
     else read_loop be cs prefetch p h off n (acc @ take w (drop ((off + length acc) mod cs) d)) c1)"
  using assms by (subst read_loop.simps) (simp add: Let_def)

lemma read_loop_miss:
  assumes "length acc < n" and "0 < cs" and "data_get p ((off + length acc) div cs) c = (None, c1)" and "data_currentGen p c1 = (gen, c2)"
    and "inner_call (be_Read be h ((off + length acc) div cs * cs) ((if prefetch then prefetchSpanChunks else 1) * cs)) c2 = ((buf, FS_OK), c3)"
    and "w = min (n - length acc) (cs - (off + length acc) mod cs)" and "c4 = cache_span cs p ((off + length acc) div cs) gen buf c3"
  shows "read_loop be cs prefetch p h off n acc c =
    (if buf = [] then ((acc, FS_OK), c3)
     else if length (take cs buf) \<le> (off + length acc) mod cs then ((acc, FS_OK), c4)
     else if length (take cs buf) < cs then ((acc @ take w (drop ((off + length acc) mod cs) (take cs buf)), FS_OK), c4)
     else read_loop be cs prefetch p h off n (acc @ take w (drop ((off + length acc) mod cs) (take cs buf))) c4)"
  using assms by (subst read_loop.simps) (simp add: Let_def)

text \<open>One turn that serves the chunk at the position, wherever the chunk came from.\<close>

lemma serve_chunk:
  fixes acc f :: bytes
  assumes "length acc < n" and "0 < cs" and "x = off + length acc" and "w = min (n - length acc) (cs - x mod cs)" and "d = chunk_of cs f (x div cs)"
    and "\<And>acc'. length acc < length acc' \<Longrightarrow> \<exists>c'. rec acc' = ((acc' @ take (n - length acc') (drop (off + length acc') f), FS_OK), c') \<and> good c'"
    and "good c1"
  shows "\<exists>c'. (if length d \<le> x mod cs then ((acc, FS_OK), c1)
      else if length d < cs then ((acc @ take w (drop (x mod cs) d), FS_OK), c1) else rec (acc @ take w (drop (x mod cs) d))) =
      ((acc @ take (n - length acc) (drop x f), FS_OK), c') \<and> good c'"
proof -
  have t: "take w (drop (x mod cs) d) = take w (drop x f)" using slice_part[of w cs x f] assms(4,5) by simp
  consider "length d \<le> x mod cs" | "x mod cs < length d" "length d < cs" | "x mod cs < length d" "\<not> length d < cs" by linarith
  then show ?thesis
  proof cases
    case 1
    then show ?thesis using slice_eof[OF assms(2)] assms(5,7) by auto
  next
    case 2
    have "length (chunk_of cs f (x div cs)) < cs" using 2(2) assms(5) by simp
    then have "take w (drop x f) = take (n - length acc) (drop x f)" using slice_short[OF assms(2)] assms(4) by blast
    then show ?thesis using 2 t assms(7) by auto
  next
    case 3
    have "0 < w" using assms(1,2,4) by simp
    moreover have "length (take w (drop (x mod cs) d)) = w" using 3 assms(4) by simp
    ultimately have l: "length (take w (drop x f)) = w" "length acc < length (acc @ take w (drop x f))" using t by simp_all
    have "w \<le> n - length acc" using assms(4) by simp
    then show ?thesis using assms(6)[OF l(2)] read_step_eq[of w n acc off f] l(1) t 3 assms(3) by auto
  qed
qed

lemma read_loop_content:
  assumes "reads_content be files h p" and "0 < cs" and "path_ok p" and "coherent H cs (files (cb_inner c)) c"
  shows "\<exists>c'. read_loop be cs prefetch p h off n acc c = ((acc @ take (n - length acc) (drop (off + length acc) (files (cb_inner c) p)), FS_OK), c') \<and>
    coherent H cs (files (cb_inner c)) c' \<and> same_world c c'"
  using assms(4)
proof (induction "n - length acc" arbitrary: acc c rule: less_induct)
  case less
  let ?x = "off + length acc" and ?F = "files (cb_inner c)"
  show ?case
  proof (cases "length acc < n")
    case False
    then show ?thesis using less(2) same_world_refl by (subst read_loop.simps) simp
  next
    case True
    obtain r c1 where g: "data_get p (?x div cs) c = (r, c1)" by fastforce
    note d1 = data_get_ok[OF less(2) assms(3) g]
    have rec: "\<exists>c'. read_loop be cs prefetch p h off n acc' c2 = ((acc' @ take (n - length acc') (drop (off + length acc') (?F p)), FS_OK), c') \<and>
        coherent H cs ?F c' \<and> same_world c c'"
      if "length acc < length acc'" "coherent H cs ?F c2" "same_world c c2" for acc' c2
    proof -
      have "n - length acc' < n - length acc" "cb_inner c2 = cb_inner c" using True that by (auto simp: same_world_def)
      then show ?thesis using less(1)[of acc' c2] that same_world_trans[OF that(3)] by metis
    qed
    show ?thesis
    proof (cases r)
      case (Some d)
      then have e: "data_get p (?x div cs) c = (Some d, c1)" "d = chunk_of cs (?F p) (?x div cs)" using g d1 by (auto simp: content_def Let_def split: if_splits)
      show ?thesis unfolding read_loop_hit[OF True assms(2) e(1) refl]
        by (rule serve_chunk[where good = "\<lambda>c'. coherent H cs ?F c' \<and> same_world c c'" and rec = "\<lambda>a. read_loop be cs prefetch p h off n a c1",
              OF True assms(2) refl refl e(2)]) (use rec d1 in auto)
    next
      case None
      then have g': "data_get p (?x div cs) c = (None, c1)" using g by simp
      obtain gen c2 where cg: "data_currentGen p c1 = (gen, c2)" by fastforce
      have c2: "coherent H cs ?F c2" "same_world c c2" "cb_persistent c2 \<longrightarrow> gen \<le> gen_of (cb_data c2) p"
        using data_currentGen_ok[OF conjunct1[OF d1] cg] d1 same_world_trans[of c c1 c2] by blast+
      define m where "m = (if prefetch then prefetchSpanChunks else 1)"
      define buf where "buf = take (m * cs) (drop (?x div cs * cs) (?F p))"
      have m: "1 \<le> m" by (simp add: m_def prefetchSpanChunks_def)
      have "inner_call (be_Read be h (?x div cs * cs) ((if prefetch then prefetchSpanChunks else 1) * cs)) c2 = ((buf, FS_OK), c2)"
        using assms(1) c2(2) by (simp add: reads_content_def inner_call_def same_world_def buf_def m_def)
      note eq = read_loop_miss[OF True assms(2) g' cg this refl refl]
      have served: "take cs buf = chunk_of cs (?F p) (?x div cs)"
        using m by (cases m) (simp_all add: buf_def chunk_of_def min_def)
      have c4: "coherent H cs ?F (cache_span cs p (?x div cs) gen buf c2)" "same_world c (cache_span cs p (?x div cs) gen buf c2)"
        using cache_span_ok[OF c2(1) assms(3,2) buf_def c2(3)] same_world_trans[OF c2(2)] by blast+
      show ?thesis
      proof (cases "buf = []")
        case True
        then have "drop ?x (?F p) = []" using served slice_eof[OF assms(2), of "?F p" ?x] by simp
        then show ?thesis using eq True c2 by auto
      next
        case False
        show ?thesis unfolding eq if_not_P[OF False]
          by (rule serve_chunk[where good = "\<lambda>c'. coherent H cs ?F c' \<and> same_world c c'" and
                rec = "\<lambda>a. read_loop be cs prefetch p h off n a (cache_span cs p (?x div cs) gen buf c2)",
              OF True assms(2) refl refl served]) (use rec c4 in auto)
      qed
    qed
  qed
qed

section \<open>Invalidation keeps coherence\<close>

definition kept :: "(bytes \<Rightarrow> bytes) \<times> bytes set \<times> nat \<Rightarrow> nat \<Rightarrow> (path \<Rightarrow> bytes) \<Rightarrow> 'i Cache \<Rightarrow> 'i Cache \<Rightarrow> bool" where
  "kept H cs F c c' \<longleftrightarrow> (coherent H cs F c \<longrightarrow> coherent H cs F c') \<and> same_world c c'"

lemma kept_refl: "kept H cs F c c"
  by (simp add: kept_def same_world_refl)

lemma kept_trans [trans]: "kept H cs F a b \<Longrightarrow> kept H cs F b c \<Longrightarrow> kept H cs F a c"
  using same_world_trans by (auto simp: kept_def)

lemma kept_remove: "kept H cs F c (st_remove k c)"
  using st_remove_coherent[of H cs F c k] by (auto simp: kept_def same_world_def st_remove_def store_remove_def)

lemma kept_fold_remove: "kept H cs F c (fold st_remove ks c)"
  by (induction ks arbitrary: c) (auto simp: kept_refl intro: kept_trans kept_remove)

lemma kept_small: "kept H cs F c (getxattr_invalidate p c)" "kept H cs F c (access_invalidate p c)" "kept H cs F c (getxattr_invalidatePrefix p c)"
  "kept H cs F c (access_invalidatePrefix p c)" "kept H cs F c (disk_removePrefix sid p c)"
  by (simp_all add: kept_def coherent_def same_world_def getxattr_invalidate_def access_invalidate_def getxattr_invalidatePrefix_def access_invalidatePrefix_def disk_removePrefix_def)

lemma kept_put: "fst k \<noteq> ''data'' \<Longrightarrow> kept H cs F c (st_put k v c)"
  using st_put_coherent[of H cs F c k v] st_put_world[of c k v] by (simp add: kept_def)

lemma kept_matching: "kept H cs F c (st_removeMatching sid P c)"
  by (simp add: st_removeMatching_def kept_fold_remove)

text \<open>The disk half: an invalidation only drops entries of the index, and moves the generation of its file.\<close>

lemma outcome_spec:
  assumes "gens_ok st"
  shows "gens_ok (clean_outcome b ok p st) \<and> gen_of st q \<le> gen_of (clean_outcome b ok p st) q"
  using assms gen_of_le[OF assms, of q] by (auto simp: clean_outcome_def gens_ok_def gen_of_def gm_get_del split: option.splits if_splits)

lemma outcome_frame: "dd_disk (clean_outcome b ok p st) = dd_disk st" "dd_queue (clean_outcome b ok p st) = dd_queue st"
  by (simp_all add: clean_outcome_def)

lemma cleaned_drops:
  assumes "p_inv (dd_disk st) \<longrightarrow> p_shrinks (dd_disk st) d"
  shows "disk_drops st (clean_outcome b ok p ((bumpGen p st)\<lparr>dd_disk := d\<rparr>)) \<and>
    (gens_ok st \<longrightarrow> gen_of st p < gen_of (clean_outcome b ok p ((bumpGen p st)\<lparr>dd_disk := d\<rparr>)) p)"
proof -
  let ?b = "(bumpGen p st)\<lparr>dd_disk := d\<rparr>"
  have q: "dd_queue ?b = dd_queue st" by (simp add: bumpGen_def curGen_def gen_publish_def split: option.splits)
  have g: "gens_ok st \<Longrightarrow> gens_ok ?b \<and> gen_of st p < gen_of ?b p \<and> gen_of st r \<le> gen_of ?b r" for r
    using bumpGen_spec[of st p r] by (simp add: gens_ok_def gen_of_def)
  show ?thesis using assms q g outcome_spec[of ?b b ok p] unfolding disk_drops_def outcome_frame
    by (simp add: q) (meson le_trans order_less_le_trans)
qed

lemma persistCleaner_drops: "disk_drops st (persistCleaner f p st)"
proof -
  obtain ok d where i: "InvalidatePathChunks f p (dd_disk (bumpGen p st)) = (ok, d)" by fastforce
  have "dd_disk (bumpGen p st) = dd_disk st" by (simp add: bumpGen_def curGen_def gen_publish_def split: option.splits)
  then have "p_inv (dd_disk st) \<longrightarrow> p_shrinks (dd_disk st) d" using InvalidatePathChunks_shrinks[OF _ i] by simp
  then show ?thesis using cleaned_drops[of st d True ok p] i by (simp add: persistCleaner_def clean_path_disk_def)
qed

lemma persistRangeCleaner_drops:
  "disk_drops st (persistRangeCleaner f p lo hi st) \<and> (gens_ok st \<longrightarrow> gen_of st p < gen_of (persistRangeCleaner f p lo hi st) p)"
proof -
  obtain ok d where i: "InvalidateChunkRange f p lo hi (dd_disk (bumpGen p st)) = (ok, d)" by fastforce
  have "dd_disk (bumpGen p st) = dd_disk st" by (simp add: bumpGen_def curGen_def gen_publish_def split: option.splits)
  then have "p_inv (dd_disk st) \<longrightarrow> p_shrinks (dd_disk st) d" using InvalidateChunkRange_shrinks[OF _ i] by simp
  then show ?thesis using cleaned_drops[of st d False ok p] i by (simp add: persistRangeCleaner_def clean_range_disk_def)
qed

lemma kept_cleaned: "disk_drops (cb_data c) d \<Longrightarrow> kept H cs F c (c\<lparr>cb_data := d\<rparr>)"
  using with_data_coherent[of H cs F c d] by (simp add: kept_def same_world_def)

lemma kept_data_path: "kept H cs F c (data_invalidatePath p c)"
proof -
  let ?c = "st_removeMatching ''data'' (prefix (p @ [CHR 0x00])) c"
  have "kept H cs F ?c (?c\<lparr>cb_data := persistCleaner (cb_faults ?c) p (cb_data ?c)\<rparr>)" by (rule kept_cleaned) (rule persistCleaner_drops)
  moreover have k: "kept H cs F c ?c" by (rule kept_matching)
  ultimately show ?thesis using kept_trans[OF k] by (simp add: data_invalidatePath_def Let_def)
qed

lemma kept_data_range: "kept H cs F c (data_invalidateRange p off sz c)"
proof -
  let ?lo = "off div cf_ChunkSizeBytes (cb_cfg c)" and ?hi = "(off + sz - 1) div cf_ChunkSizeBytes (cb_cfg c)"
  let ?c = "fold (\<lambda>i. st_remove (''data'', chunkKey p i)) [?lo..<Suc ?hi] c"
  have f: "kept H cs F c ?c"
    using kept_fold_remove[of H cs F c "map (\<lambda>i. (''data'', chunkKey p i)) [?lo..<Suc ?hi]"] by (simp only: fold_map comp_def)
  have "kept H cs F ?c (?c\<lparr>cb_data := persistRangeCleaner (cb_faults ?c) p ?lo ?hi (cb_data ?c)\<rparr>)" by (rule kept_cleaned) (simp add: persistRangeCleaner_drops)
  then show ?thesis using kept_trans[OF f] f by (simp add: data_invalidateRange_def Let_def kept_refl)
qed

lemma kept_attr: "kept H cs F c (attr_invalidate p c)" and kept_dir: "kept H cs F c (dir_invalidate p c)" and kept_xattr: "kept H cs F c (xattr_invalidate p c)"
  by (simp_all add: attr_invalidate_def dir_invalidate_def xattr_invalidate_def kept_remove)

lemma kept_negative: "kept H cs F c (attr_putNegative p c)" and kept_positive: "kept H cs F c (attr_putPositive p a c)"
  by (simp_all add: attr_putNegative_def attr_putPositive_def kept_put)

lemmas kept_steps = kept_trans[OF _ kept_attr] kept_trans[OF _ kept_dir] kept_trans[OF _ kept_xattr] kept_trans[OF _ kept_small(1)]
  kept_trans[OF _ kept_small(2)] kept_trans[OF _ kept_small(3)] kept_trans[OF _ kept_small(4)] kept_trans[OF _ kept_small(5)]
  kept_trans[OF _ kept_data_path] kept_trans[OF _ kept_data_range] kept_trans[OF _ kept_matching] kept_trans[OF _ kept_negative] kept_trans[OF _ kept_positive]

lemma kept_subtree: "kept H cs F c (invalidateSubtree p c)"
  unfolding invalidateSubtree_def comp_def attr_invalidatePrefix_def dir_invalidatePrefix_def data_invalidatePrefix_def xattr_invalidatePrefix_def
  by (intro kept_steps kept_refl)

lemma kept_event_path: "kept H cs F c (invalidatePathAndParent p c)"
  unfolding invalidatePathAndParent_def sub_invalidateAttr_def sub_invalidateXAttr_def Let_def comp_def by (intro kept_steps kept_refl)

lemma kept_event: "kept H cs F c (handle_event ev c)"
  by (cases "ev_Kind ev") (simp_all add: handle_event_def, (intro kept_steps kept_trans[OF _ kept_subtree] kept_trans[OF _ kept_event_path] kept_refl)+)

section \<open>Writes\<close>

text \<open>A write that starts within the file leaves every chunk outside its range as it was.\<close>

lemma chunk_after_write:
  assumes "off \<le> length f" and "0 < cs" and "d \<noteq> []" and "i < off div cs \<or> (off + length d - 1) div cs < i"
  shows "chunk_of cs (write_at off d f) i = chunk_of cs f i"
  using assms(4)
proof
  assume "i < off div cs"
  then have "Suc i * cs \<le> off div cs * cs" by (meson Suc_leI mult_le_mono1)
  moreover have "off div cs * cs \<le> off" by simp
  ultimately have le: "i * cs + cs \<le> off" by (metis add.commute le_trans mult_Suc)
  have "take (i * cs + cs) (write_at off d f) = take (i * cs + cs) f" using assms(1,3) le by (simp add: write_at_def min_def)
  then show ?thesis unfolding chunk_of_def take_drop by (metis add.commute)
next
  assume "(off + length d - 1) div cs < i"
  then have "Suc ((off + length d - 1) div cs) * cs \<le> i * cs" by (meson Suc_leI mult_le_mono1)
  moreover have "off + length d - 1 < Suc ((off + length d - 1) div cs) * cs" using assms(2) by (metis dividend_less_div_times add.commute mult_Suc)
  ultimately have "off + length d \<le> i * cs" by linarith
  then obtain k where k: "i * cs = off + length d + k" using le_Suc_ex by blast
  have "drop (i * cs) (write_at off d f) = drop (i * cs) f" using assms(1,3) by (simp add: write_at_def k add.commute)
  then show ?thesis by (simp add: chunk_of_def)
qed

text \<open>Coherence moves to a new content where the chunks that changed are in neither tier, and queued only with an old generation.\<close>

definition chunk_gone :: "path \<Rightarrow> nat \<Rightarrow> 'i Cache \<Rightarrow> bool" where
  "chunk_gone p i c \<longleftrightarrow> tier_view (cb_tier c) (''data'', chunkKey p i) = None \<and>
     (cb_persistent c \<longrightarrow> gm_get (ps_idx (dd_disk (cb_data c))) (dataIdxKey p i) = None \<and>
        (\<forall>j \<in> set (dd_queue (cb_data c)). jb_path j = p \<longrightarrow> jb_gen j < gen_of (cb_data c) p))"

lemma coherent_transfer:
  assumes "coherent H cs F c" and "\<And>p i. path_ok p \<Longrightarrow> content cs F' (p, i) = content cs F (p, i) \<or> chunk_gone p i c"
    and "cb_persistent c \<longrightarrow> (\<forall>p i. chunk_of cs (F' p) i \<in> fst (snd H))"
  shows "coherent H cs F' c"
proof -
  have m: "mem_ok cs F' (cb_tier c)"
    unfolding mem_ok_def
  proof (intro allI impI)
    fix p i v assume p: "path_ok p" and v: "tier_view (cb_tier c) (''data'', chunkKey p i) = Some v"
    then have "\<not> chunk_gone p i c" by (simp add: chunk_gone_def)
    then show "\<exists>d. v = DataE d \<and> content cs F' (p, i) = Some d" using assms(1,2) p v unfolding coherent_def mem_ok_def by metis
  qed
  have "disk_chunks_ok H cs F' (cb_data c)" if on: "cb_persistent c"
  proof -
    have ok: "disk_chunks_ok H cs F (cb_data c)" using assms(1) on by (simp add: coherent_def)
    have "content cs F' (p, i) = content cs F (p, i)" if "path_ok p" "gm_get (ps_idx (dd_disk (cb_data c))) (dataIdxKey p i) \<noteq> None" for p i
      using assms(2)[OF that(1), of i] that(2) on by (auto simp: chunk_gone_def)
    then have "served_ok (fst H) (fst (snd H)) (dd_disk (cb_data c)) (content cs F')"
      using ok unfolding disk_chunks_ok_def by (blast intro: served_ok_expect)
    moreover have "job_fits cs F' (cb_data c) j" if j: "j \<in> set (dd_queue (cb_data c))" for j
    proof -
      have f: "job_fits cs F (cb_data c) j" using ok j by (simp add: disk_chunks_ok_def)
      show ?thesis
      proof (cases "chunk_gone (jb_path j) (jb_idx j) c")
        case True
        then show ?thesis using f j on unfolding chunk_gone_def job_fits_def by fastforce
      next
        case False
        then show ?thesis using f assms(2)[of "jb_path j" "jb_idx j"] by (auto simp: job_fits_def)
      qed
    qed
    ultimately show ?thesis using ok assms(3) on unfolding disk_chunks_ok_def by blast
  qed
  then show ?thesis using assms(1) m by (simp add: coherent_def)
qed

lemma unlink_no_faults: "fst (unlink_all no_faults hs s) = True"
proof (induction hs arbitrary: s)
  case (Cons h hs)
  have "fst (unlinkChunk no_faults h s) = True" by (simp add: unlinkChunk_def no_faults_def split: option.splits)
  then show ?case using Cons by (cases "unlinkChunk no_faults h s") simp
qed simp

lemma range_clean_gone:
  assumes "p_inv s" and "InvalidateChunkRange no_faults p lo hi s = (ok, s')" and "lo \<le> i" and "i \<le> hi"
  shows "gm_get (ps_idx s') (dataIdxKey p i) = None"
proof -
  obtain t where t: "range_tx p [lo..<Suc hi] (tx_begin s) = Some t" using range_tx_shrinks begin_exact[OF assms(1)] by blast
  have "ok" using assms(2) t unlink_no_faults[of "tx_unlink t" "tx_commit t s"]
    by (auto simp: InvalidateChunkRange_def no_faults_def finish_drop_def Let_def split: if_splits)
  then show ?thesis using InvalidateChunkRange_shrinks[OF assms(1,2)] assms(3,4) by blast
qed

lemma fold_remove_view: "tier_view (cb_tier (fold st_remove ks c)) k = (if k \<in> set ks then None else tier_view (cb_tier c) k)"
  by (induction ks arbitrary: c) (auto simp: remove_frame)

lemma fold_remove_data: "cb_data (fold st_remove ks c) = cb_data c"
  by (induction ks arbitrary: c) (auto simp: st_remove_def store_remove_def)

text \<open>After the invalidation of a written range, with a disk tier that does not fail, the chunks of the range are gone.\<close>

lemma range_gone:
  assumes "coherent H cs F c" and "cs = cf_ChunkSizeBytes (cb_cfg c)" and "cb_faults c = no_faults" and "0 < sz"
    and "off div cs \<le> i" and "i \<le> (off + sz - 1) div cs"
  shows "chunk_gone p i (data_invalidateRange p off sz c)"
proof -
  let ?lo = "off div cs" and ?hi = "(off + sz - 1) div cs"
  let ?ks = "map (\<lambda>i. (''data'', chunkKey p i)) [?lo..<Suc ?hi]"
  let ?c = "fold st_remove ?ks c"
  have e: "data_invalidateRange p off sz c =
      (if cb_persistent ?c then ?c\<lparr>cb_data := persistRangeCleaner (cb_faults ?c) p ?lo ?hi (cb_data ?c)\<rparr> else ?c)"
    using assms(2,4) by (simp only: data_invalidateRange_def Let_def fold_map comp_def) simp
  have k: "(''data'', chunkKey p i) \<in> set ?ks" using assms(5,6) by (auto simp del: upt_Suc)
  have v: "tier_view (cb_tier ?c) (''data'', chunkKey p i) = None" unfolding fold_remove_view using k by simp
  have d: "cb_data ?c = cb_data c" by (rule fold_remove_data)
  have w: "cb_persistent ?c = cb_persistent c" "cb_faults ?c = no_faults"
    using kept_fold_remove[of H cs F c ?ks] assms(3) by (simp_all add: kept_def same_world_def)
  show ?thesis
  proof (cases "cb_persistent c")
    case False
    then show ?thesis unfolding e using v w by (simp add: chunk_gone_def)
  next
    case True
    let ?st = "cb_data c" and ?st' = "persistRangeCleaner no_faults p ?lo ?hi (cb_data c)"
    have ok: "disk_chunks_ok H cs F ?st" using assms(1) True by (simp add: coherent_def)
    obtain r s' where i: "InvalidateChunkRange no_faults p ?lo ?hi (dd_disk (bumpGen p ?st)) = (r, s')" by fastforce
    have b: "dd_disk (bumpGen p ?st) = dd_disk ?st" by (simp add: bumpGen_def curGen_def gen_publish_def split: option.splits)
    have s': "dd_disk ?st' = s'" using i by (simp add: persistRangeCleaner_def clean_range_disk_def outcome_frame)
    have x: "gm_get (ps_idx s') (dataIdxKey p i) = None" using range_clean_gone[OF _ i assms(5,6)] ok b by (simp add: disk_chunks_ok_def)
    have "disk_drops ?st ?st'" "gen_of ?st p < gen_of ?st' p" using persistRangeCleaner_drops[of ?st no_faults p ?lo ?hi] ok by (simp_all add: disk_chunks_ok_def)
    then have "\<forall>j \<in> set (dd_queue ?st'). jb_path j = p \<longrightarrow> jb_gen j < gen_of ?st' p"
      using ok by (auto simp: disk_drops_def disk_chunks_ok_def job_fits_def)
    then show ?thesis unfolding e using v w d x s' True by (simp add: chunk_gone_def)
  qed
qed

text \<open>The optimistic update of the cached attributes does not touch chunks.\<close>

lemma bumpSize_ok:
  assumes "coherent H cs F c" and "bumpSize p n c = (b, c')" shows "coherent H cs F c' \<and> same_world c c'"
proof -
  obtain r c1 where g: "st_get (''attr'', p) c = (r, c1)" by fastforce
  have s: "coherent H cs F c1" "same_world c c1" using st_get_coherent[OF assms(1) g] by (simp_all add: same_world_def)
  have "kept H cs F c1 (st_put (''attr'', p) v c1)" for v by (rule kept_put) simp
  then have "coherent H cs F (st_put (''attr'', p) v c1) \<and> same_world c (st_put (''attr'', p) v c1)" for v
    using s same_world_trans[OF s(2)] by (simp add: kept_def)
  then show ?thesis using assms(2) s g
    by (auto simp: bumpSize_def attr_update_def split: prod.splits option.splits cvalue.splits)
qed

lemma grown_ok:
  assumes "coherent H cs F c" and "cs = cf_ChunkSizeBytes (cb_cfg c)" and "0 < cs" and "cb_faults c = no_faults" and "off \<le> length (F p)" and "path_ok p"
    and "F' = F(p := write_at off d (F p))" and "cb_persistent c \<longrightarrow> (\<forall>q i. chunk_of cs (F' q) i \<in> fst (snd H))"
  shows "coherent H cs F' (grown p off (length d) n c) \<and> same_world c (grown p off (length d) n c)"
proof -
  let ?c = "data_invalidateRange p off (length d) c"
  have k: "coherent H cs F ?c" "same_world c ?c" using kept_data_range[of H cs F c p off "length d"] assms(1) by (simp_all add: kept_def)
  have "content cs F' (q, i) = content cs F (q, i) \<or> chunk_gone q i ?c" if "path_ok q" for q i
  proof (cases "d = [] \<or> q \<noteq> p \<or> i < off div cs \<or> (off + length d - 1) div cs < i")
    case True
    then have "chunk_of cs (F' q) i = chunk_of cs (F q) i" using chunk_after_write[OF assms(5,3), of d i] assms(7) by (auto simp: write_at_def)
    then show ?thesis by (simp add: content_def)
  next
    case False
    then show ?thesis using range_gone[OF assms(1,2,4), of "length d" off i p] by auto
  qed
  then have "coherent H cs F' ?c" using coherent_transfer[OF k(1), of F'] assms(8) k(2) by (simp add: same_world_def)
  then have t: "bumpSize p n ?c = (b, c') \<Longrightarrow> coherent H cs F' c' \<and> same_world ?c c'" for b c' by (rule bumpSize_ok)
  have v: "coherent H cs F' (c'\<lparr>cb_validity := x\<rparr>) = coherent H cs F' c'" "same_world c (c'\<lparr>cb_validity := x\<rparr>) = same_world c c'" for c' :: "'a Cache" and x
    by (simp_all add: coherent_def same_world_def)
  show ?thesis using t same_world_trans[OF k(2)] unfolding grown_def by (auto simp: v split: prod.splits)
qed

section \<open>The write-back worker\<close>

lemma content_in: "disk_chunks_ok H cs F st \<Longrightarrow> content cs F x = Some d \<Longrightarrow> d \<in> fst (snd H)"
  by (auto simp: disk_chunks_ok_def content_def Let_def split: if_splits)

lemma onPersist_ok:
  assumes "disk_chunks_ok (hash, D, n + 2) cs F st" and "job_fits cs F st j"
  shows "disk_chunks_ok (hash, D, n) cs F (onPersist hash f now j st) \<and> gen_of (onPersist hash f now j st) = gen_of st \<and>
    dd_queue (onPersist hash f now j st) = dd_queue st"
proof -
  obtain mv st1 where m: "gen_moved j st = (mv, st1)" by fastforce
  note ms = gen_moved_spec[OF m]
  note p = assms(1)[unfolded disk_chunks_ok_def, simplified]
  have frame: "disk_chunks_ok (hash, D, n) cs F st'" if "p_inv (dd_disk st')" "length (ps_idx (dd_disk st')) + n < 2 ^ 64"
    "served_ok hash D (dd_disk st') (content cs F)" "gens_ok st'" "gen_of st' = gen_of st" "dd_queue st' = dd_queue st" for st'
    using p that by (simp add: disk_chunks_ok_def job_fits_def)
  show ?thesis
  proof (cases mv)
    case True
    then have "onPersist hash f now j st = st1" using m by (simp add: onPersist_def)
    then show ?thesis using frame[of st1] ms p by simp
  next
    case False
    let ?e = "content cs F" and ?d = "jb_data j" and ?s = "dd_disk st"
    have c: "?e (jb_path j, jb_idx j) = Some ?d" "path_ok (jb_path j)" using assms(2) ms False by (simp_all add: job_fits_def)
    have D: "?d \<in> D" using content_in[OF assms(1) c(1)] by simp
    obtain h dup ok s1 where w: "WriteChunk hash f now ?d ?s = ((h, dup, ok), s1)" by (metis prod_cases3 prod.collapse)
    have cf: "collision_free hash D" "p_inv ?s" "served_ok hash D ?s ?e" "length (ps_idx ?s) + 1 < 2 ^ 64" using p by simp_all
    have s1: "p_inv s1" "length (ps_idx s1) \<le> Suc (length (ps_idx ?s))" "served_ok hash D s1 ?e"
      using disk_step_ok[OF cf(2,3,1) _ cf(4), of "(f, now, DWrite ?d)" ok s1] D w by simp_all
    obtain ok2 s2 where r: "PutChunkRef f (jb_path j) (jb_idx j) (chunk_ref hash ?d) s1 = (ok2, s2)" by fastforce
    have l1: "length (ps_idx s1) + 1 < 2 ^ 64" using s1(2) p by simp
    have x: "(if pf_update f then ?e else ?e((jb_path j, jb_idx j) \<mapsto> ?d)) = ?e" using c(1) by (simp add: fun_upd_idem)
    have s2: "p_inv s2" "length (ps_idx s2) \<le> Suc (length (ps_idx s1))" "served_ok hash D s2 ?e"
      using disk_step_ok[OF s1(1,3) cf(1) _ l1, of "(f, now, DRef (jb_path j) (jb_idx j) ?d)" ok2 s2] D c(2) r x by simp_all
    let ?st2 = "st1\<lparr>dd_disk := s1\<rparr>" and ?st3 = "st1\<lparr>dd_disk := s2\<rparr>"
    have g: "gen_of ?st2 = gen_of st" "gen_of ?st3 = gen_of st" "gens_ok ?st2" "gens_ok ?st3" using ms p by (simp_all add: gen_of_def gens_ok_def fun_eq_iff)
    obtain mv2 st4 where m2: "gen_moved j ?st3 = (mv2, st4)" by fastforce
    note ms2 = gen_moved_spec[OF m2]
    have nm: "\<not> mv2" using ms2 ms g(2) False by simp
    have "onPersist hash f now j st = (if \<not> ok then ?st2 else if \<not> ok2 then ?st3 else st4)"
      using m False w r m2 nm ms by (simp add: onPersist_def persist_write_def persist_ref_def)
    then show ?thesis using frame[of ?st2] frame[of ?st3] frame[of st4] s1 s2 g ms ms2 p by simp
  qed
qed

lemma persistWorker_ok:
  assumes "disk_chunks_ok (hash, D, n + 2 * length js) cs F (st\<lparr>dd_queue := []\<rparr>)" and "\<forall>j \<in> set js. job_fits cs F st j" and "length js \<le> dataPersistQueueDepth"
  shows "disk_chunks_ok (hash, D, n) cs F (persistWorker hash f now js st)"
  using assms
proof (induction js arbitrary: st)
  case (Cons j js)
  let ?st = "st\<lparr>dd_queue := js\<rparr>"
  have g: "gen_of ?st = gen_of st" "gen_of (st\<lparr>dd_queue := []\<rparr>) = gen_of st" by (simp_all add: gen_of_def fun_eq_iff)
  have "disk_chunks_ok (hash, D, n + 2 * length js + 2) cs F ?st"
    using Cons.prems g by (simp add: disk_chunks_ok_def job_fits_def gens_ok_def)
  then have o: "disk_chunks_ok (hash, D, n + 2 * length js) cs F (onPersist hash f now j ?st) \<and> gen_of (onPersist hash f now j ?st) = gen_of ?st"
    using onPersist_ok[of hash D "n + 2 * length js" cs F ?st j f now] Cons.prems(2) g by (simp add: job_fits_def)
  then have "disk_chunks_ok (hash, D, n + 2 * length js) cs F ((onPersist hash f now j ?st)\<lparr>dd_queue := []\<rparr>)"
    by (simp add: disk_chunks_ok_def gens_ok_def)
  then show ?case using Cons.IH[of "onPersist hash f now j ?st"] Cons.prems o g by (simp add: job_fits_def)
qed simp

section \<open>Runs\<close>

text \<open>
  What the layer relies on for an open file: the inner backend reads and writes the content of the file, and knows the file
  when the cache asks for its version.
\<close>

definition serves :: "('h, 'i) Backend \<Rightarrow> ('i \<Rightarrow> path \<Rightarrow> bytes) \<Rightarrow> 'h FileHandle \<Rightarrow> path \<Rightarrow> bool" where
  "serves be files h p \<longleftrightarrow> path_ok p \<and> reads_content be files h p \<and>
     (\<forall>off d i. fst (be_Write be h off d i) = Inr (length d) \<and> files (snd (be_Write be h off d i)) = (files i)(p := write_at off d (files i p))) \<and>
     (\<forall>v i. snd (be_GetAttrIfChanged be p v i) = i \<and> fst (be_GetAttrIfChanged be p v i) \<noteq> Inl FS_ENOENT)"

text \<open>Calls of the application, events of the server, turns of the write-back worker, changes of trust and the clock, in any order.\<close>

datatype 'h cop =
    CRead nat path "'h FileHandle" nat nat
  | CWrite nat path "'h FileHandle" nat bytes
  | CEvent Event
  | CWorker faults int
  | CTrust validityTracker
  | CClock int

datatype cres = RBytes "bytes \<times> FsError" | RCount "FsError + nat" | RNone

definition run_worker :: "(bytes \<Rightarrow> bytes) \<Rightarrow> faults \<Rightarrow> int \<Rightarrow> 'i Cache \<Rightarrow> 'i Cache" where
  "run_worker hash f now c = (if cb_persistent c then c\<lparr>cb_data := persistWorker hash f now (dd_queue (cb_data c)) (cb_data c)\<rparr> else c)"

fun cached_step :: "(bytes \<Rightarrow> bytes) \<Rightarrow> ('h, 'i) Backend \<Rightarrow> (path \<Rightarrow> bool) \<Rightarrow> 'h cop \<Rightarrow> 'i Cache \<Rightarrow> (cres \<times> 'i Cache) option" where
  "cached_step hash be dg (CRead k p h off n) c = map_option (map_prod RBytes id) (cb_Read be dg (CachedHandle k p h) off n c)"
| "cached_step hash be dg (CWrite k p h off d) c = Some (map_prod RCount id (cb_Write be (CachedHandle k p h) off d c))"
| "cached_step hash be dg (CEvent ev) c = Some (RNone, handle_event ev c)"
| "cached_step hash be dg (CWorker f now) c = Some (RNone, run_worker hash f now c)"
| "cached_step hash be dg (CTrust v) c = Some (RNone, c\<lparr>cb_validity := v\<rparr>)"
| "cached_step hash be dg (CClock now) c = Some (RNone, c\<lparr>cb_now := now\<rparr>)"

fun cached_run :: "(bytes \<Rightarrow> bytes) \<Rightarrow> ('h, 'i) Backend \<Rightarrow> (path \<Rightarrow> bool) \<Rightarrow> 'h cop list \<Rightarrow> 'i Cache \<Rightarrow> (cres list \<times> 'i Cache) option" where
  "cached_run hash be dg [] c = Some ([], c)"
| "cached_run hash be dg (x # xs) c =
    (case cached_step hash be dg x c of
       None \<Rightarrow> None
     | Some (r, c1) \<Rightarrow> map_option (\<lambda>(rs, c2). (r # rs, c2)) (cached_run hash be dg xs c1))"

text \<open>The same calls without a cache.\<close>

fun direct_step :: "('h, 'i) Backend \<Rightarrow> 'h cop \<Rightarrow> 'i \<Rightarrow> cres \<times> 'i" where
  "direct_step be (CRead k p h off n) i = map_prod RBytes id (be_Read be h off n i)"
| "direct_step be (CWrite k p h off d) i = map_prod RCount id (be_Write be h off d i)"
| "direct_step be _ i = (RNone, i)"

fun direct_run :: "('h, 'i) Backend \<Rightarrow> 'h cop list \<Rightarrow> 'i \<Rightarrow> cres list \<times> 'i" where
  "direct_run be [] i = ([], i)"
| "direct_run be (x # xs) i = (case direct_step be x i of (r, i1) \<Rightarrow> case direct_run be xs i1 of (rs, i2) \<Rightarrow> (r # rs, i2))"

text \<open>Files are open at the backend, writes start within the file, and the chunks of all contents are among those the hash tells apart.\<close>

fun step_fits :: "('h, 'i) Backend \<Rightarrow> ('i \<Rightarrow> path \<Rightarrow> bytes) \<Rightarrow> 'h cop \<Rightarrow> 'i \<Rightarrow> bool" where
  "step_fits be files (CRead k p h off n) i = serves be files h p"
| "step_fits be files (CWrite k p h off d) i = (serves be files h p \<and> off \<le> length (files i p))"
| "step_fits be files _ i = True"

fun run_fits :: "('h, 'i) Backend \<Rightarrow> ('i \<Rightarrow> path \<Rightarrow> bytes) \<Rightarrow> bytes set \<Rightarrow> nat \<Rightarrow> 'h cop list \<Rightarrow> 'i \<Rightarrow> bool" where
  "run_fits be files D cs [] i = (\<forall>p j. chunk_of cs (files i p) j \<in> D)"
| "run_fits be files D cs (x # xs) i =
    ((\<forall>p j. chunk_of cs (files i p) j \<in> D) \<and> step_fits be files x i \<and> run_fits be files D cs xs (snd (direct_step be x i)))"

lemma attr_get_ok:
  assumes "coherent H cs F c" and "attr_get p c = (r, c')" shows "coherent H cs F c' \<and> same_world c c'"
proof -
  obtain v c1 where g: "st_get (''attr'', p) c = (v, c1)" by fastforce
  have s: "coherent H cs F c1" "same_world c c1" using st_get_coherent[OF assms(1) g] by (simp_all add: same_world_def)
  have k: "kept H cs F c1 (st_remove (''attr'', p) c1)" by (rule kept_remove)
  then have "c' = c1 \<or> c' = st_remove (''attr'', p) c1" using assms(2) g by (auto simp: attr_get_def Let_def split: option.splits cvalue.splits if_splits)
  then show ?thesis using s k same_world_trans[OF s(2)] by (auto simp: kept_def)
qed

lemma revalidate_ok:
  assumes "coherent H cs F c" and "serves be files h p" and "revalidate be p ver c = (r, c')"
  shows "coherent H cs F c' \<and> same_world c c' \<and> r \<noteq> REnoent"
proof -
  let ?flush = "\<lambda>c. dir_invalidate (pathParent p) (data_invalidatePath p (attr_invalidate p c))"
  have i: "inner_call (be_GetAttrIfChanged be p ver) c = (fst (be_GetAttrIfChanged be p ver (cb_inner c)), c)" "fst (be_GetAttrIfChanged be p ver (cb_inner c)) \<noteq> Inl FS_ENOENT"
  proof -
    have "snd (be_GetAttrIfChanged be p ver (cb_inner c)) = cb_inner c" using assms(2) unfolding serves_def by blast
    then show "inner_call (be_GetAttrIfChanged be p ver) c = (fst (be_GetAttrIfChanged be p ver (cb_inner c)), c)"
      by (cases "be_GetAttrIfChanged be p ver (cb_inner c)") (simp add: inner_call_def)
    show "fst (be_GetAttrIfChanged be p ver (cb_inner c)) \<noteq> Inl FS_ENOENT" using assms(2) unfolding serves_def by blast
  qed
  have "kept H cs F c (?flush c)" by (intro kept_steps kept_refl)
  then have f: "coherent H cs F (?flush c)" "same_world c (?flush c)" using assms(1) by (simp_all add: kept_def)
  have v: "coherent H cs F (c\<lparr>cb_validity := x\<rparr>) = coherent H cs F c" "same_world c (c\<lparr>cb_validity := x\<rparr>)" for x
    by (simp_all add: coherent_def same_world_def)
  show ?thesis
  proof (cases "fst (be_GetAttrIfChanged be p ver (cb_inner c))")
    case (Inl e)
    then show ?thesis using assms(1,3) i same_world_refl[of c] by (auto simp: revalidate_def Let_def)
  next
    case (Inr a)
    then show ?thesis using assms(1,3) i f v by (cases a) (auto simp: revalidate_def Let_def comp_def)
  qed
qed

text \<open>A read through the cache returns what the file holds, whatever the cache trusts.\<close>

lemma cached_read:
  assumes "coherent H cs (files (cb_inner c)) c" and "serves be files h p" and "cs = cf_ChunkSizeBytes (cb_cfg c)" and "0 < cs"
  shows "\<exists>c'. cb_Read be dg (CachedHandle k p h) off n c = Some ((take n (drop off (files (cb_inner c) p)), FS_OK), c') \<and>
    coherent H cs (files (cb_inner c)) c' \<and> same_world c c'"
proof -
  let ?F = "files (cb_inner c)"
  have go: "\<exists>c'. (case recordRead k (off div cs) c1 of (prefetch, c2) \<Rightarrow> Some (read_loop be cs prefetch p h off n [] c2)) =
      Some ((take n (drop off (?F p)), FS_OK), c') \<and> coherent H cs ?F c' \<and> same_world c c'" if c1: "coherent H cs ?F c1" "same_world c c1" for c1
  proof -
    obtain pf c2 where r: "recordRead k (off div cs) c1 = (pf, c2)" by fastforce
    then have c2: "coherent H cs ?F c2" "same_world c1 c2" using c1 by (auto simp: recordRead_def coherent_def same_world_def Let_def split: prod.splits)
    then have w: "same_world c c2" using same_world_trans[OF c1(2)] by blast
    then have "coherent H cs (files (cb_inner c2)) c2" "cb_inner c2 = cb_inner c" using c2(1) by (simp_all add: same_world_def)
    then show ?thesis using read_loop_content[of be files h p cs H c2 pf off n "[]"] assms(2,4) r w same_world_trans[OF w] by (auto simp: serves_def)
  qed
  show ?thesis
  proof (cases "trusted dg p c")
    case True
    then show ?thesis using go[OF assms(1) same_world_refl] assms(3,4) by (simp add: cb_Read_def)
  next
    case False
    obtain r c1 where a: "attr_get p c = (r, c1)" by fastforce
    note k1 = attr_get_ok[OF assms(1) a]
    obtain x c2 where v: "revalidate be p (known_version r) c1 = (x, c2)" by fastforce
    note k2 = revalidate_ok[OF conjunct1[OF k1] assms(2) v]
    have c2: "coherent H cs ?F c2" "same_world c c2" "x \<noteq> REnoent" using k1 k2 same_world_trans by blast+
    have "cf_ChunkSizeBytes (cb_cfg c2) = cs" using c2(2) assms(3) by (simp add: same_world_def)
    then show ?thesis using go[OF c2(1,2)] False a v c2(3) assms(4) by (cases x) (simp_all add: cb_Read_def Let_def)
  qed
qed

lemma coherent_less: "coherent (hash, D, m + k) cs F c \<Longrightarrow> coherent (hash, D, m) cs F c"
  by (auto simp: coherent_def disk_chunks_ok_def)

lemma cached_write:
  assumes "coherent (hash, D, m) cs (files (cb_inner c)) c" and "serves be files h p" and "cs = cf_ChunkSizeBytes (cb_cfg c)" and "0 < cs"
    and "cb_faults c = no_faults" and "off \<le> length (files (cb_inner c) p)" and "be_Write be h off d (cb_inner c) = (r, i)" and "\<forall>q j. chunk_of cs (files i q) j \<in> D"
  shows "\<exists>c'. cb_Write be (CachedHandle k p h) off d c = (r, c') \<and> coherent (hash, D, m) cs (files i) c' \<and> same_world (c\<lparr>cb_inner := i\<rparr>) c'"
proof -
  have s: "r = Inr (length d)" "files i = (files (cb_inner c))(p := write_at off d (files (cb_inner c) p))" "path_ok p"
    using assms(2,7) unfolding serves_def by (metis fst_conv, metis snd_conv, blast)
  let ?c = "c\<lparr>cb_inner := i\<rparr>"
  have "coherent (hash, D, m) cs (files (cb_inner c)) ?c" using assms(1) by (simp add: coherent_def)
  then have "coherent (hash, D, m) cs (files i) (grown p off (length d) n ?c) \<and> same_world ?c (grown p off (length d) n ?c)" for n
    by (rule grown_ok) (use assms(3-6,8) s in simp_all)
  then show ?thesis using assms(7) s(1) by (simp add: cb_Write_def inner_call_def)
qed

lemma cached_step_ok:
  assumes "coherent (hash, D, m + 512) cs (files (cb_inner c)) c" and "cs = cf_ChunkSizeBytes (cb_cfg c)" and "0 < cs" and "cb_faults c = no_faults"
    and "step_fits be files x (cb_inner c)" and "direct_step be x (cb_inner c) = (r, i)" and "\<forall>p j. chunk_of cs (files i p) j \<in> D"
  shows "\<exists>c'. cached_step hash be dg x c = Some (r, c') \<and> coherent (hash, D, m) cs (files i) c' \<and> same_world (c\<lparr>cb_inner := i\<rparr>) c'"
proof -
  note c = coherent_less[OF assms(1)]
  have w0: "same_world (c\<lparr>cb_inner := i\<rparr>) c' = same_world c c'" if "i = cb_inner c" for c' using that by (simp add: same_world_def)
  show ?thesis
  proof (cases x)
    case (CRead k p h off n)
    then have s: "serves be files h p" using assms(5) by simp
    then have "be_Read be h off n (cb_inner c) = ((take n (drop off (files (cb_inner c) p)), FS_OK), cb_inner c)"
      unfolding serves_def reads_content_def by blast
    then have "r = RBytes (take n (drop off (files (cb_inner c) p)), FS_OK)" "i = cb_inner c" using assms(6) CRead by auto
    then show ?thesis using cached_read[OF c s assms(2,3), of dg k off n] w0 CRead by auto
  next
    case (CWrite k p h off d)
    obtain r' where r: "be_Write be h off d (cb_inner c) = (r', i)" "r = RCount r'" using assms(6) CWrite by (cases "be_Write be h off d (cb_inner c)") simp
    then show ?thesis using cached_write[OF c _ assms(2-4) _ r(1) assms(7), of p k] assms(5) CWrite by auto
  next
    case (CEvent ev)
    then show ?thesis using kept_event[of "(hash, D, m)" cs "files (cb_inner c)" c ev] c assms(6) w0 by (auto simp: kept_def)
  next
    case (CWorker f now)
    have "cb_persistent c \<Longrightarrow> disk_chunks_ok (hash, D, m) cs (files (cb_inner c)) (persistWorker hash f now (dd_queue (cb_data c)) (cb_data c))"
    proof (rule persistWorker_ok)
      assume p: "cb_persistent c"
      then have d: "disk_chunks_ok (hash, D, m + 512) cs (files (cb_inner c)) (cb_data c)" using assms(1) by (simp add: coherent_def)
      then show q: "length (dd_queue (cb_data c)) \<le> dataPersistQueueDepth" and "\<forall>j \<in> set (dd_queue (cb_data c)). job_fits cs (files (cb_inner c)) (cb_data c) j"
        by (simp_all add: disk_chunks_ok_def)
      show "disk_chunks_ok (hash, D, m + 2 * length (dd_queue (cb_data c))) cs (files (cb_inner c)) ((cb_data c)\<lparr>dd_queue := []\<rparr>)"
        using d q by (simp add: disk_chunks_ok_def gens_ok_def dataPersistQueueDepth_def)
    qed
    then have "coherent (hash, D, m) cs (files (cb_inner c)) (run_worker hash f now c)" using c by (simp add: coherent_def run_worker_def)
    moreover have "same_world c (run_worker hash f now c)" by (simp add: run_worker_def same_world_def)
    ultimately show ?thesis using CWorker assms(6) w0 by simp
  next
    case (CTrust v)
    then show ?thesis using c assms(6) by (auto simp: coherent_def same_world_def)
  next
    case (CClock t)
    then show ?thesis using c assms(6) by (auto simp: coherent_def same_world_def)
  qed
qed

lemma cached_run_ok:
  assumes "coherent (hash, D, 512 * length xs) cs (files (cb_inner c)) c" and "cs = cf_ChunkSizeBytes (cb_cfg c)" and "0 < cs" and "cb_faults c = no_faults"
    and "run_fits be files D cs xs (cb_inner c)"
  shows "\<exists>c'. cached_run hash be dg xs c = Some (fst (direct_run be xs (cb_inner c)), c') \<and> cb_inner c' = snd (direct_run be xs (cb_inner c))"
  using assms
proof (induction xs arbitrary: c)
  case (Cons x xs)
  obtain r i where d: "direct_step be x (cb_inner c) = (r, i)" by fastforce
  have f: "step_fits be files x (cb_inner c)" "run_fits be files D cs xs i" "\<forall>p j. chunk_of cs (files i p) j \<in> D"
    using Cons.prems(5) d by (cases xs; simp)+
  have "coherent (hash, D, 512 * length xs + 512) cs (files (cb_inner c)) c" using Cons.prems(1) by (simp add: algebra_simps)
  from cached_step_ok[OF this Cons.prems(2-4) f(1) d f(3)] obtain c' where c': "cached_step hash be dg x c = Some (r, c')"
    "coherent (hash, D, 512 * length xs) cs (files i) c'" "same_world (c\<lparr>cb_inner := i\<rparr>) c'" by blast
  have w: "cb_inner c' = i" "cb_cfg c' = cb_cfg c" "cb_faults c' = cb_faults c" using c'(3) by (simp_all add: same_world_def)
  have "\<exists>c2. cached_run hash be dg xs c' = Some (fst (direct_run be xs i), c2) \<and> cb_inner c2 = snd (direct_run be xs i)"
    using Cons.IH[of c'] c'(2) Cons.prems(2-4) f(2) w by simp
  then show ?case using c'(1) d by (auto split: prod.splits)
qed simp


subsection \<open>A store of files\<close>

definition ex_store :: "(unit, path \<Rightarrow> bytes) Backend" where
  "ex_store = \<lparr>be_Stat = \<lambda>p s. (Inr ex_attr, s), be_GetAttrIfChanged = \<lambda>p v s. (Inr None, s),
     be_Lookup = \<lambda>p x s. (Inr ex_attr, s), be_ListDir = \<lambda>p s. (Inr [], s), be_GetXAttr = \<lambda>p a s. (Inl FS_ENO_XATTR, s),
     be_SetXAttr = \<lambda>p a v f s. (FS_OK, s), be_RemoveXAttr = \<lambda>p a s. (FS_OK, s),
     be_Open = \<lambda>p f s. (Inr (LeafHandle p ()), s), be_Create = \<lambda>p x f m s. (Inr (LeafHandle (joinPath p x) (), Some ex_attr), s),
     be_Read = \<lambda>h off n s. ((take n (drop off (s (handle_path h))), FS_OK), s),
     be_Write = \<lambda>h off d s. (Inr (length d), s(handle_path h := write_at off d (s (handle_path h)))),
     be_Flush = \<lambda>h s. (FS_OK, s), be_Fsync = \<lambda>h f s. (FS_OK, s), be_Release = \<lambda>h s. (FS_OK, s),
     be_Mkdir = \<lambda>p m s. (Inr (Some ex_attr), s), be_Rmdir = \<lambda>p s. (FS_OK, s), be_Unlink = \<lambda>p s. (FS_OK, s(p := [])),
     be_Rename = \<lambda>p q s. (FS_OK, s(q := s p, p := [])), be_Symlink = \<lambda>t p s. (Inr (Some ex_attr), s),
     be_SetAttr = \<lambda>p a s. (Inr (Some ex_attr), s), be_Close = \<lambda>s. (True, s),
     be_Access = \<lambda>p m s. (FS_OK, s), be_StatFs = \<lambda>p s. (Inl FS_ENOSYS, s), be_ListXAttr = \<lambda>p s. (Inr [], s),
     be_Allocate = \<lambda>h a b m s. (FS_OK, s), be_CopyFileRange = \<lambda>h a g b l f s. (Inr l, s)\<rparr>"

definition ex_leaf :: "path \<Rightarrow> unit FileHandle" where
  "ex_leaf p = LeafHandle p ()"

definition ex_content :: "path \<Rightarrow> bytes" where
  "ex_content = (\<lambda>_. [])(''b'' := [1, 2, 3, 4, 5])"

definition ex_ops :: "unit cop list" where
  "ex_ops = [CRead 0 ''b'' (ex_leaf ''b'') 0 5, CWorker no_faults 0, CWrite 0 ''b'' (ex_leaf ''b'') 4 [9, 9], CRead 0 ''b'' (ex_leaf ''b'') 0 6]"

lemma ex_serves: "path_ok p \<Longrightarrow> serves ex_store id (ex_leaf p) p"
  by (simp add: serves_def reads_content_def ex_store_def ex_leaf_def)

lemma ex_chunks:
  "chunk_of 4 (ex_content p) j \<in> {[], [1, 2, 3, 4], [5], [9, 9]}" "chunk_of 4 ((ex_content(''b'' := [1, 2, 3, 4, 9, 9])) p) j \<in> {[], [1, 2, 3, 4], [5], [9, 9]}"
proof -
  have j: "j = 0 \<or> j = 1 \<or> 8 \<le> j * 4" by linarith
  show "chunk_of 4 (ex_content p) j \<in> {[], [1, 2, 3, 4], [5], [9, 9]}" using j by (auto simp: chunk_of_def ex_content_def)
  show "chunk_of 4 ((ex_content(''b'' := [1, 2, 3, 4, 9, 9])) p) j \<in> {[], [1, 2, 3, 4], [5], [9, 9]}" using j by (auto simp: chunk_of_def ex_content_def)
qed


end
