(* ===== verification/Cache_Staleness.thy ===== *)
theory Cache_Staleness
  imports Cache_Coherence
begin

text \<open>
  Where the caching layer answers with something else than the inner backend although it could know better: executions of
  the model on small stores, evaluated in the logic.
\<close>

section \<open>Writes past the end of a file\<close>

definition ex_past :: "unit cop list" where
  "ex_past = [CRead 0 ''b'' (ex_leaf ''b'') 0 5, CWrite 0 ''b'' (ex_leaf ''b'') 8 [7], CRead 0 ''b'' (ex_leaf ''b'') 0 9]"


section \<open>Writes while the event stream is down\<close>

definition ex_hb :: "unit cacheHandle" where
  "ex_hb = CachedHandle 0 ''b'' (ex_leaf ''b'')"

text \<open>A store whose files have all changed since the cache saw them.\<close>

definition ex_changed :: "(unit, path \<Rightarrow> bytes) Backend" where
  "ex_changed = ex_store\<lparr>be_GetAttrIfChanged := \<lambda>p v s. (Inr (Some ex_attr), s)\<rparr>"

text \<open>The file has been read, and has changed at the server while the stream was down.\<close>

definition ex_lost :: "(path \<Rightarrow> bytes) Cache" where
  "ex_lost = (snd (the (cb_Read ex_changed (\<lambda>_. True) ex_hb 0 5 (attr_putPositive ''b'' ex_attr (ex_cache False ex_content)))))
     \<lparr>cb_inner := ex_content(''b'' := [9, 9, 9, 9, 9])\<rparr>"

text \<open>While the event stream is down a read asks the server whether its file has changed, and then returns the new bytes.  But a
  write marks its file as verified without asking: after a write of one byte the cache serves the chunks it had of the rest of the file, which
  the server has replaced meanwhile.\<close>

theorem write_vouches_for_stale_chunks:
  "fst (the (cb_Read ex_changed (\<lambda>_. False) ex_hb 0 4 ex_lost)) = ([9, 9, 9, 9], FS_OK) \<and>
   fst (the (cb_Read ex_changed (\<lambda>_. False) ex_hb 0 4 (snd (cb_Write ex_changed ex_hb 4 [8] ex_lost)))) = ([1, 2, 3, 4], FS_OK)"
proof
  show "fst (the (cb_Read ex_changed (\<lambda>_. False) ex_hb 0 4 ex_lost)) = ([9, 9, 9, 9], FS_OK)" by code_simp
  show "fst (the (cb_Read ex_changed (\<lambda>_. False) ex_hb 0 4 (snd (cb_Write ex_changed ex_hb 4 [8] ex_lost)))) = ([1, 2, 3, 4], FS_OK)" by code_simp
qed

section \<open>Directories while the event stream is down\<close>

text \<open>A store of directories: a byte of a directory is an entry, and the version of a directory counts its entries.\<close>

definition ex_version :: "(path \<Rightarrow> bytes) \<Rightarrow> path \<Rightarrow> Attr" where
  "ex_version s p = ex_attr\<lparr>at_Version := of_nat (length (s p)) + 1\<rparr>"

definition ex_dirs :: "(unit, path \<Rightarrow> bytes) Backend" where
  "ex_dirs = ex_store\<lparr>be_Stat := \<lambda>p s. (Inr (ex_version s p), s),
     be_GetAttrIfChanged := \<lambda>p v s. (Inr (if v = at_Version (ex_version s p) then None else Some (ex_version s p)), s),
     be_ListDir := \<lambda>p s. (Inr (map (\<lambda>b. \<lparr>dp_Ino = 0, dp_Mode = 0, dp_Name = (if b = 97 then ''a'' else ''b''), dp_Attr = None, dp_Xattrs = None\<rparr>) (s p)), s)\<rparr>"

text \<open>The directory has been listed, and an entry has been added at the server while the stream was down.\<close>

definition ex_dir0 :: "(path \<Rightarrow> bytes) Cache" where
  "ex_dir0 = (let s = (\<lambda>_. [])(''d'' := [97]); c1 = snd (cb_Stat ex_dirs (\<lambda>_. True) ''d'' (ex_cache False s)); c2 = snd (cb_ListDir ex_dirs (\<lambda>_. True) ''d'' c1)
     in c2\<lparr>cb_inner := s(''d'' := [97, 98])\<rparr>)"

text \<open>A listing of a directory that has changed while the event stream was down is fetched again, unless its attributes have been
  asked for before: the revalidation of the attributes replaces the cached version and leaves the cached listing, which the next listing then
  finds up to date.\<close>

theorem stat_hides_directory_change:
  "map_sum id (map dp_Name) (fst (cb_ListDir ex_dirs (\<lambda>_. False) ''d'' ex_dir0)) = Inr [''a'', ''b''] \<and>
   map_sum id (map dp_Name) (fst (cb_ListDir ex_dirs (\<lambda>_. False) ''d'' (snd (cb_Stat ex_dirs (\<lambda>_. False) ''d'' ex_dir0)))) = Inr [''a'']"
proof
  show "map_sum id (map dp_Name) (fst (cb_ListDir ex_dirs (\<lambda>_. False) ''d'' ex_dir0)) = Inr [''a'', ''b'']" by code_simp
  show "map_sum id (map dp_Name) (fst (cb_ListDir ex_dirs (\<lambda>_. False) ''d'' (snd (cb_Stat ex_dirs (\<lambda>_. False) ''d'' ex_dir0)))) = Inr [''a'']" by code_simp
qed

section \<open>Renames over cached files\<close>

text \<open>Both files are known, and the chunk of \<^verbatim>\<open>b\<close> is in memory and on disk.\<close>

definition ex_ren :: "(path \<Rightarrow> bytes) \<Rightarrow> cvalue tier \<Rightarrow> (path \<Rightarrow> bytes) Cache" where
  "ex_ren s t = (ex_cache True s)\<lparr>cb_data := ex_data [] 0 [] ex_disk [], cb_tier := t\<rparr>"

definition ex_tier0 :: "cvalue tier" where
  "ex_tier0 = newAccountant 1000000 7812"

definition ex_ren0 :: "(path \<Rightarrow> bytes) Cache" where
  "ex_ren0 = ex_ren ((\<lambda>_. [])(''a'' := [8], ''b'' := [7])) (insertMem (''data'', chunkKey ''b'' 0) (DataE [7]) 1 ex_tier0)"

lemma removeMatching_none:
  "list_all (\<lambda>((s, k), _). \<not> (s = sid \<and> P k)) (tr_entries (cb_tier c)) \<Longrightarrow> st_removeMatching sid P c = c"
  unfolding st_removeMatching_def by (subst filter_False) (auto simp: list_all_iff)

lemma ex_ren_parts: "cb_tier (ex_ren s t) = t" "dk_data (cb_disk (ex_ren s t)) = []" "cb_getxattr (ex_ren s t) = []" "cb_access (ex_ren s t) = []"
  "cb_persistent (ex_ren s t)" "cb_faults (ex_ren s t) = no_faults" "cb_cfg (ex_ren s t) = ex_ccfg" "cb_handles (ex_ren s t) = []" "cb_now (ex_ren s t) = 0"
  by (simp_all add: ex_ren_def ex_cache_def NewCachedBackend_def)

lemma ex_ren_subtree:
  "list_all (\<lambda>((s, k), _). s = ''data'') (tr_entries t) \<Longrightarrow> invalidateSubtree p (ex_ren s t) = data_invalidatePrefix p (ex_ren s t)"
proof -
  assume l: "list_all (\<lambda>((s, k), _). s = ''data'') (tr_entries t)"
  have d: "disk_removePrefix sid p c = c" if "dk_data (cb_disk c) = []" for sid and c :: "(path \<Rightarrow> bytes) Cache"
    using that by (cases c; cases "cb_disk c") (simp add: disk_removePrefix_def)
  have n: "st_removeMatching sid P (ex_ren s t) = ex_ren s t" if "sid \<noteq> ''data''" for sid P
    by (rule removeMatching_none) (use l that in \<open>auto simp: ex_ren_parts list_all_iff\<close>)
  let ?c = "data_invalidatePrefix p (ex_ren s t)"
  have f: "\<exists>t'. c' = ex_ren s t' \<and> set (tr_entries t') \<subseteq> set (tr_entries t)" if "c' = fold st_remove ks (ex_ren s t)" "list_all (\<lambda>k. \<not> has_disk k) ks" for ks c'
    using that
  proof (induction ks arbitrary: t c')
    case (Cons k ks)
    have "st_remove k (ex_ren s t) = ex_ren s (mem_remove k t)" using Cons.prems(2) by (simp add: st_remove_def ex_ren_def)
    moreover have "set (tr_entries (mem_remove k t)) \<subseteq> set (tr_entries t)" using gm_del_sub[of k "tr_entries t"] by (auto simp: mem_remove_def acct_remove_def split: option.splits)
    ultimately show ?case using Cons.IH[of c' "mem_remove k t"] Cons.prems by auto
  qed auto
  have "list_all (\<lambda>k. \<not> has_disk k) (filter (\<lambda>(s, k). s = ''data'' \<and> (prefix (p @ [CHR 0x00]) k \<or> prefix (p @ ''/'') k)) (map fst (tr_entries (cb_tier (ex_ren s t)))))"
    by (auto simp: list_all_iff has_disk_def)
  from f[OF _ this, of ?c] obtain t' where t': "?c = ex_ren s t'" "set (tr_entries t') \<subseteq> set (tr_entries t)"
    by (auto simp: data_invalidatePrefix_def st_removeMatching_def)
  have "st_removeMatching ''xattr'' (subtreePred p) ?c = ?c"
    by (rule removeMatching_none) (use l t' in \<open>auto simp: ex_ren_parts list_all_iff\<close>)
  moreover have "getxattr_invalidatePrefix p ?c = ?c" "access_invalidatePrefix p ?c = ?c"
    unfolding t' by (simp_all add: getxattr_invalidatePrefix_def access_invalidatePrefix_def ex_ren_def ex_cache_def NewCachedBackend_def)
  ultimately show ?thesis
    by (simp add: invalidateSubtree_def attr_invalidatePrefix_def dir_invalidatePrefix_def xattr_invalidatePrefix_def n d ex_ren_parts)
qed

lemma ex_tier_facts:
  "tr_entries (insertMem (''data'', chunkKey ''b'' 0) (DataE [7]) 1 ex_tier0) = [((''data'', chunkKey ''b'' 0), \<lparr>ce_value = DataE [7], ce_size = 1\<rparr>)]"
  "mem_remove (''data'', chunkKey ''b'' 0) (insertMem (''data'', chunkKey ''b'' 0) (DataE [7]) 1 ex_tier0) = ex_tier0"
  by code_simp+

lemma ex_renamed:
  "cb_Rename ex_store ''a'' ''b'' ex_ren0 = (FS_OK, st_put (''attr'', ''a'') (AttrE None 60) (ex_ren ((\<lambda>_. [])(''b'' := [8])) ex_tier0))"
proof -
  let ?s = "(\<lambda>_. [])(''b'' := [8]) :: path \<Rightarrow> bytes" and ?t = "insertMem (''data'', chunkKey ''b'' 0) (DataE [7]) 1 ex_tier0"
  have i: "inner_call (be_Rename ex_store ''a'' ''b'') ex_ren0 = (FS_OK, ex_ren ?s ?t)"
    by (simp add: inner_call_def ex_store_def ex_ren0_def) (simp add: ex_ren_def ex_cache_def NewCachedBackend_def fun_eq_iff)
  have k: "chunkKey ''b'' 0 = ''b'' @ CHR 0x00 # itoa 0" by (simp add: chunkKey_def)
  have a: "invalidateSubtree ''a'' (ex_ren ?s ?t) = ex_ren ?s ?t"
  proof (subst ex_ren_subtree)
    show "list_all (\<lambda>((s, k), _). s = ''data'') (tr_entries ?t)" unfolding ex_tier_facts by simp
    show "data_invalidatePrefix ''a'' (ex_ren ?s ?t) = ex_ren ?s ?t"
      unfolding data_invalidatePrefix_def by (rule removeMatching_none) (simp add: ex_ren_parts ex_tier_facts(1), simp add: k)
  qed
  have "st_remove (''data'', chunkKey ''b'' 0) (ex_ren ?s ?t) = ex_ren ?s ex_tier0"
    using ex_tier_facts(2) by (simp add: st_remove_def has_disk_def ex_ren_def)
  then have "data_invalidatePrefix ''b'' (ex_ren ?s ?t) = ex_ren ?s ex_tier0"
    by (simp add: data_invalidatePrefix_def st_removeMatching_def ex_ren_parts ex_tier_facts(1)) (simp add: k)
  then have b: "invalidateSubtree ''b'' (ex_ren ?s ?t) = ex_ren ?s ex_tier0" by (subst ex_ren_subtree) (simp_all add: ex_tier_facts)
  have e: "st_remove x (ex_ren ?s ex_tier0) = ex_ren ?s ex_tier0" for x
    by (simp add: st_remove_def store_remove_def mem_remove_def ex_tier0_def newAccountant_def ex_ren_def ex_cache_def NewCachedBackend_def)
  show ?thesis using i a b e by (simp add: cb_Rename_def attr_invalidate_def dir_invalidate_def attr_putNegative_def ex_ren_parts) (simp add: ex_ccfg_def)
qed

lemma ex_ren_tier:
  "tier_view (insertMem (''attr'', ''a'') (AttrE None 60) 302 ex_tier0) (''data'', chunkKey ''b'' 0) = None"
  "tier_view (insertMem (''data'', chunkKey ''b'' 0) (DataE [7]) 1 (insertMem (''attr'', ''a'') (AttrE None 60) 302 ex_tier0)) (''data'', chunkKey ''b'' 0) = Some (DataE [7])"
  by code_simp+

text \<open>A rename onto an existing file does not reach the chunks of that file on disk, also where they are in memory at the time: with a disk
  tier, after the rename of one file over another a read of the new name returns the bytes of the file that was replaced, while
  the inner backend already holds the renamed one.\<close>

theorem rename_serves_replaced_file:
  "let c' = snd (cb_Rename ex_store ''a'' ''b'' ex_ren0) in
   fst (the (cb_Read ex_store (\<lambda>_. True) ex_hb 0 1 c')) = ([7], FS_OK) \<and> fst (be_Read ex_store (ex_leaf ''b'') 0 1 (cb_inner c')) = ([8], FS_OK)"
proof -
  define c' where "c' = st_put (''attr'', ''a'') (AttrE None 60) (ex_ren ((\<lambda>_. [])(''b'' := [8])) ex_tier0)"
  have c': "cb_Rename ex_store ''a'' ''b'' ex_ren0 = (FS_OK, c')" "cb_data c' = ex_data [] 0 [] ex_disk []" "cb_inner c' = (\<lambda>_. [])(''b'' := [8])"
    "cb_tier c' = insertMem (''attr'', ''a'') (AttrE None 60) 302 ex_tier0" "cb_persistent c'" "cb_faults c' = no_faults" "cb_cfg c' = ex_ccfg" "cb_handles c' = []"
    unfolding c'_def ex_renamed by (simp_all add: st_put_def store_put_def has_disk_def attrEntrySize_def ex_ren_parts) (simp_all add: ex_ren_def ex_cache_def NewCachedBackend_def)
  let ?c = "c'\<lparr>cb_handles := [(0, 0, 1)]\<rparr>"
  have r: "recordRead 0 0 c' = (False, ?c)" by (simp add: recordRead_def c'(8) prefetchSeqThreshold_def)
  have m: "st_get (''data'', chunkKey ''b'' 0) ?c = (None, ?c)"
    using ex_ren_tier(1) unfolding c'(4)[symmetric] by (simp add: st_get_def has_disk_def mem_get_def tier_view_def split: option.splits)
  have l: "disk_loader no_faults (chunkKey ''b'' 0) (snd (curGen ''b'' (cb_data c'))) = Some [7]"
    using ex_loader[of "[(''b'', 0)]" 0 "[]" "[]"] by (simp add: c'(2) curGen_def gen_publish_def ex_data_def)
  obtain c2 where d: "data_get ''b'' 0 ?c = (Some [7], c2)"
    using m l ex_ren_tier(2) c'(4,5,6) by (simp add: data_get_def Let_def st_put_def has_disk_def)
  have "read_loop ex_store 4 False ''b'' (ex_leaf ''b'') 0 1 [] ?c = (([7], FS_OK), c2)"
    using read_loop_hit[of "[]" 1 4 "''b''" 0 ?c "[7]" c2 1] d by simp
  then show ?thesis using r by (simp add: c'(1,3,7) ex_hb_def cb_Read_def trusted_def ex_ccfg_def) (simp add: ex_store_def ex_leaf_def)
qed

end
