(* ===== verification/File_Stream.thy ===== *)
theory File_Stream
  imports Path_Ops Session Wal_Overlay
begin

text \<open>
  File data on the wire: the frame-by-frame drivers of the server (\<^verbatim>\<open>pkg/server/service/file_streaming.go\<close>,
  \<^verbatim>\<open>file_streaming_write.go\<close>, \<^verbatim>\<open>applyWriteStream\<close> of \<^verbatim>\<open>controller/file.go\<close>, \<^verbatim>\<open>pkg/server/io/copy_range.go\<close>) and their
  counterparts on the client (\<^verbatim>\<open>readLive\<close> and \<^verbatim>\<open>streamingWrite\<close> of \<^verbatim>\<open>pkg/client/backend/transport/backend_grpc.go\<close>).

  An open file is go-fuse's \<^verbatim>\<open>nodefs.File\<close> interface: the record \<open>fileops\<close> of functions on an arbitrary file-system
  state is a parameter.  A stream is the list of its frames with the way it ended.
\<close>

section \<open>Open files\<close>

record FileLock =
  lk_Start :: u64
  lk_End :: u64
  lk_Typ :: u32
  lk_Pid :: u32

record 'fs fileops =
  fo_Read :: "nat \<Rightarrow> nat \<Rightarrow> nat \<Rightarrow> 'fs \<Rightarrow> bytes \<times> nat"
  fo_Write :: "nat \<Rightarrow> bytes \<Rightarrow> nat \<Rightarrow> 'fs \<Rightarrow> (nat \<times> nat) \<times> 'fs"
  fo_Flush :: "nat \<Rightarrow> 'fs \<Rightarrow> nat \<times> 'fs"
  fo_Fsync :: "nat \<Rightarrow> int \<Rightarrow> 'fs \<Rightarrow> nat \<times> 'fs"
  fo_Release :: "nat \<Rightarrow> 'fs \<Rightarrow> 'fs"
  fo_Allocate :: "nat \<Rightarrow> u64 \<Rightarrow> u64 \<Rightarrow> u32 \<Rightarrow> 'fs \<Rightarrow> nat \<times> 'fs"
  fo_GetLk :: "nat \<Rightarrow> u64 \<Rightarrow> FileLock \<Rightarrow> u32 \<Rightarrow> 'fs \<Rightarrow> (FileLock \<times> nat) \<times> 'fs"
  fo_SetLk :: "nat \<Rightarrow> u64 \<Rightarrow> FileLock \<Rightarrow> u32 \<Rightarrow> 'fs \<Rightarrow> nat \<times> 'fs"
  fo_SetLkw :: "nat \<Rightarrow> u64 \<Rightarrow> FileLock \<Rightarrow> u32 \<Rightarrow> 'fs \<Rightarrow> nat \<times> 'fs"
  fo_GetAttr :: "nat \<Rightarrow> 'fs \<Rightarrow> fuse_Attr \<times> nat"
  fo_Raw :: "nat \<Rightarrow> bool"
  fo_copy_file_range :: "nat \<Rightarrow> nat \<Rightarrow> nat \<Rightarrow> nat \<Rightarrow> nat \<Rightarrow> 'fs \<Rightarrow> (nat + nat) \<times> 'fs"
  fo_seek :: "nat \<Rightarrow> u64 \<Rightarrow> u32 \<Rightarrow> 'fs \<Rightarrow> nat + u64"

section \<open>Reading: the server's driver\<close>

record ReadFrame =
  rf_Data :: bytes
  rf_Status :: FsError

text \<open>The closure \<^verbatim>\<open>fileRead\<close> of the Read handler: what does not fit the frame's buffer is not copied.\<close>

(* src/pkg/server/controller/file.go:206-226 fileRead *)
definition fileRead :: "'fs fileops \<Rightarrow> nat \<Rightarrow> nat \<Rightarrow> nat \<Rightarrow> 'fs \<Rightarrow> bytes \<times> nat" where
  "fileRead fo file chunk off fs =
    (case fo_Read fo file chunk off fs of
       (out, st) \<Rightarrow> if st \<noteq> 0 then ([], st) else (take chunk out, 0))"

(* src/pkg/server/controller/file.go:227-232 emit *)
definition frame_of :: "bytes \<Rightarrow> nat \<Rightarrow> ReadFrame" where
  "frame_of d st = \<lparr>rf_Data = d, rf_Status = fromErrno_status st\<rparr>"

text \<open>The read number \<open>k\<close> of a stream finds the state \<open>fs k\<close>; \<open>cancelled k\<close> is the context before it and \<open>sent k\<close> tells whether
  the frame it emits could be sent (\<open>sent (k + 1)\<close> for the closing frame).  The value has the frames sent and whether the
  handler returned without error.\<close>

definition emit_last :: "bool \<Rightarrow> bytes \<Rightarrow> nat \<Rightarrow> ReadFrame list \<times> bool" where
  "emit_last sent d st = (if sent then ([frame_of d st], True) else ([], False))"

(* src/pkg/server/service/file_streaming.go:51-95 Stream *)
function Stream ::
  "nat \<Rightarrow> (nat \<Rightarrow> nat \<Rightarrow> nat \<Rightarrow> bytes \<times> nat) \<Rightarrow> (nat \<Rightarrow> bool) \<Rightarrow> (nat \<Rightarrow> bool) \<Rightarrow> nat \<Rightarrow> nat \<Rightarrow> nat \<Rightarrow> ReadFrame list \<times> bool" where
  "Stream frameSize rd cancelled sent k remaining off =
    (if remaining = 0 then emit_last (sent k) [] 0
     else if cancelled k then ([], False)
     else
       (let chunk = (if remaining > frameSize then frameSize else remaining)
        in case rd k chunk off of
             (d, st) \<Rightarrow>
               (let n = length d
                in if st \<noteq> 0 then emit_last (sent k) [] st
                   else if n = 0 then emit_last (sent k) [] 0
                   else if \<not> sent k then ([], False)
                   else
                     (let (rest, ok) =
                        (if n < chunk then emit_last (sent (Suc k)) [] 0
                         else Stream frameSize rd cancelled sent (Suc k) (remaining - n) (off + n))
                      in (frame_of d 0 # rest, ok)))))"
  by pat_completeness auto
termination
  by (relation "measure (\<lambda>(frameSize, rd, cancelled, sent, k, remaining, off). remaining)") auto

declare Stream.simps [simp del]

section \<open>Reading: the client's assembly\<close>

text \<open>How the client sees a stream end: cleanly, or with an error of the transport.\<close>

datatype read_attempt = RdOk bytes | RdStatus FsError | RdTooLong | RdBroken

(* src/pkg/client/backend/transport/backend_grpc.go:898-921 readLive *)
fun recv_read :: "nat \<Rightarrow> bytes \<Rightarrow> ReadFrame list \<Rightarrow> bool \<Rightarrow> read_attempt" where
  "recv_read cap acc [] eof = (if eof then RdOk acc else RdBroken)"
| "recv_read cap acc (f # fs) eof =
    (if rf_Status f \<noteq> FS_OK then RdStatus (rf_Status f)
     else if rf_Data f = [] then recv_read cap acc fs eof
     else if length acc + length (rf_Data f) > cap then RdTooLong
     else recv_read cap (acc @ rf_Data f) fs eof)"

text \<open>The network delivers the frames in order, all of them (\<open>None\<close>) or the first \<open>m\<close> and then an error.\<close>

definition delivered :: "nat option \<Rightarrow> 'a list \<times> bool \<Rightarrow> 'a list \<times> bool" where
  "delivered lost s = (case lost of None \<Rightarrow> s | Some m \<Rightarrow> (take m (fst s), False))"

section \<open>Writing: the client's frames\<close>

(* src/pkg/client/backend/transport/backend_grpc.go:40-43 writeFrameSizeBytes *)
definition writeFrameSizeBytes :: nat where
  "writeFrameSizeBytes = 2 ^ 20"

record WriteFrame =
  wf_Volume :: string
  wf_Fd :: nat
  wf_SessionId :: string
  wf_RequestId :: string
  wf_Offset :: nat
  wf_Data :: bytes
  wf_Delegation :: "(path \<times> string) option"

definition data_frame :: "bytes \<Rightarrow> WriteFrame" where
  "data_frame d = \<lparr>wf_Volume = '''', wf_Fd = 0, wf_SessionId = '''', wf_RequestId = '''', wf_Offset = 0, wf_Data = d, wf_Delegation = None\<rparr>"

(* src/pkg/client/backend/transport/backend_grpc.go:1020-1077 streamingWrite *)
function rest_frames :: "bytes \<Rightarrow> WriteFrame list" where
  "rest_frames d = (if d = [] then [] else data_frame (take writeFrameSizeBytes d) # rest_frames (drop writeFrameSizeBytes d))"
  by pat_completeness auto
termination by (relation "measure length") (auto simp: writeFrameSizeBytes_def)

declare rest_frames.simps [simp del]

(* src/pkg/client/backend/transport/backend_grpc.go:1020-1077 streamingWrite *)
definition write_frames :: "string \<Rightarrow> nat \<Rightarrow> string \<Rightarrow> string \<Rightarrow> (path \<times> string) option \<Rightarrow> bytes \<Rightarrow> nat \<Rightarrow> WriteFrame list" where
  "write_frames vol fd sid rid deleg d off =
    (let first = (if writeFrameSizeBytes > length d then length d else writeFrameSizeBytes)
     in \<lparr>wf_Volume = vol, wf_Fd = fd, wf_SessionId = sid, wf_RequestId = rid, wf_Offset = off,
         wf_Data = take first d, wf_Delegation = deleg\<rparr> # rest_frames (drop first d))"

section \<open>Writing: the server's sink\<close>

(* src/pkg/server/service/file_streaming_write.go:14-18 WriteFrameSink *)
record WriteFrameSink =
  ws_file :: nat
  ws_offset :: nat
  ws_total :: u32

(* src/pkg/server/service/file_streaming_write.go:21-23 NewWriteFrameSink *)
definition NewWriteFrameSink :: "nat \<Rightarrow> nat \<Rightarrow> WriteFrameSink" where
  "NewWriteFrameSink f off = \<lparr>ws_file = f, ws_offset = off, ws_total = 0\<rparr>"

(* src/pkg/server/service/file_streaming_write.go:29-40 WriteFrame *)
definition sink_WriteFrame :: "'fs fileops \<Rightarrow> bytes \<Rightarrow> WriteFrameSink \<times> 'fs \<Rightarrow> (nat \<times> nat) \<times> WriteFrameSink \<times> 'fs" where
  "sink_WriteFrame fo d s =
    (case s of (w, fs) \<Rightarrow>
       if d = [] then ((0, 0), w, fs)
       else (case fo_Write fo (ws_file w) d (ws_offset w) fs of
               ((n, st), fs') \<Rightarrow>
                 if st \<noteq> 0 then ((n, st), w, fs')
                 else ((n, 0), w\<lparr>ws_offset := ws_offset w + n, ws_total := ws_total w + of_nat n\<rparr>, fs')))"

(* src/pkg/server/controller/file.go:363-380 validateContinuationFrame *)
definition validateContinuationFrame :: "WriteFrame \<Rightarrow> WriteFrame \<Rightarrow> bool" where
  "validateContinuationFrame f first \<longleftrightarrow>
    (wf_Volume f = '''' \<or> wf_Volume f = wf_Volume first) \<and>
    (wf_Fd f = 0 \<or> wf_Fd f = wf_Fd first) \<and>
    (wf_SessionId f = '''' \<or> wf_SessionId f = wf_SessionId first) \<and>
    (wf_RequestId f = '''' \<or> wf_RequestId f = wf_RequestId first) \<and>
    (wf_Offset f = 0 \<or> wf_Offset f = wf_Offset first)"

datatype stream_error = StreamInvalid | StreamBroken

text \<open>Draining ends at the end of the stream; the frames themselves are discarded.\<close>

(* src/pkg/server/controller/file.go:385-395 drainWriteStream *)
definition drainWriteStream :: "WriteFrame list \<Rightarrow> bool \<Rightarrow> stream_error option" where
  "drainWriteStream frames eof = (if eof then None else Some StreamBroken)"

(* src/pkg/server/controller/file.go:317-358 applyWriteStream *)
fun write_loop ::
  "'fs fileops \<Rightarrow> WriteFrame \<Rightarrow> WriteFrame list \<Rightarrow> bool \<Rightarrow> WriteFrameSink \<times> 'fs \<Rightarrow> (stream_error + nat) \<times> WriteFrameSink \<times> 'fs" where
  "write_loop fo first [] eof s = (if eof then (Inr 0, s) else (Inl StreamBroken, s))"
| "write_loop fo first (f # frames) eof s =
    (if \<not> validateContinuationFrame f first then (Inl StreamInvalid, s)
     else (case sink_WriteFrame fo (wf_Data f) s of
             ((n, st), s') \<Rightarrow>
               if st \<noteq> 0 then
                 (case drainWriteStream frames eof of
                    Some e \<Rightarrow> (Inl e, s')
                  | None \<Rightarrow> (Inr st, s'))
               else write_loop fo first frames eof s'))"

(* src/pkg/server/controller/file.go:317-358 applyWriteStream *)
definition applyWriteStream ::
  "'fs fileops \<Rightarrow> WriteFrame \<Rightarrow> WriteFrame list \<Rightarrow> bool \<Rightarrow> nat \<Rightarrow> 'fs \<Rightarrow> (stream_error + u32 \<times> FsError) \<times> 'fs" where
  "applyWriteStream fo first frames eof file fs =
    (case (case sink_WriteFrame fo (wf_Data first) (NewWriteFrameSink file (wf_Offset first), fs) of
             ((n, st), s') \<Rightarrow>
               if st \<noteq> 0 then
                 (case drainWriteStream frames eof of
                    Some e \<Rightarrow> (Inl e, s')
                  | None \<Rightarrow> (Inr st, s'))
               else write_loop fo first frames eof s') of
       (r, w, fs') \<Rightarrow>
         (case r of
            Inl e \<Rightarrow> (Inl e, fs')
          | Inr st \<Rightarrow> (Inr (ws_total w, fromErrno_status st), fs')))"

section \<open>Copying between open files\<close>

(* src/pkg/server/io/copy_range.go:11-17 copyChunk *)
definition copyChunk :: nat where "copyChunk = 2 ^ 30"
definition copyBufSize :: nat where "copyBufSize = 2 ^ 20"

(* src/pkg/server/io/copy_range.go:94-99 rangesOverlap *)
definition rangesOverlap :: "u64 \<Rightarrow> u64 \<Rightarrow> u64 \<Rightarrow> bool" where
  "rangesOverlap offIn offOut len =
    (if offIn > - 1 - len \<or> offOut > - 1 - len then True
     else offIn < offOut + len \<and> offOut < offIn + len)"

text \<open>The inner loop of the generic copy: the rest of a short write is written again; a write of no bytes is an I/O error.\<close>

(* src/pkg/server/io/copy_range.go:131-142 copyRangeGeneric *)
function copy_write :: "'fs fileops \<Rightarrow> nat \<Rightarrow> bytes \<Rightarrow> nat \<Rightarrow> nat \<Rightarrow> 'fs \<Rightarrow> (nat \<times> nat) \<times> 'fs" where
  "copy_write fo dst d off written fs =
    (if written < length d then
       (case fo_Write fo dst (drop written d) (off + written) fs of
          ((n, st), fs') \<Rightarrow>
            if st \<noteq> 0 then ((written, st), fs')
            else if n = 0 then ((written, 5), fs')
            else copy_write fo dst d off (written + n) fs')
     else ((written, 0), fs))"
  by pat_completeness auto
termination by (relation "measure (\<lambda>(fo, dst, d, off, written, fs). length d - written)") auto

declare copy_write.simps [simp del]

(* src/pkg/server/io/copy_range.go:113-145 copyRangeGeneric *)
function copy_loop :: "'fs fileops \<Rightarrow> nat \<Rightarrow> nat \<Rightarrow> nat \<Rightarrow> nat \<Rightarrow> nat \<Rightarrow> nat \<Rightarrow> 'fs \<Rightarrow> (nat \<times> nat) \<times> 'fs" where
  "copy_loop fo src dst offIn offOut len copied fs =
    (if copied < len then
       (let chunk = (if len - copied < copyBufSize then len - copied else copyBufSize)
        in case fo_Read fo src chunk (offIn + copied) fs of
             (d, st) \<Rightarrow>
               if st \<noteq> 0 then ((copied, st), fs)
               else if d = [] then ((copied, 0), fs)
               else (case copy_write fo dst d (offOut + copied) 0 fs of
                       ((w, wst), fs') \<Rightarrow>
                         if wst \<noteq> 0 then ((copied + w, wst), fs')
                         else copy_loop fo src dst offIn offOut len (copied + length d) fs'))
     else ((copied, 0), fs))"
  by pat_completeness auto
termination
  by (relation "measure (\<lambda>(fo, src, dst, offIn, offOut, len, copied, fs). len - copied)") (auto simp: neq_Nil_conv)

declare copy_loop.simps [simp del]

(* src/pkg/server/io/copy_range.go:107-145 copyRangeGeneric *)
definition copyRangeGeneric :: "'fs fileops \<Rightarrow> nat \<Rightarrow> nat \<Rightarrow> u64 \<Rightarrow> u64 \<Rightarrow> u64 \<Rightarrow> 'fs \<Rightarrow> (nat \<times> nat) \<times> 'fs" where
  "copyRangeGeneric fo src dst offIn offOut len fs =
    (case fo_GetAttr fo src fs of (sa, sst) \<Rightarrow> (case fo_GetAttr fo dst fs of (da, dst') \<Rightarrow>
       if sst = 0 \<and> dst' = 0 \<and> fa_Ino sa \<noteq> 0 \<and> fa_Ino sa = fa_Ino da \<and> rangesOverlap offIn offOut len then ((0, 22), fs)
       else copy_loop fo src dst (unat offIn) (unat offOut) (unat len) 0 fs))"

(* src/pkg/server/io/confined.go:190-203 errnoToStatus *)
definition errnoToStatus :: "nat \<Rightarrow> nat" where
  "errnoToStatus e = (if e = 18 \<or> e = 40 then 13 else e)"

text \<open>The system call as long as it makes progress; the flag tells that the caller has to fall back.\<close>

(* src/pkg/server/io/copy_range.go:62-88 copyRangeFd *)
function copyRangeFd :: "'fs fileops \<Rightarrow> nat \<Rightarrow> nat \<Rightarrow> nat \<Rightarrow> nat \<Rightarrow> nat \<Rightarrow> nat \<Rightarrow> 'fs \<Rightarrow> (nat \<times> nat \<times> bool) \<times> 'fs" where
  "copyRangeFd fo src dst offIn offOut len copied fs =
    (if copied < len then
       (let chunk = (if len - copied > copyChunk then copyChunk else len - copied)
        in case fo_copy_file_range fo src dst (offIn + copied) (offOut + copied) chunk fs of
             (Inl err, fs') \<Rightarrow>
               if copied > 0 then ((copied, 0, False), fs')
               else if err = 18 \<or> err = 95 \<or> err = 38 then ((0, 0, True), fs')
               else ((0, errnoToStatus err, False), fs')
           | (Inr n, fs') \<Rightarrow>
               if n = 0 then ((copied, 0, False), fs')
               else copyRangeFd fo src dst offIn offOut len (copied + n) fs')
     else ((copied, 0, False), fs))"
  by pat_completeness auto
termination by (relation "measure (\<lambda>(fo, src, dst, offIn, offOut, len, copied, fs). len - copied)") auto

declare copyRangeFd.simps [simp del]

(* src/pkg/server/io/copy_range.go:43-56 CopyFileRange *)
definition io_CopyFileRange :: "'fs fileops \<Rightarrow> nat \<Rightarrow> nat \<Rightarrow> u64 \<Rightarrow> u64 \<Rightarrow> u64 \<Rightarrow> 'fs \<Rightarrow> (nat \<times> nat) \<times> 'fs" where
  "io_CopyFileRange fo src dst offIn offOut len fs =
    (if len = 0 then ((0, 0), fs)
     else if fo_Raw fo src \<and> fo_Raw fo dst then
       (case copyRangeFd fo src dst (unat offIn) (unat offOut) (unat len) 0 fs of
          ((n, st, fallback), fs') \<Rightarrow>
            if \<not> fallback then ((n, st), fs') else copyRangeGeneric fo src dst offIn offOut len fs')
     else copyRangeGeneric fo src dst offIn offOut len fs)"

(* src/pkg/server/io/copy_range.go:154-164 Lseek *)
definition io_Lseek :: "'fs fileops \<Rightarrow> nat \<Rightarrow> u64 \<Rightarrow> u32 \<Rightarrow> 'fs \<Rightarrow> u64 \<times> nat" where
  "io_Lseek fo file off whence fs =
    (if \<not> fo_Raw fo file then (0, 95)
     else (case fo_seek fo file off whence fs of
             Inl e \<Rightarrow> (0, errnoToStatus e)
           | Inr o' \<Rightarrow> (o', 0)))"

section \<open>Reads are exact\<close>

text \<open>What the drivers rely on: a read of an open file returns the bytes at the offset as far as the file goes, or fails.\<close>

definition reads_like :: "bytes \<Rightarrow> (nat \<Rightarrow> nat \<Rightarrow> nat \<Rightarrow> bytes \<times> nat) \<Rightarrow> bool" where
  "reads_like c rd \<longleftrightarrow> (\<forall>k chunk off. snd (rd k chunk off) = 0 \<longrightarrow> fst (rd k chunk off) = take chunk (drop off c))"

lemma reads_likeD: "reads_like c rd \<Longrightarrow> rd k chunk off = (d, 0) \<Longrightarrow> d = take chunk (drop off c)"
  by (metis fst_conv reads_like_def snd_conv)

lemma recv_broken: "recv_read cap acc fs False = RdOk d \<Longrightarrow> P"
  by (induction cap acc fs False rule: recv_read.induct) (auto split: if_splits)

lemma recv_prefix:
  "recv_read cap acc (take m fs) False = RdBroken \<or> recv_read cap acc (take m fs) False = recv_read cap acc fs ok"
proof (induction fs arbitrary: m acc)
  case (Cons f fs)
  show ?case using Cons.IH by (cases m) auto
qed simp

lemma fromErrno_error: "st \<noteq> 0 \<Longrightarrow> fromErrno_status st \<noteq> FS_OK"
  by (auto simp: FromErrno_def toErrno_def toErrnoExtra_def toErrno_table_def fromErrno_def gm_get_put split: option.splits if_splits)

lemma fromErrno_ok [simp]: "fromErrno_status 0 = FS_OK"
  by (simp add: FromErrno_def)

definition exact_outcome :: "bytes \<Rightarrow> read_attempt \<Rightarrow> bool" where
  "exact_outcome d r \<longleftrightarrow> r = RdOk d \<or> r = RdBroken \<or> (\<exists>st. st \<noteq> FS_OK \<and> r = RdStatus st)"

lemma outcome_prefix:
  "exact_outcome d (recv_read cap acc fs ok) \<Longrightarrow> exact_outcome d (recv_read cap acc (take m fs) False)"
  by (metis exact_outcome_def recv_prefix)

lemma emit_last_outcome:
  "exact_outcome acc (recv_read cap acc (fst (emit_last b [] st)) (snd (emit_last b [] st)))"
  by (auto simp: emit_last_def frame_of_def exact_outcome_def)

lemma take_chunk_rest:
  assumes "length (take chunk (drop off c)) = chunk" "chunk \<le> remaining"
  shows "take chunk (drop off c) @ take (remaining - chunk) (drop (off + chunk) c) = take remaining (drop off c)"
  using assms by (metis add.commute drop_drop le_add_diff_inverse take_add)

lemma take_short_rest:
  assumes "length (take chunk (drop off c)) < chunk" "chunk \<le> remaining"
  shows "take chunk (drop off c) = take remaining (drop off c)"
  using assms by simp

lemma Stream_outcome:
  assumes "reads_like c rd" "F > 0" "length acc + remaining \<le> cap"
  shows "exact_outcome (acc @ take remaining (drop off c))
    (recv_read cap acc (fst (Stream F rd cancelled sent k remaining off)) (snd (Stream F rd cancelled sent k remaining off)))"
  using assms
proof (induction F rd cancelled sent k remaining off arbitrary: acc rule: Stream.induct)
  case (1 F rd cancelled sent k remaining off)
  define chunk where "chunk = (if remaining > F then F else remaining)"
  obtain d st where rd: "rd k chunk off = (d, st)" by fastforce
  have ch: "chunk \<le> remaining" by (simp add: chunk_def)
  note step = Stream.simps[of F rd cancelled sent k remaining off, unfolded Let_def, folded chunk_def, unfolded rd]
  consider "remaining = 0" | "remaining \<noteq> 0" "cancelled k" | "remaining \<noteq> 0" "\<not> cancelled k" "st \<noteq> 0"
    | "remaining \<noteq> 0" "\<not> cancelled k" "st = 0" "d = []" | "remaining \<noteq> 0" "\<not> cancelled k" "st = 0" "d \<noteq> []" "\<not> sent k"
    | "remaining \<noteq> 0" "\<not> cancelled k" "st = 0" "d \<noteq> []" "sent k" by blast
  then show ?case
  proof cases
    case 3
    then show ?thesis using step fromErrno_error[of st] by (auto simp: emit_last_def frame_of_def exact_outcome_def)
  next
    case 4
    then have "take chunk (drop off c) = []" using reads_likeD[OF "1.prems"(1)] rd by simp
    then have "take remaining (drop off c) = []" using "1.prems"(2) 4(1) by (auto simp: chunk_def split: if_splits)
    then show ?thesis using step 4 emit_last_outcome by simp
  next
    case 6
    have d: "d = take chunk (drop off c)" using reads_likeD[OF "1.prems"(1)] rd 6 by simp
    have fits: "length acc + length d + (remaining - length d) \<le> cap" "length d \<le> chunk"
      using d ch "1.prems"(3) by auto
    show ?thesis
    proof (cases "length d < chunk")
      case True
      then show ?thesis
        using step 6 fits ch emit_last_outcome[of "acc @ d" cap "sent (Suc k)" 0] take_short_rest[of chunk off c remaining] d
        by (auto simp: frame_of_def split: prod.splits)
    next
      case False
      then have full: "length d = chunk" using fits by simp
      have "exact_outcome ((acc @ d) @ take (remaining - length d) (drop (off + length d) c))
        (recv_read cap (acc @ d) (fst (Stream F rd cancelled sent (Suc k) (remaining - length d) (off + length d)))
          (snd (Stream F rd cancelled sent (Suc k) (remaining - length d) (off + length d))))"
        by (rule "1.IH"[OF 6(1,2) chunk_def rd[symmetric] refl]) (use 6 False fits "1.prems" in auto)
      then show ?thesis
        using step 6 full fits ch take_chunk_rest[of chunk off c remaining] d
        by (auto simp: frame_of_def split: prod.splits)
    qed
  qed (use step emit_last_outcome in \<open>auto simp: exact_outcome_def\<close>)
qed

lemma fileRead_eq:
  "fileRead fo file chunk off fs =
    (if snd (fo_Read fo file chunk off fs) \<noteq> 0 then ([], snd (fo_Read fo file chunk off fs))
     else (take chunk (fst (fo_Read fo file chunk off fs)), 0))"
  by (simp add: fileRead_def split_beta)

lemma recv_clean:
  assumes "\<forall>f \<in> set fs. rf_Status f = FS_OK"
  shows "recv_read cap acc fs True = RdTooLong \<or> (\<exists>d. recv_read cap acc fs True = RdOk d)"
  using assms by (induction cap acc fs True rule: recv_read.induct) auto

lemma Stream_undisturbed:
  assumes "\<And>k chunk off. snd (rd k chunk off) = 0" "\<And>k. \<not> cancelled k" "\<And>k. sent k"
  shows "snd (Stream F rd cancelled sent k remaining off) \<and>
    (\<forall>f \<in> set (fst (Stream F rd cancelled sent k remaining off)). rf_Status f = FS_OK)"
  using assms
proof (induction F rd cancelled sent k remaining off rule: Stream.induct)
  case (1 F rd cancelled sent k remaining off)
  define chunk where "chunk = (if remaining > F then F else remaining)"
  obtain d where rd: "rd k chunk off = (d, 0)" using "1.prems"(1)[of k chunk off] by (metis surjective_pairing)
  note step = Stream.simps[of F rd cancelled sent k remaining off, unfolded Let_def, folded chunk_def, unfolded rd]
  note cs = "1.prems"(2)[of k] "1.prems"(3)[of k] "1.prems"(3)[of "Suc k"]
  show ?case
  proof (cases "remaining = 0 \<or> d = [] \<or> length d < chunk")
    case True
    then show ?thesis using cs by (auto simp: step emit_last_def frame_of_def)
  next
    case False
    then have "snd (Stream F rd cancelled sent (Suc k) (remaining - length d) (off + length d)) \<and>
      (\<forall>f \<in> set (fst (Stream F rd cancelled sent (Suc k) (remaining - length d) (off + length d))). rf_Status f = FS_OK)"
      using cs by (intro "1.IH"[OF _ _ chunk_def rd[symmetric] refl _ _ _ _ "1.prems"]) simp_all
    then show ?thesis using False cs by (auto simp: step frame_of_def split: prod.splits)
  qed
qed

text \<open>One attempt of a read: the handler streams, the network delivers, the client assembles.\<close>

definition read_attempt_of ::
  "nat \<Rightarrow> 'fs fileops \<Rightarrow> nat \<Rightarrow> (nat \<Rightarrow> 'fs) \<Rightarrow> (nat \<Rightarrow> bool) \<Rightarrow> (nat \<Rightarrow> bool) \<Rightarrow> nat option \<Rightarrow> nat \<Rightarrow> nat \<Rightarrow> read_attempt" where
  "read_attempt_of F fo file fs cancelled sent lost n off =
    (case delivered lost (Stream F (\<lambda>k chunk o'. fileRead fo file chunk o' (fs k)) cancelled sent 0 n off) of
       (frames, eof) \<Rightarrow> recv_read n [] frames eof)"

text \<open>C10: a streamed read is exact.  Whatever frame size the server uses, wherever the stream is cancelled, a send fails or the
  network cuts it, the client either gets precisely the requested range of the file (shorter only at its end), or a failure: a
  non-OK status or a broken stream.  It never takes a truncated stream for the end of the file.  Undisturbed, it gets the bytes.\<close>

theorem streamed_read_is_exact:
  assumes "\<And>k chunk o'. snd (fo_Read fo file chunk o' (fs k)) = 0 \<Longrightarrow> fst (fo_Read fo file chunk o' (fs k)) = take chunk (drop o' c)"
    and "F > 0"
  shows "(read_attempt_of F fo file fs cancelled sent lost n off = RdOk (take n (drop off c)) \<or>
          read_attempt_of F fo file fs cancelled sent lost n off = RdBroken \<or>
          (\<exists>st. st \<noteq> FS_OK \<and> read_attempt_of F fo file fs cancelled sent lost n off = RdStatus st)) \<and>
    ((\<forall>k chunk o'. snd (fo_Read fo file chunk o' (fs k)) = 0) \<longrightarrow> (\<forall>k. \<not> cancelled k \<and> sent k) \<longrightarrow> lost = None \<longrightarrow>
       read_attempt_of F fo file fs cancelled sent lost n off = RdOk (take n (drop off c)))"
proof -
  define rd where "rd = (\<lambda>k chunk o'. fileRead fo file chunk o' (fs k))"
  define S where "S = Stream F rd cancelled sent 0 n off"
  have rl: "reads_like c rd"
    using assms(1) by (simp add: reads_like_def rd_def fileRead_eq)
  have full: "exact_outcome (take n (drop off c)) (recv_read n [] (fst S) (snd S))"
    using Stream_outcome[OF rl assms(2), of "[]" n n off] by (simp add: S_def)
  have a: "read_attempt_of F fo file fs cancelled sent lost n off =
      (case lost of None \<Rightarrow> recv_read n [] (fst S) (snd S) | Some m \<Rightarrow> recv_read n [] (take m (fst S)) False)"
    by (auto simp: read_attempt_of_def delivered_def S_def rd_def split: option.splits prod.splits)
  have "exact_outcome (take n (drop off c)) (read_attempt_of F fo file fs cancelled sent lost n off)"
    using full outcome_prefix[OF full] unfolding a by (cases lost) simp_all
  moreover have "read_attempt_of F fo file fs cancelled sent lost n off = RdOk (take n (drop off c))"
    if "\<forall>k chunk o'. snd (fo_Read fo file chunk o' (fs k)) = 0" "\<forall>k. \<not> cancelled k \<and> sent k" "lost = None"
  proof -
    have "snd (rd k chunk o') = 0" for k chunk o'
      using that(1) by (simp add: rd_def fileRead_eq)
    then have "snd S" "\<forall>f \<in> set (fst S). rf_Status f = FS_OK"
      using Stream_undisturbed[of rd cancelled sent F 0 n off] that(2) by (auto simp: S_def)
    then show ?thesis using full recv_clean[of "fst S" n "[]"] that(3) unfolding a by (auto simp: exact_outcome_def)
  qed
  ultimately show ?thesis unfolding exact_outcome_def by blast
qed

definition ino_attr :: "u64 \<Rightarrow> fuse_Attr" where
  "ino_attr i = \<lparr>fa_Ino = i, fa_Size = 0, fa_Blocks = 0, fa_Atime = 0, fa_Mtime = 0, fa_Ctime = 0, fa_Atimensec = 0,
    fa_Mtimensec = 0, fa_Ctimensec = 0, fa_Mode = 0, fa_Nlink = 0, fa_Uid = 0, fa_Gid = 0, fa_Rdev = 0, fa_Blksize = 0\<rparr>"

definition mem_ops :: "bytes fileops" where
  "mem_ops =
    \<lparr>fo_Read = (\<lambda>f n off c. (take n (drop off c), 0)),
     fo_Write = (\<lambda>f d off c. ((length d, 0), pwrite off d c)),
     fo_Flush = (\<lambda>f c. (0, c)), fo_Fsync = (\<lambda>f fl c. (0, c)), fo_Release = (\<lambda>f c. c),
     fo_Allocate = (\<lambda>f off n m c. (0, c)),
     fo_GetLk = (\<lambda>f ow lk fl c. ((lk, 0), c)), fo_SetLk = (\<lambda>f ow lk fl c. (0, c)), fo_SetLkw = (\<lambda>f ow lk fl c. (0, c)),
     fo_GetAttr = (\<lambda>f c. (ino_attr 1, 0)), fo_Raw = (\<lambda>f. False),
     fo_copy_file_range = (\<lambda>i o' oi oo n c. (Inl 38, c)), fo_seek = (\<lambda>f off w c. Inl 38)\<rparr>"

theorem streamed_read_is_exact_witness:
  "read_attempt_of 2 mem_ops 0 (\<lambda>_. [1, 2, 3, 4, 5, 6, 7]) (\<lambda>_. False) (\<lambda>_. True) None 5 1 = RdOk [2, 3, 4, 5, 6]"
  using streamed_read_is_exact[of mem_ops 0 "\<lambda>_. [1, 2, 3, 4, 5, 6, 7]" "[1, 2, 3, 4, 5, 6, 7]" 2 "\<lambda>_. False" "\<lambda>_. True" None 5 1]
  by (simp add: mem_ops_def)

section \<open>Streamed writes are one positioned write\<close>

lemma pwrite_append: "pwrite (off + length a) b (pwrite off a c) = pwrite off (a @ b) c"
proof (rule nth_equalityI)
  let ?i = "pwrite off a c"
  show "length (pwrite (off + length a) b ?i) = length (pwrite off (a @ b) c)"
    using pwrite_nth[of "off + length a" b ?i] pwrite_nth[of off a c] pwrite_nth[of off "a @ b" c] by simp
  fix i assume "i < length (pwrite (off + length a) b ?i)"
  then show "pwrite (off + length a) b ?i ! i = pwrite off (a @ b) c ! i"
    using pwrite_nth[of "off + length a" b ?i] pwrite_nth[of off a c] pwrite_nth[of off "a @ b" c] by (auto simp: nth_append)
qed

lemma pwrite_again: "pwrite off (a @ b) (pwrite off a c) = pwrite off (a @ b) c"
proof (rule nth_equalityI)
  let ?i = "pwrite off a c"
  show "length (pwrite off (a @ b) ?i) = length (pwrite off (a @ b) c)"
    using pwrite_nth[of off "a @ b" ?i] pwrite_nth[of off a c] pwrite_nth[of off "a @ b" c] by simp
  fix i assume "i < length (pwrite off (a @ b) ?i)"
  then show "pwrite off (a @ b) ?i ! i = pwrite off (a @ b) c ! i"
    using pwrite_nth[of off "a @ b" ?i] pwrite_nth[of off a c] pwrite_nth[of off "a @ b" c] by auto
qed

text \<open>The code never issues an empty write.\<close>

definition put_bytes :: "nat \<Rightarrow> bytes \<Rightarrow> bytes \<Rightarrow> bytes" where
  "put_bytes off d c = (if d = [] then c else pwrite off d c)"

lemma put_bytes_append: "put_bytes (off + length a) b (put_bytes off a c) = put_bytes off (a @ b) c"
  using pwrite_append[of off a b c] by (auto simp: put_bytes_def)

lemma put_bytes_again: "put_bytes off (a @ b) (put_bytes off a c) = put_bytes off (a @ b) c"
  using pwrite_again[of off a b c] by (auto simp: put_bytes_def)

text \<open>What the sink relies on for a whole write: the file takes all of it, and \<open>cont\<close> shows the bytes at their place.\<close>

definition writes_like :: "'fs fileops \<Rightarrow> nat \<Rightarrow> ('fs \<Rightarrow> bytes) \<Rightarrow> bool" where
  "writes_like fo file cont \<longleftrightarrow>
    (\<forall>d off fs. d \<noteq> [] \<longrightarrow> (\<exists>fs'. fo_Write fo file d off fs = ((length d, 0), fs') \<and> cont fs' = pwrite off d (cont fs)))"

lemma sink_WriteFrame_full:
  assumes "writes_like fo (ws_file w) cont"
  shows "\<exists>fs'. sink_WriteFrame fo d (w, fs) =
      ((length d, 0), w\<lparr>ws_offset := ws_offset w + length d, ws_total := ws_total w + of_nat (length d)\<rparr>, fs') \<and>
    cont fs' = put_bytes (ws_offset w) d (cont fs)"
proof (cases "d = []")
  case False
  then obtain fs' where "fo_Write fo (ws_file w) d (ws_offset w) fs = ((length d, 0), fs')" "cont fs' = pwrite (ws_offset w) d (cont fs)"
    using assms unfolding writes_like_def by blast
  then show ?thesis using False by (auto simp: sink_WriteFrame_def put_bytes_def)
qed (simp add: sink_WriteFrame_def put_bytes_def)

lemma validate_data_frame [simp]: "validateContinuationFrame (data_frame d) first"
  by (simp add: validateContinuationFrame_def data_frame_def)

lemma write_loop_data:
  assumes "writes_like fo (ws_file w) cont"
  shows "\<exists>fs'. write_loop fo first (map data_frame ds) eof (w, fs) =
      (if eof then Inr 0 else Inl StreamBroken,
       w\<lparr>ws_offset := ws_offset w + length (concat ds), ws_total := ws_total w + of_nat (length (concat ds))\<rparr>, fs') \<and>
    cont fs' = put_bytes (ws_offset w) (concat ds) (cont fs)"
  using assms
proof (induction ds arbitrary: w fs)
  case (Cons d ds)
  obtain fs1 where s: "sink_WriteFrame fo d (w, fs) =
      ((length d, 0), w\<lparr>ws_offset := ws_offset w + length d, ws_total := ws_total w + of_nat (length d)\<rparr>, fs1)"
    "cont fs1 = put_bytes (ws_offset w) d (cont fs)"
    using sink_WriteFrame_full[OF Cons.prems] by blast
  show ?case
    using Cons.IH[of "w\<lparr>ws_offset := ws_offset w + length d, ws_total := ws_total w + of_nat (length d)\<rparr>" fs1] Cons.prems
      put_bytes_append[of "ws_offset w" d "concat ds" "cont fs"]
    by (auto simp: s data_frame_def[of d] add.assoc validate_data_frame[unfolded data_frame_def])
qed (simp add: put_bytes_def)

lemma rest_frames_data: "\<exists>ds. rest_frames d = map data_frame ds \<and> concat ds = d"
proof (induction d rule: rest_frames.induct)
  case (1 d)
  show ?case
  proof (cases "d = []")
    case True
    then show ?thesis by (subst rest_frames.simps) simp
  next
    case False
    then obtain ds where "rest_frames (drop writeFrameSizeBytes d) = map data_frame ds" "concat ds = drop writeFrameSizeBytes d"
      using 1 by blast
    then show ?thesis using False
      by (subst rest_frames.simps) (auto intro!: exI[of _ "take writeFrameSizeBytes d # ds"])
  qed
qed

text \<open>However many frames arrive, the file has a prefix of the data at the offset; a complete stream writes all of it and
  reports its length.\<close>

lemma applyWriteStream_prefix:
  assumes "writes_like fo file cont" "write_frames vol fd sid rid deleg d off = first # frames"
  shows "\<exists>fs' k. applyWriteStream fo first (take m frames) eof file fs =
      (if eof then Inr (of_nat (length (take k d)), FS_OK) else Inl StreamBroken, fs') \<and>
    cont fs' = put_bytes off (take k d) (cont fs) \<and> (length frames \<le> m \<longrightarrow> k = length d)"
proof -
  define q where "q = (if writeFrameSizeBytes > length d then length d else writeFrameSizeBytes)"
  have fr: "wf_Data first = take q d" "wf_Offset first = off" "frames = rest_frames (drop q d)"
    using assms(2) by (auto simp: write_frames_def q_def Let_def)
  obtain ds where ds: "frames = map data_frame ds" "concat ds = drop q d"
    using rest_frames_data[of "drop q d"] fr(3) by blast
  define w1 where "w1 = \<lparr>ws_file = file, ws_offset = off + length (take q d), ws_total = of_nat (length (take q d))\<rparr>"
  obtain fs1 where s: "sink_WriteFrame fo (take q d) (NewWriteFrameSink file off, fs) = ((length (take q d), 0), w1, fs1)"
    "cont fs1 = put_bytes off (take q d) (cont fs)"
    using sink_WriteFrame_full[of fo "NewWriteFrameSink file off" cont "take q d" fs] assms(1)
    by (auto simp: NewWriteFrameSink_def w1_def)
  define p where "p = concat (take m ds)"
  obtain fs2 where l: "write_loop fo first (map data_frame (take m ds)) eof (w1, fs1) =
      (if eof then Inr 0 else Inl StreamBroken, w1\<lparr>ws_offset := ws_offset w1 + length p, ws_total := ws_total w1 + of_nat (length p)\<rparr>, fs2)"
    "cont fs2 = put_bytes (ws_offset w1) p (cont fs1)"
    using write_loop_data[of fo w1 cont first "take m ds" eof fs1] assms(1) by (auto simp: w1_def p_def)
  have "concat ds = p @ concat (drop m ds)" by (metis append_take_drop_id concat_append p_def)
  then have d: "d = (take q d @ p) @ concat (drop m ds)" by (metis append.assoc append_take_drop_id ds(2))
  define k where "k = length (take q d @ p)"
  have k: "take k d = take q d @ p" using d unfolding k_def by (metis append_eq_conv_conj)
  have all: "k = length d" if "length frames \<le> m"
    using that ds(1) d by (metis append_Nil2 concat.simps(1) drop_all k_def length_map)
  have "cont fs2 = put_bytes off (take k d) (cont fs)"
    using put_bytes_append[of off "take q d" p "cont fs"] l(2) s(2) by (simp add: k w1_def)
  moreover have "applyWriteStream fo first (take m frames) eof file fs =
      (if eof then Inr (of_nat (length (take k d)), FS_OK) else Inl StreamBroken, fs2)"
    using s(1) l(1) by (simp add: applyWriteStream_def fr(1,2) ds(1) take_map k w1_def)
  ultimately show ?thesis using all by blast
qed

section \<open>Copies and short writes\<close>

text \<open>A source that can be read and a destination that takes at least one byte of every write.\<close>

definition copies_onto :: "'fs fileops \<Rightarrow> nat \<Rightarrow> nat \<Rightarrow> ('fs \<Rightarrow> bytes) \<Rightarrow> ('fs \<Rightarrow> bytes) \<Rightarrow> bool" where
  "copies_onto fo src dst cs cd \<longleftrightarrow>
    (\<forall>n off fs. fo_Read fo src n off fs = (take n (drop off (cs fs)), 0)) \<and>
    (\<forall>d off fs. d \<noteq> [] \<longrightarrow> (\<exists>n fs'. fo_Write fo dst d off fs = ((n, 0), fs') \<and> 0 < n \<and> n \<le> length d \<and>
        cd fs' = pwrite off (take n d) (cd fs) \<and> cs fs' = cs fs))"

lemma copy_write_all:
  assumes "copies_onto fo src dst cs cd" "written \<le> length d"
  shows "\<exists>fs'. copy_write fo dst d off written fs = ((length d, 0), fs') \<and>
    cd fs' = put_bytes (off + written) (drop written d) (cd fs) \<and> cs fs' = cs fs"
  using assms
proof (induction fo dst d off written fs rule: copy_write.induct)
  case (1 fo dst d off written fs)
  show ?case
  proof (cases "written < length d")
    case True
    then obtain n fs1 where w: "fo_Write fo dst (drop written d) (off + written) fs = ((n, 0), fs1)" "0 < n" "n \<le> length (drop written d)"
      "cd fs1 = pwrite (off + written) (take n (drop written d)) (cd fs)" "cs fs1 = cs fs"
      using "1.prems"(1)[unfolded copies_onto_def] by (metis drop_eq_Nil leD)
    have wn: "written + n \<le> length d" using w(3) True by simp
    obtain fs2 where l: "copy_write fo dst d off (written + n) fs1 = ((length d, 0), fs2)"
      "cd fs2 = put_bytes (off + (written + n)) (drop (written + n) d) (cd fs1)" "cs fs2 = cs fs1"
      using "1.IH"[OF True w(1)[symmetric]] w(2) "1.prems"(1) wn by auto
    have p1: "cd fs1 = put_bytes (off + written) (take n (drop written d)) (cd fs)" using w True by (simp add: put_bytes_def)
    have cat: "take n (drop written d) @ drop (written + n) d = drop written d"
      by (metis add.commute append_take_drop_id drop_drop)
    have "cd fs2 = put_bytes (off + written) (drop written d) (cd fs)"
      using put_bytes_append[of "off + written" "take n (drop written d)" "drop (written + n) d" "cd fs"] l(2) w(3)
      unfolding cat p1 by (simp add: add.assoc)
    then show ?thesis using l w True by (subst copy_write.simps) simp
  next
    case False
    then show ?thesis using "1.prems"(2) by (subst copy_write.simps) (simp add: put_bytes_def)
  qed
qed

lemma copy_loop_exact:
  assumes "copies_onto fo src dst cs cd" "copied \<le> len" "offIn + copied \<le> length (cs fs) \<or> copied = 0"
  shows "\<exists>fs'. copy_loop fo src dst offIn offOut len copied fs = ((copied + length (take (len - copied) (drop (offIn + copied) (cs fs))), 0), fs') \<and>
    cd fs' = put_bytes (offOut + copied) (take (len - copied) (drop (offIn + copied) (cs fs))) (cd fs)"
  using assms
proof (induction fo src dst offIn offOut len copied fs rule: copy_loop.induct)
  case (1 fo src dst offIn offOut len copied fs)
  define chunk where "chunk = (if len - copied < copyBufSize then len - copied else copyBufSize)"
  define d where "d = take chunk (drop (offIn + copied) (cs fs))"
  have rd: "fo_Read fo src chunk (offIn + copied) fs = (d, 0)" using "1.prems"(1) by (simp add: copies_onto_def d_def)
  have ch: "chunk \<le> len - copied" by (simp add: chunk_def)
  note step = copy_loop.simps[of fo src dst offIn offOut len copied fs, unfolded Let_def, folded chunk_def, unfolded rd]
  show ?case
  proof (cases "copied < len \<and> d \<noteq> []")
    case False
    then have no: "take (len - copied) (drop (offIn + copied) (cs fs)) = []"
      by (auto simp: d_def chunk_def copyBufSize_def split: if_splits)
    have "copy_loop fo src dst offIn offOut len copied fs = ((copied, 0), fs)" using False step by auto
    then show ?thesis unfolding no by (simp add: put_bytes_def)
  next
    case True
    obtain fs1 where w: "copy_write fo dst d (offOut + copied) 0 fs = ((length d, 0), fs1)"
      "cd fs1 = put_bytes (offOut + copied) d (cd fs)" "cs fs1 = cs fs"
      using copy_write_all[OF "1.prems"(1), of 0 d "offOut + copied" fs] by auto
    have ld: "length d \<le> len - copied" "copied + length d \<le> len" "offIn + (copied + length d) \<le> length (cs fs1)"
      using ch True w(3) by (auto simp: d_def)
    define e where "e = take (len - (copied + length d)) (drop (offIn + (copied + length d)) (cs fs))"
    have dl: "take (length d) (drop (offIn + copied) (cs fs)) = d"
      unfolding d_def by (simp add: min_def)
    have "length d + (len - (copied + length d)) = len - copied" using ld(1) by simp
    moreover have "drop (length d) (drop (offIn + copied) (cs fs)) = drop (offIn + (copied + length d)) (cs fs)"
      by (simp add: add.assoc add.commute[of "length d"])
    ultimately have de: "d @ e = take (len - copied) (drop (offIn + copied) (cs fs))"
      using take_add[of "length d" "len - (copied + length d)" "drop (offIn + copied) (cs fs)"] unfolding dl e_def by simp
    obtain fs2 where l: "copy_loop fo src dst offIn offOut len (copied + length d) fs1 = ((copied + length d + length e, 0), fs2)"
      "cd fs2 = put_bytes (offOut + (copied + length d)) e (cd fs1)"
      using "1.IH"[OF _ chunk_def rd[symmetric] _ _ w(1)[symmetric] refl] "1.prems"(1) True ld w(3) by (auto simp: e_def)
    have "cd fs2 = put_bytes (offOut + copied) (d @ e) (cd fs)"
      using put_bytes_append[of "offOut + copied" d e "cd fs"] l(2) w(2) by (simp add: add.assoc)
    then show ?thesis using l(1) step True w(1) unfolding de[symmetric] by simp
  qed
qed

text \<open>The overlap test is exact on the mathematical ranges, and an addition that would wrap counts as overlapping.\<close>

lemma rangesOverlap_iff:
  "\<not> rangesOverlap a b l \<longleftrightarrow> unat a + unat l < 2 ^ 64 \<and> unat b + unat l < 2 ^ 64 \<and> (unat a + unat l \<le> unat b \<or> unat b + unat l \<le> unat a)"
proof -
  have m: "x > - 1 - l \<longleftrightarrow> \<not> unat x + unat l < 2 ^ 64" for x :: u64
  proof -
    have "unat (- 1 :: u64) = 2 ^ 64 - 1" by (simp add: unsigned_minus_1_eq_mask mask_eq_exp_minus_1)
    then have "unat (- 1 - l) = 2 ^ 64 - 1 - unat l" by (subst unat_sub) (simp_all add: max_word_max)
    moreover have "unat l < 2 ^ 64" using unsigned_less[of l] by simp
    ultimately show ?thesis by (auto simp: word_less_nat_alt)
  qed
  have s: "unat (x + l) = unat x + unat l" if "unat x + unat l < 2 ^ 64" for x :: u64
    using that by (simp add: unat_add_lem[THEN iffD1])
  show ?thesis
    unfolding rangesOverlap_def m using s[of a] s[of b] by (auto simp: word_less_nat_alt)
qed

text \<open>A server-side copy through the generic loop tolerates short writes.  On a destination that takes only part of every
  write, it still copies exactly the requested range as far as the source goes, at its place, and reports that length, unless the
  ranges overlap within one file: then it changes nothing and reports EINVAL.\<close>

theorem generic_copy_is_exact:
  assumes "copies_onto fo src dst cs cd"
    and "fo_GetAttr fo src fs = (sa, 0)" "fo_GetAttr fo dst fs = (da, 0)" "fa_Ino sa \<noteq> 0"
  shows "if fa_Ino sa = fa_Ino da \<and> rangesOverlap offIn offOut len then copyRangeGeneric fo src dst offIn offOut len fs = ((0, 22), fs)
    else \<exists>fs'. copyRangeGeneric fo src dst offIn offOut len fs = ((length (take (unat len) (drop (unat offIn) (cs fs))), 0), fs') \<and>
      cd fs' = put_bytes (unat offOut) (take (unat len) (drop (unat offIn) (cs fs))) (cd fs)"
  using copy_loop_exact[OF assms(1), of 0 "unat len" "unat offIn" fs "unat offOut"] assms(2-4)
  by (simp add: copyRangeGeneric_def)

text \<open>A file that takes two bytes of every write, and the source of a copy beside it.\<close>

definition short_ops :: "(bytes \<times> bytes) fileops" where
  "short_ops =
    \<lparr>fo_Read = (\<lambda>f n off c. (take n (drop off (fst c)), 0)),
     fo_Write = (\<lambda>f d off c. ((min 2 (length d), 0), fst c, pwrite off (take 2 d) (snd c))),
     fo_Flush = (\<lambda>f c. (0, c)), fo_Fsync = (\<lambda>f fl c. (0, c)), fo_Release = (\<lambda>f c. c),
     fo_Allocate = (\<lambda>f off n m c. (0, c)),
     fo_GetLk = (\<lambda>f ow lk fl c. ((lk, 0), c)), fo_SetLk = (\<lambda>f ow lk fl c. (0, c)), fo_SetLkw = (\<lambda>f ow lk fl c. (0, c)),
     fo_GetAttr = (\<lambda>f c. (ino_attr (if f = 0 then 1 else 2), 0)), fo_Raw = (\<lambda>f. False),
     fo_copy_file_range = (\<lambda>i o' oi oo n c. (Inl 38, c)), fo_seek = (\<lambda>f off w c. Inl 38)\<rparr>"

lemma short_ops_copies: "copies_onto short_ops s d fst snd"
  by (auto simp: copies_onto_def short_ops_def min_def neq_Nil_conv)

lemma pwrite_eval: "pwrite off d c = take off c @ replicate (off - length c) 0 @ d @ drop (off + length d) c"
  by (auto simp: pwrite_def copy_at_def grow_def)

theorem generic_copy_is_exact_witness:
  "\<exists>fs'. copyRangeGeneric short_ops 0 1 1 0 5 ([9, 1, 2, 3, 4, 5, 6], [7]) = ((5, 0), fs') \<and> snd fs' = [1, 2, 3, 4, 5]"
proof -
  let ?fs = "([9, 1, 2, 3, 4, 5, 6], [7]) :: bytes \<times> bytes"
  have five: "(5 :: nat) = Suc (Suc (Suc (Suc (Suc 0))))" by simp
  have "fo_GetAttr short_ops 0 ?fs = (ino_attr 1, 0)" "fo_GetAttr short_ops 1 ?fs = (ino_attr 2, 0)" by (simp_all add: short_ops_def)
  from generic_copy_is_exact[OF short_ops_copies this, of 1 0 5] show ?thesis
    by (simp add: put_bytes_def pwrite_eval ino_attr_def) (simp add: five)
qed



end
