(* ===== verification/File_Handlers.thy ===== *)
theory File_Handlers
  imports Fs_Handlers File_Stream
begin

text \<open>
  The descriptor handlers of the server (\<^verbatim>\<open>pkg/server/controller/file.go\<close>): Open, Create, Read, Write, Fsync, Release, Flush, the locks,
  WriteAndFlush, Allocate, CopyFileRange and Lseek, over the descriptor tables of the sessions and their reply caches.

  Handlers run one at a time here, like those of \<open>Fs_Handlers\<close>; the interleaving of operations on a descriptor with its release and with the
  reap of its session is the subject of \<open>Session\<close>, whose reference counts (\<open>Acquire\<close>, \<open>ReleaseRef\<close>) the entries carry.
\<close>

section \<open>State\<close>

text \<open>The files of all sessions: \<open>fv_table\<close> has the live descriptors, \<open>fv_entry\<close> every entry that was ever registered.\<close>

(* src/pkg/server/service/session.go:21-34 FileEntry *)
record fentry =
  en_Volume :: string
  en_Path :: path
  en_File :: nat
  en_ref :: FileEntry

datatype file_reply =
    RpPath Reply
  | RpOpen FsError nat
  | RpCreate FsError nat "ProtoAttr option" "DelegationGrant option"
  | RpWrite u32 FsError "DelegationGrant option"
  | RpWriteAndFlush u32 FsError "ProtoAttr option"
  | RpCopy nat FsError

datatype file_error = RpcErr rpc_error | StreamErr stream_error | VolumeErr

record 'fs fserver =
  fv_srv :: "'fs srv"
  fv_arb :: "Arbiter option"
  fv_replies :: "(string \<times> string, file_reply) gomap"
  fv_fdNum :: "(string, nat) gomap"
  fv_table :: "(string \<times> nat) list"
  fv_entry :: "(string \<times> nat, fentry) gomap"
  fv_panicked :: bool

type_synonym ('fs, 'r) fstep = "'fs fserver \<Rightarrow> ('r \<times> 'fs fserver) option"

definition on_fs :: "('fs \<Rightarrow> 'r \<times> 'fs) \<Rightarrow> 'fs fserver \<Rightarrow> 'r \<times> 'fs fserver" where
  "on_fs f sv = (case f (sr_fs (fv_srv sv)) of (r, fs') \<Rightarrow> (r, sv\<lparr>fv_srv := (fv_srv sv)\<lparr>sr_fs := fs'\<rparr>\<rparr>))"

section \<open>Descriptors\<close>

(* src/pkg/server/service/session.go:189-230 RegisterFile *)
definition RegisterFile :: "string \<Rightarrow> string \<Rightarrow> path \<Rightarrow> nat \<Rightarrow> 'fs fserver \<Rightarrow> nat \<times> 'fs fserver" where
  "RegisterFile sid vol p file sv =
    (let fd = Suc (case gm_get (fv_fdNum sv) sid of Some n \<Rightarrow> n | None \<Rightarrow> 0)
     in (fd, sv\<lparr>fv_fdNum := gm_put sid fd (fv_fdNum sv), fv_table := (sid, fd) # fv_table sv,
                fv_entry := gm_put (sid, fd) \<lparr>en_Volume = vol, en_Path = p, en_File = file, en_ref = \<lparr>fe_refs = 1, fe_closed = 0\<rparr>\<rparr> (fv_entry sv)\<rparr>))"

(* src/pkg/server/controller/file.go:129-135 sessionFile *)
definition sessionFile :: "string \<Rightarrow> nat \<Rightarrow> string \<Rightarrow> 'fs fserver \<Rightarrow> (fentry \<times> 'fs fserver) option" where
  "sessionFile sid fd vol sv =
    (if (sid, fd) \<notin> set (fv_table sv) then None
     else (case gm_get (fv_entry sv) (sid, fd) of
             None \<Rightarrow> None
           | Some e \<Rightarrow>
               if en_Volume e \<noteq> vol then None
               else (case Acquire (en_ref e) of
                       (False, _) \<Rightarrow> None
                     | (True, r) \<Rightarrow> Some (e, sv\<lparr>fv_entry := gm_put (sid, fd) (e\<lparr>en_ref := r\<rparr>) (fv_entry sv)\<rparr>))))"

text \<open>The last reference closes the file.\<close>

(* src/pkg/server/service/session.go:50-62 ReleaseRef *)
definition entry_ReleaseRef :: "'fs fileops \<Rightarrow> string \<Rightarrow> nat \<Rightarrow> 'fs fserver \<Rightarrow> 'fs fserver" where
  "entry_ReleaseRef fo sid fd sv =
    (case gm_get (fv_entry sv) (sid, fd) of
       None \<Rightarrow> sv
     | Some e \<Rightarrow>
         (case ReleaseRef (en_ref e) of
            (panics, r) \<Rightarrow>
              (let sv1 = sv\<lparr>fv_entry := gm_put (sid, fd) (e\<lparr>en_ref := r\<rparr>) (fv_entry sv), fv_panicked := (fv_panicked sv \<or> panics)\<rparr>
               in if fe_closed r > fe_closed (en_ref e) then snd (on_fs (\<lambda>fs. ((), fo_Release fo (en_File e) fs)) sv1) else sv1)))"

(* src/pkg/server/service/session.go:236-250 ReleaseFile *)
definition table_ReleaseFile :: "'fs fileops \<Rightarrow> string \<Rightarrow> nat \<Rightarrow> 'fs fserver \<Rightarrow> 'fs fserver" where
  "table_ReleaseFile fo sid fd sv =
    (if (sid, fd) \<in> set (fv_table sv)
     then entry_ReleaseRef fo sid fd (sv\<lparr>fv_table := removeAll (sid, fd) (fv_table sv)\<rparr>)
     else sv)"

text \<open>\<^verbatim>\<open>sessionFile\<close> with the deferred \<^verbatim>\<open>entry.ReleaseRef()\<close> around the operation.\<close>

definition with_entry :: "'fs fileops \<Rightarrow> string \<Rightarrow> nat \<Rightarrow> string \<Rightarrow> 'r \<Rightarrow> (fentry \<Rightarrow> ('fs, 'r) fstep) \<Rightarrow> ('fs, 'r) fstep" where
  "with_entry fo sid fd vol missing body sv =
    (case sessionFile sid fd vol sv of
       None \<Rightarrow> Some (missing, sv)
     | Some (e, sv1) \<Rightarrow> map_option (\<lambda>(r, sv2). (r, entry_ReleaseRef fo sid fd sv2)) (body e sv1))"

section \<open>Sessions and the reply cache\<close>

definition in_session :: "session_table \<Rightarrow> string \<Rightarrow> string \<Rightarrow> (string \<Rightarrow> ('fs, file_error + 'r) fstep) \<Rightarrow> ('fs, file_error + 'r) fstep" where
  "in_session sessions ctxP sid k sv =
    (case resolveSession sessions ctxP sid of
       Inl e \<Rightarrow> Some (Inl (RpcErr e), sv)
     | Inr s \<Rightarrow> k s sv)"

text \<open>The flag tells whether the closure ran.\<close>

(* src/pkg/server/service/session.go:252-270 DoOnce *)
definition DoOnce :: "string \<Rightarrow> string \<Rightarrow> ('fs, file_error + file_reply) fstep \<Rightarrow> ('fs, (file_error + file_reply) \<times> bool) fstep" where
  "DoOnce sid rid body sv =
    (case gm_get (fv_replies sv) (sid, rid) of
       Some v \<Rightarrow> Some ((Inr v, False), sv)
     | None \<Rightarrow>
         (case body sv of
            None \<Rightarrow> None
          | Some (Inl e, sv') \<Rightarrow> Some ((Inl e, True), sv')
          | Some (Inr v, sv') \<Rightarrow> Some ((Inr v, True), sv'\<lparr>fv_replies := gm_put (sid, rid) v (fv_replies sv')\<rparr>)))"

(* src/pkg/server/controller/idempotency.go:41-65 withIdempotency *)
definition typed_once ::
  "(file_reply \<Rightarrow> bool) \<Rightarrow> string \<Rightarrow> string \<Rightarrow> ('fs, file_error + file_reply) fstep \<Rightarrow> ('fs, file_error + file_reply) fstep" where
  "typed_once typed sid rid body sv =
    (if rid = '''' then Some (Inl (RpcErr InvalidArgument), sv)
     else map_option (\<lambda>((r, _), sv'). (case r of Inl e \<Rightarrow> Inl e | Inr v \<Rightarrow> if typed v then Inr v else Inl (RpcErr InternalError), sv'))
            (DoOnce sid rid body sv))"

(* src/pkg/server/controller/idempotency.go:82-87 withOptionalIdempotency *)
definition withOptionalIdempotency ::
  "(file_reply \<Rightarrow> bool) \<Rightarrow> string \<Rightarrow> string \<Rightarrow> ('fs, file_error + file_reply) fstep \<Rightarrow> ('fs, file_error + file_reply) fstep" where
  "withOptionalIdempotency typed sid rid body sv = (if rid = '''' then body sv else typed_once typed sid rid body sv)"

definition arb_gate :: "henv \<Rightarrow> string \<Rightarrow> path \<Rightarrow> (FsError \<Rightarrow> ('fs, 'r) fstep) \<Rightarrow> ('fs, 'r) fstep \<Rightarrow> ('fs, 'r) fstep" where
  "arb_gate env sid p deny k sv =
    (case arbitrateContention (he_recall env) (he_revoke_ok env) (he_now env) (fv_arb sv) sid p of
       None \<Rightarrow> None
     | Some (e, arb') \<Rightarrow> (let sv1 = sv\<lparr>fv_arb := arb'\<rparr> in if e \<noteq> FS_OK then deny e sv1 else k sv1))"

definition take_grant ::
  "henv \<Rightarrow> string \<Rightarrow> string \<Rightarrow> string \<Rightarrow> (path \<times> string) option \<Rightarrow> 'fs fserver \<Rightarrow> DelegationGrant option \<times> 'fs fserver" where
  "take_grant env sid prin vol deleg sv =
    (case grantFor (he_gen_ok env) (he_now env) (fv_arb sv) sid prin vol deleg of (g, arb') \<Rightarrow> (g, sv\<lparr>fv_arb := arb'\<rparr>))"

(* src/pkg/server/controller/file.go:85-91 versionAfterPath *)
definition versionAfterPath :: "(string \<Rightarrow> 'fs pathfs option) \<Rightarrow> string \<Rightarrow> path \<Rightarrow> Caller option \<Rightarrow> 'fs \<Rightarrow> u64" where
  "versionAfterPath raw vol p caller fs = (case raw vol of None \<Rightarrow> 0 | Some pf \<Rightarrow> versionAfter pf p caller fs)"

(* src/pkg/server/controller/file.go:100-105 emitMutatedFd *)
definition emitMutatedFd :: "(string \<Rightarrow> 'fs pathfs option) \<Rightarrow> string \<Rightarrow> string \<Rightarrow> path \<Rightarrow> Caller option \<Rightarrow> 'fs fserver \<Rightarrow> 'fs fserver" where
  "emitMutatedFd raw sid vol p caller sv =
    (if \<not> HasSubscribers vol (sr_bus (fv_srv sv)) then sv
     else sv\<lparr>fv_srv := (fv_srv sv)\<lparr>sr_bus := Emit vol p (versionAfterPath raw vol p caller (sr_fs (fv_srv sv))) KindMutated sid (sr_bus (fv_srv sv))\<rparr>\<rparr>)"

(* src/pkg/server/controller/file.go:111-116 emitMutatedAttr *)
definition file_emitMutatedAttr :: "string \<Rightarrow> string \<Rightarrow> path \<Rightarrow> fuse_Attr option \<Rightarrow> 'fs fserver \<Rightarrow> 'fs fserver" where
  "file_emitMutatedAttr sid vol p attr sv = sv\<lparr>fv_srv := emitMutatedAttr sid vol p attr (fv_srv sv)\<rparr>"

section \<open>The handlers\<close>

record file_ctx =
  fc_sessions :: session_table
  fc_principal :: string
  fc_env :: henv
  fc_frameSize :: nat

fun is_open :: "file_reply \<Rightarrow> bool" where "is_open (RpOpen e fd) = True" | "is_open _ = False"
fun is_create :: "file_reply \<Rightarrow> bool" where "is_create (RpCreate e fd a g) = True" | "is_create _ = False"
fun is_waf :: "file_reply \<Rightarrow> bool" where "is_waf (RpWriteAndFlush n e a) = True" | "is_waf _ = False"
fun is_copy :: "file_reply \<Rightarrow> bool" where "is_copy (RpCopy n e) = True" | "is_copy _ = False"

(* src/pkg/server/controller/file.go:137-154 Open *)
definition file_Open ::
  "file_ctx \<Rightarrow> 'fs idbind \<Rightarrow> string \<Rightarrow> string \<Rightarrow> string \<Rightarrow> Caller option \<Rightarrow> path \<Rightarrow> u32 \<Rightarrow> ('fs, file_error + file_reply) fstep" where
  "file_Open fc bind sid rid vol caller p flags =
    in_session (fc_sessions fc) (fc_principal fc) sid (\<lambda>s sv.
      case bind vol caller of
        None \<Rightarrow> Some (Inl (RpcErr PermissionDeniedError), sv)
      | Some (pf, ident) \<Rightarrow>
          typed_once is_open s rid (\<lambda>sv.
            case on_fs (pf_Open pf p flags (createContext caller)) sv of
              ((file, st), sv1) \<Rightarrow>
                if st = 0 then (case RegisterFile s vol p file sv1 of (fd, sv2) \<Rightarrow> Some (Inr (RpOpen FS_OK fd), sv2))
                else Some (Inr (RpOpen (fromErrno_status st) 0), sv1)) sv)"

(* src/pkg/server/controller/file.go:156-183 Create *)
definition file_Create ::
  "file_ctx \<Rightarrow> 'fs idbind \<Rightarrow> string \<Rightarrow> string \<Rightarrow> string \<Rightarrow> Caller option \<Rightarrow> path \<Rightarrow> u32 \<Rightarrow> u32 \<Rightarrow> (path \<times> string) option
    \<Rightarrow> ('fs, file_error + file_reply) fstep" where
  "file_Create fc bind sid rid vol caller p flags mode deleg =
    in_session (fc_sessions fc) (fc_principal fc) sid (\<lambda>s sv.
      case bind vol caller of
        None \<Rightarrow> Some (Inl (RpcErr PermissionDeniedError), sv)
      | Some (pf, ident) \<Rightarrow>
          typed_once is_create s rid
            (arb_gate (fc_env fc) sid p (\<lambda>e sv. Some (Inr (RpCreate e 0 None None), sv)) (\<lambda>sv.
              case on_fs (pf_Create pf p flags mode (createContext caller)) sv of
                ((file, st), sv1) \<Rightarrow>
                  if st \<noteq> 0 then Some (Inr (RpCreate (fromErrno_status st) 0 None None), sv1)
                  else (case RegisterFile s vol p file sv1 of (fd, sv2) \<Rightarrow>
                       (case take_grant (fc_env fc) sid (id_Principal ident) vol deleg sv2 of (g, sv3) \<Rightarrow>
                         (case pf_GetAttr pf p (createContext caller) (sr_fs (fv_srv sv3)) of (attr, gst) \<Rightarrow>
                            if gst = 0 then Some (Inr (RpCreate FS_OK fd (toProtoAttr attr (Some ident)) g), file_emitMutatedAttr sid vol p attr sv3)
                            else Some (Inr (RpCreate FS_OK fd None g), file_emitMutatedAttr sid vol p None sv3))))))
            sv)"

text \<open>The frames of a read; \<open>during k\<close> is the file-system state its read number \<open>k\<close> finds.\<close>

(* src/pkg/server/controller/file.go:190-234 Read *)
definition file_Read ::
  "file_ctx \<Rightarrow> 'fs fileops \<Rightarrow> (nat \<Rightarrow> 'fs) \<Rightarrow> (nat \<Rightarrow> bool) \<Rightarrow> (nat \<Rightarrow> bool) \<Rightarrow> string \<Rightarrow> string \<Rightarrow> nat \<Rightarrow> nat \<Rightarrow> nat
    \<Rightarrow> ('fs, file_error + ReadFrame list \<times> bool) fstep" where
  "file_Read fc fo during cancelled sent sid vol fd off n =
    in_session (fc_sessions fc) (fc_principal fc) sid (\<lambda>s.
      with_entry fo s fd vol (Inr (if sent 0 then ([\<lparr>rf_Data = [], rf_Status = FS_EBADF\<rparr>], True) else ([], False)))
        (\<lambda>e sv. Some (Inr (Stream (fc_frameSize fc) (\<lambda>k chunk o'. fileRead fo (en_File e) chunk o' (during k)) cancelled sent 0 n off), sv)))"

(* src/pkg/server/controller/file.go:245-310 Write *)
definition write_once ::
  "file_ctx \<Rightarrow> 'fs fileops \<Rightarrow> string \<Rightarrow> WriteFrame \<Rightarrow> WriteFrame list \<Rightarrow> bool \<Rightarrow> ('fs, file_error + file_reply) fstep" where
  "write_once fc fo s first frames eof =
    with_entry fo s (wf_Fd first) (wf_Volume first) (Inl (RpcErr NotFoundError)) (\<lambda>e.
      arb_gate (fc_env fc) (wf_SessionId first) (en_Path e)
        (\<lambda>st sv. case drainWriteStream frames eof of
                   Some err \<Rightarrow> Some (Inl (StreamErr err), sv)
                 | None \<Rightarrow> Some (Inr (RpWrite 0 st None), sv))
        (\<lambda>sv. case on_fs (applyWriteStream fo first frames eof (en_File e)) sv of
                (Inl err, sv1) \<Rightarrow> Some (Inl (StreamErr err), sv1)
              | (Inr (written, st), sv1) \<Rightarrow> Some (Inr (RpWrite written st None), sv1)))"

text \<open>The path of the entry the write used, empty when there is none.\<close>

definition entry_path :: "string \<Rightarrow> WriteFrame \<Rightarrow> 'fs fserver \<Rightarrow> path" where
  "entry_path s first sv = (case sessionFile s (wf_Fd first) (wf_Volume first) sv of Some (e, _) \<Rightarrow> en_Path e | None \<Rightarrow> '''')"

text \<open>The reply is cached by reference: the grant that is set after the closure ran is part of what a replay returns.\<close>

(* src/pkg/server/controller/file.go:245-310 Write *)
definition file_Write ::
  "file_ctx \<Rightarrow> 'fs fileops \<Rightarrow> (string \<Rightarrow> 'fs pathfs option) \<Rightarrow> WriteFrame list \<Rightarrow> bool \<Rightarrow> ('fs, file_error + file_reply) fstep" where
  "file_Write fc fo raw stream eof sv =
    (case stream of
       [] \<Rightarrow> Some (Inl (if eof then RpcErr InvalidArgument else StreamErr StreamBroken), sv)
     | first # frames \<Rightarrow>
         if wf_Volume first = '''' \<or> wf_Fd first = 0 \<or> wf_SessionId first = '''' \<or> wf_RequestId first = ''''
         then Some (Inl (RpcErr InvalidArgument), sv)
         else in_session (fc_sessions fc) (fc_principal fc) (wf_SessionId first) (\<lambda>s sv.
           (case DoOnce s (wf_RequestId first) (write_once fc fo s first frames eof) sv of
              None \<Rightarrow> None
            | Some ((Inl e, _), sv1) \<Rightarrow> Some (Inl e, sv1)
            | Some ((Inr v, applied), sv1) \<Rightarrow>
                (case (if applied then None else drainWriteStream frames eof) of
                   Some err \<Rightarrow> Some (Inl (StreamErr err), sv1)
                 | None \<Rightarrow>
                     (case v of
                        RpWrite written st g \<Rightarrow>
                          if applied \<and> st = FS_OK \<and> entry_path s first sv \<noteq> '''' then
                            (case take_grant (fc_env fc) (wf_SessionId first)
                                    (case gm_get (fc_sessions fc) s of Some p \<Rightarrow> p | None \<Rightarrow> '''') (wf_Volume first) (wf_Delegation first)
                                    (emitMutatedFd raw (wf_SessionId first) (wf_Volume first) (entry_path s first sv) None sv1) of
                               (g', sv2) \<Rightarrow>
                                 Some (Inr (RpWrite written st g'),
                                       sv2\<lparr>fv_replies := gm_put (s, wf_RequestId first) (RpWrite written st g') (fv_replies sv2)\<rparr>))
                          else Some (Inr (RpWrite written st g), sv1)
                      | _ \<Rightarrow> Some (Inl (RpcErr InternalError), sv1))))) sv)"

text \<open>The descriptor calls that only forward to the file.\<close>

definition file_call :: "file_ctx \<Rightarrow> 'fs fileops \<Rightarrow> string \<Rightarrow> string \<Rightarrow> nat \<Rightarrow> (nat \<Rightarrow> 'fs \<Rightarrow> 'r \<times> 'fs) \<Rightarrow> ('fs, file_error + 'r) fstep" where
  "file_call fc fo sid vol fd f =
    in_session (fc_sessions fc) (fc_principal fc) sid (\<lambda>s.
      with_entry fo s fd vol (Inl (RpcErr NotFoundError)) (\<lambda>e sv.
        case on_fs (f (en_File e)) sv of (r, sv1) \<Rightarrow> Some (Inr r, sv1)))"

definition with_status :: "('fs \<Rightarrow> nat \<times> 'fs) \<Rightarrow> 'fs \<Rightarrow> FsError \<times> 'fs" where
  "with_status f fs = (case f fs of (st, fs') \<Rightarrow> (fromErrno_status st, fs'))"

(* src/pkg/server/controller/file.go:397-408 Fsync *)
definition file_Fsync where
  "file_Fsync fc fo sid vol fd flags = file_call fc fo sid vol fd (\<lambda>f. with_status (fo_Fsync fo f flags))"

(* src/pkg/server/controller/file.go:430-441 Flush *)
definition file_Flush where
  "file_Flush fc fo sid vol fd = file_call fc fo sid vol fd (\<lambda>f. with_status (fo_Flush fo f))"

(* src/pkg/server/controller/file.go:443-460 GetLk *)
definition file_GetLk where
  "file_GetLk fc fo sid vol fd ow lk flags =
    file_call fc fo sid vol fd (\<lambda>f fs. case fo_GetLk fo f ow lk flags fs of ((out, st), fs') \<Rightarrow> ((out, fromErrno_status st), fs'))"

(* src/pkg/server/controller/file.go:462-474 SetLk *)
definition file_SetLk where
  "file_SetLk fc fo sid vol fd ow lk flags = file_call fc fo sid vol fd (\<lambda>f. with_status (fo_SetLk fo f ow lk flags))"

(* src/pkg/server/controller/file.go:476-488 SetLkw *)
definition file_SetLkw where
  "file_SetLkw fc fo sid vol fd ow lk flags = file_call fc fo sid vol fd (\<lambda>f. with_status (fo_SetLkw fo f ow lk flags))"

(* src/pkg/server/controller/file.go:410-428 Release *)
definition file_Release :: "file_ctx \<Rightarrow> 'fs fileops \<Rightarrow> string \<Rightarrow> string \<Rightarrow> nat \<Rightarrow> ('fs, file_error + unit) fstep" where
  "file_Release fc fo sid vol fd =
    in_session (fc_sessions fc) (fc_principal fc) sid (\<lambda>s.
      with_entry fo s fd vol (Inr ()) (\<lambda>e sv. Some (Inr (), table_ReleaseFile fo s fd sv)))"

(* src/pkg/server/controller/file.go:502-554 WriteAndFlush *)
definition write_and_flush ::
  "file_ctx \<Rightarrow> 'fs fileops \<Rightarrow> (string \<Rightarrow> 'fs pathfs option) \<Rightarrow> string \<Rightarrow> string \<Rightarrow> string \<Rightarrow> nat \<Rightarrow> bytes \<Rightarrow> nat \<Rightarrow> ('fs, file_error + file_reply) fstep" where
  "write_and_flush fc fo raw sid s vol fd d off =
    with_entry fo s fd vol (Inr (RpWriteAndFlush 0 FS_EBADF None)) (\<lambda>e.
      arb_gate (fc_env fc) sid (en_Path e) (\<lambda>st sv. Some (Inr (RpWriteAndFlush 0 st None), sv)) (\<lambda>sv.
        case raw vol of
          None \<Rightarrow> Some (Inl VolumeErr, sv)
        | Some pf \<Rightarrow>
            (case (if d \<noteq> [] then on_fs (fo_Write fo (en_File e) d off) sv else ((0, 0), sv)) of
               ((n, wst), sv1) \<Rightarrow>
                 if wst \<noteq> 0 then Some (Inr (RpWriteAndFlush 0 (fromErrno_status wst) None), sv1)
                 else
                   (case on_fs (fo_Flush fo (en_File e)) sv1 of (st, sv2) \<Rightarrow>
                     (case pf_GetAttr pf (en_Path e) (createContext None) (sr_fs (fv_srv sv2)) of (attr, gst) \<Rightarrow>
                        Some (Inr (RpWriteAndFlush (of_nat n) (fromErrno_status st) (if gst = 0 then toProtoAttr attr None else None)),
                              if st = 0 then file_emitMutatedAttr sid vol (en_Path e) (if gst = 0 then attr else None) sv2 else sv2))))))"

(* src/pkg/server/controller/file.go:502-554 WriteAndFlush *)
definition file_WriteAndFlush ::
  "file_ctx \<Rightarrow> 'fs fileops \<Rightarrow> (string \<Rightarrow> 'fs pathfs option) \<Rightarrow> string \<Rightarrow> string \<Rightarrow> string \<Rightarrow> nat \<Rightarrow> bytes \<Rightarrow> nat \<Rightarrow> ('fs, file_error + file_reply) fstep" where
  "file_WriteAndFlush fc fo raw sid rid vol fd d off =
    in_session (fc_sessions fc) (fc_principal fc) sid (\<lambda>s.
      withOptionalIdempotency is_waf s rid (write_and_flush fc fo raw sid s vol fd d off))"

(* src/pkg/server/controller/file.go:556-580 Allocate *)
definition file_Allocate ::
  "file_ctx \<Rightarrow> 'fs fileops \<Rightarrow> (string \<Rightarrow> 'fs pathfs option) \<Rightarrow> string \<Rightarrow> string \<Rightarrow> nat \<Rightarrow> path \<Rightarrow> Caller option \<Rightarrow> u64 \<Rightarrow> u64 \<Rightarrow> u32
    \<Rightarrow> (path \<times> string) option \<Rightarrow> ('fs, file_error + FsError \<times> DelegationGrant option) fstep" where
  "file_Allocate fc fo raw sid vol fd rpath caller off sz mode deleg =
    in_session (fc_sessions fc) (fc_principal fc) sid (\<lambda>s.
      with_entry fo s fd vol (Inl (RpcErr NotFoundError)) (\<lambda>e sv.
        let p = (if en_Path e = '''' then rpath else en_Path e)
        in arb_gate (fc_env fc) sid p (\<lambda>st sv. Some (Inr (st, None), sv)) (\<lambda>sv.
             case on_fs (fo_Allocate fo (en_File e) off sz mode) sv of (st, sv1) \<Rightarrow>
               if st \<noteq> 0 then Some (Inr (fromErrno_status st, None), sv1)
               else (case take_grant (fc_env fc) sid (case gm_get (fc_sessions fc) s of Some pr \<Rightarrow> pr | None \<Rightarrow> '''') vol deleg
                            (emitMutatedFd raw sid vol p caller sv1) of
                       (g, sv2) \<Rightarrow> Some (Inr (FS_OK, g), sv2))) sv))"

(* src/pkg/server/controller/file.go:598-636 CopyFileRange *)
definition file_CopyFileRange ::
  "file_ctx \<Rightarrow> 'fs fileops \<Rightarrow> (string \<Rightarrow> 'fs pathfs option) \<Rightarrow> string \<Rightarrow> string \<Rightarrow> string \<Rightarrow> nat \<Rightarrow> u64 \<Rightarrow> nat \<Rightarrow> path \<Rightarrow> u64 \<Rightarrow> u64 \<Rightarrow> u64
    \<Rightarrow> Caller option \<Rightarrow> ('fs, file_error + file_reply) fstep" where
  "file_CopyFileRange fc fo raw sid rid vol fdIn offIn fdOut pathOut offOut len flags caller =
    in_session (fc_sessions fc) (fc_principal fc) sid (\<lambda>s sv.
      if flags \<noteq> 0 then Some (Inr (RpCopy 0 FS_EINVAL), sv)
      else withOptionalIdempotency is_copy s rid
        (with_entry fo s fdIn vol (Inr (RpCopy 0 FS_EBADF)) (\<lambda>src.
          with_entry fo s fdOut vol (Inr (RpCopy 0 FS_EBADF)) (\<lambda>dst sv.
            let p = (if en_Path dst = '''' then pathOut else en_Path dst)
            in arb_gate (fc_env fc) sid p (\<lambda>st sv. Some (Inr (RpCopy 0 st), sv)) (\<lambda>sv.
                 case on_fs (io_CopyFileRange fo (en_File src) (en_File dst) offIn offOut len) sv of ((copied, st), sv1) \<Rightarrow>
                   Some (Inr (RpCopy copied (fromErrno_status st)),
                         if st = 0 \<and> copied > 0 then emitMutatedFd raw sid vol p caller sv1 else sv1)) sv))) sv)"

datatype SeekWhence = SEEK_WHENCE_UNSPECIFIED | SEEK_WHENCE_SET | SEEK_WHENCE_CUR | SEEK_WHENCE_END | SEEK_WHENCE_DATA | SEEK_WHENCE_HOLE

(* src/pkg/common/fsconv/fsconv.go:40-55 WhenceFromProto *)
fun WhenceFromProto :: "SeekWhence \<Rightarrow> u32" where
  "WhenceFromProto SEEK_WHENCE_CUR = 1"
| "WhenceFromProto SEEK_WHENCE_END = 2"
| "WhenceFromProto SEEK_WHENCE_DATA = 3"
| "WhenceFromProto SEEK_WHENCE_HOLE = 4"
| "WhenceFromProto _ = 0"

(* src/pkg/server/controller/file.go:643-658 Lseek *)
definition file_Lseek ::
  "file_ctx \<Rightarrow> 'fs fileops \<Rightarrow> string \<Rightarrow> string \<Rightarrow> nat \<Rightarrow> u64 \<Rightarrow> SeekWhence \<Rightarrow> ('fs, file_error + u64 \<times> FsError) fstep" where
  "file_Lseek fc fo sid vol fd off whence =
    in_session (fc_sessions fc) (fc_principal fc) sid (\<lambda>s sv.
      if whence \<noteq> SEEK_WHENCE_DATA \<and> whence \<noteq> SEEK_WHENCE_HOLE then Some (Inr (0, FS_EINVAL), sv)
      else with_entry fo s fd vol (Inr (0, FS_EBADF)) (\<lambda>e sv.
        case io_Lseek fo (en_File e) off (WhenceFromProto whence) (sr_fs (fv_srv sv)) of
          (o', st) \<Rightarrow> Some (Inr (o', fromErrno_status st), sv)) sv)"

section \<open>All requests\<close>

datatype file_req =
    QOpen string string string "Caller option" path u32
  | QCreate string string string "Caller option" path u32 u32 "(path \<times> string) option"
  | QRead string string nat nat nat
  | QWrite "WriteFrame list" bool
  | QFsync string string nat int
  | QRelease string string nat
  | QFlush string string nat
  | QGetLk string string nat u64 FileLock u32
  | QSetLk string string nat u64 FileLock u32
  | QSetLkw string string nat u64 FileLock u32
  | QWriteAndFlush string string string nat bytes nat
  | QAllocate string string nat path "Caller option" u64 u64 u32 "(path \<times> string) option"
  | QCopyFileRange string string string nat u64 nat path u64 u64 u64 "Caller option"
  | QLseek string string nat u64 SeekWhence
  | QReap string

definition no_reply :: "('r \<times> 's) option \<Rightarrow> 's option" where
  "no_reply x = map_option snd x"

(* src/pkg/server/service/session.go:272-287 ReleaseAll *)
definition session_ReleaseAll :: "'fs fileops \<Rightarrow> string \<Rightarrow> 'fs fserver \<Rightarrow> 'fs fserver" where
  "session_ReleaseAll fo sid sv = fold (\<lambda>k. table_ReleaseFile fo (fst k) (snd k)) (filter (\<lambda>k. fst k = sid) (fv_table sv)) sv"

fun file_handle ::
  "file_ctx \<Rightarrow> 'fs fileops \<Rightarrow> 'fs idbind \<Rightarrow> (string \<Rightarrow> 'fs pathfs option) \<Rightarrow> (nat \<Rightarrow> bool) \<Rightarrow> (nat \<Rightarrow> bool) \<Rightarrow> file_req \<Rightarrow> 'fs fserver \<Rightarrow> 'fs fserver option" where
  "file_handle fc fo bind raw ca se (QOpen sid rid vol c p fl) sv = no_reply (file_Open fc bind sid rid vol c p fl sv)"
| "file_handle fc fo bind raw ca se (QCreate sid rid vol c p fl m dl) sv = no_reply (file_Create fc bind sid rid vol c p fl m dl sv)"
| "file_handle fc fo bind raw ca se (QRead sid vol fd off n) sv = no_reply (file_Read fc fo (\<lambda>_. sr_fs (fv_srv sv)) ca se sid vol fd off n sv)"
| "file_handle fc fo bind raw ca se (QWrite str eof) sv = no_reply (file_Write fc fo raw str eof sv)"
| "file_handle fc fo bind raw ca se (QFsync sid vol fd fl) sv = no_reply (file_Fsync fc fo sid vol fd fl sv)"
| "file_handle fc fo bind raw ca se (QRelease sid vol fd) sv = no_reply (file_Release fc fo sid vol fd sv)"
| "file_handle fc fo bind raw ca se (QFlush sid vol fd) sv = no_reply (file_Flush fc fo sid vol fd sv)"
| "file_handle fc fo bind raw ca se (QGetLk sid vol fd ow lk fl) sv = no_reply (file_GetLk fc fo sid vol fd ow lk fl sv)"
| "file_handle fc fo bind raw ca se (QSetLk sid vol fd ow lk fl) sv = no_reply (file_SetLk fc fo sid vol fd ow lk fl sv)"
| "file_handle fc fo bind raw ca se (QSetLkw sid vol fd ow lk fl) sv = no_reply (file_SetLkw fc fo sid vol fd ow lk fl sv)"
| "file_handle fc fo bind raw ca se (QWriteAndFlush sid rid vol fd d off) sv = no_reply (file_WriteAndFlush fc fo raw sid rid vol fd d off sv)"
| "file_handle fc fo bind raw ca se (QAllocate sid vol fd p c off n m dl) sv = no_reply (file_Allocate fc fo raw sid vol fd p c off n m dl sv)"
| "file_handle fc fo bind raw ca se (QCopyFileRange sid rid vol fi oi fj pj oj n fl c) sv = no_reply (file_CopyFileRange fc fo raw sid rid vol fi oi fj pj oj n fl c sv)"
| "file_handle fc fo bind raw ca se (QLseek sid vol fd off w) sv = no_reply (file_Lseek fc fo sid vol fd off w sv)"
| "file_handle fc fo bind raw ca se (QReap sid) sv = Some (session_ReleaseAll fo sid sv)"

section \<open>No reference is leaked\<close>

text \<open>Descriptor \<open>k\<close> is referenced by the table and by \<open>h k\<close> running operations.\<close>

definition entry_ok :: "'fs fserver \<Rightarrow> string \<times> nat \<Rightarrow> nat \<Rightarrow> bool" where
  "entry_ok sv k held \<longleftrightarrow>
    (case gm_get (fv_entry sv) k of
       None \<Rightarrow> k \<notin> set (fv_table sv) \<and> held = 0
     | Some e \<Rightarrow>
         fe_refs (en_ref e) = (if k \<in> set (fv_table sv) then 1 else 0) + int held \<and>
         fe_closed (en_ref e) = (if k \<notin> set (fv_table sv) \<and> held = 0 then 1 else 0) \<and>
         snd k \<le> (case gm_get (fv_fdNum sv) (fst k) of Some n \<Rightarrow> n | None \<Rightarrow> 0))"

definition refs_inv :: "(string \<times> nat \<Rightarrow> nat) \<Rightarrow> 'fs fserver \<Rightarrow> bool" where
  "refs_inv h sv \<longleftrightarrow> \<not> fv_panicked sv \<and> distinct (fv_table sv) \<and> (\<forall>k. entry_ok sv k (h k))"

lemma refs_invD: "refs_inv h sv \<Longrightarrow> entry_ok sv k (h k)"
  unfolding refs_inv_def by blast

lemma refs_inv_base: "refs_inv h sv \<Longrightarrow> \<not> fv_panicked sv \<and> distinct (fv_table sv)"
  unfolding refs_inv_def by blast

text \<open>The descriptors do not depend on the files, the events, the delegations and the replies.\<close>

definition same_fds :: "'fs fserver \<Rightarrow> 'fs fserver \<Rightarrow> bool" where
  "same_fds sv sv' \<longleftrightarrow> fv_table sv' = fv_table sv \<and> fv_entry sv' = fv_entry sv \<and> fv_fdNum sv' = fv_fdNum sv \<and> fv_panicked sv' = fv_panicked sv"

lemma same_fds_inv: "same_fds sv sv' \<Longrightarrow> refs_inv h sv' = refs_inv h sv"
  unfolding same_fds_def refs_inv_def entry_ok_def by (elim conjE) (simp only:)

lemma on_fs_same: "on_fs f sv = (r, sv') \<Longrightarrow> same_fds sv sv'"
  by (auto simp: on_fs_def same_fds_def split: prod.splits)

text \<open>A change of one descriptor: the others keep their entries and their place in the table.\<close>

lemma refs_inv_update:
  assumes "refs_inv h sv" "\<not> fv_panicked sv'" "distinct (fv_table sv')" "entry_ok sv' k n"
    and "\<And>k'. k' \<noteq> k \<Longrightarrow> gm_get (fv_entry sv') k' = gm_get (fv_entry sv) k' \<and> (k' \<in> set (fv_table sv') \<longleftrightarrow> k' \<in> set (fv_table sv))"
    and "\<And>s. (case gm_get (fv_fdNum sv) s of Some n \<Rightarrow> n | None \<Rightarrow> 0) \<le> (case gm_get (fv_fdNum sv') s of Some n \<Rightarrow> n | None \<Rightarrow> 0)"
  shows "refs_inv (h(k := n)) sv'"
proof -
  have "entry_ok sv' k' (h k')" if "k' \<noteq> k" for k'
    using refs_invD[OF assms(1), of k'] assms(5)[OF that] assms(6)[of "fst k'"] by (auto simp: entry_ok_def split: option.splits)
  then show ?thesis using assms(2-4) unfolding refs_inv_def by (metis fun_upd_apply)
qed

lemma refs_inv_register:
  assumes "refs_inv h sv" "RegisterFile sid vol p file sv = (fd, sv')"
  shows "refs_inv h sv'"
proof -
  have "gm_get (fv_entry sv) (sid, fd) = None"
    using refs_invD[OF assms(1), of "(sid, fd)"] assms(2) by (auto simp: entry_ok_def RegisterFile_def Let_def split: option.splits)
  then have n: "(sid, fd) \<notin> set (fv_table sv)" "h (sid, fd) = 0"
    using refs_invD[OF assms(1), of "(sid, fd)"] by (simp_all add: entry_ok_def)
  have "refs_inv (h((sid, fd) := 0)) sv'"
    by (rule refs_inv_update[OF assms(1)])
      (use assms n refs_inv_base[OF assms(1)] in \<open>auto simp: entry_ok_def RegisterFile_def Let_def gm_get_put split: option.splits if_splits\<close>)
  then show ?thesis using n(2) by (simp add: fun_upd_idem)
qed

lemma refs_inv_acquire:
  assumes "refs_inv h sv" "sessionFile sid fd vol sv = Some (e, sv')"
  shows "refs_inv (h((sid, fd) := Suc (h (sid, fd)))) sv'"
  by (rule refs_inv_update[OF assms(1)])
    (use assms(2) refs_inv_base[OF assms(1)] refs_invD[OF assms(1), of "(sid, fd)"] in
      \<open>auto simp: entry_ok_def sessionFile_def Acquire_def gm_get_put split: option.splits if_splits\<close>)

lemma refs_inv_release:
  assumes "refs_inv h sv" "h (sid, fd) = Suc n"
  shows "refs_inv (h((sid, fd) := n)) (entry_ReleaseRef fo sid fd sv)"
proof -
  have ok: "entry_ok sv (sid, fd) (Suc n)" using refs_invD[OF assms(1), of "(sid, fd)"] assms(2) by simp
  then obtain e where e: "gm_get (fv_entry sv) (sid, fd) = Some e" by (auto simp: entry_ok_def split: option.splits)
  define r where "r = snd (ReleaseRef (en_ref e))"
  have re: "fe_refs r = (if (sid, fd) \<in> set (fv_table sv) then 1 else 0) + int n"
    "fe_closed r = (if (sid, fd) \<notin> set (fv_table sv) \<and> n = 0 then 1 else 0)" "\<not> fst (ReleaseRef (en_ref e))"
    using ok e by (auto simp: entry_ok_def r_def ReleaseRef_def Let_def)
  define sv1 where "sv1 = sv\<lparr>fv_entry := gm_put (sid, fd) (e\<lparr>en_ref := r\<rparr>) (fv_entry sv)\<rparr>"
  have s: "same_fds sv1 (entry_ReleaseRef fo sid fd sv)"
    using e re(3) by (auto simp: entry_ReleaseRef_def sv1_def r_def Let_def same_fds_def on_fs_def split: prod.splits)
  have "refs_inv (h((sid, fd) := n)) sv1"
    by (rule refs_inv_update[OF assms(1)])
      (use refs_inv_base[OF assms(1)] ok e re in \<open>auto simp: entry_ok_def sv1_def gm_get_put split: if_splits\<close>)
  then show ?thesis using same_fds_inv[OF s] by blast
qed

lemma refs_inv_table_release:
  assumes "refs_inv h sv"
  shows "refs_inv h (table_ReleaseFile fo sid fd sv)"
proof (cases "(sid, fd) \<in> set (fv_table sv)")
  case True
  define sv0 where "sv0 = sv\<lparr>fv_table := removeAll (sid, fd) (fv_table sv)\<rparr>"
  have "refs_inv (h((sid, fd) := Suc (h (sid, fd)))) sv0"
    by (rule refs_inv_update[OF assms])
      (use True refs_inv_base[OF assms] refs_invD[OF assms, of "(sid, fd)"] in
        \<open>auto simp: entry_ok_def sv0_def distinct_removeAll split: option.splits\<close>)
  from refs_inv_release[OF this, of sid fd "h (sid, fd)" fo] show ?thesis
    using True by (simp add: table_ReleaseFile_def sv0_def)
qed (use assms in \<open>simp add: table_ReleaseFile_def\<close>)

definition keeps :: "('fs, 'r) fstep \<Rightarrow> bool" where
  "keeps step \<longleftrightarrow> (\<forall>h sv r sv'. refs_inv h sv \<longrightarrow> step sv = Some (r, sv') \<longrightarrow> refs_inv h sv')"

lemma keepsI: "(\<And>h sv r sv'. refs_inv h sv \<Longrightarrow> step sv = Some (r, sv') \<Longrightarrow> refs_inv h sv') \<Longrightarrow> keeps step"
  unfolding keeps_def by blast

lemma keepsD: "keeps step \<Longrightarrow> step sv = Some (r, sv') \<Longrightarrow> refs_inv h sv \<Longrightarrow> refs_inv h sv'"
  unfolding keeps_def by blast

lemma keeps_same: "(\<And>sv r sv'. step sv = Some (r, sv') \<Longrightarrow> same_fds sv sv') \<Longrightarrow> keeps step"
  by (rule keepsI) (use same_fds_inv in blast)

lemma keeps_with_entry:
  assumes "\<And>e. keeps (body e)"
  shows "keeps (with_entry fo s fd vol m body)"
proof (rule keepsI)
  fix h sv r sv' assume inv: "refs_inv h sv" and st: "with_entry fo s fd vol m body sv = Some (r, sv')"
  show "refs_inv h sv'"
  proof (cases "sessionFile s fd vol sv")
    case (Some x)
    obtain e sv1 where x: "x = (e, sv1)" by fastforce
    obtain r2 sv2 where b: "body e sv1 = Some (r2, sv2)" "sv' = entry_ReleaseRef fo s fd sv2"
      using st Some x by (auto simp: with_entry_def)
    have "refs_inv (h((s, fd) := Suc (h (s, fd)))) sv2"
      using keepsD[OF assms b(1)] refs_inv_acquire[OF inv] Some x by blast
    from refs_inv_release[OF this, of s fd "h (s, fd)" fo] show ?thesis using b(2) by simp
  qed (use inv st in \<open>simp add: with_entry_def\<close>)
qed

lemma keeps_in_session: "(\<And>s. keeps (k s)) \<Longrightarrow> keeps (in_session sessions ctxP sid k)"
  by (rule keepsI) (auto simp: in_session_def dest: keepsD split: sum.splits)

lemma keeps_arb_gate:
  assumes "\<And>e. keeps (deny e)" "keeps k"
  shows "keeps (arb_gate env sid p deny k)"
proof (rule keepsI)
  fix h sv r sv' assume inv: "refs_inv h sv" and st: "arb_gate env sid p deny k sv = Some (r, sv')"
  have "refs_inv h (sv\<lparr>fv_arb := a\<rparr>)" for a
    using inv same_fds_inv[of sv "sv\<lparr>fv_arb := a\<rparr>"] by (simp add: same_fds_def)
  then show "refs_inv h sv'"
    using st keepsD[OF assms(1)] keepsD[OF assms(2)] by (auto simp: arb_gate_def Let_def split: option.splits if_splits)
qed

lemma keeps_DoOnce:
  assumes "keeps body"
  shows "keeps (DoOnce sid rid body)"
proof (rule keepsI)
  fix h sv r sv' assume inv: "refs_inv h sv" and st: "DoOnce sid rid body sv = Some (r, sv')"
  have "refs_inv h (s\<lparr>fv_replies := a\<rparr>) = refs_inv h s" for s :: "'a fserver" and a
    by (rule same_fds_inv) (simp add: same_fds_def)
  then show "refs_inv h sv'"
    using st inv keepsD[OF assms] by (fastforce simp: DoOnce_def split: option.splits sum.splits)
qed

lemma keeps_typed_once: "keeps body \<Longrightarrow> keeps (typed_once typed sid rid body)"
  by (rule keepsI) (auto simp: typed_once_def dest: keepsD[OF keeps_DoOnce] split: if_splits)

lemma keeps_optional: "keeps body \<Longrightarrow> keeps (withOptionalIdempotency typed sid rid body)"
  by (rule keepsI) (auto simp: withOptionalIdempotency_def dest: keepsD keepsD[OF keeps_typed_once] split: if_splits)

lemma keeps_if: "keeps a \<Longrightarrow> keeps b \<Longrightarrow> keeps (\<lambda>sv. if c then a sv else b sv)"
  by (cases c) simp_all

lemma keeps_done: "keeps (\<lambda>sv. Some (r, sv))"
  by (rule keeps_same) (simp add: same_fds_def)

lemmas keeps_intros = keeps_with_entry keeps_in_session keeps_arb_gate keeps_DoOnce keeps_typed_once keeps_optional keeps_if keeps_done

lemma keeps_file_call: "keeps (file_call fc fo sid vol fd f)"
  unfolding file_call_def
  by (intro keeps_intros keeps_same) (auto simp: same_fds_def on_fs_def split: prod.splits)

lemmas file_call_defs = file_Fsync_def file_Flush_def file_GetLk_def file_SetLk_def file_SetLkw_def

lemma register_keeps:
  assumes "on_fs f sv = ((file, st), sv1)" "RegisterFile s vol p file sv1 = (fd, sv2)" "refs_inv h sv"
  shows "refs_inv h sv2"
  using refs_inv_register[OF _ assms(2)] same_fds_inv[OF on_fs_same[OF assms(1)]] assms(3) by blast

lemma keeps_file_Open: "keeps (file_Open fc bind sid rid vol c p fl)"
proof -
  have "keeps (\<lambda>sv. case on_fs (pf_Open pf p fl fx) sv of ((file, st), sv1) \<Rightarrow>
      if st = 0 then (case RegisterFile s vol p file sv1 of (fd, sv2) \<Rightarrow> Some (Inr (RpOpen FS_OK fd), sv2))
      else Some (Inr (RpOpen (fromErrno_status st) 0), sv1))" for pf fx s
    by (rule keepsI)
      (auto split: prod.splits if_splits dest: register_keeps same_fds_inv[OF on_fs_same])
  then show ?thesis
    unfolding file_Open_def
    by (intro keeps_in_session; cases "bind vol c") (auto intro!: keeps_done keeps_typed_once)
qed

lemma same_fds_trans: "same_fds a b \<Longrightarrow> same_fds b c \<Longrightarrow> same_fds a c"
  by (simp add: same_fds_def)

lemma take_grant_same: "take_grant env sid prin vol dl sv = (g, sv') \<Longrightarrow> same_fds sv sv'"
  by (auto simp: take_grant_def same_fds_def split: prod.splits)

lemma emit_same [simp]: "same_fds sv (file_emitMutatedAttr sid vol p a sv)" "same_fds sv (emitMutatedFd raw sid vol p c sv)"
  by (simp_all add: same_fds_def file_emitMutatedAttr_def emitMutatedFd_def)

lemma emit_inv [simp]: "refs_inv h (file_emitMutatedAttr sid vol p a sv) = refs_inv h sv"
  "refs_inv h (emitMutatedFd raw sid vol p c sv) = refs_inv h sv"
  by (rule same_fds_inv, rule emit_same)+

lemma keeps_file_Create: "keeps (file_Create fc bind sid rid vol c p fl m dl)"
proof -
  have "keeps (\<lambda>sv. case on_fs (pf_Create pf p fl m (createContext c)) sv of
      ((file, st), sv1) \<Rightarrow>
        if st \<noteq> 0 then Some (Inr (RpCreate (fromErrno_status st) 0 None None), sv1)
        else (case RegisterFile s vol p file sv1 of (fd, sv2) \<Rightarrow>
             (case take_grant (fc_env fc) sid (id_Principal ident) vol dl sv2 of (g, sv3) \<Rightarrow>
               (case pf_GetAttr pf p (createContext c) (sr_fs (fv_srv sv3)) of (attr, gst) \<Rightarrow>
                  if gst = 0 then Some (Inr (RpCreate FS_OK fd (toProtoAttr attr (Some ident)) g), file_emitMutatedAttr sid vol p attr sv3)
                  else Some (Inr (RpCreate FS_OK fd None g), file_emitMutatedAttr sid vol p None sv3)))))" for pf s ident
    by (rule keepsI)
      (auto split: prod.splits if_splits dest: register_keeps same_fds_inv[OF on_fs_same] same_fds_inv[OF take_grant_same])
  then show ?thesis
    unfolding file_Create_def
    by (intro keeps_in_session; cases "bind vol c") (auto intro!: keeps_done keeps_typed_once keeps_arb_gate simp del: neq0_conv)
qed

lemma keeps_write_once: "keeps (write_once fc fo s first frames eof)"
  unfolding write_once_def
  by (intro keeps_intros keeps_same) (auto split: prod.splits sum.splits option.splits simp: same_fds_def on_fs_def)

lemma keeps_file_Write: "keeps (file_Write fc fo raw str eof)"
proof (cases str)
  case (Cons first frames)
  define body where "body = (\<lambda>s. DoOnce s (wf_RequestId first) (write_once fc fo s first frames eof))"
  have b: "keeps (body s)" for s unfolding body_def by (intro keeps_intros keeps_write_once)
  have r: "refs_inv h (s\<lparr>fv_replies := a\<rparr>) = refs_inv h s" for h and s :: "'a fserver" and a
    by (rule same_fds_inv) (simp add: same_fds_def)
  show ?thesis
    by (rule keepsI)
      (auto simp: file_Write_def Cons in_session_def r body_def[symmetric, THEN fun_cong] dest!: keepsD[OF b]
        same_fds_inv[OF take_grant_same] split: if_splits sum.splits option.splits prod.splits file_reply.splits)
qed (auto intro!: keepsI simp: file_Write_def)

lemma keeps_file_Release: "keeps (file_Release fc fo sid vol fd)"
  unfolding file_Release_def
  by (intro keeps_intros keepsI) (auto intro: refs_inv_table_release)

lemma keeps_file_Read: "keeps (file_Read fc fo during ca se sid vol fd off n)"
  unfolding file_Read_def by (intro keeps_intros)

lemma keeps_file_WriteAndFlush: "keeps (file_WriteAndFlush fc fo raw sid rid vol fd d off)"
  unfolding file_WriteAndFlush_def write_and_flush_def
  by (intro keeps_intros keepsI; cases "raw vol")
    (auto split: prod.splits if_splits dest!: same_fds_inv[OF on_fs_same])

lemma keeps_file_Allocate: "keeps (file_Allocate fc fo raw sid vol fd rp c off n m dl)"
  unfolding file_Allocate_def Let_def
  by (intro keeps_intros keepsI)
    (auto split: prod.splits if_splits dest!: same_fds_inv[OF on_fs_same] same_fds_inv[OF take_grant_same])

lemma keeps_file_CopyFileRange: "keeps (file_CopyFileRange fc fo raw sid rid vol fi oi fj pj oj n fl c)"
  unfolding file_CopyFileRange_def Let_def
  by (intro keeps_intros keepsI) (auto split: prod.splits if_splits dest!: same_fds_inv[OF on_fs_same])

lemma keeps_file_Lseek: "keeps (file_Lseek fc fo sid vol fd off w)"
  unfolding file_Lseek_def
  by (intro keeps_intros keeps_same) (auto simp: same_fds_def split: prod.splits)

lemma refs_inv_ReleaseAll: "refs_inv h sv \<Longrightarrow> refs_inv h (session_ReleaseAll fo sid sv)"
  unfolding session_ReleaseAll_def by (rule fold_invariant[where Q = "\<lambda>_. True"]) (auto intro: refs_inv_table_release)

lemmas keeps_handlers = keeps_file_Open keeps_file_Create keeps_file_Read keeps_file_Write keeps_file_call keeps_file_Release
  keeps_file_WriteAndFlush keeps_file_Allocate keeps_file_CopyFileRange keeps_file_Lseek

lemma keeps_no_reply: "keeps step \<Longrightarrow> no_reply (step sv) = Some sv' \<Longrightarrow> refs_inv h sv \<Longrightarrow> refs_inv h sv'"
  by (auto simp: no_reply_def dest: keepsD)

lemma file_handle_refs:
  assumes "file_handle fc fo bind raw ca se q sv = Some sv'" "refs_inv h sv"
  shows "refs_inv h sv'"
  using assms
  by (cases q) (auto simp: file_call_defs intro: refs_inv_ReleaseAll dest: keeps_no_reply[OF keeps_handlers(1)] keeps_no_reply[OF keeps_handlers(2)]
    keeps_no_reply[OF keeps_handlers(3)] keeps_no_reply[OF keeps_handlers(4)] keeps_no_reply[OF keeps_handlers(5)] keeps_no_reply[OF keeps_handlers(6)]
    keeps_no_reply[OF keeps_handlers(7)] keeps_no_reply[OF keeps_handlers(8)] keeps_no_reply[OF keeps_handlers(9)] keeps_no_reply[OF keeps_handlers(10)])

text \<open>A run of the server: every request comes with its own context (session registry, caller, recall and clock) and its own
  cancellations and send failures.\<close>

fun file_run ::
  "'fs fileops \<Rightarrow> 'fs idbind \<Rightarrow> (string \<Rightarrow> 'fs pathfs option) \<Rightarrow> (file_ctx \<times> (nat \<Rightarrow> bool) \<times> (nat \<Rightarrow> bool) \<times> file_req) list \<Rightarrow> 'fs fserver \<Rightarrow> 'fs fserver option" where
  "file_run fo bind raw [] sv = Some sv"
| "file_run fo bind raw ((fc, ca, se, q) # qs) sv =
    (case file_handle fc fo bind raw ca se q sv of None \<Rightarrow> None | Some sv1 \<Rightarrow> file_run fo bind raw qs sv1)"

definition file_boot :: "'fs srv \<Rightarrow> Arbiter option \<Rightarrow> 'fs fserver" where
  "file_boot s arb = \<lparr>fv_srv = s, fv_arb = arb, fv_replies = [], fv_fdNum = [], fv_table = [], fv_entry = [], fv_panicked = False\<rparr>"

lemma file_boot_inv: "refs_inv (\<lambda>_. 0) (file_boot s arb)"
  by (simp add: refs_inv_def file_boot_def entry_ok_def)

lemma file_run_refs: "file_run fo bind raw qs sv = Some sv' \<Longrightarrow> refs_inv h sv \<Longrightarrow> refs_inv h sv'"
  by (induction fo bind raw qs sv rule: file_run.induct) (auto split: option.splits dest: file_handle_refs)

text \<open>C11: no handler leaks or double-drops a reference to an open file.  After any run of requests, on every branch of every
  handler (unknown descriptors, denied arbitration, broken streams, replayed replies, failing file operations), a descriptor in a
  session's table has exactly the table's reference and an open file, and one that left it has no reference and was closed
  exactly once; no reference count went below zero, which would be a panic.\<close>

theorem handlers_leak_no_reference:
  assumes "file_run fo bind raw qs (file_boot s arb) = Some sv" "gm_get (fv_entry sv) k = Some e"
  shows "\<not> fv_panicked sv \<and>
    (if k \<in> set (fv_table sv) then fe_refs (en_ref e) = 1 \<and> fe_closed (en_ref e) = 0
     else fe_refs (en_ref e) = 0 \<and> fe_closed (en_ref e) = 1)"
proof -
  have inv: "refs_inv (\<lambda>_. 0) sv" by (rule file_run_refs[OF assms(1) file_boot_inv])
  show ?thesis using refs_inv_base[OF inv] refs_invD[OF inv, of k] assms(2) by (simp add: entry_ok_def)
qed

definition ex_fc :: file_ctx where
  "ex_fc = \<lparr>fc_sessions = [(''B'', ''alice'')], fc_principal = ''alice'', fc_env = ex_env, fc_frameSize = 4\<rparr>"

definition ex_fbind :: "bytes idbind" where
  "ex_fbind v c = Some (ok_fs, \<lparr>id_Principal = ''alice'', id_Uid = 0, id_Gid = 0, id_Gids = [], id_UserName = ''alice'', id_GroupNames = []\<rparr>)"

definition ex_boot :: "bytes fserver" where
  "ex_boot = file_boot \<lparr>sr_fs = [], sr_bus = NewLocalEventBus 1\<rparr> None"

lemmas file_eval = file_Open_def file_WriteAndFlush_def write_and_flush_def file_Release_def file_Write_def write_once_def in_session_def
  typed_once_def withOptionalIdempotency_def DoOnce_def arb_gate_def arbitrateContention_def with_entry_def sessionFile_def
  entry_ReleaseRef_def table_ReleaseFile_def RegisterFile_def Acquire_def ReleaseRef_def on_fs_def no_reply_def
  file_emitMutatedAttr_def emitMutatedAttr_def emitMutatedFd_def take_grant_def grantFor_def resolveSession_def HasSubscribers_def subs_of_def
  NewLocalEventBus_def ex_fc_def ex_fbind_def ex_env_def ex_boot_def file_boot_def ok_fs_def mem_ops_def entry_path_def

theorem handlers_leak_no_reference_witness:
  "\<exists>sv e. file_run mem_ops ex_fbind (\<lambda>_. Some ok_fs)
     [(ex_fc, \<lambda>_. False, \<lambda>_. True, QOpen ''B'' ''r1'' ''v'' None ''d/f'' 0),
      (ex_fc, \<lambda>_. False, \<lambda>_. True, QWriteAndFlush ''B'' ''r2'' ''v'' 1 [1, 2] 0),
      (ex_fc, \<lambda>_. False, \<lambda>_. True, QRelease ''B'' ''v'' 1)] ex_boot = Some sv \<and>
   gm_get (fv_entry sv) (''B'', 1) = Some e \<and> fe_refs (en_ref e) = 0 \<and> fe_closed (en_ref e) = 1 \<and> sr_fs (fv_srv sv) = [1, 2]"
proof -
  let ?qs = "[(ex_fc, \<lambda>_::nat. False, \<lambda>_::nat. True, QOpen ''B'' ''r1'' ''v'' None ''d/f'' 0),
      (ex_fc, \<lambda>_. False, \<lambda>_. True, QWriteAndFlush ''B'' ''r2'' ''v'' 1 [1, 2] 0),
      (ex_fc, \<lambda>_. False, \<lambda>_. True, QRelease ''B'' ''v'' 1)]"
  obtain sv where r: "file_run mem_ops ex_fbind (\<lambda>_. Some ok_fs) ?qs ex_boot = Some sv" and
    d: "gm_get (fv_entry sv) (''B'', 1) \<noteq> None" "fv_table sv = []" "sr_fs (fv_srv sv) = [1, 2]"
    by (simp add: file_eval pwrite_eval)
  then obtain e where e: "gm_get (fv_entry sv) (''B'', 1) = Some e" by blast
  show ?thesis
    using handlers_leak_no_reference[OF r[unfolded ex_boot_def] e] r e d by (intro exI[of _ sv] exI[of _ e]) simp
qed

section \<open>Retried writes\<close>

lemma pwrite_sub: "pwrite off a (pwrite off (a @ b) c) = pwrite off (a @ b) c"
proof (rule nth_equalityI)
  let ?i = "pwrite off (a @ b) c"
  show "length (pwrite off a ?i) = length ?i"
    using pwrite_nth[of off a ?i] pwrite_nth[of off "a @ b" c] by simp
  fix i assume "i < length (pwrite off a ?i)"
  then show "pwrite off a ?i ! i = ?i ! i"
    using pwrite_nth[of off a ?i] pwrite_nth[of off "a @ b" c] by (auto simp: nth_append)
qed

lemma put_bytes_sub: "put_bytes off a (put_bytes off (a @ b) c) = put_bytes off (a @ b) c"
  using pwrite_sub[of off a b c] by (auto simp: put_bytes_def)

lemma put_prefixes: "put_bytes off (take k d) (put_bytes off (take j d) c) = put_bytes off (take (max j k) d) c"
proof (cases "j \<le> k")
  case True
  then have "take k d = take j d @ take (k - j) (drop j d)" by (metis le_add_diff_inverse take_add)
  then show ?thesis using put_bytes_again[of off "take j d" "take (k - j) (drop j d)" c] True by (simp add: max_def)
next
  case False
  then have "take j d = take k d @ take (j - k) (drop k d)" by (metis le_add_diff_inverse nat_le_linear take_add)
  then show ?thesis using put_bytes_sub[of off "take k d" "take (j - k) (drop k d)" c] False by (simp add: max_def)
qed

text \<open>Every entry of the descriptor is for the file \<open>file\<close>.\<close>

definition fd_is :: "string \<times> nat \<Rightarrow> nat \<Rightarrow> 'fs fserver \<Rightarrow> bool" where
  "fd_is k file sv \<longleftrightarrow> (\<forall>e. gm_get (fv_entry sv) k = Some e \<longrightarrow> en_File e = file)"

definition fs_of :: "'fs fserver \<Rightarrow> 'fs" where
  "fs_of sv = sr_fs (fv_srv sv)"

lemma sessionFile_frame:
  assumes "sessionFile s fd vol sv = Some (e, sv1)"
  shows "fv_srv sv1 = fv_srv sv \<and> fv_replies sv1 = fv_replies sv \<and> (fd_is (s, fd) file sv \<longrightarrow> en_File e = file \<and> fd_is (s, fd) file sv1)"
  using assms by (auto simp: sessionFile_def fd_is_def gm_get_put split: option.splits if_splits prod.splits bool.splits)

lemma entry_ReleaseRef_frame:
  assumes "\<And>f fs. cont (fo_Release fo f fs) = cont fs"
  shows "cont (fs_of (entry_ReleaseRef fo s fd sv)) = cont (fs_of sv) \<and> fv_replies (entry_ReleaseRef fo s fd sv) = fv_replies sv \<and>
    (fd_is (s, fd) file sv \<longrightarrow> fd_is (s, fd) file (entry_ReleaseRef fo s fd sv))"
  using assms by (auto simp: entry_ReleaseRef_def fs_of_def fd_is_def gm_get_put on_fs_def Let_def split: option.splits prod.splits)

lemma write_once_effect:
  assumes "writes_like fo file cont" "\<And>f fs. cont (fo_Release fo f fs) = cont fs" "fd_is (s, fd) file sv"
    and "write_frames vol fd sid rid deleg d off = first # rest"
    and "write_once fc fo s first (take m rest) eof sv = Some (r, sv')" "eof \<Longrightarrow> length rest \<le> m"
  shows "fv_replies sv' = fv_replies sv \<and> fd_is (s, fd) file sv' \<and>
    (\<exists>k. cont (fs_of sv') = put_bytes off (take k d) (cont (fs_of sv)) \<and>
      (\<forall>w g. r = Inr (RpWrite w FS_OK g) \<longrightarrow> w = of_nat (length d) \<and> length d \<le> k))"
proof -
  have fr: "wf_Fd first = fd" "wf_Volume first = vol" using assms(4) by (auto simp: write_frames_def Let_def)
  have none: "\<exists>k. cont (fs_of sv) = put_bytes off (take k d) (cont (fs_of sv)) \<and> k = 0" by (simp add: put_bytes_def)
  show ?thesis
  proof (cases "sessionFile s fd vol sv")
    case None
    then show ?thesis using assms(3,5) fr by (auto simp: write_once_def with_entry_def put_bytes_def intro!: exI[of _ 0])
  next
    case (Some x)
    obtain e sv1 where x: "sessionFile s fd vol sv = Some (e, sv1)" using Some by (cases x) auto
    note f1 = sessionFile_frame[OF x, of "file"]
    obtain sv2 where b: "arb_gate (fc_env fc) (wf_SessionId first) (en_Path e)
        (\<lambda>st sv. case drainWriteStream (take m rest) eof of Some err \<Rightarrow> Some (Inl (StreamErr err), sv) | None \<Rightarrow> Some (Inr (RpWrite 0 st None), sv))
        (\<lambda>sv. case on_fs (applyWriteStream fo first (take m rest) eof (en_File e)) sv of
                (Inl err, sv1) \<Rightarrow> Some (Inl (StreamErr err), sv1)
              | (Inr (written, st), sv1) \<Rightarrow> Some (Inr (RpWrite written st None), sv1)) sv1 = Some (r, sv2)"
      and sv': "sv' = entry_ReleaseRef fo s fd sv2"
      using assms(5) x fr by (auto simp: write_once_def with_entry_def)
    obtain fs' k where ap: "applyWriteStream fo first (take m rest) eof file (fs_of sv) =
        (if eof then Inr (of_nat (length (take k d)), FS_OK) else Inl StreamBroken, fs')"
      "cont fs' = put_bytes off (take k d) (cont (fs_of sv))" "length rest \<le> m \<longrightarrow> k = length d"
      using applyWriteStream_prefix[OF assms(1,4), of m eof "fs_of sv"] by blast
    have fe: "en_File e = file" "fv_srv sv1 = fv_srv sv" "fv_replies sv1 = fv_replies sv" "fd_is (s, fd) file sv1" using f1 assms(3) by auto
    have "fv_replies sv2 = fv_replies sv \<and> fd_is (s, fd) file sv2 \<and>
      (\<exists>k. cont (fs_of sv2) = put_bytes off (take k d) (cont (fs_of sv)) \<and>
        (\<forall>w g. r = Inr (RpWrite w FS_OK g) \<longrightarrow> w = of_nat (length d) \<and> length d \<le> k))"
      using b ap(1) fe assms(6)
      by (auto simp: arb_gate_def Let_def drainWriteStream_def on_fs_def fs_of_def fd_is_def put_bytes_def[of _ "[]"] ap(2,3)[unfolded fs_of_def]
          split: option.splits if_splits prod.splits intro: exI[of _ 0] exI[of _ "length d"])
    then show ?thesis using entry_ReleaseRef_frame[of cont fo s fd sv2 "file"] assms(2) unfolding sv' by auto
  qed
qed

text \<open>One attempt of the client's streaming write: the same frames and request id, cut after some frames or delivered in full.
  The run keeps the reply of the last attempt; an attempt that never returns (it waits for somebody else's recall) is no attempt.\<close>

definition write_attempt ::
  "'fs fileops \<Rightarrow> (string \<Rightarrow> 'fs pathfs option) \<Rightarrow> WriteFrame list \<Rightarrow> file_ctx \<times> nat option \<Rightarrow> ('fs, file_error + file_reply) fstep" where
  "write_attempt fo raw frames a sv =
    (case delivered (snd a) (frames, True) of (str, eof) \<Rightarrow> file_Write (fst a) fo raw str eof sv)"

fun write_attempts ::
  "'fs fileops \<Rightarrow> (string \<Rightarrow> 'fs pathfs option) \<Rightarrow> WriteFrame list \<Rightarrow> (file_ctx \<times> nat option) list \<Rightarrow> ('fs, (file_error + file_reply) list) fstep" where
  "write_attempts fo raw frames [] sv = Some ([], sv)"
| "write_attempts fo raw frames (a # as) sv =
    (case write_attempt fo raw frames a sv of
       None \<Rightarrow> None
     | Some (r, sv1) \<Rightarrow> (case write_attempts fo raw frames as sv1 of None \<Rightarrow> None | Some (rs, sv2) \<Rightarrow> Some (r # rs, sv2)))"

definition partly_written ::
  "('fs \<Rightarrow> bytes) \<Rightarrow> string \<Rightarrow> nat \<Rightarrow> nat \<Rightarrow> string \<Rightarrow> bytes \<Rightarrow> nat \<Rightarrow> bytes \<Rightarrow> 'fs fserver \<Rightarrow> bool" where
  "partly_written cont sid fd file rid d off c sv \<longleftrightarrow> fd_is (sid, fd) file sv \<and>
    (\<exists>k. cont (fs_of sv) = put_bytes off (take k d) c \<and>
      (\<forall>w g. gm_get (fv_replies sv) (sid, rid) = Some (RpWrite w FS_OK g) \<longrightarrow> w = of_nat (length d) \<and> length d \<le> k))"

lemma partly_written_frame:
  assumes "partly_written cont sid fd file rid d off c sv" "fs_of sv' = fs_of sv" "fv_entry sv' = fv_entry sv"
    "\<And>w g. gm_get (fv_replies sv') (sid, rid) = Some (RpWrite w FS_OK g) \<Longrightarrow> \<exists>g'. gm_get (fv_replies sv) (sid, rid) = Some (RpWrite w FS_OK g')"
  shows "partly_written cont sid fd file rid d off c sv'"
  using assms unfolding partly_written_def fd_is_def by metis

lemma emit_frame: "fs_of (emitMutatedFd raw sid vol p c sv) = fs_of sv" "fv_replies (emitMutatedFd raw sid vol p c sv) = fv_replies sv"
  "fv_entry (emitMutatedFd raw sid vol p c sv) = fv_entry sv"
  by (simp_all add: emitMutatedFd_def fs_of_def)

lemma take_grant_frame:
  "take_grant env sid prin vol dl sv = (g, sv') \<Longrightarrow> fs_of sv' = fs_of sv \<and> fv_replies sv' = fv_replies sv \<and> fv_entry sv' = fv_entry sv"
  by (auto simp: take_grant_def fs_of_def split: prod.splits)

lemma DoOnce_write_effect:
  assumes "writes_like fo file cont" "\<And>f fs. cont (fo_Release fo f fs) = cont fs"
    and "write_frames vol fd sid rid deleg d off = first # rest" "eof \<Longrightarrow> length rest \<le> m"
    and "partly_written cont s fd file rid d off c sv"
    and "DoOnce s rid (write_once fc fo s first (take m rest) eof) sv = Some ((r, applied), sv')"
  shows "partly_written cont s fd file rid d off c sv' \<and> (\<forall>v. r = Inr v \<longrightarrow> gm_get (fv_replies sv') (s, rid) = Some v)"
proof (cases "gm_get (fv_replies sv) (s, rid)")
  case (Some v)
  then show ?thesis using assms(5,6) by (auto simp: DoOnce_def)
next
  case None
  obtain j where j: "fd_is (s, fd) file sv" "cont (fs_of sv) = put_bytes off (take j d) c" using assms(5) by (auto simp: partly_written_def)
  obtain sv1 where b: "write_once fc fo s first (take m rest) eof sv = Some (r, sv1)"
    and sv': "sv' = (case r of Inl e \<Rightarrow> sv1 | Inr v \<Rightarrow> sv1\<lparr>fv_replies := gm_put (s, rid) v (fv_replies sv1)\<rparr>)"
    using assms(6) None by (auto simp: DoOnce_def split: option.splits sum.splits prod.splits)
  obtain k where k: "fv_replies sv1 = fv_replies sv" "fd_is (s, fd) file sv1"
    "cont (fs_of sv1) = put_bytes off (take k d) (cont (fs_of sv))"
    "\<And>w g. r = Inr (RpWrite w FS_OK g) \<Longrightarrow> w = of_nat (length d) \<and> length d \<le> k"
    using write_once_effect[OF assms(1,2) j(1) assms(3) b assms(4)] by blast
  have "cont (fs_of sv1) = put_bytes off (take (max j k) d) c" using k(3) j(2) put_prefixes by simp
  then show ?thesis
    using k(1,2) None unfolding sv' partly_written_def
    by (cases r) (auto simp: fd_is_def fs_of_def gm_get_put intro!: exI[of _ "max j k"] dest: k(4))
qed

lemma resolveSession_id: "resolveSession sessions ctxP sid = Inr s \<Longrightarrow> s = sid"
  by (auto simp: resolveSession_def split: option.splits if_splits)

lemma file_Write_effect:
  assumes "writes_like fo file cont" "\<And>f fs. cont (fo_Release fo f fs) = cont fs"
    and "write_frames vol fd sid rid deleg d off = first # rest" "eof \<Longrightarrow> length rest \<le> m"
    and pw: "partly_written cont sid fd file rid d off c sv"
    and st: "file_Write fc fo raw (first # take m rest) eof sv = Some (r, sv')"
  shows "partly_written cont sid fd file rid d off c sv' \<and>
    (\<forall>w g. r = Inr (RpWrite w FS_OK g) \<longrightarrow> (\<exists>g'. gm_get (fv_replies sv') (sid, rid) = Some (RpWrite w FS_OK g')))"
proof -
  have fr: "wf_Fd first = fd" "wf_Volume first = vol" "wf_SessionId first = sid" "wf_RequestId first = rid"
    using assms(3) by (auto simp: write_frames_def Let_def)
  show ?thesis
  proof (cases "(vol = '''' \<or> fd = 0 \<or> sid = '''' \<or> rid = '''') \<or> isl (resolveSession (fc_sessions fc) (fc_principal fc) sid)")
    case True
    then show ?thesis using st pw by (auto simp: file_Write_def fr in_session_def isl_def split: if_splits)
  next
    case False
    have rs: "resolveSession (fc_sessions fc) (fc_principal fc) sid = Inr sid"
      using False resolveSession_id[of "fc_sessions fc" "fc_principal fc" sid] by (cases "resolveSession (fc_sessions fc) (fc_principal fc) sid") auto
    obtain r1 applied sv1 where o: "DoOnce sid rid (write_once fc fo sid first (take m rest) eof) sv = Some ((r1, applied), sv1)"
      using st False rs by (auto simp: file_Write_def fr in_session_def split: option.splits)
    have e: "partly_written cont sid fd file rid d off c sv1" "\<And>v. r1 = Inr v \<Longrightarrow> gm_get (fv_replies sv1) (sid, rid) = Some v"
      using DoOnce_write_effect[OF assms(1-4) pw o] by auto
    let ?p = "entry_path sid first sv"
    show ?thesis
    proof (cases "\<exists>w g. r1 = Inr (RpWrite w FS_OK g) \<and> applied \<and> ?p \<noteq> ''''")
      case True
      then obtain w g where w: "r1 = Inr (RpWrite w FS_OK g)" "applied" "?p \<noteq> ''''" by blast
      obtain g' sv2 where tg: "take_grant (fc_env fc) sid (case gm_get (fc_sessions fc) sid of Some p \<Rightarrow> p | None \<Rightarrow> '''') vol (wf_Delegation first)
          (emitMutatedFd raw sid vol ?p None sv1) = (g', sv2)" by fastforce
      have res: "r = Inr (RpWrite w FS_OK g')" "sv' = sv2\<lparr>fv_replies := gm_put (sid, rid) (RpWrite w FS_OK g') (fv_replies sv2)\<rparr>"
        using st False rs o w tg by (simp_all add: file_Write_def fr in_session_def)
      note f = take_grant_frame[OF tg, unfolded emit_frame]
      have "partly_written cont sid fd file rid d off c sv'"
        by (rule partly_written_frame[OF e(1)]) (use f res e(2)[OF w(1)] in \<open>auto simp: fs_of_def gm_get_put\<close>)
      then show ?thesis using res by (simp add: gm_get_put)
    next
      case False2: False
      have "sv' = sv1 \<and> (\<forall>w g. r = Inr (RpWrite w FS_OK g) \<longrightarrow> r1 = Inr (RpWrite w FS_OK g))"
        using st False False2 rs o
        by (auto simp: file_Write_def fr in_session_def split: sum.splits option.splits if_splits file_reply.splits)
      then show ?thesis using e by blast
    qed
  qed
qed

lemma write_attempt_effect:
  assumes "writes_like fo file cont" "\<And>f fs. cont (fo_Release fo f fs) = cont fs"
    and pw: "partly_written cont sid fd file rid d off c sv"
    and st: "write_attempt fo raw (write_frames vol fd sid rid deleg d off) a sv = Some (r, sv')"
  shows "partly_written cont sid fd file rid d off c sv' \<and>
    (\<forall>w g. r = Inr (RpWrite w FS_OK g) \<longrightarrow> (\<exists>g'. gm_get (fv_replies sv') (sid, rid) = Some (RpWrite w FS_OK g')))"
proof -
  obtain first rest where fr: "write_frames vol fd sid rid deleg d off = first # rest" by (simp add: write_frames_def Let_def)
  consider "snd a = Some 0" | m where "snd a = Some (Suc m)" | "snd a = None" by (metis not0_implies_Suc option.exhaust)
  then show ?thesis
  proof cases
    case 1
    then show ?thesis using st pw by (auto simp: write_attempt_def delivered_def file_Write_def)
  next
    case (2 m)
    then have "file_Write (fst a) fo raw (first # take m rest) False sv = Some (r, sv')"
      using st by (simp add: write_attempt_def delivered_def fr)
    from file_Write_effect[OF assms(1,2) fr _ pw this] show ?thesis by simp
  next
    case 3
    then have "file_Write (fst a) fo raw (first # take (length rest) rest) True sv = Some (r, sv')"
      using st by (simp add: write_attempt_def delivered_def fr)
    from file_Write_effect[OF assms(1,2) fr _ pw this] show ?thesis by simp
  qed
qed

lemma write_attempts_effect:
  assumes "writes_like fo file cont" "\<And>f fs. cont (fo_Release fo f fs) = cont fs"
  shows "partly_written cont sid fd file rid d off c sv \<Longrightarrow>
    write_attempts fo raw (write_frames vol fd sid rid deleg d off) as sv = Some (rs, sv') \<Longrightarrow>
    partly_written cont sid fd file rid d off c sv' \<and>
    (rs \<noteq> [] \<longrightarrow> (\<forall>w g. last rs = Inr (RpWrite w FS_OK g) \<longrightarrow> (\<exists>g'. gm_get (fv_replies sv') (sid, rid) = Some (RpWrite w FS_OK g'))))"
proof (induction as arbitrary: sv rs)
  case (Cons a as)
  obtain r sv1 rs1 where s: "write_attempt fo raw (write_frames vol fd sid rid deleg d off) a sv = Some (r, sv1)"
    "write_attempts fo raw (write_frames vol fd sid rid deleg d off) as sv1 = Some (rs1, sv')" "rs = r # rs1"
    using Cons.prems(2) by (auto split: option.splits)
  note e = write_attempt_effect[OF assms Cons.prems(1) s(1)]
  show ?case using Cons.IH[OF _ s(2)] e s(2,3) by (cases as) (auto split: option.splits)
qed simp


lemma mem_ops_writes: "writes_like mem_ops f (\<lambda>c. c)"
  by (simp add: writes_like_def mem_ops_def)


end
