(* ===== verification/Transport_Retry.thy ===== *)
theory Transport_Retry
  imports File_Stream
begin

unbundle bit_operations_syntax

text \<open>
  The retry core of the client's gRPC leaf (\<^verbatim>\<open>pkg/client/backend/transport/retry.go\<close>), the reclaim of descriptors after a restart of the
  server (\<^verbatim>\<open>reclaim.go\<close>) and the errors they end in (\<^verbatim>\<open>statusFromRPCError\<close>, \<^verbatim>\<open>fdOpStatus\<close> of \<^verbatim>\<open>backend_grpc.go\<close>).

  An attempt is a function of its number and of the state of the world.  What the loop observes around attempt \<open>k\<close> (how long it took, the
  client's lifetime, the session id, how late the timer fired) is the record \<open>renv\<close>.
\<close>

section \<open>Errors of an attempt\<close>

datatype rpc_fail = GrpcFail grpc_code | ReclaimFail FsError | PlainFail

text \<open>The codes \<^verbatim>\<open>DeadlineExceeded\<close> and \<^verbatim>\<open>Unavailable\<close> of gRPC.\<close>

(* src/pkg/client/backend/transport/retry.go:25-38 isRetryableGrpcError *)
fun isRetryableGrpcError :: "rpc_fail \<Rightarrow> bool" where
  "isRetryableGrpcError (GrpcFail (OtherCode n)) \<longleftrightarrow> n = 14 \<or> n = 4"
| "isRetryableGrpcError _ \<longleftrightarrow> False"

(* src/pkg/client/backend/transport/backend_grpc.go:229-239 statusFromRPCError *)
fun statusFromRPCError :: "rpc_fail \<Rightarrow> FsError" where
  "statusFromRPCError (ReclaimFail st) = st"
| "statusFromRPCError PlainFail = FS_EIO"
| "statusFromRPCError (GrpcFail c) = FromGRPCCode c"

(* src/pkg/client/backend/transport/backend_grpc.go:249-258 fdOpStatus *)
fun fdOpStatus :: "rpc_fail \<Rightarrow> FsError" where
  "fdOpStatus (ReclaimFail st) = st"
| "fdOpStatus (GrpcFail NotFound) = FS_ESTALE"
| "fdOpStatus e = statusFromRPCError e"

section \<open>The loop\<close>

(* src/pkg/client/backend/transport/retry.go:40-47 opClass *)
datatype opClass = classIdempotentRead | classFdOp | classPathMutation

record renv =
  re_dur :: nat
  re_lifeErr :: bool
  re_session :: string
  re_late :: nat
  re_lifeDone :: bool

(* src/pkg/client/backend/transport/retry.go:17-20 retryInitialDelay *)
definition retryInitialDelay :: int where "retryInitialDelay = 100000000"
definition retryMaxDelay :: int where "retryMaxDelay = 1000000000"

text \<open>The delay after attempt number \<open>k\<close>.\<close>

(* src/pkg/client/backend/transport/retry.go:121-126 retryOp *)
primrec backoff_at :: "nat \<Rightarrow> int" where
  "backoff_at 0 = retryInitialDelay"
| "backoff_at (Suc k) =
    (if backoff_at k < retryMaxDelay
     then (if backoff_at k * 2 > retryMaxDelay then retryMaxDelay else backoff_at k * 2)
     else backoff_at k)"

lemma backoff_bounds: "retryInitialDelay \<le> backoff_at k \<and> backoff_at k \<le> retryMaxDelay"
  by (induction k) (auto simp: retryInitialDelay_def retryMaxDelay_def)

text \<open>The value has the number of attempts made.\<close>

(* src/pkg/client/backend/transport/retry.go:72-131 retryOp *)
function retry_loop ::
  "opClass \<Rightarrow> int \<Rightarrow> string \<Rightarrow> (nat \<Rightarrow> renv) \<Rightarrow> (nat \<Rightarrow> 's \<Rightarrow> (rpc_fail + 'a) \<times> 's) \<Rightarrow> int \<Rightarrow> nat \<Rightarrow> int \<Rightarrow> 's \<Rightarrow> (rpc_fail + 'a) \<times> nat \<times> 's" where
  "retry_loop cls window startID env fn deadline k now s =
    (case fn k s of
       (Inr r, s') \<Rightarrow> (Inr r, Suc k, s')
     | (Inl e, s') \<Rightarrow>
         (if \<not> isRetryableGrpcError e then (Inl e, Suc k, s')
          else if window \<le> 0 \<or> re_lifeErr (env k) then (Inl e, Suc k, s')
          else if re_session (env k) \<noteq> startID \<and> cls = classPathMutation then (Inl e, Suc k, s')
          else if deadline - (now + int (re_dur (env k))) \<le> 0 then (Inl e, Suc k, s')
          else if re_lifeDone (env k) then (Inl e, Suc k, s')
          else retry_loop cls window startID env fn deadline (Suc k)
                 (now + int (re_dur (env k)) + min (backoff_at k) (deadline - (now + int (re_dur (env k)))) + int (re_late (env k))) s'))"
  by pat_completeness auto
termination
proof (relation "measure (\<lambda>(cls, window, startID, env, fn, deadline, k, now, s). nat (deadline - now))", goal_cases)
  case (2 cls window startID env fn deadline k now s x y e)
  then show ?case using backoff_bounds[of k] by (auto simp: retryInitialDelay_def min_def)
qed simp

declare retry_loop.simps [simp del]

(* src/pkg/client/backend/transport/retry.go:72-131 retryOp *)
definition retryOp ::
  "opClass \<Rightarrow> int \<Rightarrow> string \<Rightarrow> (nat \<Rightarrow> renv) \<Rightarrow> int \<Rightarrow> (nat \<Rightarrow> 's \<Rightarrow> (rpc_fail + 'a) \<times> 's) \<Rightarrow> 's \<Rightarrow> (rpc_fail + 'a) \<times> nat \<times> 's" where
  "retryOp cls window startID env now fn s = retry_loop cls window startID env fn (now + window) 0 now s"

section \<open>Reclaiming a descriptor\<close>

(* src/pkg/client/backend/transport/backend_grpc.go:1507-1511 fdState *)
record fdState =
  st_fd :: nat
  st_sessionID :: string
  st_epoch :: string

text \<open>\<open>live\<close> and \<open>live2\<close> are the client's session id and boot epoch as read before and under the lock, \<open>cur2\<close> the state found under the
  lock, \<open>rep\<close> the result of reopening the path.\<close>

(* src/pkg/client/backend/transport/reclaim.go:35-87 reclaimIfStale *)
definition reclaimIfStale ::
  "string \<times> string \<Rightarrow> string \<times> string \<Rightarrow> fdState \<Rightarrow> (rpc_fail + FsError \<times> nat) \<Rightarrow> fdState \<Rightarrow> FsError \<times> fdState" where
  "reclaimIfStale live live2 cur2 rep cur =
    (if st_sessionID cur = fst live then (FS_OK, cur)
     else if snd live = st_epoch cur then (FS_ESTALE, cur)
     else if st_sessionID cur2 = fst live2 then (FS_OK, cur2)
     else if snd live2 = st_epoch cur2 then (FS_ESTALE, cur2)
     else (case rep of
             Inl err \<Rightarrow> (statusFromRPCError err, cur2)
           | Inr (st, fd) \<Rightarrow>
               if st \<noteq> FS_OK then (st, cur2)
               else (FS_OK, \<lparr>st_fd = fd, st_sessionID = fst live2, st_epoch = snd live2\<rparr>)))"

text \<open>\<^verbatim>\<open>O_CREAT | O_EXCL | O_TRUNC\<close> of Linux.\<close>

definition reopen_strip :: u32 where
  "reopen_strip = 64 OR 128 OR 512"

(* src/pkg/client/backend/transport/reclaim.go:105-108 sanitizeReopenFlags *)
definition sanitizeReopenFlags :: "u32 \<Rightarrow> u32" where
  "sanitizeReopenFlags flags = flags AND NOT reopen_strip"

section \<open>What a retry does\<close>

text \<open>The state in which attempt number \<open>j\<close> runs, when the attempts before it ran one after the other.\<close>

primrec att_state :: "(nat \<Rightarrow> 's \<Rightarrow> (rpc_fail + 'a) \<times> 's) \<Rightarrow> 's \<Rightarrow> nat \<Rightarrow> 's" where
  "att_state fn s 0 = s"
| "att_state fn s (Suc j) = snd (fn j (att_state fn s j))"

text \<open>Whether attempt \<open>k\<close> that failed with \<open>e\<close> is followed by another one, and when.\<close>

definition retry_goes :: "opClass \<Rightarrow> int \<Rightarrow> string \<Rightarrow> (nat \<Rightarrow> renv) \<Rightarrow> int \<Rightarrow> nat \<Rightarrow> int \<Rightarrow> rpc_fail \<Rightarrow> bool" where
  "retry_goes cls window startID env deadline k now e \<longleftrightarrow>
    isRetryableGrpcError e \<and> 0 < window \<and> \<not> re_lifeErr (env k) \<and> (cls = classPathMutation \<longrightarrow> re_session (env k) = startID) \<and>
    0 < deadline - (now + int (re_dur (env k))) \<and> \<not> re_lifeDone (env k)"

definition retry_wake :: "(nat \<Rightarrow> renv) \<Rightarrow> int \<Rightarrow> nat \<Rightarrow> int \<Rightarrow> int" where
  "retry_wake env deadline k now =
    now + int (re_dur (env k)) + min (backoff_at k) (deadline - (now + int (re_dur (env k)))) + int (re_late (env k))"

lemma retry_loop_step:
  "retry_loop cls window startID env fn deadline k now s =
    (case fn k s of
       (Inr r, s') \<Rightarrow> (Inr r, Suc k, s')
     | (Inl e, s') \<Rightarrow>
         if retry_goes cls window startID env deadline k now e
         then retry_loop cls window startID env fn deadline (Suc k) (retry_wake env deadline k now) s'
         else (Inl e, Suc k, s'))"
  by (subst retry_loop.simps) (auto simp: retry_goes_def retry_wake_def split: sum.split prod.split)

lemma retry_loop_cases [case_names stop go]:
  assumes "\<And>k now s o1 s1. fn k s = (o1, s1) \<Longrightarrow> (\<forall>e. o1 = Inl e \<longrightarrow> \<not> retry_goes cls window startID env deadline k now e) \<Longrightarrow> P k now s (o1, Suc k, s1)"
    and "\<And>k now s e s1 r. fn k s = (Inl e, s1) \<Longrightarrow> retry_goes cls window startID env deadline k now e \<Longrightarrow>
      P (Suc k) (retry_wake env deadline k now) s1 r \<Longrightarrow> P k now s r"
  shows "P k now s (retry_loop cls window startID env fn deadline k now s)"
proof (induction "nat (deadline - now)" arbitrary: k now s rule: less_induct)
  case less
  obtain o1 s1 where f: "fn k s = (o1, s1)" by fastforce
  show ?case
  proof (cases "\<exists>e. o1 = Inl e \<and> retry_goes cls window startID env deadline k now e")
    case True
    then obtain e where e: "o1 = Inl e" "retry_goes cls window startID env deadline k now e" by blast
    have "nat (deadline - retry_wake env deadline k now) < nat (deadline - now)"
      using e(2) backoff_bounds[of k] by (auto simp: retry_goes_def retry_wake_def retryInitialDelay_def min_def)
    from less[OF this] show ?thesis using assms(2)[OF _ e(2)] f e by (subst retry_loop_step) simp
  next
    case False
    then show ?thesis using assms(1)[OF f] by (subst retry_loop_step) (auto simp: f split: sum.split)
  qed
qed

definition retried :: "opClass \<Rightarrow> string \<Rightarrow> (nat \<Rightarrow> renv) \<Rightarrow> (nat \<Rightarrow> 's \<Rightarrow> (rpc_fail + 'a) \<times> 's) \<Rightarrow> 's \<Rightarrow> nat \<Rightarrow> bool" where
  "retried cls startID env fn s0 j \<longleftrightarrow>
    (\<exists>e. fst (fn j (att_state fn s0 j)) = Inl e \<and> isRetryableGrpcError e) \<and> \<not> re_lifeErr (env j) \<and>
    (cls = classPathMutation \<longrightarrow> re_session (env j) = startID)"

lemma retry_loop_trace:
  "s = att_state fn s0 k \<longrightarrow>
    (case retry_loop cls window startID env fn deadline k now s of (res, n, s') \<Rightarrow>
      k < n \<and> res = fst (fn (n - 1) (att_state fn s0 (n - 1))) \<and> s' = att_state fn s0 n \<and>
      (\<forall>j. k \<le> j \<and> j < n - 1 \<longrightarrow> retried cls startID env fn s0 j))"
proof (induction rule: retry_loop_cases[where ?P = "\<lambda>k now s r. s = att_state fn s0 k \<longrightarrow>
    (case r of (res, n, s') \<Rightarrow> k < n \<and> res = fst (fn (n - 1) (att_state fn s0 (n - 1))) \<and> s' = att_state fn s0 n \<and>
      (\<forall>j. k \<le> j \<and> j < n - 1 \<longrightarrow> retried cls startID env fn s0 j))"])
  case (stop k now s o1 s1)
  then show ?case by auto
next
  case (go k now s e s1 r)
  show ?case
  proof
    assume s: "s = att_state fn s0 k"
    have k: "retried cls startID env fn s0 k" "s1 = att_state fn s0 (Suc k)"
      using go(1,2) s by (simp_all add: retried_def retry_goes_def)
    have "retried cls startID env fn s0 j" if "k \<le> j" "Suc k \<le> j \<Longrightarrow> retried cls startID env fn s0 j" for j
      using that k(1) by (cases "j = k") auto
    then show "case r of (res, n, s') \<Rightarrow> k < n \<and> res = fst (fn (n - 1) (att_state fn s0 (n - 1))) \<and> s' = att_state fn s0 n \<and>
      (\<forall>j. k \<le> j \<and> j < n - 1 \<longrightarrow> retried cls startID env fn s0 j)"
      using go(3) k(2) by (auto split: prod.splits)
  qed
qed

definition max_attempts :: "int \<Rightarrow> int" where
  "max_attempts left = (if left \<le> 0 then 1 else left div retryInitialDelay + 2)"

lemma max_attempts_pos: "1 \<le> max_attempts left"
  by (auto simp: max_attempts_def retryInitialDelay_def pos_imp_zdiv_nonneg_iff add_nonneg_nonneg)

lemma max_attempts_step:
  assumes "0 < left" "left' \<le> 0 \<or> left' \<le> left - retryInitialDelay"
  shows "max_attempts left' + 1 \<le> max_attempts left"
proof (cases "left' \<le> 0")
  case True
  then show ?thesis using assms(1) by (simp add: max_attempts_def retryInitialDelay_def pos_imp_zdiv_nonneg_iff)
next
  case False
  then have "left' div retryInitialDelay \<le> (left - retryInitialDelay) div retryInitialDelay"
    using assms(2) by (intro zdiv_mono1) (auto simp: retryInitialDelay_def)
  also have "\<dots> = left div retryInitialDelay - 1" by (simp add: retryInitialDelay_def)
  finally show ?thesis using False assms(1) by (simp add: max_attempts_def)
qed

lemma retry_loop_count:
  "int (fst (snd (retry_loop cls window startID env fn deadline k now s))) \<le> int k + max_attempts (deadline - now)"
proof (induction rule: retry_loop_cases[where ?P = "\<lambda>k now s r. int (fst (snd r)) \<le> int k + max_attempts (deadline - now)"])
  case (stop k now s o1 s1)
  then show ?case using max_attempts_pos[of "deadline - now"] by simp
next
  case (go k now s e s1 r)
  have "max_attempts (deadline - retry_wake env deadline k now) + 1 \<le> max_attempts (deadline - now)"
    by (rule max_attempts_step) (use go(2) backoff_bounds[of k] in \<open>auto simp: retry_goes_def retry_wake_def min_def\<close>)
  then show ?case using go(3) by simp
qed

text \<open>C12: the retry core.  An operation is attempted at least once and at most once per initial delay (100 ms) of its window plus two, whatever
  the attempts take; its result is that of the last attempt, every attempt before it failed with \<^verbatim>\<open>Unavailable\<close> or \<^verbatim>\<open>DeadlineExceeded\<close>
  while the mount was alive, and a mutation of a path is never repeated once the session has changed.  Without a window there is one attempt.\<close>

theorem retry_is_bounded_and_selective:
  assumes "retryOp cls window startID env now fn s = (res, n, s')"
  shows "0 < n \<and> int n \<le> (if window \<le> 0 then 1 else window div retryInitialDelay + 2) \<and>
    res = fst (fn (n - 1) (att_state fn s (n - 1))) \<and> s' = att_state fn s n \<and>
    (\<forall>j < n - 1. (\<exists>e. fst (fn j (att_state fn s j)) = Inl e \<and> isRetryableGrpcError e) \<and> \<not> re_lifeErr (env j) \<and>
       (cls = classPathMutation \<longrightarrow> re_session (env j) = startID))"
  using retry_loop_trace[where s = s and ?s0.0 = s and k = 0 and fn = fn and cls = cls and window = window and startID = startID and env = env
      and deadline = "now + window" and now = now]
    retry_loop_count[where s = s and k = 0 and fn = fn and cls = cls and window = window and startID = startID and env = env
      and deadline = "now + window" and now = now] assms
  by (simp add: retryOp_def retried_def max_attempts_def)

definition ex_renv :: "string \<Rightarrow> renv" where
  "ex_renv sid = \<lparr>re_dur = 5000000, re_lifeErr = False, re_session = sid, re_late = 0, re_lifeDone = False\<rparr>"

definition ex_flaky :: "nat \<Rightarrow> nat \<Rightarrow> (rpc_fail + nat) \<times> nat" where
  "ex_flaky k s = (if k < 2 then Inl (GrpcFail (OtherCode 14)) else Inr 7, Suc s)"

lemma ex_flaky_run: "retryOp classFdOp 1000000000 ''s'' (\<lambda>_. ex_renv ''s'') 0 ex_flaky 0 = (Inr 7, 3, 3)"
  by (simp add: retryOp_def retry_loop.simps ex_flaky_def ex_renv_def retryInitialDelay_def retryMaxDelay_def numeral_3_eq_3)

theorem retry_is_bounded_and_selective_witness:
  "retryOp classFdOp 1000000000 ''s'' (\<lambda>_. ex_renv ''s'') 0 ex_flaky 0 = (Inr 7, 3, 3) \<and> int 3 \<le> (12 :: int) \<and>
   isRetryableGrpcError (GrpcFail (OtherCode 14))"
  using retry_is_bounded_and_selective[OF ex_flaky_run] ex_flaky_run by (simp add: retryInitialDelay_def)

text \<open>A descriptor operation keeps retrying when the session changes in between.\<close>

lemma fd_op_retries_across_sessions:
  "retryOp classFdOp 1000000000 ''s'' (\<lambda>_. ex_renv ''t'') 0 ex_flaky 0 = (Inr 7, 3, 3) \<and>
   retryOp classPathMutation 1000000000 ''s'' (\<lambda>_. ex_renv ''t'') 0 ex_flaky 0 = (Inl (GrpcFail (OtherCode 14)), 1, 1)"
  by (simp add: retryOp_def retry_loop.simps ex_flaky_def ex_renv_def retryInitialDelay_def retryMaxDelay_def numeral_3_eq_3)

section \<open>Reclaimed descriptors\<close>

text \<open>A descriptor is replaced only after a restart of the server, by one of the session and boot epoch the client has now; when the
  same process reaped the session, the operation fails with ESTALE and the state stays.\<close>

lemma reclaim_only_after_restart:
  assumes "reclaimIfStale live live2 cur2 rep cur = (st, cur')" "cur' \<noteq> cur" "cur' \<noteq> cur2"
  shows "st = FS_OK \<and> snd live \<noteq> st_epoch cur \<and> snd live2 \<noteq> st_epoch cur2 \<and> (st_sessionID cur', st_epoch cur') = live2"
  using assms by (auto simp: reclaimIfStale_def split: if_splits sum.splits)

lemma reclaim_of_reaped_session:
  assumes "st_sessionID cur \<noteq> fst live" "snd live = st_epoch cur"
  shows "reclaimIfStale live live2 cur2 rep cur = (FS_ESTALE, cur)"
  using assms by (simp add: reclaimIfStale_def)

text \<open>Reopening neither creates, nor insists on creating, nor truncates, and keeps every other flag.\<close>

lemma sanitizeReopenFlags_bits:
  "bit (sanitizeReopenFlags flags) n \<longleftrightarrow> bit flags n \<and> n \<noteq> 6 \<and> n \<noteq> 7 \<and> n \<noteq> 9"
proof -
  have "bit reopen_strip n \<longleftrightarrow> n = 6 \<or> n = 7 \<or> n = 9"
    unfolding reopen_strip_def bit_or_iff using bit_exp_iff[where 'a = u32, of 6 n] bit_exp_iff[where 'a = u32, of 7 n] bit_exp_iff[where 'a = u32, of 9 n]
    by auto
  then show ?thesis
    by (auto simp: sanitizeReopenFlags_def bit_and_iff bit_not_iff dest: bit_imp_possible_bit)
qed

end
