(* ===== verification/Spec2Isabelle.thy ===== *)
theory Spec2Isabelle
  imports GM_Prelude Deleg_Table Deleg_Cooldown Watermark Deleg_Recall Fs_Error Deleg_Arbiter Event_Bus Apply_Server Session Fs_Handlers Client_Manager
    Wal_Log Wal_Overlay Wal_Coordinator Wal_Recovery Wal_Layer Cache_Store Cache_Persist Cache_Data Cache_Backend Cache_Invalidate Cache_Coherence Cache_Staleness File_Stream File_Handlers Transport_Retry
begin

text \<open>
  gMountie, a networked file system in Go: a verification development.

  \<^bold>\<open>The program.\<close>  A server exports volumes over gRPC; a client mounts them through FUSE.  On the client a stack of backends
  with one interface (\<^verbatim>\<open>FileSystemBackend\<close>, the record \<open>Backend\<close>) answers the kernel: a cache, a write-ahead log (WAL) layer and the
  transport.  A client that works alone in a subtree is granted a \<^emph>\<open>write delegation\<close> for it: its mutations are then appended to a durable log,
  shown to itself through an overlay, and sent to the server in batches on an Apply stream.  The server arbitrates delegations:
  a mutation by somebody else recalls the delegation, the holder flushes and acknowledges, and the generation of the delegation is
  fenced durably before the other mutation proceeds.  Every committed mutation is published on an event bus, and the caches of the other
  clients invalidate what it names.

  \<^bold>\<open>Server.\<close>
  \<^item> \<open>Deleg_Table\<close>, \<open>Deleg_Cooldown\<close>, \<open>Deleg_Recall\<close>, \<open>Deleg_Arbiter\<close> model \<^verbatim>\<open>pkg/server/delegation\<close> (\<^verbatim>\<open>table.go\<close>, \<^verbatim>\<open>cooldown.go\<close>,
    \<^verbatim>\<open>recall.go\<close>, \<^verbatim>\<open>arbiter.go\<close>): the table is an ordered list of \<open>entry\<close> records, the arbiter a state with a step relation over concurrent
    requests, mutations, recalls and session drops.  Shown: the owner of a path is that of the most specific root, a grant is carved around foreign
    roots, a handoff is fenced durably whatever fails, contenders of a root share one recall, and the cooldown is bounded.
  \<^item> \<open>Watermark\<close> models \<^verbatim>\<open>pkg/server/watermark\<close>: the record of a stream (watermark, revoked generations, generation counter) in a
    transactional store whose commits may fail; watermark and fence never regress.  Locale \<open>watermark_store\<close>, interpreted as \<open>bbolt\<close>.
  \<^item> \<open>Event_Bus\<close> models \<^verbatim>\<open>pkg/server/io/eventbus.go\<close>: a subscription that is still alive has missed nothing.
  \<^item> \<open>Fs_Error\<close> models the errno tables of \<^verbatim>\<open>pkg/common/fserr\<close> and the version token; \<open>Path_Ops\<close> the mutations shared by handlers and
    stream (\<^verbatim>\<open>applyop.go\<close>, \<^verbatim>\<open>emit.go\<close>, \<^verbatim>\<open>utils.go\<close>), over a file system \<open>pathfs\<close> that is a parameter (kernel calls under a credential switch).
  \<^item> \<open>Apply_Server\<close> models \<^verbatim>\<open>controller/apply.go\<close>: the acknowledgement is a durable ordered prefix, and a batch that was acknowledged is not
    applied twice.  \<open>Fs_Handlers\<close> models the unary mutation handlers (\<^verbatim>\<open>fs.go\<close>, \<^verbatim>\<open>idempotency.go\<close>, \<^verbatim>\<open>delegation_handler.go\<close>): retries are idempotent, and a
    contended mutation never reaches the files.  \<open>Session\<close> models \<^verbatim>\<open>service/session.go\<close>: the descriptor table with reference counts as a
    step relation (closed once, never in use), the reply cache, the reap.
  \<^item> \<open>File_Stream\<close> models the frames of file data on both sides (\<^verbatim>\<open>service/file_streaming.go\<close>, \<^verbatim>\<open>file_streaming_write.go\<close>, \<^verbatim>\<open>io/copy_range.go\<close>, and \<^verbatim>\<open>readLive\<close> and
    \<^verbatim>\<open>streamingWrite\<close> of the client's \<^verbatim>\<open>backend_grpc.go\<close>): a streamed read is exact or fails, a server-side copy tolerates short writes, a streamed write does not.
    \<open>File_Handlers\<close> models \<^verbatim>\<open>controller/file.go\<close>, all descriptor handlers: no branch leaks a reference to an open file, and a write retried over broken streams
    takes effect once.  The open file is the parameter \<open>fileops\<close>.

  \<^bold>\<open>Client, write path.\<close>
  \<^item> \<open>Client_Manager\<close> models \<^verbatim>\<open>pkg/client/backend/delegation\<close>: grants, reference-counted drains, recalls.
  \<^item> \<open>Wal_Op\<close>, \<open>Wal_Log\<close>, \<open>Wal_Overlay\<close>, \<open>Wal_Coordinator\<close>, \<open>Wal_Service\<close>, \<open>Wal_Recovery\<close>, \<open>Wal_Layer\<close> model \<^verbatim>\<open>pkg/client/backend/wal\<close> (\<^verbatim>\<open>log.go\<close>,
    \<^verbatim>\<open>overlay.go\<close>, \<^verbatim>\<open>wal.go\<close>, \<^verbatim>\<open>flush.go\<close>, \<^verbatim>\<open>loss.go\<close>, \<^verbatim>\<open>layer.go\<close>).  Sequence numbers are never reused (locale \<open>op_log\<close>, interpreted as \<open>bl\<close>); the overlay
    reads as if the writes had been done in place, and always equals what the log still holds; a flush or a replay against the Apply handler over a faulty
    network loses nothing silently (locale \<open>apply_service\<close>, interpreted in \<open>Wal_Service\<close> on the model of the server); a mutation is deferred or
    forwarded, never both.

  \<^bold>\<open>Client, read path.\<close>
  \<^item> \<open>Cache_Store\<close> models \<^verbatim>\<open>cache/accountant.go\<close> and \<^verbatim>\<open>store.go\<close> (locale \<open>lossy_store\<close>, interpreted as \<open>ms\<close>): the byte accounting of the memory
    tier is exact and within budget.  \<open>Cache_Persist\<close> models \<^verbatim>\<open>cache/persist\<close>: the index of content-addressed chunks, reference counts, sweeps and
    the disk budget under faults; reference counts are exact and a load returns the last recorded bytes.
  \<^item> \<open>Cache_Data\<close> models \<^verbatim>\<open>cache/data.go\<close> with the write-back worker as a step relation: no interleaving resurrects an invalidated chunk.
  \<^item> \<open>Cache_Backend\<close> models \<^verbatim>\<open>cache/backend.go\<close> and the attribute, listing, attribute-name, value, access and file-system caches with the validity tracker;
    \<open>Cache_Invalidate\<close> adds \<^verbatim>\<open>subscriber.go\<close>: a renamed tree is forgotten, trust follows heartbeats and ends with the stream, reconnects back off.
    \<open>Cache_Coherence\<close> shows that runs of reads and writes through the cache, with events, worker turns and losses of trust in between, are runs of the
    inner backend; \<open>Cache_Staleness\<close> has the executions in which the layer serves stale data.

  \<^bold>\<open>Client, transport.\<close>
  \<^item> \<open>Transport_Retry\<close> models \<^verbatim>\<open>transport/retry.go\<close> and \<^verbatim>\<open>reclaim.go\<close>: the number of attempts is bounded by the window, only transient failures are repeated, a path
    mutation never after a change of session, and a descriptor is reopened only after a restart of the server.


  \<open>GM_Prelude\<close> has the shared vocabulary: Go maps as association lists (\<open>gm_get\<close>, \<open>gm_put\<close>, \<open>gm_del\<close>), path containment (locale \<open>containment\<close>, interpreted for the
  server's and for the client's predicate) and list lemmas.

  \<^bold>\<open>Conventions.\<close>  Errors are values (\<open>FsError\<close>, sums and options).  Sequence numbers, watermarks, generations, versions and sizes on the wire are words;
  offsets, lengths and ghost clocks are naturals; instants and durations are integers (nanoseconds, or seconds where the code has seconds).  A theorem that needs a
  counter not to wrap says so (\<open>length xs < 2 ^ 64\<close>).  The clock, the network, faults of disk and database and the answers of other goroutines are arguments, one value per
  use, and the theorems quantify over them.  Goroutines that share state are step relations (\<open>arb_step\<close>, \<open>sess_step\<close>, \<open>do_step\<close>, \<open>mstep\<close>, \<open>vstep\<close>); code that holds a lock throughout is
  one function.  All functions are total: loops have measures (the read loop, the eviction loop, the flush loop, whose \<open>None\<close> is a panic of the source and never running out
  of fuel), and no fuel is used.

  \<^bold>\<open>Not modelled.\<close>  Of the client's gRPC leaf (\<^verbatim>\<open>transport\<close>) the path operations, the write coalescer and the readahead window, and the FUSE adapters, which translate between interfaces; the kernel calls of the
  server (\<^verbatim>\<open>confined.go\<close>, \<^verbatim>\<open>bound_fs.go\<close>), which are the parameter \<open>pathfs\<close>; connection setup, TLS and
  certificate renewal, configuration, the command line, metrics and logging; generated protocol code and mocks.  The readers that wait for a prefetch of another
  reader of the same handle, and the timers of the flusher and the reaper, appear only as the calls they make.
\<close>

end
